(* ===== verification/Prelude.thy ===== *)
theory Prelude
  imports Main "HOL-Library.Word" "HOL-Library.Sublist"
begin

text \<open>
  Shared vocabulary of the development: bytes and addresses, the faults a C program can
  run into, sequencing of operations that may fault, the memory primitives of the C library
  the sources use (\<open>memcpy\<close>, \<open>memmove\<close>, \<open>memset\<close>, \<open>memcmp\<close>, \<open>strlen\<close>, \<open>strchr\<close>)
  over byte arrays with their bounds, and the list lemmas the components share.
\<close>

section \<open>Types\<close>

type_synonym byte = "8 word"
type_synonym addr = nat
type_synonym ptr = "addr option"

text \<open>
  What makes a C function not return normally: a dereference of NULL or of memory that is
  not live, an access outside an array, a failed \<open>assert\<close>, signed arithmetic that
  overflows, a division by zero, or the out of memory handler ending the process.
\<close>

datatype fault = NullDeref | InvalidPointer | OutOfBounds | AssertFailed | SignedOverflow
  | OutOfMemory | DivByZero

type_synonym 'a outcome = "fault + 'a"

text \<open>Facts that evaluate the memory primitives (\<open>mem\<close>) and the operations built from them.\<close>

named_theorems mem "bounds-checked memory primitives on in-range accesses"
named_theorems outcome "sequencing of operations that may fault"

section \<open>Sequencing\<close>

definition bindE :: "'e + 'a \<Rightarrow> ('a \<Rightarrow> 'e + 'b) \<Rightarrow> 'e + 'b" where
  "bindE x f = (case x of Inl e \<Rightarrow> Inl e | Inr a \<Rightarrow> f a)"

lemma bindE_Inl [simp]: "bindE (Inl e) f = Inl e"
  by (simp add: bindE_def)

lemma bindE_Inr [simp]: "bindE (Inr a) f = f a"
  by (simp add: bindE_def)

lemma bindE_eq_Inr [outcome]: "bindE x f = Inr y \<longleftrightarrow> (\<exists>a. x = Inr a \<and> f a = Inr y)"
  by (cases x) auto

lemma bindE_eq_Inl [outcome]: "bindE x f = Inl e \<longleftrightarrow> x = Inl e \<or> (\<exists>a. x = Inr a \<and> f a = Inl e)"
  by (cases x) auto

lemma bindE_cong [fundef_cong]:
  "x = y \<Longrightarrow> (\<And>a. y = Inr a \<Longrightarrow> f a = g a) \<Longrightarrow> bindE x f = bindE y g"
  by (cases y) auto

lemma bindE_assoc: "bindE (bindE x f) g = bindE x (\<lambda>a. bindE (f a) g)"
  by (cases x) auto

text \<open>Sequencing for operations that may also not return (\<open>None\<close>).\<close>

definition bindO :: "'a outcome option \<Rightarrow> ('a \<Rightarrow> 'b outcome option) \<Rightarrow> 'b outcome option" where
  "bindO x f = (case x of None \<Rightarrow> None | Some (Inl e) \<Rightarrow> Some (Inl e) | Some (Inr a) \<Rightarrow> f a)"

lemma bindO_simps [simp]: "bindO None f = None" "bindO (Some (Inl e)) f = Some (Inl e)" "bindO (Some (Inr a)) f = f a"
  by (simp_all add: bindO_def)

text \<open>Dereference of a pointer in a store.\<close>

definition deref :: "(addr \<rightharpoonup> 'n) \<Rightarrow> ptr \<Rightarrow> 'n outcome" where
  "deref h p = (case p of None \<Rightarrow> Inl NullDeref
                | Some a \<Rightarrow> (case h a of None \<Rightarrow> Inl InvalidPointer | Some n \<Rightarrow> Inr n))"

lemma deref_None [simp]: "deref h None = Inl NullDeref"
  by (simp add: deref_def)

lemma deref_Some [simp]: "h a = Some n \<Longrightarrow> deref h (Some a) = Inr n"
  by (simp add: deref_def)

lemma deref_eq_Inr: "deref h p = Inr n \<longleftrightarrow> (\<exists>a. p = Some a \<and> h a = Some n)"
  by (auto simp: deref_def split: option.splits)

section \<open>Byte arrays\<close>

text \<open>
  A write of the bytes \<open>xs\<close> at offset \<open>i\<close> of an array, and a read of \<open>n\<close> bytes from
  offset \<open>i\<close>; both fault outside the array.
\<close>

definition mem_write :: "'a list \<Rightarrow> nat \<Rightarrow> 'a list \<Rightarrow> 'a list outcome" where
  "mem_write b i xs =
     (if i + length xs \<le> length b then Inr (take i b @ xs @ drop (i + length xs) b)
      else Inl OutOfBounds)"

definition mem_read :: "'a list \<Rightarrow> nat \<Rightarrow> nat \<Rightarrow> 'a list outcome" where
  "mem_read b i n = (if i + n \<le> length b then Inr (take n (drop i b)) else Inl OutOfBounds)"

text \<open>One byte, \<open>b[i]\<close>.\<close>

definition rd :: "'a list \<Rightarrow> nat \<Rightarrow> 'a outcome" where
  "rd b i = (if i < length b then Inr (b ! i) else Inl OutOfBounds)"

lemma rd_ok [mem]: "i < length b \<Longrightarrow> rd b i = Inr (b ! i)"
  by (simp add: rd_def)

lemma mem_write_ok [mem]:
  "i + length xs \<le> length b \<Longrightarrow> mem_write b i xs = Inr (take i b @ xs @ drop (i + length xs) b)"
  by (simp add: mem_write_def)

lemma mem_read_ok [mem]: "i + n \<le> length b \<Longrightarrow> mem_read b i n = Inr (take n (drop i b))"
  by (simp add: mem_read_def)

lemma mem_write_length: "mem_write b i xs = Inr b' \<Longrightarrow> length b' = length b"
  by (auto simp: mem_write_def split: if_splits)

lemma mem_write_mem_read:
  "mem_write b i xs = Inr b' \<Longrightarrow> mem_read b' i (length xs) = Inr xs"
  by (auto simp: mem_write_def mem_read_def split: if_splits)

text \<open>\<open>strlen\<close> on an array: the offset of the first zero byte, a fault when there is none.\<close>

fun strlen :: "byte list \<Rightarrow> nat outcome" where
  "strlen [] = Inl OutOfBounds"
| "strlen (c # cs) = (if c = 0 then Inr 0 else bindE (strlen cs) (\<lambda>n. Inr (Suc n)))"

lemma strlen_append_zero: "0 \<notin> set s \<Longrightarrow> strlen (s @ 0 # r) = Inr (length s)"
  by (induction s) auto

lemma strlen_takeWhile:
  "0 \<in> set b \<Longrightarrow> strlen b = Inr (length (takeWhile (\<lambda>c. c \<noteq> 0) b))"
  by (induction b) auto

lemma strlen_le: "strlen b = Inr n \<Longrightarrow> n < length b \<and> b ! n = 0 \<and> 0 \<notin> set (take n b)"
  by (induction b arbitrary: n) (auto simp: outcome split: if_splits)

text \<open>
  \<open>strchr cs c\<close> for a C string \<open>cs\<close> given without its terminator: the terminator is part
  of the string, so searching the zero byte always succeeds.
\<close>

definition strchr :: "byte list \<Rightarrow> byte \<Rightarrow> bool" where
  "strchr cs c \<longleftrightarrow> c = 0 \<or> c \<in> set cs"

text \<open>\<open>memcmp\<close> on two blocks of equal length: the difference of the first bytes that differ.\<close>

fun memcmp :: "byte list \<Rightarrow> byte list \<Rightarrow> int" where
  "memcmp (x # xs) (y # ys) = (if x = y then memcmp xs ys else uint x - uint y)"
| "memcmp _ _ = 0"

lemma memcmp_self [simp]: "memcmp xs xs = 0"
  by (induction xs) auto

lemma memcmp_zero_iff: "length xs = length ys \<Longrightarrow> memcmp xs ys = 0 \<longleftrightarrow> xs = ys"
  by (induction xs ys rule: memcmp.induct) (auto simp: word_uint_eq_iff)

lemma memcmp_swap: "memcmp ys xs = - memcmp xs ys"
  by (induction xs ys rule: memcmp.induct) auto

section \<open>Lists\<close>

lemma take_drop_split: "i \<le> length xs \<Longrightarrow> xs = take i xs @ drop i xs"
  by simp

lemma nth_append_middle [simp]: "(xs @ y # ys) ! length xs = y"
  by (simp add: nth_append)

lemma list_update_middle [simp]: "(xs @ y # ys)[length xs := z] = xs @ z # ys"
  by (simp add: list_update_append)

lemma distinct_subseq: "subseq xs ys \<Longrightarrow> distinct ys \<Longrightarrow> distinct xs"
  by (auto simp: subseq_conv_nths)

section \<open>Bytes\<close>

lemma unat_byte_less: "unat (b :: byte) < 256"
  using unsigned_less [of b, where ?'a = nat] by simp

end
