(* ===== verification/Endianconv.thy ===== *)
theory Endianconv
  imports Prelude
begin

text \<open>
  \<open>endianconv.c\<close>: in-place byte reversal of 16, 32 and 64 bit integers. \<open>memrev\<close>
  operations work on the bytes at \<open>p\<close> (an array of at least as many bytes as they swap; the
  accesses outside it fault); \<open>intrev\<close> operations apply them to the object representation
  of an integer, which on the supported targets is little or big endian.
\<close>

section \<open>Definitions\<close>

text \<open>One exchange \<open>t = x[i]; x[i] = x[j]; x[j] = t\<close>.\<close>

definition swap_bytes :: "nat \<Rightarrow> nat \<Rightarrow> byte list \<Rightarrow> byte list outcome" where
  "swap_bytes i j x =
     (if i < length x \<and> j < length x then Inr (x[i := x ! j, j := x ! i]) else Inl OutOfBounds)"

definition memrev16 :: "byte list \<Rightarrow> byte list outcome" where
  "memrev16 x = swap_bytes 0 1 x"

definition memrev32 :: "byte list \<Rightarrow> byte list outcome" where
  "memrev32 x = bindE (swap_bytes 0 3 x) (swap_bytes 1 2)"

definition memrev64 :: "byte list \<Rightarrow> byte list outcome" where
  "memrev64 x = bindE (swap_bytes 0 7 x) (\<lambda>x. bindE (swap_bytes 1 6 x)
                  (\<lambda>x. bindE (swap_bytes 2 5 x) (swap_bytes 3 4)))"

text \<open>The object representation of an unsigned integer of \<open>n\<close> bytes, and its inverse.\<close>

fun le_bytes :: "nat \<Rightarrow> nat \<Rightarrow> byte list" where
  "le_bytes 0 v = []"
| "le_bytes (Suc n) v = word_of_nat (v mod 256) # le_bytes n (v div 256)"

fun le_value :: "byte list \<Rightarrow> nat" where
  "le_value [] = 0"
| "le_value (b # bs) = unat b + 256 * le_value bs"

definition intrev16 :: "16 word \<Rightarrow> 16 word outcome" where
  "intrev16 v = bindE (memrev16 (le_bytes 2 (unat v))) (\<lambda>x. Inr (word_of_nat (le_value x)))"

definition intrev32 :: "32 word \<Rightarrow> 32 word outcome" where
  "intrev32 v = bindE (memrev32 (le_bytes 4 (unat v))) (\<lambda>x. Inr (word_of_nat (le_value x)))"

definition intrev64 :: "64 word \<Rightarrow> 64 word outcome" where
  "intrev64 v = bindE (memrev64 (le_bytes 8 (unat v))) (\<lambda>x. Inr (word_of_nat (le_value x)))"

section \<open>Byte strings\<close>

lemma length_le_bytes [simp]: "length (le_bytes n v) = n"
  by (induction n arbitrary: v) auto

lemma le_value_le_bytes: "v < 256 ^ n \<Longrightarrow> le_value (le_bytes n v) = v"
proof (induction n arbitrary: v)
  case 0
  then show ?case by simp
next
  case (Suc n)
  then have "v div 256 < 256 ^ n"
    by (simp add: less_mult_imp_div_less mult.commute)
  then show ?case
    using Suc.IH by (simp add: unat_of_nat)
qed

lemma le_value_bound: "le_value bs < 256 ^ length bs"
proof (induction bs)
  case Nil
  then show ?case by simp
next
  case (Cons b bs)
  have "unat b < 256" by (rule unat_byte_less)
  with Cons have "unat b + 256 * le_value bs < 256 * 256 ^ length bs" by linarith
  then show ?case by simp
qed

lemma le_bytes_le_value: "le_bytes (length bs) (le_value bs) = bs"
proof (induction bs)
  case Nil
  then show ?case by simp
next
  case (Cons b bs)
  have "unat b < 256" by (rule unat_byte_less)
  with Cons show ?case by simp
qed

section \<open>Reversal\<close>

lemma length2_cases: "length (x :: 'a list) = 2 \<Longrightarrow> \<exists>a b. x = [a, b]"
  by (auto simp: numeral_eq_Suc length_Suc_conv)

lemma length4_cases: "length (x :: 'a list) = 4 \<Longrightarrow> \<exists>a b c d. x = [a, b, c, d]"
  by (auto simp: numeral_eq_Suc length_Suc_conv)

lemma length8_cases:
  "length (x :: 'a list) = 8 \<Longrightarrow> \<exists>a b c d e f g h. x = [a, b, c, d, e, f, g, h]"
  by (auto simp: numeral_eq_Suc length_Suc_conv)

lemma memrev16_rev: "length x = 2 \<Longrightarrow> memrev16 x = Inr (rev x)"
  by (drule length2_cases) (auto simp: memrev16_def swap_bytes_def)

lemma memrev32_rev: "length x = 4 \<Longrightarrow> memrev32 x = Inr (rev x)"
  by (drule length4_cases) (auto simp: memrev32_def swap_bytes_def)

lemma memrev64_rev: "length x = 8 \<Longrightarrow> memrev64 x = Inr (rev x)"
  by (drule length8_cases) (auto simp: memrev64_def swap_bytes_def)

lemma unat_le_bytes:
  "unat (v :: 16 word) < 256 ^ 2" "unat (w :: 32 word) < 256 ^ 4" "unat (z :: 64 word) < 256 ^ 8"
  using unsigned_less [of v, where ?'a = nat] unsigned_less [of w, where ?'a = nat]
    unsigned_less [of z, where ?'a = nat] by simp_all

lemma word_of_nat_le_bytes:
  "word_of_nat (le_value (le_bytes 2 (unat v))) = (v :: 16 word)"
  "word_of_nat (le_value (le_bytes 4 (unat w))) = (w :: 32 word)"
  "word_of_nat (le_value (le_bytes 8 (unat z))) = (z :: 64 word)"
  by (simp_all add: le_value_le_bytes [OF unat_le_bytes(1)] le_value_le_bytes [OF unat_le_bytes(2)]
      le_value_le_bytes [OF unat_le_bytes(3)])

text \<open>The bytes of a reversed integer are the bytes of the integer in reverse order.\<close>

lemma le_bytes_word:
  "length a = 2 \<Longrightarrow> le_bytes 2 (unat (word_of_nat (le_value a) :: 16 word)) = a"
  "length b = 4 \<Longrightarrow> le_bytes 4 (unat (word_of_nat (le_value b) :: 32 word)) = b"
  "length c = 8 \<Longrightarrow> le_bytes 8 (unat (word_of_nat (le_value c) :: 64 word)) = c"
  using le_value_bound [of a] le_value_bound [of b] le_value_bound [of c]
    le_bytes_le_value [of a] le_bytes_le_value [of b] le_bytes_le_value [of c]
  by (simp_all add: unat_of_nat)

lemma intrev_eq:
  "intrev16 v = Inr (word_of_nat (le_value (rev (le_bytes 2 (unat v)))))"
  "intrev32 w = Inr (word_of_nat (le_value (rev (le_bytes 4 (unat w)))))"
  "intrev64 z = Inr (word_of_nat (le_value (rev (le_bytes 8 (unat z)))))"
  by (simp_all add: intrev16_def intrev32_def intrev64_def memrev16_rev memrev32_rev memrev64_rev)

text \<open>Longer arrays: the bytes behind the ones that are swapped stay. Shorter ones are left by an access.\<close>

lemma memrev_append:
  "length a = 2 \<Longrightarrow> memrev16 (a @ y) = bindE (memrev16 a) (\<lambda>x. Inr (x @ y))"
  "length b = 4 \<Longrightarrow> memrev32 (b @ y) = bindE (memrev32 b) (\<lambda>x. Inr (x @ y))"
  "length c = 8 \<Longrightarrow> memrev64 (c @ y) = bindE (memrev64 c) (\<lambda>x. Inr (x @ y))"
  by (auto dest!: length2_cases length4_cases length8_cases simp: memrev16_def memrev32_def memrev64_def swap_bytes_def)

lemma memrev_short:
  "length x < 2 \<Longrightarrow> memrev16 x = Inl OutOfBounds"
  "length x < 4 \<Longrightarrow> memrev32 x = Inl OutOfBounds"
  "length x < 8 \<Longrightarrow> memrev64 x = Inl OutOfBounds"
  by (simp_all add: memrev16_def memrev32_def memrev64_def swap_bytes_def)

lemma memrev_split:
  "2 \<le> length x \<Longrightarrow> memrev16 x = Inr (rev (take 2 x) @ drop 2 x)"
  "4 \<le> length x \<Longrightarrow> memrev32 x = Inr (rev (take 4 x) @ drop 4 x)"
  "8 \<le> length x \<Longrightarrow> memrev64 x = Inr (rev (take 8 x) @ drop 8 x)"
  using memrev_append(1) [of "take 2 x" "drop 2 x"] memrev_append(2) [of "take 4 x" "drop 4 x"]
    memrev_append(3) [of "take 8 x" "drop 8 x"]
  by (simp_all add: memrev16_rev memrev32_rev memrev64_rev)

text \<open>C29: \<open>memrev16\<close>, \<open>memrev32\<close> and \<open>memrev64\<close> put the first 2, 4 and 8 bytes at the pointer into reverse
  order, leave the bytes behind them alone, and leave the array only when it is shorter than that. The
  result of \<open>intrev16\<close>, \<open>intrev32\<close> and \<open>intrev64\<close> is the integer whose bytes are those of the argument in
  reverse order, and converting it again gives the argument back.\<close>

theorem memrev_reverses:
  "memrev16 x = (if length x < 2 then Inl OutOfBounds else Inr (rev (take 2 x) @ drop 2 x)) \<and>
   memrev32 x = (if length x < 4 then Inl OutOfBounds else Inr (rev (take 4 x) @ drop 4 x)) \<and>
   memrev64 x = (if length x < 8 then Inl OutOfBounds else Inr (rev (take 8 x) @ drop 8 x)) \<and>
   (\<exists>v'. intrev16 v = Inr v' \<and> le_bytes 2 (unat v') = rev (le_bytes 2 (unat v)) \<and> intrev16 v' = Inr v) \<and>
   (\<exists>w'. intrev32 w = Inr w' \<and> le_bytes 4 (unat w') = rev (le_bytes 4 (unat w)) \<and> intrev32 w' = Inr w) \<and>
   (\<exists>z'. intrev64 z = Inr z' \<and> le_bytes 8 (unat z') = rev (le_bytes 8 (unat z)) \<and> intrev64 z' = Inr z)"
  by (simp add: memrev_short memrev_split intrev_eq le_bytes_word word_of_nat_le_bytes)

end
