(* ===== verification/Adlist.thy ===== *)
theory Adlist
  imports Prelude
begin

text \<open>
  \<open>adlist.c\<close>: the generic doubly linked list. Nodes live in a store from addresses to
  node structures, and the operations follow and write the \<open>prev\<close> and \<open>next\<close> pointers as
  the code does, so a dangling or NULL pointer is a fault of the model. \<open>list_at h l as\<close>
  says that the list structure \<open>l\<close> is a well-formed list over the node addresses \<open>as\<close> in the
  store \<open>h\<close>; the lemmas show that every operation implements its counterpart on sequences.
\<close>

section \<open>Data\<close>

record 'v listNode =
  node_prev :: ptr
  node_next :: ptr
  node_value :: 'v

text \<open>\<open>dup\<close>, \<open>free\<close> and \<open>match\<close> are the list's methods, or NULL. A \<open>free\<close> method acts
  on memory outside the list: the store records the values it was called with.\<close>

record 'v adlist =
  head :: ptr
  tail :: ptr
  dup_method :: "('v \<Rightarrow> 'v option) option"
  free_method :: bool
  match_method :: "('v \<Rightarrow> 'v \<Rightarrow> bool) option"
  len :: nat

record 'v store =
  nodes :: "addr \<rightharpoonup> 'v listNode"
  released :: "'v list"

record listIter =
  iter_next :: ptr
  direction :: nat

definition AL_START_HEAD :: nat where "AL_START_HEAD = 0"

definition AL_START_TAIL :: nat where "AL_START_TAIL = 1"

text \<open>\<open>zmalloc(sizeof(listNode))\<close>: an address, or NULL, depending on the live nodes.\<close>

type_synonym 'v node_alloc = "(addr \<rightharpoonup> 'v listNode) \<Rightarrow> ptr"

section \<open>Operations\<close>

text \<open>Writes through a node pointer.\<close>

definition set_next :: "'v store \<Rightarrow> ptr \<Rightarrow> ptr \<Rightarrow> 'v store outcome" where
  "set_next s p q = bindE (deref (nodes s) p)
     (\<lambda>n. Inr (s\<lparr>nodes := (nodes s)(the p \<mapsto> n\<lparr>node_next := q\<rparr>)\<rparr>))"

definition set_prev :: "'v store \<Rightarrow> ptr \<Rightarrow> ptr \<Rightarrow> 'v store outcome" where
  "set_prev s p q = bindE (deref (nodes s) p)
     (\<lambda>n. Inr (s\<lparr>nodes := (nodes s)(the p \<mapsto> n\<lparr>node_prev := q\<rparr>)\<rparr>))"

definition new_node :: "'v store \<Rightarrow> addr \<Rightarrow> 'v listNode \<Rightarrow> 'v store" where
  "new_node s a n = s\<lparr>nodes := (nodes s)(a \<mapsto> n)\<rparr>"

definition zfree_node :: "'v store \<Rightarrow> ptr \<Rightarrow> 'v store" where
  "zfree_node s p = (case p of None \<Rightarrow> s | Some a \<Rightarrow> s\<lparr>nodes := (nodes s)(a := None)\<rparr>)"

definition call_free :: "'v adlist \<Rightarrow> 'v \<Rightarrow> 'v store \<Rightarrow> 'v store" where
  "call_free l v s = (if free_method l then s\<lparr>released := released s @ [v]\<rparr> else s)"

definition listCreate :: "bool \<Rightarrow> 'v adlist option" where
  "listCreate allocated =
     (if allocated then Some \<lparr>head = None, tail = None, dup_method = None, free_method = False,
                              match_method = None, len = 0\<rparr>
      else None)"

fun listEmpty_loop :: "nat \<Rightarrow> ptr \<Rightarrow> 'v adlist \<Rightarrow> 'v store \<Rightarrow> 'v store outcome" where
  "listEmpty_loop 0 current l s = Inr s"
| "listEmpty_loop (Suc n) current l s =
     bindE (deref (nodes s) current)
       (\<lambda>node. listEmpty_loop n (node_next node) l
                 (zfree_node (call_free l (node_value node) s) current))"

definition listEmpty :: "'v store \<Rightarrow> 'v adlist \<Rightarrow> ('v store \<times> 'v adlist) outcome" where
  "listEmpty s l = bindE (listEmpty_loop (len l) (head l) l s)
     (\<lambda>s. Inr (s, l\<lparr>head := None, tail := None, len := 0\<rparr>))"

text \<open>\<open>listRelease\<close>: the list structure itself is gone afterwards.\<close>

definition listRelease :: "'v store \<Rightarrow> 'v adlist \<Rightarrow> 'v store outcome" where
  "listRelease s l = bindE (listEmpty s l) (\<lambda>(s, l). Inr s)"

text \<open>The adding operations return NULL (\<open>None\<close>) when the node cannot be allocated.\<close>

definition listAddNodeHead ::
  "'v node_alloc \<Rightarrow> 'v store \<Rightarrow> 'v adlist \<Rightarrow> 'v \<Rightarrow> ('v store \<times> 'v adlist) option outcome" where
  "listAddNodeHead alloc s l v =
     (case alloc (nodes s) of
        None \<Rightarrow> Inr None
      | Some a \<Rightarrow>
          (if len l = 0
           then Inr (Some (new_node s a \<lparr>node_prev = None, node_next = None, node_value = v\<rparr>,
                           l\<lparr>head := Some a, tail := Some a, len := len l + 1\<rparr>))
           else bindE (set_prev (new_node s a
                         \<lparr>node_prev = None, node_next = head l, node_value = v\<rparr>) (head l) (Some a))
                  (\<lambda>s. Inr (Some (s, l\<lparr>head := Some a, len := len l + 1\<rparr>)))))"

definition listAddNodeTail ::
  "'v node_alloc \<Rightarrow> 'v store \<Rightarrow> 'v adlist \<Rightarrow> 'v \<Rightarrow> ('v store \<times> 'v adlist) option outcome" where
  "listAddNodeTail alloc s l v =
     (case alloc (nodes s) of
        None \<Rightarrow> Inr None
      | Some a \<Rightarrow>
          (if len l = 0
           then Inr (Some (new_node s a \<lparr>node_prev = None, node_next = None, node_value = v\<rparr>,
                           l\<lparr>head := Some a, tail := Some a, len := len l + 1\<rparr>))
           else bindE (set_next (new_node s a
                         \<lparr>node_prev = tail l, node_next = None, node_value = v\<rparr>) (tail l) (Some a))
                  (\<lambda>s. Inr (Some (s, l\<lparr>tail := Some a, len := len l + 1\<rparr>)))))"

definition listInsertNode ::
  "'v node_alloc \<Rightarrow> 'v store \<Rightarrow> 'v adlist \<Rightarrow> ptr \<Rightarrow> 'v \<Rightarrow> bool \<Rightarrow>
   ('v store \<times> 'v adlist) option outcome" where
  "listInsertNode alloc s l old_node v after =
     (case alloc (nodes s) of
        None \<Rightarrow> Inr None
      | Some a \<Rightarrow>
          bindE (deref (nodes s) old_node) (\<lambda>old.
            let p = (if after then old_node else node_prev old);
                n = (if after then node_next old else old_node);
                l = (if after then (if tail l = old_node then l\<lparr>tail := Some a\<rparr> else l)
                     else (if head l = old_node then l\<lparr>head := Some a\<rparr> else l));
                s = new_node s a \<lparr>node_prev = p, node_next = n, node_value = v\<rparr>
            in bindE (if p \<noteq> None then set_next s p (Some a) else Inr s) (\<lambda>s.
               bindE (if n \<noteq> None then set_prev s n (Some a) else Inr s) (\<lambda>s.
               Inr (Some (s, l\<lparr>len := len l + 1\<rparr>))))))"

definition listDelNode :: "'v store \<Rightarrow> 'v adlist \<Rightarrow> ptr \<Rightarrow> ('v store \<times> 'v adlist) outcome" where
  "listDelNode s l node =
     bindE (deref (nodes s) node) (\<lambda>n.
     bindE (if node_prev n \<noteq> None
            then bindE (set_next s (node_prev n) (node_next n)) (\<lambda>s. Inr (s, l))
            else Inr (s, l\<lparr>head := node_next n\<rparr>)) (\<lambda>(s, l).
     bindE (deref (nodes s) node) (\<lambda>n.
     bindE (if node_next n \<noteq> None
            then bindE (set_prev s (node_next n) (node_prev n)) (\<lambda>s. Inr (s, l))
            else Inr (s, l\<lparr>tail := node_prev n\<rparr>)) (\<lambda>(s, l).
     bindE (deref (nodes s) node) (\<lambda>n.
     Inr (zfree_node (call_free l (node_value n) s) node, l\<lparr>len := len l - 1\<rparr>))))))"

text \<open>Iterators. \<open>listGetIterator\<close> and the two rewind operations differ in where the iterator
  structure is kept.\<close>

definition listGetIterator :: "bool \<Rightarrow> 'v adlist \<Rightarrow> nat \<Rightarrow> listIter option" where
  "listGetIterator allocated l dir =
     (if allocated then Some \<lparr>iter_next = (if dir = AL_START_HEAD then head l else tail l),
                              direction = dir\<rparr>
      else None)"

definition listRewind :: "'v adlist \<Rightarrow> listIter" where
  "listRewind l = \<lparr>iter_next = head l, direction = AL_START_HEAD\<rparr>"

definition listRewindTail :: "'v adlist \<Rightarrow> listIter" where
  "listRewindTail l = \<lparr>iter_next = tail l, direction = AL_START_TAIL\<rparr>"

definition listNext :: "'v store \<Rightarrow> listIter \<Rightarrow> (ptr \<times> listIter) outcome" where
  "listNext s it =
     (case iter_next it of
        None \<Rightarrow> Inr (None, it)
      | Some a \<Rightarrow> bindE (deref (nodes s) (Some a)) (\<lambda>n.
          Inr (Some a, it\<lparr>iter_next := (if direction it = AL_START_HEAD then node_next n
                                        else node_prev n)\<rparr>)))"

text \<open>The loops over an iterator return \<open>None\<close> when they do not end.\<close>

partial_function (option) listDup_loop ::
  "'v node_alloc \<Rightarrow> 'v store \<Rightarrow> 'v adlist \<Rightarrow> listIter \<Rightarrow>
   ('v store \<times> 'v adlist option) outcome option" where
  "listDup_loop alloc s copy it =
     (case listNext s it of
        Inl f \<Rightarrow> Some (Inl f)
      | Inr (p, it) \<Rightarrow>
          (if p = None then Some (Inr (s, Some copy))
           else case deref (nodes s) p of
             Inl f \<Rightarrow> Some (Inl f)
           | Inr n \<Rightarrow>
               (case (case dup_method copy of None \<Rightarrow> Some (node_value n)
                      | Some d \<Rightarrow> d (node_value n)) of
                  None \<Rightarrow> Some (bindE (listRelease s copy) (\<lambda>s. Inr (s, None)))
                | Some v \<Rightarrow>
                    (case listAddNodeTail alloc s copy v of
                       Inl f \<Rightarrow> Some (Inl f)
                     | Inr None \<Rightarrow> Some (bindE (listRelease s copy) (\<lambda>s. Inr (s, None)))
                     | Inr (Some (s, copy)) \<Rightarrow> listDup_loop alloc s copy it))))"

definition listDup ::
  "'v node_alloc \<Rightarrow> bool \<Rightarrow> 'v store \<Rightarrow> 'v adlist \<Rightarrow> ('v store \<times> 'v adlist option) outcome option" where
  "listDup alloc allocated s orig =
     (case listCreate allocated of
        None \<Rightarrow> Some (Inr (s, None))
      | Some copy \<Rightarrow>
          listDup_loop alloc s (copy\<lparr>dup_method := dup_method orig, free_method := free_method orig,
                                     match_method := match_method orig\<rparr>) (listRewind orig))"

partial_function (option) listSearchKey_loop ::
  "'v store \<Rightarrow> 'v adlist \<Rightarrow> 'v \<Rightarrow> listIter \<Rightarrow> ptr outcome option" where
  "listSearchKey_loop s l key it =
     (case listNext s it of
        Inl f \<Rightarrow> Some (Inl f)
      | Inr (p, it) \<Rightarrow>
          (if p = None then Some (Inr None)
           else case deref (nodes s) p of
             Inl f \<Rightarrow> Some (Inl f)
           | Inr n \<Rightarrow>
               (if (case match_method l of None \<Rightarrow> key = node_value n
                    | Some m \<Rightarrow> m (node_value n) key)
                then Some (Inr p)
                else listSearchKey_loop s l key it)))"

definition listSearchKey :: "'v store \<Rightarrow> 'v adlist \<Rightarrow> 'v \<Rightarrow> ptr outcome option" where
  "listSearchKey s l key = listSearchKey_loop s l key (listRewind l)"

text \<open>\<open>while(index-- && n) n = n->next\<close>, and the same along \<open>prev\<close>.\<close>

fun listIndex_loop ::
  "(addr \<rightharpoonup> 'v listNode) \<Rightarrow> ('v listNode \<Rightarrow> ptr) \<Rightarrow> nat \<Rightarrow> ptr \<Rightarrow> ptr outcome" where
  "listIndex_loop h step 0 n = Inr n"
| "listIndex_loop h step (Suc k) None = Inr None"
| "listIndex_loop h step (Suc k) (Some a) =
     bindE (deref h (Some a)) (\<lambda>n. listIndex_loop h step k (step n))"

definition LONG_MIN :: int where "LONG_MIN = - (2 ^ 63)"

definition listIndex :: "'v store \<Rightarrow> 'v adlist \<Rightarrow> int \<Rightarrow> ptr outcome" where
  "listIndex s l index =
     (if index < 0
      then (if index = LONG_MIN then Inl SignedOverflow
            else listIndex_loop (nodes s) node_prev (nat (- index - 1)) (tail l))
      else listIndex_loop (nodes s) node_next (nat index) (head l))"

definition listRotate :: "'v store \<Rightarrow> 'v adlist \<Rightarrow> ('v store \<times> 'v adlist) outcome" where
  "listRotate s l =
     (let tl = tail l in
      if len l \<le> 1 then Inr (s, l)
      else
        bindE (deref (nodes s) tl) (\<lambda>t.
        let l = l\<lparr>tail := node_prev t\<rparr> in
        bindE (set_next s (tail l) None) (\<lambda>s.
        bindE (set_prev s (head l) tl) (\<lambda>s.
        bindE (set_prev s tl None) (\<lambda>s.
        bindE (set_next s tl (head l)) (\<lambda>s.
        Inr (s, l\<lparr>head := tl\<rparr>)))))))"

definition listJoin ::
  "'v store \<Rightarrow> 'v adlist \<Rightarrow> 'v adlist \<Rightarrow> ('v store \<times> 'v adlist \<times> 'v adlist) outcome" where
  "listJoin s l oth =
     bindE (if head oth \<noteq> None then set_prev s (head oth) (tail l) else Inr s) (\<lambda>s.
     bindE (if tail l \<noteq> None then bindE (set_next s (tail l) (head oth)) (\<lambda>s. Inr (s, l))
            else Inr (s, l\<lparr>head := head oth\<rparr>)) (\<lambda>(s, l).
     let l = (if tail oth \<noteq> None then l\<lparr>tail := tail oth\<rparr> else l);
         l = l\<lparr>len := len l + len oth\<rparr>
     in Inr (s, l, oth\<lparr>head := None, tail := None, len := 0\<rparr>)))"

section \<open>Well-formed lists\<close>

text \<open>
  \<open>dseg h p x as t y\<close>: from the pointer \<open>x\<close> the nodes \<open>as\<close> are linked in both directions,
  the first one's predecessor is \<open>p\<close>, the last node (or \<open>p\<close>) is \<open>t\<close> and its successor is \<open>y\<close>.
\<close>

fun dseg :: "(addr \<rightharpoonup> 'v listNode) \<Rightarrow> ptr \<Rightarrow> ptr \<Rightarrow> addr list \<Rightarrow> ptr \<Rightarrow> ptr \<Rightarrow> bool" where
  "dseg h p x [] t y \<longleftrightarrow> x = y \<and> t = p"
| "dseg h p x (a # as) t y \<longleftrightarrow>
     x = Some a \<and> (\<exists>n. h a = Some n \<and> node_prev n = p \<and> dseg h (Some a) (node_next n) as t y)"

definition list_at :: "(addr \<rightharpoonup> 'v listNode) \<Rightarrow> 'v adlist \<Rightarrow> addr list \<Rightarrow> bool" where
  "list_at h l as \<longleftrightarrow> distinct as \<and> dseg h None (head l) as (tail l) None \<and> len l = length as"

definition values_at :: "(addr \<rightharpoonup> 'v listNode) \<Rightarrow> addr list \<Rightarrow> 'v list" where
  "values_at h as = map (\<lambda>a. node_value (the (h a))) as"

text \<open>What \<open>zmalloc\<close> promises about the nodes it returns: they are not live already.\<close>

definition fresh_alloc :: "'v node_alloc \<Rightarrow> bool" where
  "fresh_alloc alloc \<longleftrightarrow> (\<forall>h a. alloc h = Some a \<longrightarrow> h a = None)"

named_theorems linked "segments of linked nodes"

lemma dseg_append [linked]:
  "dseg h p x (as @ bs) t y \<longleftrightarrow> (\<exists>q r. dseg h p x as q r \<and> dseg h q r bs t y)"
  by (induction as arbitrary: p x) auto

lemma dseg_upd [simp]: "a \<notin> set as \<Longrightarrow> dseg (h(a := v)) p x as t y = dseg h p x as t y"
  by (induction as arbitrary: p x) auto

lemma dseg_dom: "dseg h p x as t y \<Longrightarrow> set as \<subseteq> dom h"
  by (induction as arbitrary: p x) auto

lemma dseg_cong: "(\<And>a. a \<in> set as \<Longrightarrow> h a = h' a) \<Longrightarrow> dseg h p x as t y = dseg h' p x as t y"
  by (induction as arbitrary: p x) auto

lemma dseg_last: "dseg h p x as t y \<Longrightarrow> t = (if as = [] then p else Some (last as))"
  by (induction as arbitrary: p x) auto

lemma dseg_first: "dseg h p x as t y \<Longrightarrow> x = (if as = [] then y else Some (hd as))"
  by (cases as) auto

lemma values_at_upd [simp]:
  "a \<notin> set as \<Longrightarrow> values_at (h(a := v)) as = values_at h as"
  by (auto simp: values_at_def)

lemma values_at_upd_link [simp]:
  "h a = Some n \<Longrightarrow> node_value n' = node_value n \<Longrightarrow> values_at (h(a \<mapsto> n')) as = values_at h as"
  by (auto simp: values_at_def)

lemma values_at_Nil [simp]: "values_at h [] = []"
  by (simp add: values_at_def)

lemma values_at_Cons [simp]: "values_at h (a # as) = node_value (the (h a)) # values_at h as"
  by (simp add: values_at_def)

lemma values_at_append [simp]: "values_at h (as @ bs) = values_at h as @ values_at h bs"
  by (simp add: values_at_def)

lemma length_values_at [simp]: "length (values_at h as) = length as"
  by (simp add: values_at_def)

lemma list_at_dom: "list_at h l as \<Longrightarrow> set as \<subseteq> dom h"
  by (auto simp: list_at_def dest: dseg_dom)

lemma fresh_alloc_not_in:
  "fresh_alloc alloc \<Longrightarrow> alloc h = Some a \<Longrightarrow> list_at h l as \<Longrightarrow> a \<notin> set as"
  using list_at_dom by (fastforce simp: fresh_alloc_def)

section \<open>Adding nodes\<close>

lemma listAddNodeHead_correct:
  assumes "list_at (nodes s) l as" "fresh_alloc alloc" "alloc (nodes s) = Some a"
  shows "\<exists>s' l'. listAddNodeHead alloc s l v = Inr (Some (s', l')) \<and>
           list_at (nodes s') l' (a # as) \<and> values_at (nodes s') (a # as) = v # values_at (nodes s) as \<and>
           (\<forall>b. b \<notin> set (a # as) \<longrightarrow> nodes s' b = nodes s b)"
proof (cases as)
  case Nil
  with assms show ?thesis
    by (auto simp: listAddNodeHead_def list_at_def new_node_def)
next
  case (Cons b bs)
  from assms have "a \<notin> set as" by (blast dest: fresh_alloc_not_in)
  with assms Cons show ?thesis
    by (auto simp: listAddNodeHead_def list_at_def new_node_def set_prev_def)
qed

lemma listAddNodeTail_correct:
  assumes "list_at (nodes s) l as" "fresh_alloc alloc" "alloc (nodes s) = Some a"
  shows "\<exists>s' l'. listAddNodeTail alloc s l v = Inr (Some (s', l')) \<and>
           list_at (nodes s') l' (as @ [a]) \<and>
           values_at (nodes s') (as @ [a]) = values_at (nodes s) as @ [v] \<and>
           (\<forall>b. b \<notin> set (as @ [a]) \<longrightarrow> nodes s' b = nodes s b) \<and>
           l' = l\<lparr>head := head l', tail := tail l', len := len l'\<rparr> \<and> released s' = released s"
proof (cases as rule: rev_cases)
  case Nil
  with assms show ?thesis
    by (auto simp: listAddNodeTail_def list_at_def new_node_def)
next
  case (snoc bs b)
  from assms have "a \<notin> set as" by (blast dest: fresh_alloc_not_in)
  with assms snoc show ?thesis
    by (auto simp: listAddNodeTail_def list_at_def new_node_def set_next_def linked)
qed

text \<open>The node at a position of a well-formed list, and what the list's ends are.\<close>

lemma list_at_node:
  assumes "list_at h l (xs @ a # ys)"
  obtains n where "h a = Some n" "node_prev n = (if xs = [] then None else Some (last xs))"
    "node_next n = (if ys = [] then None else Some (hd ys))"
    "dseg h None (head l) xs (node_prev n) (Some a)" "dseg h (Some a) (node_next n) ys (tail l) None"
    "head l = (if xs = [] then Some a else Some (hd xs))"
    "tail l = (if ys = [] then Some a else Some (last ys))"
proof -
  from assms obtain n where n: "h a = Some n" "dseg h None (head l) xs (node_prev n) (Some a)"
    "dseg h (Some a) (node_next n) ys (tail l) None"
    by (auto simp: list_at_def linked)
  note ends = dseg_last [OF n(2)] dseg_first [OF n(3)] dseg_first [OF n(2)] dseg_last [OF n(3)]
  show ?thesis by (rule that [OF n(1) ends(1,2) n(2,3) ends(3,4)])
qed

lemma list_atI:
  "distinct as \<Longrightarrow> dseg h None (head l) as (tail l) None \<Longrightarrow> len l = length as \<Longrightarrow> list_at h l as"
  by (simp add: list_at_def)

lemma list_at_distinct: "list_at h l as \<Longrightarrow> distinct as \<and> len l = length as"
  by (simp add: list_at_def)

lemma listInsertNode_after_correct:
  assumes wf: "list_at (nodes s) l (xs @ o1 # ys)"
    and "fresh_alloc alloc" and a: "alloc (nodes s) = Some a"
  shows "\<exists>s' l'. listInsertNode alloc s l (Some o1) v True = Inr (Some (s', l')) \<and>
           list_at (nodes s') l' (xs @ o1 # a # ys) \<and>
           values_at (nodes s') (xs @ o1 # a # ys) =
             values_at (nodes s) (xs @ [o1]) @ v # values_at (nodes s) ys"
proof -
  from assms have fresh: "a \<notin> set (xs @ o1 # ys)" by (blast dest: fresh_alloc_not_in)
  obtain n where n: "nodes s o1 = Some n"
    "dseg (nodes s) None (head l) xs (node_prev n) (Some o1)"
    "dseg (nodes s) (Some o1) (node_next n) ys (tail l) None"
    "tail l = (if ys = [] then Some o1 else Some (last ys))"
    using wf by (rule list_at_node)
  note facts = n fresh list_at_distinct [OF wf] a
  show ?thesis
  proof (cases ys)
    case Nil
    with facts show ?thesis
      by (simp add: listInsertNode_def list_at_def new_node_def set_next_def linked)
  next
    case (Cons b bs)
    have "tail l \<noteq> Some o1" using facts Cons by auto
    with facts(1-3,5-) Cons show ?thesis
      by (clarsimp simp: listInsertNode_def list_at_def new_node_def set_next_def set_prev_def linked)
  qed
qed

lemma listInsertNode_before_correct:
  assumes wf: "list_at (nodes s) l (xs @ o1 # ys)"
    and "fresh_alloc alloc" and a: "alloc (nodes s) = Some a"
  shows "\<exists>s' l'. listInsertNode alloc s l (Some o1) v False = Inr (Some (s', l')) \<and>
           list_at (nodes s') l' (xs @ a # o1 # ys) \<and>
           values_at (nodes s') (xs @ a # o1 # ys) =
             values_at (nodes s) xs @ v # values_at (nodes s) (o1 # ys)"
proof -
  from assms have fresh: "a \<notin> set (xs @ o1 # ys)" by (blast dest: fresh_alloc_not_in)
  obtain n where n: "nodes s o1 = Some n"
    "dseg (nodes s) None (head l) xs (node_prev n) (Some o1)"
    "dseg (nodes s) (Some o1) (node_next n) ys (tail l) None"
    "head l = (if xs = [] then Some o1 else Some (hd xs))"
    using wf by (rule list_at_node)
  note facts = n fresh list_at_distinct [OF wf] a
  show ?thesis
  proof (cases xs rule: rev_cases)
    case Nil
    with facts show ?thesis
      by (simp add: listInsertNode_def list_at_def new_node_def set_prev_def linked)
  next
    case (snoc bs b)
    have "head l \<noteq> Some o1" using facts snoc by (auto simp: hd_append)
    with facts(1-3,5-) snoc show ?thesis
      by (clarsimp simp: listInsertNode_def list_at_def new_node_def set_next_def set_prev_def linked)
  qed
qed

section \<open>Removing nodes\<close>

lemma listDelNode_correct:
  assumes wf: "list_at (nodes s) l (xs @ a # ys)"
  shows "\<exists>s' l'. listDelNode s l (Some a) = Inr (s', l') \<and> list_at (nodes s') l' (xs @ ys) \<and>
           values_at (nodes s') (xs @ ys) = values_at (nodes s) (xs @ ys) \<and> nodes s' a = None \<and>
           released s' = released s @ (if free_method l then [node_value (the (nodes s a))] else [])"
proof -
  obtain n where n: "nodes s a = Some n"
    "dseg (nodes s) None (head l) xs (node_prev n) (Some a)"
    "dseg (nodes s) (Some a) (node_next n) ys (tail l) None"
    using wf by (rule list_at_node)
  note facts = n list_at_distinct [OF wf]
  note defs = listDelNode_def list_at_def set_next_def set_prev_def linked zfree_node_def call_free_def
  show ?thesis
  proof (cases xs rule: rev_cases)
    case Nil
    with facts show ?thesis by (cases ys) (clarsimp simp: defs)+
  next
    case (snoc bs b)
    with facts show ?thesis by (cases ys) (clarsimp simp: defs)+
  qed
qed

lemma listEmpty_loop_correct:
  assumes "dseg (nodes s) p x as t None" "distinct as"
  shows "\<exists>s'. listEmpty_loop (length as) x l s = Inr s' \<and>
           nodes s' = (\<lambda>a. if a \<in> set as then None else nodes s a) \<and>
           released s' = released s @ (if free_method l then values_at (nodes s) as else [])"
  using assms
proof (induction as arbitrary: p x s)
  case Nil
  then show ?case by simp
next
  case (Cons a as)
  then obtain n where n: "x = Some a" "nodes s a = Some n" "dseg (nodes s) (Some a) (node_next n) as t None"
    by auto
  let ?s = "zfree_node (call_free l (node_value n) s) (Some a)"
  have s: "nodes ?s = (nodes s)(a := None)"
    "released ?s = released s @ (if free_method l then [node_value n] else [])"
    using n by (simp_all add: zfree_node_def call_free_def)
  have "dseg (nodes ?s) (Some a) (node_next n) as t None"
    using n s Cons.prems by simp
  moreover have "distinct as" using Cons.prems by simp
  ultimately obtain s' where "listEmpty_loop (length as) (node_next n) l ?s = Inr s'"
    "nodes s' = (\<lambda>a. if a \<in> set as then None else nodes ?s a)"
    "released s' = released ?s @ (if free_method l then values_at (nodes ?s) as else [])"
    using Cons.IH [of ?s "Some a" "node_next n"] by blast
  moreover have "(\<lambda>b. if b \<in> set as then None else ((nodes s)(a := None)) b) =
      (\<lambda>b. if b \<in> set (a # as) then None else nodes s b)"
    by (simp add: fun_eq_iff)
  ultimately show ?case
    using n s Cons.prems by (simp cong: if_cong)
qed

lemma listEmpty_correct:
  assumes "list_at (nodes s) l as"
  shows "\<exists>s' l'. listEmpty s l = Inr (s', l') \<and> list_at (nodes s') l' [] \<and>
           nodes s' = (\<lambda>a. if a \<in> set as then None else nodes s a) \<and>
           released s' = released s @ (if free_method l then values_at (nodes s) as else [])"
proof -
  have "dseg (nodes s) None (head l) as (tail l) None" "distinct as" "len l = length as"
    using assms by (simp_all add: list_at_def)
  then obtain s' where "listEmpty_loop (len l) (head l) l s = Inr s'"
    "nodes s' = (\<lambda>a. if a \<in> set as then None else nodes s a)"
    "released s' = released s @ (if free_method l then values_at (nodes s) as else [])"
    using listEmpty_loop_correct [of s None "head l" as "tail l" l] by metis
  then show ?thesis by (simp add: listEmpty_def list_at_def)
qed

lemma listRelease_correct:
  assumes "list_at (nodes s) l as"
  shows "\<exists>s'. listRelease s l = Inr s' \<and>
           nodes s' = (\<lambda>a. if a \<in> set as then None else nodes s a)"
proof -
  obtain s' l' where "listEmpty s l = Inr (s', l')"
    "nodes s' = (\<lambda>a. if a \<in> set as then None else nodes s a)"
    using listEmpty_correct [OF assms] by blast
  then show ?thesis by (simp add: listRelease_def)
qed


section \<open>Traversal\<close>

definition matches :: "'v adlist \<Rightarrow> 'v \<Rightarrow> 'v \<Rightarrow> bool" where
  "matches l key v = (case match_method l of None \<Rightarrow> key = v | Some m \<Rightarrow> m v key)"

lemma listSearchKey_loop_correct:
  "dseg (nodes s) p x as t None \<Longrightarrow>
   listSearchKey_loop s l key \<lparr>iter_next = x, direction = AL_START_HEAD\<rparr> =
     Some (Inr (find (\<lambda>a. matches l key (node_value (the (nodes s a)))) as))"
proof (induction as arbitrary: p x)
  case Nil
  then show ?case by (simp add: listSearchKey_loop.simps listNext_def)
next
  case (Cons a as)
  then obtain n where n: "x = Some a" "nodes s a = Some n"
    "dseg (nodes s) (Some a) (node_next n) as t None" by auto
  show ?case
    using n(1,2) Cons.IH [OF n(3)]
    by (subst listSearchKey_loop.simps) (simp add: listNext_def matches_def split: option.splits)
qed

lemma listSearchKey_correct:
  "list_at (nodes s) l as \<Longrightarrow>
   listSearchKey s l key = Some (Inr (find (\<lambda>a. matches l key (node_value (the (nodes s a)))) as))"
  unfolding listSearchKey_def listRewind_def list_at_def
  by (elim conjE) (rule listSearchKey_loop_correct)

lemma listIndex_loop_None [simp]: "listIndex_loop h step k None = Inr None"
  by (cases k) auto

lemma listIndex_loop_next:
  "dseg h p x as t None \<Longrightarrow>
   listIndex_loop h node_next k x = Inr (if k < length as then Some (as ! k) else None)"
proof (induction as arbitrary: p x k)
  case Nil
  then show ?case by simp
next
  case (Cons a as)
  then show ?case by (cases k) auto
qed

lemma listIndex_loop_prev:
  "dseg h None x as t y \<Longrightarrow>
   listIndex_loop h node_prev k t = Inr (if k < length as then Some (rev as ! k) else None)"
proof (induction as arbitrary: t y k rule: rev_induct)
  case Nil
  then show ?case by simp
next
  case (snoc a as)
  then obtain n where "t = Some a" "h a = Some n" "dseg h None x as (node_prev n) (Some a)"
    by (auto simp: linked)
  then show ?case using snoc.IH by (cases k) auto
qed

text \<open>Index of the specification: from the head, or from the tail for negative numbers.\<close>

definition nth_signed :: "'a list \<Rightarrow> int \<Rightarrow> 'a option" where
  "nth_signed as i =
     (let j = (if i < 0 then int (length as) + i else i)
      in if 0 \<le> j \<and> j < int (length as) then Some (as ! nat j) else None)"

lemma listIndex_correct:
  assumes "list_at (nodes s) l as" "i \<noteq> LONG_MIN"
  shows "listIndex s l i = Inr (nth_signed as i)"
proof (cases "i < 0")
  case True
  have "listIndex s l i = Inr (if nat (- i - 1) < length as then Some (rev as ! nat (- i - 1)) else None)"
    using assms True listIndex_loop_prev [of "nodes s" "head l" as "tail l" None "nat (- i - 1)"]
    by (simp add: listIndex_def list_at_def)
  also have "\<dots> = Inr (nth_signed as i)"
  proof -
    have "length as - Suc (nat (- i - 1)) = nat (int (length as) + i)"
      using True by simp
    then show ?thesis using True by (auto simp: nth_signed_def rev_nth Let_def)
  qed
  finally show ?thesis .
next
  case False
  then show ?thesis
    using assms listIndex_loop_next [of "nodes s" None "head l" as "tail l" "nat i"]
    by (auto simp: listIndex_def list_at_def nth_signed_def Let_def)
qed

section \<open>Rotation and concatenation\<close>

lemma listRotate_correct:
  assumes wf: "list_at (nodes s) l (as @ [a])"
  shows "\<exists>s' l'. listRotate s l = Inr (s', l') \<and> list_at (nodes s') l' (a # as) \<and>
           values_at (nodes s') (a # as) = values_at (nodes s) (a # as)"
proof (cases as rule: rev_cases)
  case Nil
  with wf show ?thesis by (simp add: listRotate_def list_at_def)
next
  case (snoc bs b)
  with wf show ?thesis
    by (cases bs) (clarsimp simp: listRotate_def list_at_def set_next_def set_prev_def linked Let_def)+
qed

lemma listJoin_correct:
  assumes wf: "list_at (nodes s) l as" "list_at (nodes s) oth bs" "set as \<inter> set bs = {}"
  shows "\<exists>s' l' oth'. listJoin s l oth = Inr (s', l', oth') \<and> list_at (nodes s') l' (as @ bs) \<and>
           list_at (nodes s') oth' [] \<and>
           values_at (nodes s') (as @ bs) = values_at (nodes s) as @ values_at (nodes s) bs"
proof -
  note defs = listJoin_def list_at_def set_next_def set_prev_def linked Let_def
  have tail: "bs \<noteq> [] \<Longrightarrow> tail oth \<noteq> None"
    using wf(2) by (auto simp: list_at_def dest: dseg_last)
  show ?thesis
  proof (cases as rule: rev_cases)
    case Nil
    with wf tail show ?thesis by (cases bs) (clarsimp simp: defs)+
  next
    case (snoc cs c)
    with wf tail show ?thesis by (cases bs) (clarsimp simp: defs)+
  qed
qed

section \<open>Duplication\<close>

text \<open>The value a node of the copy gets: through the \<open>dup\<close> method when the list has one.\<close>

definition dup_value :: "'v adlist \<Rightarrow> 'v \<Rightarrow> 'v option" where
  "dup_value l v = (case dup_method l of None \<Rightarrow> Some v | Some d \<Rightarrow> d v)"

text \<open>
  \<open>dup_result alloc h\<^sub>0 l copied vs\<close>: what the duplication loop may return, started with the copy
  holding \<open>copied\<close> and with \<open>vs\<close> still to copy. NULL stands for \<open>dup_fails\<close>: at some value the \<open>dup\<close>
  method returned NULL, or the allocator did in the heap that holds exactly the nodes of the values
  before it; every node of the partial copy is freed then. Otherwise the copy holds all the values and
  has the methods of the original.
\<close>

definition dup_fails ::
  "'v node_alloc \<Rightarrow> (addr \<rightharpoonup> 'v listNode) \<Rightarrow> 'v adlist \<Rightarrow> nat \<Rightarrow> 'v list \<Rightarrow> bool" where
  "dup_fails alloc h0 l copied vs \<longleftrightarrow>
     (\<exists>k h cs. k < length vs \<and> length cs = copied + k \<and> (\<forall>c\<in>set cs. h0 c = None) \<and>
        dom h = dom h0 \<union> set cs \<and> (\<forall>b. b \<notin> set cs \<longrightarrow> h b = h0 b) \<and>
        (\<forall>j<k. dup_value l (vs ! j) \<noteq> None) \<and> (dup_value l (vs ! k) = None \<or> alloc h = None))"

definition same_methods :: "'v adlist \<Rightarrow> 'v adlist \<Rightarrow> bool" where
  "same_methods l copy \<longleftrightarrow> dup_method copy = dup_method l \<and> free_method copy = free_method l \<and>
     match_method copy = match_method l"

definition dup_result ::
  "'v node_alloc \<Rightarrow> (addr \<rightharpoonup> 'v listNode) \<Rightarrow> 'v adlist \<Rightarrow> 'v list \<Rightarrow> 'v list \<Rightarrow>
   'v store \<times> 'v adlist option \<Rightarrow> bool" where
  "dup_result alloc h0 l copied vs = (\<lambda>(s', r).
     (case r of
        None \<Rightarrow> nodes s' = h0 \<and> dup_fails alloc h0 l (length copied) vs
      | Some copy \<Rightarrow> same_methods l copy \<and> (\<exists>cs. list_at (nodes s') copy cs \<and> (\<forall>c\<in>set cs. h0 c = None) \<and>
          (\<forall>b. b \<notin> set cs \<longrightarrow> nodes s' b = h0 b) \<and>
          map Some (values_at (nodes s') cs) = map Some copied @ map (dup_value l) vs)))"

lemma dup_fails_now:
  assumes "list_at h copy cs" "\<forall>c\<in>set cs. h0 c = None" "\<forall>b. b \<notin> set cs \<longrightarrow> h b = h0 b"
    "dup_value l v = None \<or> alloc h = None"
  shows "dup_fails alloc h0 l (length cs) (v # vs)"
proof -
  have "b \<in> dom h \<longleftrightarrow> b \<in> dom h0 \<union> set cs" for b
    using list_at_dom [OF assms(1)] assms(3) by (cases "b \<in> set cs") (blast, simp add: domIff)
  then have "dom h = dom h0 \<union> set cs" by blast
  then show ?thesis using assms unfolding dup_fails_def by (intro exI [of _ 0] exI [of _ h] exI [of _ cs]) simp
qed

lemma dup_fails_later:
  assumes "dup_value l v = Some v'" "dup_fails alloc h0 l (Suc n) vs"
  shows "dup_fails alloc h0 l n (v # vs)"
proof -
  from assms(2) obtain k h cs where k: "k < length vs" "length cs = Suc n + k" "\<forall>c\<in>set cs. h0 c = None"
    "dom h = dom h0 \<union> set cs" "\<forall>b. b \<notin> set cs \<longrightarrow> h b = h0 b" "\<forall>j<k. dup_value l (vs ! j) \<noteq> None"
    "dup_value l (vs ! k) = None \<or> alloc h = None"
    unfolding dup_fails_def by blast
  then show ?thesis using assms(1) unfolding dup_fails_def
    by (intro exI [of _ "Suc k"] exI [of _ h] exI [of _ cs]) (auto simp: nth_Cons split: nat.split)
qed

lemma listDup_release:
  assumes "list_at (nodes s) copy cs" "\<forall>c\<in>set cs. h0 c = None"
    "\<forall>b. b \<notin> set cs \<longrightarrow> nodes s b = h0 b"
  shows "\<exists>s'. listRelease s copy = Inr s' \<and> nodes s' = h0"
proof -
  obtain s' where "listRelease s copy = Inr s'"
    and "nodes s' = (\<lambda>a. if a \<in> set cs then None else nodes s a)"
    using listRelease_correct [OF assms(1)] by blast
  moreover from this assms(2,3) have "nodes s' = h0" by (auto simp: fun_eq_iff)
  ultimately show ?thesis by blast
qed

lemma dup_result_step:
  assumes "dup_value l v0 = Some v" "dup_result alloc h0 l (copied @ [v]) vs res"
  shows "dup_result alloc h0 l copied (v0 # vs) res"
proof (cases "snd res")
  case None
  with assms show ?thesis using dup_fails_later [OF assms(1)] by (cases res) (auto simp: dup_result_def)
next
  case (Some copy)
  with assms show ?thesis by (cases res) (simp add: dup_result_def)
qed

text \<open>One round of the loop, at a node of the original list.\<close>

lemma listDup_loop_node:
  assumes "nodes s a = Some n" "listRelease s copy = Inr s1" "dup_method copy = dup_method l"
  shows "listDup_loop alloc s copy \<lparr>iter_next = Some a, direction = AL_START_HEAD\<rparr> =
      (case dup_value l (node_value n) of
         None \<Rightarrow> Some (Inr (s1, None))
       | Some v \<Rightarrow> (case listAddNodeTail alloc s copy v of
           Inl f \<Rightarrow> Some (Inl f)
         | Inr None \<Rightarrow> Some (Inr (s1, None))
         | Inr (Some (s, copy)) \<Rightarrow>
             listDup_loop alloc s copy \<lparr>iter_next = node_next n, direction = AL_START_HEAD\<rparr>))"
  using assms
  by (subst listDup_loop.simps)
    (simp add: listNext_def dup_value_def split: option.split sum.split prod.split)

lemma listDup_loop_correct:
  assumes "fresh_alloc alloc" "dseg h0 p x as t None"
    "list_at (nodes s) copy cs" "\<forall>c\<in>set cs. h0 c = None" "\<forall>b. b \<notin> set cs \<longrightarrow> nodes s b = h0 b"
    "same_methods l copy"
  shows "\<exists>res. listDup_loop alloc s copy \<lparr>iter_next = x, direction = AL_START_HEAD\<rparr> = Some (Inr res) \<and>
           dup_result alloc h0 l (values_at (nodes s) cs) (values_at h0 as) res"
  using assms(2-)
proof (induction as arbitrary: p x s copy cs)
  case Nil
  then show ?case
    by (subst listDup_loop.simps) (auto simp: listNext_def dup_result_def)
next
  case (Cons a as)
  note wf = Cons.prems(2-4)
  from Cons.prems(1) obtain n where n: "x = Some a" "h0 a = Some n"
    "dseg h0 (Some a) (node_next n) as t None" by auto
  have a: "nodes s a = Some n" using n(2) Cons.prems(3,4) by (metis option.distinct(1))
  obtain s1 where s1: "listRelease s copy = Inr s1" "nodes s1 = h0"
    using listDup_release [OF wf] by blast
  have "dup_method copy = dup_method l" using Cons.prems(5) by (simp add: same_methods_def)
  note round = listDup_loop_node [OF a s1(1) this, of alloc]
  note fails = dup_fails_now [OF wf, of l "node_value n" alloc "values_at h0 as"]
  show ?case
  proof (cases "dup_value l (node_value n)")
    case None
    with round s1 n(1,2) fails show ?thesis by (auto simp: dup_result_def)
  next
    case v: (Some v)
    show ?thesis
    proof (cases "alloc (nodes s)")
      case None
      with round v s1 n(1,2) fails show ?thesis by (auto simp: dup_result_def listAddNodeTail_def)
    next
      case alloc: (Some c)
      obtain s' copy' where add: "listAddNodeTail alloc s copy v = Inr (Some (s', copy'))"
        "list_at (nodes s') copy' (cs @ [c])" "values_at (nodes s') (cs @ [c]) = values_at (nodes s) cs @ [v]"
        "\<forall>b. b \<notin> set (cs @ [c]) \<longrightarrow> nodes s' b = nodes s b"
        "copy' = copy\<lparr>head := head copy', tail := tail copy', len := len copy'\<rparr>"
        using listAddNodeTail_correct [OF wf(1) assms(1) alloc, of v] by blast
      have "nodes s c = None" "c \<notin> set cs"
        using assms(1) alloc wf(1) by (simp add: fresh_alloc_def, blast dest: fresh_alloc_not_in)
      then have c: "\<forall>c\<in>set (cs @ [c]). h0 c = None" "\<forall>b. b \<notin> set (cs @ [c]) \<longrightarrow> nodes s' b = h0 b"
        using Cons.prems(3,4) add(4) by auto
      have "same_methods l copy'"
        using Cons.prems(5) by (subst add(5)) (simp add: same_methods_def)
      then show ?thesis
        using Cons.IH [OF n(3) add(2) c] dup_result_step [OF v] round v add(1,3) n(1,2) by auto
    qed
  qed
qed

lemma listDup_correct:
  assumes "fresh_alloc alloc" "list_at (nodes s) l as"
  shows "\<exists>res. listDup alloc True s l = Some (Inr res) \<and>
           dup_result alloc (nodes s) l [] (values_at (nodes s) as) res"
proof -
  have "dseg (nodes s) None (head l) as (tail l) None" using assms(2) by (simp add: list_at_def)
  from listDup_loop_correct [OF assms(1) this, of s _ "[]" l]
  show ?thesis
    by (simp add: listDup_def listCreate_def listRewind_def list_at_def same_methods_def)
qed

section \<open>Iteration while removing\<close>

lemma listNext_after_delete:
  assumes wf: "list_at (nodes s) l (xs @ a # ys)"
  shows "\<exists>it s' l'. listNext s \<lparr>iter_next = Some a, direction = AL_START_HEAD\<rparr> = Inr (Some a, it) \<and>
           listDelNode s l (Some a) = Inr (s', l') \<and> list_at (nodes s') l' (xs @ ys) \<and>
           direction it = AL_START_HEAD \<and> iter_next it = (if ys = [] then None else Some (hd ys))"
proof -
  obtain n where n: "nodes s a = Some n" "node_next n = (if ys = [] then None else Some (hd ys))"
    using wf by (rule list_at_node)
  then show ?thesis
    using listDelNode_correct [OF wf] by (auto simp: listNext_def)
qed

section \<open>The list as a queue\<close>

text \<open>
  Reply buffers and the lists of pending clients are used as queues: values are added at the
  tail and taken from the head with \<open>listDelNode(l, listFirst(l))\<close>. The interface below is what
  such a client relies on; \<open>drain\<close> is the loop that empties a queue.
\<close>

definition enqueue ::
  "'v node_alloc \<Rightarrow> 'v store \<times> 'v adlist \<Rightarrow> 'v \<Rightarrow> ('v store \<times> 'v adlist) option outcome" where
  "enqueue alloc q v = listAddNodeTail alloc (fst q) (snd q) v"

definition first_value :: "'v store \<times> 'v adlist \<Rightarrow> 'v outcome" where
  "first_value q = bindE (deref (nodes (fst q)) (head (snd q))) (\<lambda>n. Inr (node_value n))"

definition dequeue :: "'v store \<times> 'v adlist \<Rightarrow> ('v store \<times> 'v adlist) outcome" where
  "dequeue q = listDelNode (fst q) (snd q) (head (snd q))"

definition queue_of :: "'v store \<times> 'v adlist \<Rightarrow> 'v list \<Rightarrow> bool" where
  "queue_of q vs \<longleftrightarrow> (\<exists>as. list_at (nodes (fst q)) (snd q) as \<and> values_at (nodes (fst q)) as = vs)"

fun enqueue_all :: "('q \<Rightarrow> 'v \<Rightarrow> 'q option outcome) \<Rightarrow> 'q \<Rightarrow> 'v list \<Rightarrow> 'q option outcome" where
  "enqueue_all enq q [] = Inr (Some q)"
| "enqueue_all enq q (v # vs) = bindE (enq q v) (\<lambda>r. case r of None \<Rightarrow> Inr None
                                 | Some q \<Rightarrow> enqueue_all enq q vs)"

fun drain :: "('q \<Rightarrow> 'v outcome) \<Rightarrow> ('q \<Rightarrow> 'q outcome) \<Rightarrow> nat \<Rightarrow> 'q \<Rightarrow> ('v list \<times> 'q) outcome" where
  "drain fst_of deq 0 q = Inr ([], q)"
| "drain fst_of deq (Suc n) q =
     bindE (fst_of q) (\<lambda>v. bindE (deq q) (\<lambda>q. bindE (drain fst_of deq n q) (\<lambda>(vs, q). Inr (v # vs, q))))"

locale fifo =
  fixes rep :: "'q \<Rightarrow> 'v list \<Rightarrow> bool"
    and enq :: "'q \<Rightarrow> 'v \<Rightarrow> 'q option outcome"
    and fst_of :: "'q \<Rightarrow> 'v outcome"
    and deq :: "'q \<Rightarrow> 'q outcome"
  assumes enq_safe: "rep q vs \<Longrightarrow> \<exists>r. enq q v = Inr r"
    and enq_rep: "rep q vs \<Longrightarrow> enq q v = Inr (Some q') \<Longrightarrow> rep q' (vs @ [v])"
    and fst_of_rep: "rep q (v # vs) \<Longrightarrow> fst_of q = Inr v"
    and deq_rep: "rep q (v # vs) \<Longrightarrow> \<exists>q'. deq q = Inr q' \<and> rep q' vs"
begin

lemma enqueue_all_safe: "rep q vs \<Longrightarrow> \<exists>r. enqueue_all enq q ws = Inr r"
proof (induction ws arbitrary: q vs)
  case Nil
  then show ?case by simp
next
  case (Cons w ws)
  then obtain r where "enq q w = Inr r" using enq_safe by blast
  then show ?case
    using Cons.IH Cons.prems by (cases r) (auto dest: enq_rep)
qed

lemma enqueue_all_rep: "rep q vs \<Longrightarrow> enqueue_all enq q ws = Inr (Some q') \<Longrightarrow> rep q' (vs @ ws)"
  by (induction ws arbitrary: q vs) (fastforce simp: outcome dest: enq_rep split: option.splits)+

lemma drain_rep: "rep q vs \<Longrightarrow> \<exists>q'. drain fst_of deq (length vs) q = Inr (vs, q') \<and> rep q' []"
proof (induction vs arbitrary: q)
  case Nil
  then show ?case by simp
next
  case (Cons v vs)
  then obtain q1 where "deq q = Inr q1" "rep q1 vs" using deq_rep by blast
  then show ?case using Cons.IH [of q1] fst_of_rep [OF Cons.prems] by auto
qed

lemma fifo_order:
  assumes "rep q []" "enqueue_all enq q ws = Inr (Some q')"
  shows "\<exists>q''. drain fst_of deq (length ws) q' = Inr (ws, q'') \<and> rep q'' []"
  using enqueue_all_rep [OF assms] drain_rep by simp

end

text \<open>The allocator of the model: the first free address below a bound, else NULL.\<close>

definition bounded_alloc :: "nat \<Rightarrow> 'v node_alloc" where
  "bounded_alloc bound h = find (\<lambda>a. h a = None) [0..<bound]"

lemma fresh_bounded_alloc: "fresh_alloc (bounded_alloc bound)"
  by (auto simp: fresh_alloc_def bounded_alloc_def find_Some_iff)

lemma queue_of_enqueue:
  assumes "fresh_alloc alloc" "queue_of q vs"
  shows "enqueue alloc q v = Inr None \<or> (\<exists>q'. enqueue alloc q v = Inr (Some q') \<and> queue_of q' (vs @ [v]))"
proof -
  obtain as where as: "list_at (nodes (fst q)) (snd q) as" "values_at (nodes (fst q)) as = vs"
    using assms(2) by (auto simp: queue_of_def)
  show ?thesis
  proof (cases "alloc (nodes (fst q))")
    case None
    then show ?thesis by (simp add: enqueue_def listAddNodeTail_def)
  next
    case (Some a)
    obtain s' l' where "listAddNodeTail alloc (fst q) (snd q) v = Inr (Some (s', l'))"
      "list_at (nodes s') l' (as @ [a])" "values_at (nodes s') (as @ [a]) = vs @ [v]"
      using listAddNodeTail_correct [OF as(1) assms(1) Some, of v] as(2) by blast
    then have "enqueue alloc q v = Inr (Some (s', l'))" "queue_of (s', l') (vs @ [v])"
      unfolding enqueue_def queue_of_def fst_conv snd_conv by blast+
    then show ?thesis by blast
  qed
qed

lemma queue_of_dequeue:
  assumes "queue_of q (v # vs)"
  shows "first_value q = Inr v" "\<exists>q'. dequeue q = Inr q' \<and> queue_of q' vs"
proof -
  obtain a as where as: "list_at (nodes (fst q)) (snd q) ([] @ a # as)"
    "node_value (the (nodes (fst q) a)) = v" "values_at (nodes (fst q)) as = vs"
    using assms by (auto simp: queue_of_def values_at_def)
  have hd: "head (snd q) = Some a" "\<exists>n. nodes (fst q) a = Some n"
    using as(1) by (auto simp: list_at_def)
  then show "first_value q = Inr v" using as(2) by (auto simp: first_value_def)
  show "\<exists>q'. dequeue q = Inr q' \<and> queue_of q' vs"
    using listDelNode_correct [OF as(1)] as(3) hd(1) by (auto simp: dequeue_def queue_of_def)
qed

lemma adlist_is_fifo:
  assumes "fresh_alloc alloc"
  shows "fifo queue_of (enqueue alloc) first_value dequeue"
proof
  fix q :: "'a store \<times> 'a adlist" and q' vs v
  assume q: "queue_of q vs"
  note enq = queue_of_enqueue [OF assms q, of v]
  from enq show "\<exists>r. enqueue alloc q v = Inr r" by blast
  assume "enqueue alloc q v = Inr (Some q')"
  with enq show "queue_of q' (vs @ [v])" by auto
qed (erule queue_of_dequeue)+

interpretation adlist_fifo: fifo queue_of "enqueue (bounded_alloc bound)" first_value dequeue
  by (rule adlist_is_fifo [OF fresh_bounded_alloc])

section \<open>Properties\<close>

text \<open>A list of three nodes for the concrete instances below.\<close>

definition abc_store :: "nat store" where
  "abc_store = \<lparr>nodes = [1 \<mapsto> \<lparr>node_prev = None, node_next = Some 2, node_value = 10\<rparr>,
                         2 \<mapsto> \<lparr>node_prev = Some 1, node_next = Some 3, node_value = 20\<rparr>,
                         3 \<mapsto> \<lparr>node_prev = Some 2, node_next = None, node_value = 30\<rparr>],
               released = []\<rparr>"

definition abc_list :: "nat adlist" where
  "abc_list = \<lparr>head = Some 1, tail = Some 3, dup_method = None, free_method = True,
              match_method = None, len = 3\<rparr>"

lemma abc_list_at: "list_at (nodes abc_store) abc_list [1, 2, 3]"
  by (simp add: list_at_def abc_store_def abc_list_def)

lemma abc_values: "values_at (nodes abc_store) [1, 2, 3] = [10, 20, 30]"
  by (simp add: abc_store_def)

text \<open>C10: removing a node of a well-formed list never touches memory that is not live, leaves
  the list of the other nodes in order and well-formed (links in both directions, ends, length),
  frees the node, and passes exactly its value to the list's free method.\<close>

theorem listDelNode_refines:
  assumes "list_at (nodes s) l (xs @ a # ys)"
  shows "\<exists>s' l'. listDelNode s l (Some a) = Inr (s', l') \<and> list_at (nodes s') l' (xs @ ys) \<and>
           values_at (nodes s') (xs @ ys) = values_at (nodes s) (xs @ ys) \<and> nodes s' a = None \<and>
           released s' = released s @ (if free_method l then [node_value (the (nodes s a))] else [])"
  by (rule listDelNode_correct [OF assms])

theorem listDelNode_refines_witness:
  "\<exists>s' l'. listDelNode abc_store abc_list (Some 2) = Inr (s', l') \<and> list_at (nodes s') l' [1, 3] \<and>
     values_at (nodes s') [1, 3] = [10, 30] \<and> nodes s' 2 = None \<and> released s' = [20]"
  using listDelNode_refines [of abc_store abc_list "[1]" 2 "[3]"] abc_list_at
  by (simp add: abc_store_def abc_list_def)

text \<open>C11: inserting a value next to a given node, on either side, gives the well-formed list
  with the new node in that place, whatever the position (also at either end).\<close>

theorem listInsertNode_refines:
  assumes "list_at (nodes s) l (xs @ o1 # ys)" "fresh_alloc alloc" "alloc (nodes s) = Some a"
  shows "\<exists>s' l'. listInsertNode alloc s l (Some o1) v after = Inr (Some (s', l')) \<and>
     (let as = (if after then xs @ o1 # a # ys else xs @ a # o1 # ys) in
      list_at (nodes s') l' as \<and>
      values_at (nodes s') as =
        (if after then values_at (nodes s) (xs @ [o1]) @ v # values_at (nodes s) ys
         else values_at (nodes s) xs @ v # values_at (nodes s) (o1 # ys)))"
  using listInsertNode_after_correct [OF assms, of v] listInsertNode_before_correct [OF assms, of v]
  by (cases after) auto

theorem listInsertNode_refines_witness:
  "\<exists>s' l'. listInsertNode (bounded_alloc 9) abc_store abc_list (Some 1) 15 True = Inr (Some (s', l')) \<and>
     list_at (nodes s') l' [1, 0, 2, 3] \<and> values_at (nodes s') [1, 0, 2, 3] = [10, 15, 20, 30]"
proof -
  have "bounded_alloc 9 (nodes abc_store) = Some 0"
    by (simp add: bounded_alloc_def abc_store_def upt_rec)
  then show ?thesis
    using listInsertNode_refines [of abc_store abc_list "[]" 1 "[2, 3]" "bounded_alloc 9" 0 15 True]
      abc_list_at fresh_bounded_alloc [of 9] by (auto simp: abc_store_def)
qed

text \<open>the signed index of \<open>listIndex\<close> counts from the head, or from the tail when it is
  negative, and is NULL outside the list; the traversal follows live nodes only.\<close>

theorem listIndex_signed:
  assumes "list_at (nodes s) l as" "i \<noteq> LONG_MIN"
  shows "listIndex s l i = Inr (nth_signed as i)"
  by (rule listIndex_correct [OF assms])

theorem listIndex_signed_witness:
  "listIndex abc_store abc_list (-1) = Inr (Some 3) \<and> (-1 :: int) \<noteq> LONG_MIN"
  using listIndex_signed [OF abc_list_at, of "-1"] by (simp add: LONG_MIN_def nth_signed_def)

text \<open>C20: duplicating a well-formed list always returns. It returns NULL when the header of the copy
  cannot be allocated, and nothing has changed then. Otherwise either the copy is a well-formed list
  on fresh nodes, with the methods of the original, holding the (duplicated) values in order, every
  other node being untouched; or NULL is returned because, with the nodes for the values before it in
  place, the \<open>dup\<close> method failed on a value or its node could not be allocated, and then no node of the
  partial copy is left.\<close>

theorem listDup_copies:
  assumes "fresh_alloc alloc" "list_at (nodes s) l as"
  shows "listDup alloc False s l = Some (Inr (s, None)) \<and>
     (\<exists>s' r. listDup alloc True s l = Some (Inr (s', r)) \<and>
     (case r of
        None \<Rightarrow> nodes s' = nodes s \<and> dup_fails alloc (nodes s) l 0 (values_at (nodes s) as)
      | Some copy \<Rightarrow> same_methods l copy \<and>
          (\<exists>cs. list_at (nodes s') copy cs \<and> (\<forall>c\<in>set cs. nodes s c = None) \<and>
             (\<forall>b. b \<notin> set cs \<longrightarrow> nodes s' b = nodes s b) \<and>
             map Some (values_at (nodes s') cs) = map (dup_value l) (values_at (nodes s) as))))"
  using listDup_correct [OF assms] by (simp add: dup_result_def split_paired_Ex listDup_def listCreate_def)

lemma bounded_alloc_full: "bounded_alloc bound h = None \<Longrightarrow> {0..<bound} \<subseteq> dom h"
  by (auto simp: bounded_alloc_def find_None_iff)

lemma dup_abc_succeeds: "\<not> dup_fails (bounded_alloc 9) (nodes abc_store) abc_list 0 [10, 20, 30]"
proof
  assume "dup_fails (bounded_alloc 9) (nodes abc_store) abc_list 0 [10, 20, 30]"
  then obtain k cs and h :: "addr \<rightharpoonup> nat listNode" where k: "k < Suc (Suc (Suc 0))" "length cs = k" "dom h = dom (nodes abc_store) \<union> set cs"
    "bounded_alloc 9 h = None"
    by (auto simp: dup_fails_def dup_value_def abc_list_def)
  have "dom h = {1, 2, 3} \<union> set cs" using k(3) by (auto simp: abc_store_def)
  then have "{0..<9} \<subseteq> {1, 2, 3} \<union> set cs" using bounded_alloc_full [OF k(4)] by simp
  then have "card {0..<9 :: nat} \<le> card ({1, 2, 3} \<union> set cs)" by (intro card_mono) auto
  also have "\<dots> \<le> 3 + card (set cs)" using card_Un_le [of "{1, 2, 3}" "set cs"] by simp
  also have "\<dots> \<le> 3 + k" using card_length [of cs] k(2) by simp
  finally show False using k(1) by simp
qed

theorem listDup_copies_witness:
  "\<exists>s' copy cs. listDup (bounded_alloc 9) True abc_store abc_list = Some (Inr (s', Some copy)) \<and>
     list_at (nodes s') copy cs \<and> values_at (nodes s') cs = [10, 20, 30] \<and> nodes s' 2 = nodes abc_store 2"
proof -
  obtain s' r where r: "listDup (bounded_alloc 9) True abc_store abc_list = Some (Inr (s', r))"
    "case r of
        None \<Rightarrow> nodes s' = nodes abc_store \<and> dup_fails (bounded_alloc 9) (nodes abc_store) abc_list 0 [10, 20, 30]
      | Some copy \<Rightarrow> same_methods abc_list copy \<and>
          (\<exists>cs. list_at (nodes s') copy cs \<and> (\<forall>c\<in>set cs. nodes abc_store c = None) \<and>
             (\<forall>b. b \<notin> set cs \<longrightarrow> nodes s' b = nodes abc_store b) \<and>
             map Some (values_at (nodes s') cs) = map (dup_value abc_list) [10, 20, 30])"
    using listDup_copies [OF fresh_bounded_alloc [of 9] abc_list_at] unfolding abc_values by blast
  from r(2) dup_abc_succeeds obtain copy cs where cs: "r = Some copy" "list_at (nodes s') copy cs"
    "\<forall>c\<in>set cs. nodes abc_store c = None" "\<forall>b. b \<notin> set cs \<longrightarrow> nodes s' b = nodes abc_store b"
    "map Some (values_at (nodes s') cs) = map Some [10, 20, 30]"
    by (cases r) (auto simp: dup_value_def abc_list_def)
  have "values_at (nodes s') cs = [10, 20, 30]" using cs(5) by (simp only: inj_map_eq_map [OF inj_Some])
  moreover have "2 \<notin> set cs" using cs(3) by (auto simp: abc_store_def)
  ultimately show ?thesis using r(1) cs(1,2,4) by blast
qed

text \<open>C19: \<open>listJoin\<close> of two disjoint well-formed lists moves all the nodes of the second to the
  end of the first and leaves the second one empty, for empty lists on either side as well.\<close>

theorem listJoin_appends:
  assumes "list_at (nodes s) l as" "list_at (nodes s) oth bs" "set as \<inter> set bs = {}"
  shows "\<exists>s' l' oth'. listJoin s l oth = Inr (s', l', oth') \<and> list_at (nodes s') l' (as @ bs) \<and>
           list_at (nodes s') oth' [] \<and>
           values_at (nodes s') (as @ bs) = values_at (nodes s) as @ values_at (nodes s) bs"
  by (rule listJoin_correct [OF assms])

text \<open>The first list with a second one of two nodes behind it in the same store.\<close>

definition abcde_store :: "nat store" where
  "abcde_store = \<lparr>nodes = (nodes abc_store)(4 \<mapsto> \<lparr>node_prev = None, node_next = Some 5, node_value = 40\<rparr>,
                                          5 \<mapsto> \<lparr>node_prev = Some 4, node_next = None, node_value = 50\<rparr>),
                 released = []\<rparr>"

definition de_list :: "nat adlist" where
  "de_list = abc_list\<lparr>head := Some 4, tail := Some 5, len := 2\<rparr>"

theorem listJoin_appends_witness:
  "\<exists>s' l' oth'. listJoin abcde_store abc_list de_list = Inr (s', l', oth') \<and> list_at (nodes s') l' [1, 2, 3, 4, 5] \<and>
     list_at (nodes s') oth' [] \<and> values_at (nodes s') [1, 2, 3, 4, 5] = [10, 20, 30, 40, 50]"
proof -
  have "list_at (nodes abcde_store) abc_list [1, 2, 3]" "list_at (nodes abcde_store) de_list [4, 5]" "set [1, 2, 3] \<inter> set [4, 5 :: nat] = {}"
    by (simp_all add: list_at_def abcde_store_def abc_store_def abc_list_def de_list_def)
  from listJoin_appends [OF this] show ?thesis by (simp add: abcde_store_def abc_store_def values_at_def)
qed

text \<open>C18: used as a queue (add at the tail, take from the head), the list returns the values in
  the order they were added, and never faults.\<close>

theorem adlist_fifo_order:
  assumes "fresh_alloc alloc" "queue_of q []" "enqueue_all (enqueue alloc) q ws = Inr (Some q')"
  shows "\<exists>q''. drain first_value dequeue (length ws) q' = Inr (ws, q'') \<and> queue_of q'' []"
  by (rule fifo.fifo_order [OF adlist_is_fifo [OF assms(1)] assms(2,3)])

theorem adlist_fifo_order_witness:
  "\<exists>q' q''. enqueue_all (enqueue (bounded_alloc 9))
       (\<lparr>nodes = Map.empty, released = []\<rparr>, the (listCreate True)) [7, 8 :: nat] = Inr (Some q') \<and>
     drain first_value dequeue (length [7, 8 :: nat]) q' = Inr ([7, 8], q'') \<and> queue_of q'' []"
proof -
  let ?q = "(\<lparr>nodes = Map.empty, released = []\<rparr>, the (listCreate True)) :: nat store \<times> nat adlist"
  have empty: "queue_of ?q []"
    by (simp add: queue_of_def listCreate_def list_at_def)
  obtain q' where "enqueue_all (enqueue (bounded_alloc 9)) ?q [7, 8] = Inr (Some q')"
    by (simp add: enqueue_def listAddNodeTail_def listCreate_def bounded_alloc_def new_node_def
        set_next_def upt_rec)
  with adlist_fifo_order [OF fresh_bounded_alloc empty this] show ?thesis by blast
qed

end
