(* ===== verification/Zmalloc.thy ===== *)
theory Zmalloc
  imports Prelude
begin

text \<open>
  \<open>zmalloc.c\<close>: the allocator every component uses. \<open>used_memory\<close> counts the bytes of all live
  blocks. The library's \<open>malloc\<close>, \<open>calloc\<close>, \<open>realloc\<close> and \<open>malloc_usable_size\<close> are parameters:
  functions from the live blocks and the request to the block they return. The code has two builds:
  with \<open>HAVE_MALLOC_SIZE\<close> (\<open>hms = Some usable\<close>) the library reports the size of a block; without
  it (\<open>hms = None\<close>) each block gets a prefix of \<open>PREFIX_SIZE\<close> bytes that holds its size. Sizes
  are \<open>size_t\<close>: naturals below \<open>2 ^ 64\<close> whose sums wrap.
\<close>

section \<open>State\<close>

text \<open>A live block by its start (\<open>realptr\<close>): the size stored in the prefix, if there is one, and
  the bytes handed to the user.\<close>

record block =
  prefix_size :: nat
  payload :: "byte list"

record zstate =
  blocks :: "addr \<rightharpoonup> block"
  used_memory :: "64 word"
  oom_handler_returns :: bool

text \<open>\<open>malloc_usable_size\<close> reports a size for a block, given by its start and the bytes it was asked for, and
  one for NULL (\<open>None\<close>).\<close>

type_synonym malloc_size = "((addr \<times> nat) option \<Rightarrow> nat) option"
type_synonym libc_malloc = "(addr \<rightharpoonup> block) \<Rightarrow> nat \<Rightarrow> (addr \<times> byte list) option"
type_synonym libc_realloc = "(addr \<rightharpoonup> block) \<Rightarrow> addr \<Rightarrow> nat \<Rightarrow> (addr \<times> byte list) option"

definition PREFIX_SIZE :: "malloc_size \<Rightarrow> nat" where
  "PREFIX_SIZE hms = (case hms of None \<Rightarrow> 8 | Some _ \<Rightarrow> 0)"

definition size_t_add :: "nat \<Rightarrow> nat \<Rightarrow> nat" where
  "size_t_add a b = (a + b) mod 2 ^ 64"

section \<open>Operations\<close>

text \<open>
  \<open>update_zmalloc_stat_alloc\<close> and \<open>update_zmalloc_stat_free\<close>: the macros also round a local
  copy \<open>_n\<close> of the argument up to a multiple of \<open>sizeof(long)\<close>, and then use the argument.
\<close>

definition update_zmalloc_stat_alloc :: "nat \<Rightarrow> zstate \<Rightarrow> zstate" where
  "update_zmalloc_stat_alloc n st = st\<lparr>used_memory := used_memory st + word_of_nat n\<rparr>"

definition update_zmalloc_stat_free :: "nat \<Rightarrow> zstate \<Rightarrow> zstate" where
  "update_zmalloc_stat_free n st = st\<lparr>used_memory := used_memory st - word_of_nat n\<rparr>"

text \<open>
  The end of an allocation for which the library returned NULL. The default handler ends the process. After
  a handler that returns, the code goes on with the NULL pointer: without \<open>HAVE_MALLOC_SIZE\<close> it stores the
  size through it, with it the size the library reports for NULL is counted and NULL is returned.
\<close>

definition zmalloc_oom :: "malloc_size \<Rightarrow> zstate \<Rightarrow> (ptr \<times> zstate) outcome" where
  "zmalloc_oom hms st =
     (if \<not> oom_handler_returns st then Inl OutOfMemory
      else case hms of
             None \<Rightarrow> Inl NullDeref
           | Some usable \<Rightarrow> Inr (None, update_zmalloc_stat_alloc (usable None) st))"

text \<open>The bytes \<open>used_memory\<close> counts for the block that starts at \<open>p\<close>.\<close>

definition counted_size :: "malloc_size \<Rightarrow> addr \<Rightarrow> block \<Rightarrow> nat" where
  "counted_size hms p b = (case hms of None \<Rightarrow> size_t_add (prefix_size b) (PREFIX_SIZE hms)
                           | Some usable \<Rightarrow> usable (Some (p, length (payload b))))"

text \<open>After a library call that returned a block: store the size in front (without
  \<open>HAVE_MALLOC_SIZE\<close>), count it, and return the address behind the prefix.\<close>

definition install_block ::
  "malloc_size \<Rightarrow> zstate \<Rightarrow> addr \<Rightarrow> byte list \<Rightarrow> nat \<Rightarrow> (ptr \<times> zstate) outcome" where
  "install_block hms st p bytes sz =
     (if length bytes < PREFIX_SIZE hms then Inl OutOfBounds
      else let b = \<lparr>prefix_size = (case hms of None \<Rightarrow> sz | Some _ \<Rightarrow> 0),
                    payload = drop (PREFIX_SIZE hms) bytes\<rparr>
           in Inr (Some (p + PREFIX_SIZE hms),
                   update_zmalloc_stat_alloc (counted_size hms p b)
                     (st\<lparr>blocks := (blocks st)(p \<mapsto> b)\<rparr>)))"

definition zmalloc :: "malloc_size \<Rightarrow> libc_malloc \<Rightarrow> zstate \<Rightarrow> nat \<Rightarrow> (ptr \<times> zstate) outcome" where
  "zmalloc hms mal st sz =
     (case mal (blocks st) (size_t_add sz (PREFIX_SIZE hms)) of
        None \<Rightarrow> zmalloc_oom hms st
      | Some (p, bytes) \<Rightarrow> install_block hms st p bytes sz)"

text \<open>\<open>zcalloc\<close> differs from \<open>zmalloc\<close> in the library call: \<open>calloc\<close> returns zeroed bytes.\<close>

definition zcalloc :: "malloc_size \<Rightarrow> libc_malloc \<Rightarrow> zstate \<Rightarrow> nat \<Rightarrow> (ptr \<times> zstate) outcome" where
  "zcalloc hms cal st sz =
     (case cal (blocks st) (size_t_add sz (PREFIX_SIZE hms)) of
        None \<Rightarrow> zmalloc_oom hms st
      | Some (p, bytes) \<Rightarrow> install_block hms st p bytes sz)"

text \<open>The block a user pointer belongs to.\<close>

definition block_of :: "malloc_size \<Rightarrow> zstate \<Rightarrow> addr \<Rightarrow> (addr \<times> block) outcome" where
  "block_of hms st a =
     (if a < PREFIX_SIZE hms then Inl InvalidPointer
      else bindE (deref (blocks st) (Some (a - PREFIX_SIZE hms))) (\<lambda>b. Inr (a - PREFIX_SIZE hms, b)))"

definition zfree :: "malloc_size \<Rightarrow> zstate \<Rightarrow> ptr \<Rightarrow> zstate outcome" where
  "zfree hms st ptr =
     (case ptr of
        None \<Rightarrow> Inr st
      | Some a \<Rightarrow> bindE (block_of hms st a) (\<lambda>(realptr, b).
          Inr ((update_zmalloc_stat_free (counted_size hms realptr b) st)
                 \<lparr>blocks := (blocks st)(realptr := None)\<rparr>)))"

text \<open>When \<open>realloc\<close> fails and the handler returns, the old block is still live, but its size has been
  subtracted.\<close>

definition zrealloc ::
  "malloc_size \<Rightarrow> libc_malloc \<Rightarrow> libc_realloc \<Rightarrow> zstate \<Rightarrow> ptr \<Rightarrow> nat \<Rightarrow> (ptr \<times> zstate) outcome" where
  "zrealloc hms mal re st ptr sz =
     (case ptr of
        None \<Rightarrow> zmalloc hms mal st sz
      | Some a \<Rightarrow>
          (if sz = 0 then bindE (zfree hms st ptr) (\<lambda>st. Inr (None, st))
           else bindE (block_of hms st a) (\<lambda>(realptr, b).
             case re (blocks st) realptr (size_t_add sz (PREFIX_SIZE hms)) of
               None \<Rightarrow> zmalloc_oom hms (update_zmalloc_stat_free (counted_size hms realptr b) st)
             | Some (p, bytes) \<Rightarrow>
                 install_block hms
                   ((update_zmalloc_stat_free (counted_size hms realptr b) st)
                      \<lparr>blocks := (blocks st)(realptr := None)\<rparr>) p bytes sz)))"

text \<open>Without \<open>HAVE_MALLOC_SIZE\<close>: the stored size with the padding to \<open>sizeof(long)\<close> the
  underlying allocator is assumed to add, and the prefix.\<close>

definition zmalloc_size :: "zstate \<Rightarrow> addr \<Rightarrow> nat outcome" where
  "zmalloc_size st a = bindE (block_of None st a) (\<lambda>(realptr, b).
     let sz = prefix_size b;
         sz = (if sz mod 8 \<noteq> 0 then size_t_add sz (8 - sz mod 8) else sz)
     in Inr (size_t_add sz (PREFIX_SIZE None)))"

definition zmalloc_usable :: "zstate \<Rightarrow> addr \<Rightarrow> nat outcome" where
  "zmalloc_usable st a =
     bindE (zmalloc_size st a) (\<lambda>n. Inr (size_t_add n (2 ^ 64 - PREFIX_SIZE None)))"

definition zstrdup ::
  "malloc_size \<Rightarrow> libc_malloc \<Rightarrow> zstate \<Rightarrow> byte list \<Rightarrow> (ptr \<times> zstate) outcome" where
  "zstrdup hms mal st s =
     bindE (strlen s) (\<lambda>n. let l = n + 1 in
     bindE (zmalloc hms mal st l) (\<lambda>(p, st).
     case p of
       None \<Rightarrow> Inl NullDeref
     | Some a \<Rightarrow>
         bindE (block_of hms st a) (\<lambda>(realptr, b).
         bindE (mem_read s 0 l) (\<lambda>bytes.
         bindE (mem_write (payload b) 0 bytes) (\<lambda>pl.
         Inr (Some a, st\<lparr>blocks := (blocks st)(realptr \<mapsto> b\<lparr>payload := pl\<rparr>)\<rparr>))))))"

definition zmalloc_used_memory :: "zstate \<Rightarrow> nat" where
  "zmalloc_used_memory st = unat (used_memory st)"

definition zmalloc_set_oom_handler :: "bool \<Rightarrow> zstate \<Rightarrow> zstate" where
  "zmalloc_set_oom_handler returns st = st\<lparr>oom_handler_returns := returns\<rparr>"

section \<open>Accounting\<close>

text \<open>What the C library promises: a block is not live already and has the requested size;
  \<open>realloc\<close> may return the block it was given.\<close>

definition libc_fresh :: "libc_malloc \<Rightarrow> bool" where
  "libc_fresh mal \<longleftrightarrow> (\<forall>bs n p bytes. mal bs n = Some (p, bytes) \<longrightarrow> bs p = None \<and> length bytes = n)"

definition libc_moves :: "libc_realloc \<Rightarrow> bool" where
  "libc_moves re \<longleftrightarrow> (\<forall>bs q n p bytes. re bs q n = Some (p, bytes) \<longrightarrow>
     (bs p = None \<or> p = q) \<and> length bytes = n)"

text \<open>\<open>malloc_usable_size(NULL)\<close> is 0.\<close>

definition libc_size :: "malloc_size \<Rightarrow> bool" where
  "libc_size hms \<longleftrightarrow> (\<forall>usable. hms = Some usable \<longrightarrow> usable None = 0)"

definition block_cost :: "malloc_size \<Rightarrow> addr \<Rightarrow> block \<Rightarrow> 64 word" where
  "block_cost hms p b = word_of_nat (counted_size hms p b)"

text \<open>\<open>used_memory\<close> falls short of the sum over the live blocks by \<open>lost\<close>.\<close>

definition accounted :: "malloc_size \<Rightarrow> zstate \<Rightarrow> 64 word \<Rightarrow> bool" where
  "accounted hms st lost \<longleftrightarrow> finite (dom (blocks st)) \<and>
     used_memory st + lost = (\<Sum>p\<in>dom (blocks st). block_cost hms p (the (blocks st p)))"

lemma sum_blocks_remove:
  fixes cost :: "addr \<Rightarrow> block \<Rightarrow> 64 word"
  assumes "finite (dom m)" "m p = Some b"
  shows "(\<Sum>q\<in>dom (m(p := None)). cost q (the ((m(p := None)) q))) =
         (\<Sum>q\<in>dom m. cost q (the (m q))) - cost p b"
proof -
  have "(\<Sum>q\<in>dom m. cost q (the (m q))) =
        cost p (the (m p)) + (\<Sum>q\<in>dom m - {p}. cost q (the (m q)))"
    using assms by (intro sum.remove) auto
  moreover have "(\<Sum>q\<in>dom m - {p}. cost q (the ((m(p := None)) q))) =
      (\<Sum>q\<in>dom m - {p}. cost q (the (m q)))"
    by (rule sum.cong) auto
  ultimately show ?thesis using assms(2) by simp
qed

lemma sum_blocks_insert:
  fixes cost :: "addr \<Rightarrow> block \<Rightarrow> 64 word"
  assumes "finite (dom m)" "m p = None"
  shows "(\<Sum>q\<in>dom (m(p \<mapsto> b)). cost q (the ((m(p \<mapsto> b)) q))) =
         (\<Sum>q\<in>dom m. cost q (the (m q))) + cost p b"
proof -
  have "(\<Sum>q\<in>dom m. cost q (the ((m(p \<mapsto> b)) q))) = (\<Sum>q\<in>dom m. cost q (the (m q)))"
    using assms(2) by (intro sum.cong) auto
  then show ?thesis using assms by (simp add: domIff add.commute)
qed

lemma accounted_install:
  assumes "accounted hms st lost" "blocks st p = None" "install_block hms st p bytes sz = Inr (a, st')"
  shows "accounted hms st' lost"
  using assms sum_blocks_insert [of "blocks st" p "block_cost hms"]
  by (auto simp: accounted_def install_block_def update_zmalloc_stat_alloc_def block_cost_def Let_def
      ac_simps split: if_splits)

lemma accounted_remove:
  assumes "accounted hms st lost" "blocks st p = Some b"
  shows "accounted hms ((update_zmalloc_stat_free (counted_size hms p b) st)
           \<lparr>blocks := (blocks st)(p := None)\<rparr>) lost"
  using assms sum_blocks_remove [of "blocks st" p b "block_cost hms"]
  by (auto simp: accounted_def update_zmalloc_stat_free_def block_cost_def algebra_simps)

lemma accounted_oom:
  "libc_size hms \<Longrightarrow> accounted hms st lost \<Longrightarrow> zmalloc_oom hms st = Inr (q, st') \<Longrightarrow> accounted hms st' lost"
  by (auto simp: zmalloc_oom_def libc_size_def accounted_def update_zmalloc_stat_alloc_def split: if_splits option.splits)

lemma block_of_Inr:
  "block_of hms st a = Inr (p, b) \<longleftrightarrow>
   PREFIX_SIZE hms \<le> a \<and> p = a - PREFIX_SIZE hms \<and> blocks st p = Some b"
  by (auto simp: block_of_def outcome deref_eq_Inr)

lemma libc_freshD: "libc_fresh mal \<Longrightarrow> mal bs n = Some (p, bytes) \<Longrightarrow> bs p = None"
  by (simp add: libc_fresh_def)

lemma accounted_zmalloc:
  "libc_fresh mal \<Longrightarrow> libc_size hms \<Longrightarrow> accounted hms st lost \<Longrightarrow> zmalloc hms mal st n = Inr (a, st') \<Longrightarrow>
   accounted hms st' lost"
  by (auto simp: zmalloc_def split: option.splits dest: libc_freshD intro: accounted_install accounted_oom)

lemma accounted_zcalloc:
  "libc_fresh cal \<Longrightarrow> libc_size hms \<Longrightarrow> accounted hms st lost \<Longrightarrow> zcalloc hms cal st n = Inr (a, st') \<Longrightarrow>
   accounted hms st' lost"
  by (auto simp: zcalloc_def split: option.splits dest: libc_freshD intro: accounted_install accounted_oom)

lemma accounted_zfree: "accounted hms st lost \<Longrightarrow> zfree hms st ptr = Inr st' \<Longrightarrow> accounted hms st' lost"
  by (auto simp: zfree_def outcome block_of_Inr split: option.splits intro: accounted_remove)

lemma accounted_payload:
  assumes "accounted hms st lost" "blocks st p = Some b" "length pl = length (payload b)"
  shows "accounted hms (st\<lparr>blocks := (blocks st)(p \<mapsto> b\<lparr>payload := pl\<rparr>)\<rparr>) lost"
proof -
  have "block_cost hms q (the (((blocks st)(p \<mapsto> b\<lparr>payload := pl\<rparr>)) q)) = block_cost hms q (the (blocks st q))" for q
    using assms(2,3) by (cases "q = p"; cases hms) (simp_all add: block_cost_def counted_size_def)
  moreover have "dom ((blocks st)(p \<mapsto> b\<lparr>payload := pl\<rparr>)) = dom (blocks st)" using assms(2) by auto
  ultimately show ?thesis using assms(1) by (simp add: accounted_def)
qed

lemma accounted_zstrdup:
  "libc_fresh mal \<Longrightarrow> libc_size hms \<Longrightarrow> accounted hms st lost \<Longrightarrow> zstrdup hms mal st s = Inr (a, st') \<Longrightarrow>
   accounted hms st' lost"
  by (auto simp: zstrdup_def outcome Let_def block_of_Inr split: option.splits
      intro!: accounted_payload dest: mem_write_length accounted_zmalloc)

text \<open>What a call of \<open>zrealloc\<close> takes from \<open>used_memory\<close> although its block stays live.\<close>

definition realloc_lost :: "malloc_size \<Rightarrow> libc_realloc \<Rightarrow> zstate \<Rightarrow> ptr \<Rightarrow> nat \<Rightarrow> 64 word" where
  "realloc_lost hms re st ptr sz =
     (case ptr of
        None \<Rightarrow> 0
      | Some a \<Rightarrow> (if sz = 0 then 0 else case block_of hms st a of
            Inl _ \<Rightarrow> 0
          | Inr (p, b) \<Rightarrow> (if re (blocks st) p (size_t_add sz (PREFIX_SIZE hms)) = None then block_cost hms p b else 0)))"

lemma accounted_zrealloc:
  assumes "libc_fresh mal" "libc_moves re" "libc_size hms" "accounted hms st lost" "zrealloc hms mal re st ptr n = Inr (q, st')"
  shows "accounted hms st' (lost + realloc_lost hms re st ptr n)"
proof (cases "ptr = None \<or> n = 0")
  case True
  with assms show ?thesis
    by (cases ptr) (auto simp: zrealloc_def realloc_lost_def outcome dest: accounted_zmalloc accounted_zfree)
next
  case False
  with assms(5) obtain a p b where a: "ptr = Some a" "block_of hms st a = Inr (p, b)" "blocks st p = Some b"
    by (auto simp: zrealloc_def outcome block_of_Inr)
  let ?free = "update_zmalloc_stat_free (counted_size hms p b) st"
  show ?thesis
  proof (cases "re (blocks st) p (size_t_add n (PREFIX_SIZE hms))")
    case None
    have "accounted hms ?free (lost + block_cost hms p b)"
      using assms(4) by (simp add: accounted_def update_zmalloc_stat_free_def block_cost_def)
    then show ?thesis
      using accounted_oom [OF assms(3)] assms(5) False a None by (auto simp: zrealloc_def realloc_lost_def)
  next
    case (Some r)
    obtain p' bytes where r: "r = (p', bytes)" by fastforce
    have "blocks (?free\<lparr>blocks := (blocks st)(p := None)\<rparr>) p' = None"
      using assms(2) Some r unfolding libc_moves_def by fastforce
    then show ?thesis
      using accounted_install [OF accounted_remove [OF assms(4) a(3)]] assms(5) False a Some r
      by (auto simp: zrealloc_def realloc_lost_def)
  qed
qed

text \<open>The states the program reaches by a sequence of calls from the empty heap, with what the failed calls of
  \<open>zrealloc\<close> took from \<open>used_memory\<close>.\<close>

inductive zreachable ::
  "malloc_size \<Rightarrow> libc_malloc \<Rightarrow> libc_malloc \<Rightarrow> libc_realloc \<Rightarrow> zstate \<Rightarrow> 64 word \<Rightarrow> bool"
  for hms mal cal re where
  start: "zreachable hms mal cal re
            \<lparr>blocks = Map.empty, used_memory = 0, oom_handler_returns = False\<rparr> 0"
| malloc: "zreachable hms mal cal re st lost \<Longrightarrow> zmalloc hms mal st n = Inr (q, st') \<Longrightarrow>
            zreachable hms mal cal re st' lost"
| calloc: "zreachable hms mal cal re st lost \<Longrightarrow> zcalloc hms cal st n = Inr (q, st') \<Longrightarrow>
            zreachable hms mal cal re st' lost"
| realloc: "zreachable hms mal cal re st lost \<Longrightarrow> zrealloc hms mal re st ptr n = Inr (q, st') \<Longrightarrow>
            zreachable hms mal cal re st' (lost + realloc_lost hms re st ptr n)"
| free: "zreachable hms mal cal re st lost \<Longrightarrow> zfree hms st ptr = Inr st' \<Longrightarrow>
            zreachable hms mal cal re st' lost"
| strdup: "zreachable hms mal cal re st lost \<Longrightarrow> zstrdup hms mal st s = Inr (q, st') \<Longrightarrow>
            zreachable hms mal cal re st' lost"
| handler: "zreachable hms mal cal re st lost \<Longrightarrow>
            zreachable hms mal cal re (zmalloc_set_oom_handler returns st) lost"

lemma zreachable_accounted:
  "zreachable hms mal cal re st lost \<Longrightarrow> libc_fresh mal \<Longrightarrow> libc_fresh cal \<Longrightarrow> libc_moves re \<Longrightarrow> libc_size hms \<Longrightarrow>
   accounted hms st lost"
proof (induction rule: zreachable.induct)
  case start
  then show ?case by (simp add: accounted_def)
next
  case (handler st lost returns)
  then show ?case by (simp add: zmalloc_set_oom_handler_def accounted_def)
qed (blast intro: accounted_zmalloc accounted_zcalloc accounted_zrealloc accounted_zfree accounted_zstrdup)+

text \<open>A failed call that returns needs a handler that returns, and a build that does not write through NULL.\<close>

lemma realloc_lost_prefix: "zrealloc None mal re st ptr n = Inr (q, st') \<Longrightarrow> realloc_lost None re st ptr n = 0"
  by (auto simp: zrealloc_def realloc_lost_def zmalloc_oom_def outcome split: option.splits if_splits sum.splits)

lemma zreachable_prefix_lost: "zreachable None mal cal re st lost \<Longrightarrow> lost = 0"
  by (induction rule: zreachable.induct) (simp_all add: realloc_lost_prefix)

section \<open>Properties\<close>

text \<open>C14: in every state reached by allocating, zero-allocating, reallocating, duplicating strings and freeing,
  in both builds and whatever calls of the library fail, \<open>used_memory\<close> is the sum (modulo \<open>2 ^ 64\<close>) over the live
  blocks of what was counted for each, less the sizes of the blocks whose reallocation failed under a handler
  that returned: those are subtracted although the blocks stay live. Without \<open>HAVE_MALLOC_SIZE\<close> there are none
  of these.\<close>

theorem used_memory_accounts_live_blocks:
  assumes "zreachable hms mal cal re st lost" "libc_fresh mal" "libc_fresh cal" "libc_moves re" "libc_size hms"
  shows "finite (dom (blocks st)) \<and>
         used_memory st = (\<Sum>p\<in>dom (blocks st). word_of_nat (counted_size hms p (the (blocks st p)))) - lost \<and>
         (hms = None \<longrightarrow> lost = 0)"
  using zreachable_accounted [OF assms] zreachable_prefix_lost assms(1)
  by (auto simp: accounted_def block_cost_def algebra_simps)

text \<open>A C library for the instances: the first free address in steps of 100, zeroed bytes; blocks larger than
  64 bytes cannot be had from \<open>realloc\<close>; a block is reported six bytes larger than it was asked for.\<close>

definition demo_malloc :: libc_malloc where
  "demo_malloc bs n = (case find (\<lambda>k. bs (100 * k) = None) [1..<9] of
     None \<Rightarrow> None | Some k \<Rightarrow> Some (100 * k, replicate n 0))"

definition demo_realloc :: libc_realloc where
  "demo_realloc bs q n = (if n \<le> 64 then Some (q, replicate n 0) else None)"

definition demo_size :: malloc_size where
  "demo_size = Some (\<lambda>x. case x of None \<Rightarrow> 0 | Some (p, n) \<Rightarrow> n + 6)"

lemma demo_libc: "libc_fresh demo_malloc" "libc_moves demo_realloc" "libc_size demo_size"
  by (auto simp: libc_fresh_def libc_moves_def libc_size_def demo_malloc_def demo_realloc_def demo_size_def find_Some_iff
      split: option.splits if_splits)

definition demo_block :: block where "demo_block = \<lparr>prefix_size = 0, payload = replicate 10 0\<rparr>"

text \<open>A block of ten bytes, and its reallocation to 65 bytes, which fails under a handler that returns.\<close>

lemma demo_reachable:
  "zreachable demo_size demo_malloc demo_malloc demo_realloc
     \<lparr>blocks = [100 \<mapsto> demo_block], used_memory = 16, oom_handler_returns = True\<rparr> 0"
  "zreachable demo_size demo_malloc demo_malloc demo_realloc
     \<lparr>blocks = [100 \<mapsto> demo_block], used_memory = 0, oom_handler_returns = True\<rparr> 16"
proof -
  note defs = PREFIX_SIZE_def size_t_add_def counted_size_def demo_size_def update_zmalloc_stat_alloc_def demo_block_def
  have "zmalloc demo_size demo_malloc \<lparr>blocks = Map.empty, used_memory = 0, oom_handler_returns = False\<rparr> 10 =
      Inr (Some 100, \<lparr>blocks = [100 \<mapsto> demo_block], used_memory = 16, oom_handler_returns = False\<rparr>)"
    by (simp add: zmalloc_def demo_malloc_def install_block_def defs upt_rec)
  from zreachable.handler [OF zreachable.malloc [OF zreachable.start this], where returns = True]
  show st: "zreachable demo_size demo_malloc demo_malloc demo_realloc
     \<lparr>blocks = [100 \<mapsto> demo_block], used_memory = 16, oom_handler_returns = True\<rparr> 0"
    by (simp add: zmalloc_set_oom_handler_def)
  have "zrealloc demo_size demo_malloc demo_realloc
      \<lparr>blocks = [100 \<mapsto> demo_block], used_memory = 16, oom_handler_returns = True\<rparr> (Some 100) 65 =
      Inr (None, \<lparr>blocks = [100 \<mapsto> demo_block], used_memory = 0, oom_handler_returns = True\<rparr>)"
    by (simp add: zrealloc_def block_of_def deref_def demo_realloc_def zmalloc_oom_def update_zmalloc_stat_free_def defs)
  from zreachable.realloc [OF st this]
  show "zreachable demo_size demo_malloc demo_malloc demo_realloc
     \<lparr>blocks = [100 \<mapsto> demo_block], used_memory = 0, oom_handler_returns = True\<rparr> 16"
    by (simp add: realloc_lost_def block_of_def deref_def demo_realloc_def block_cost_def defs)
qed

theorem used_memory_accounts_live_blocks_witness:
  "\<exists>st st'. zreachable demo_size demo_malloc demo_malloc demo_realloc st 0 \<and>
     zreachable demo_size demo_malloc demo_malloc demo_realloc st' 16 \<and> blocks st' = blocks st \<and>
     used_memory st = (\<Sum>p\<in>dom (blocks st). word_of_nat (counted_size demo_size p (the (blocks st p)))) \<and>
     used_memory st' = (\<Sum>p\<in>dom (blocks st'). word_of_nat (counted_size demo_size p (the (blocks st' p)))) - 16 \<and>
     used_memory st = 16"
  using demo_reachable
    used_memory_accounts_live_blocks [OF demo_reachable(1) demo_libc(1) demo_libc(1) demo_libc(2,3)]
    used_memory_accounts_live_blocks [OF demo_reachable(2) demo_libc(1) demo_libc(1) demo_libc(2,3)]
  by (intro exI [of _ "\<lparr>blocks = [100 \<mapsto> demo_block], used_memory = 16, oom_handler_returns = True\<rparr>"]
      exI [of _ "\<lparr>blocks = [100 \<mapsto> demo_block], used_memory = 0, oom_handler_returns = True\<rparr>"]) simp

text \<open>C28: a request so large that adding the prefix wraps makes \<open>zmalloc\<close> write the size outside
  the (tiny) block it got: the sum is not checked.\<close>

theorem zmalloc_size_wrap_overflows:
  assumes "2 ^ 64 - 8 \<le> sz" "sz < 2 ^ 64" "libc_fresh mal"
    "mal (blocks st) (size_t_add sz 8) = Some (p, bytes)"
  shows "zmalloc None mal st sz = Inl OutOfBounds"
proof -
  have "size_t_add sz 8 = sz + 8 - 2 ^ 64"
    using assms(1,2) by (simp add: size_t_add_def mod_if)
  then have "length bytes < 8" using assms by (auto simp: libc_fresh_def)
  then show ?thesis using assms(4) by (simp add: zmalloc_def PREFIX_SIZE_def install_block_def)
qed

theorem zmalloc_size_wrap_overflows_witness:
  "zmalloc None demo_malloc \<lparr>blocks = Map.empty, used_memory = 0, oom_handler_returns = False\<rparr>
     (2 ^ 64 - 1) = Inl OutOfBounds"
  by (rule zmalloc_size_wrap_overflows [OF _ _ demo_libc(1), where p = 100 and bytes = "replicate 7 0"])
    (simp_all add: demo_malloc_def size_t_add_def upt_rec)

end
