(* ===== verification/Sds.thy ===== *)
theory Sds
  imports Prelude
begin

unbundle bit_operations_syntax

text \<open>
  \<open>sds.h\<close> and the first half of \<open>sds.c\<close>: the binary-safe strings. A string is a header, whose
  width depends on the type, followed by a buffer; the header keeps the used length and the
  allocated size in fields of 8, 16, 32 or 64 bits, or the length alone in the upper five bits of
  the flags byte (type 5). Lengths are \<open>size_t\<close>: naturals, with the wrap-around written out where
  the code adds or multiplies. The allocator is a parameter that returns the uninitialised bytes of
  a new block, or NULL. \<open>sds_wf\<close> is the representation invariant, \<open>content\<close> the string a buffer
  stands for.
\<close>

section \<open>Headers\<close>

datatype sds_type = SDS_TYPE_5 | SDS_TYPE_8 | SDS_TYPE_16 | SDS_TYPE_32 | SDS_TYPE_64

text \<open>\<open>struct sdshdr5\<close> (the flags byte) and \<open>struct sdshdr8\<close> to \<open>sdshdr64\<close> (\<open>len\<close>, \<open>alloc\<close>).\<close>

datatype sdshdr =
    Hdr5 "8 word"
  | Hdr8 "8 word" "8 word"
  | Hdr16 "16 word" "16 word"
  | Hdr32 "32 word" "32 word"
  | Hdr64 "64 word" "64 word"

record sds =
  hdr :: sdshdr
  buf :: "byte list"

definition SIZE_MAX :: nat where "SIZE_MAX = 2 ^ 64 - 1"

definition to_size_t :: "nat \<Rightarrow> nat" where "to_size_t n = n mod 2 ^ 64"

definition SDS_MAX_PREALLOC :: nat where "SDS_MAX_PREALLOC = 1024 * 1024"

fun type_of_hdr :: "sdshdr \<Rightarrow> sds_type" where
  "type_of_hdr (Hdr5 f) = SDS_TYPE_5"
| "type_of_hdr (Hdr8 l a) = SDS_TYPE_8"
| "type_of_hdr (Hdr16 l a) = SDS_TYPE_16"
| "type_of_hdr (Hdr32 l a) = SDS_TYPE_32"
| "type_of_hdr (Hdr64 l a) = SDS_TYPE_64"

text \<open>\<open>SDS_TYPE_5_LEN\<close>.\<close>

definition sds_type5_len :: "8 word \<Rightarrow> 8 word" where
  "sds_type5_len f = drop_bit 3 f"

fun hdr_len :: "sdshdr \<Rightarrow> nat" where
  "hdr_len (Hdr5 f) = unat (sds_type5_len f)"
| "hdr_len (Hdr8 l a) = unat l"
| "hdr_len (Hdr16 l a) = unat l"
| "hdr_len (Hdr32 l a) = unat l"
| "hdr_len (Hdr64 l a) = unat l"

definition sdslen :: "sds \<Rightarrow> nat" where
  "sdslen s = hdr_len (hdr s)"

text \<open>\<open>alloc - len\<close>: 8 and 16 bit fields are promoted to \<open>int\<close> and the difference converted to
  \<open>size_t\<close>; 32 and 64 bit fields wrap at their own width.\<close>

fun hdr_avail :: "sdshdr \<Rightarrow> nat" where
  "hdr_avail (Hdr5 f) = 0"
| "hdr_avail (Hdr8 l a) = nat ((uint a - uint l) mod 2 ^ 64)"
| "hdr_avail (Hdr16 l a) = nat ((uint a - uint l) mod 2 ^ 64)"
| "hdr_avail (Hdr32 l a) = unat (a - l)"
| "hdr_avail (Hdr64 l a) = unat (a - l)"

definition sdsavail :: "sds \<Rightarrow> nat" where
  "sdsavail s = hdr_avail (hdr s)"

text \<open>\<open>SDS_TYPE_5 | (n << SDS_TYPE_BITS)\<close> as an unsigned char.\<close>

definition type5_flags :: "nat \<Rightarrow> 8 word" where
  "type5_flags n = word_of_nat (n * 8)"

text \<open>Assignments to the narrower fields truncate.\<close>

fun hdr_setlen :: "sdshdr \<Rightarrow> nat \<Rightarrow> sdshdr" where
  "hdr_setlen (Hdr5 f) n = Hdr5 (type5_flags n)"
| "hdr_setlen (Hdr8 l a) n = Hdr8 (word_of_nat n) a"
| "hdr_setlen (Hdr16 l a) n = Hdr16 (word_of_nat n) a"
| "hdr_setlen (Hdr32 l a) n = Hdr32 (word_of_nat n) a"
| "hdr_setlen (Hdr64 l a) n = Hdr64 (word_of_nat n) a"

definition sdssetlen :: "sds \<Rightarrow> nat \<Rightarrow> sds" where
  "sdssetlen s n = s\<lparr>hdr := hdr_setlen (hdr s) n\<rparr>"

fun hdr_inclen :: "sdshdr \<Rightarrow> nat \<Rightarrow> sdshdr" where
  "hdr_inclen (Hdr5 f) inc = Hdr5 (push_bit 3 (sds_type5_len f + word_of_nat inc))"
| "hdr_inclen (Hdr8 l a) inc = Hdr8 (l + word_of_nat inc) a"
| "hdr_inclen (Hdr16 l a) inc = Hdr16 (l + word_of_nat inc) a"
| "hdr_inclen (Hdr32 l a) inc = Hdr32 (l + word_of_nat inc) a"
| "hdr_inclen (Hdr64 l a) inc = Hdr64 (l + word_of_nat inc) a"

definition sdsinclen :: "sds \<Rightarrow> nat \<Rightarrow> sds" where
  "sdsinclen s inc = s\<lparr>hdr := hdr_inclen (hdr s) inc\<rparr>"

fun hdr_alloc :: "sdshdr \<Rightarrow> nat" where
  "hdr_alloc (Hdr5 f) = unat (sds_type5_len f)"
| "hdr_alloc (Hdr8 l a) = unat a"
| "hdr_alloc (Hdr16 l a) = unat a"
| "hdr_alloc (Hdr32 l a) = unat a"
| "hdr_alloc (Hdr64 l a) = unat a"

definition sdsalloc :: "sds \<Rightarrow> nat" where
  "sdsalloc s = hdr_alloc (hdr s)"

fun hdr_setalloc :: "sdshdr \<Rightarrow> nat \<Rightarrow> sdshdr" where
  "hdr_setalloc (Hdr5 f) n = Hdr5 f"
| "hdr_setalloc (Hdr8 l a) n = Hdr8 l (word_of_nat n)"
| "hdr_setalloc (Hdr16 l a) n = Hdr16 l (word_of_nat n)"
| "hdr_setalloc (Hdr32 l a) n = Hdr32 l (word_of_nat n)"
| "hdr_setalloc (Hdr64 l a) n = Hdr64 l (word_of_nat n)"

definition sdssetalloc :: "sds \<Rightarrow> nat \<Rightarrow> sds" where
  "sdssetalloc s n = s\<lparr>hdr := hdr_setalloc (hdr s) n\<rparr>"

fun sdsHdrSize :: "sds_type \<Rightarrow> nat" where
  "sdsHdrSize SDS_TYPE_5 = 1"
| "sdsHdrSize SDS_TYPE_8 = 3"
| "sdsHdrSize SDS_TYPE_16 = 5"
| "sdsHdrSize SDS_TYPE_32 = 9"
| "sdsHdrSize SDS_TYPE_64 = 17"

text \<open>On a 64 bit target (\<open>LONG_MAX == LLONG_MAX\<close>).\<close>

definition sdsReqType :: "nat \<Rightarrow> sds_type" where
  "sdsReqType n =
     (if n < 2 ^ 5 then SDS_TYPE_5
      else if n < 2 ^ 8 then SDS_TYPE_8
      else if n < 2 ^ 16 then SDS_TYPE_16
      else if n < 2 ^ 32 then SDS_TYPE_32
      else SDS_TYPE_64)"

text \<open>A header of a given type with its fields written.\<close>

fun make_hdr :: "sds_type \<Rightarrow> nat \<Rightarrow> nat \<Rightarrow> sdshdr" where
  "make_hdr SDS_TYPE_5 l a = Hdr5 (type5_flags l)"
| "make_hdr SDS_TYPE_8 l a = Hdr8 (word_of_nat l) (word_of_nat a)"
| "make_hdr SDS_TYPE_16 l a = Hdr16 (word_of_nat l) (word_of_nat a)"
| "make_hdr SDS_TYPE_32 l a = Hdr32 (word_of_nat l) (word_of_nat a)"
| "make_hdr SDS_TYPE_64 l a = Hdr64 (word_of_nat l) (word_of_nat a)"

section \<open>Creation\<close>

text \<open>\<open>s_malloc(n)\<close>: NULL, or the uninitialised bytes of a new block.\<close>

type_synonym s_malloc = "nat \<Rightarrow> byte list option"

text \<open>The \<open>init\<close> argument: \<open>SDS_NOINIT\<close>, NULL, or a pointer to bytes.\<close>

datatype sds_init = NoInit | InitNull | InitBytes "byte list"

text \<open>Empty strings are usually created in order to append, so they get type 8.\<close>

definition new_type :: "nat \<Rightarrow> sds_type" where
  "new_type n = (if sdsReqType n = SDS_TYPE_5 \<and> n = 0 then SDS_TYPE_8 else sdsReqType n)"

definition sdsnewlen :: "s_malloc \<Rightarrow> sds_init \<Rightarrow> nat \<Rightarrow> sds option outcome" where
  "sdsnewlen mal init initlen =
     (let type = new_type initlen;
          hdrlen = sdsHdrSize type;
          n = to_size_t (hdrlen + initlen + 1)
      in case mal n of
           None \<Rightarrow> (if init = InitNull then Inl NullDeref else Inr None)
         | Some raw \<Rightarrow>
             (if length raw < hdrlen then Inl OutOfBounds
              else
                let raw = (if init = InitNull then replicate (length raw) 0 else raw);
                    b = drop hdrlen raw
                in bindE (case init of
                            InitBytes src \<Rightarrow>
                              (if initlen \<noteq> 0
                               then bindE (mem_read src 0 initlen) (\<lambda>xs. mem_write b 0 xs)
                               else Inr b)
                          | _ \<Rightarrow> Inr b) (\<lambda>b.
                   bindE (mem_write b initlen [0]) (\<lambda>b.
                   Inr (Some \<lparr>hdr = make_hdr type initlen initlen, buf = b\<rparr>)))))"

definition sdsempty :: "s_malloc \<Rightarrow> sds option outcome" where
  "sdsempty mal = sdsnewlen mal (InitBytes [0]) 0"

text \<open>\<open>init\<close> is NULL or a zero-terminated array.\<close>

definition sdsnew :: "s_malloc \<Rightarrow> byte list option \<Rightarrow> sds option outcome" where
  "sdsnew mal init =
     (case init of
        None \<Rightarrow> sdsnewlen mal InitNull 0
      | Some cs \<Rightarrow> bindE (strlen cs) (\<lambda>n. sdsnewlen mal (InitBytes cs) n))"

definition sdsdup :: "s_malloc \<Rightarrow> sds \<Rightarrow> sds option outcome" where
  "sdsdup mal s = sdsnewlen mal (InitBytes (buf s)) (sdslen s)"

definition sdsupdatelen :: "sds \<Rightarrow> sds outcome" where
  "sdsupdatelen s = bindE (strlen (buf s)) (\<lambda>n. Inr (sdssetlen s n))"

definition sdsclear :: "sds \<Rightarrow> sds outcome" where
  "sdsclear s = bindE (mem_write (buf s) 0 [0]) (\<lambda>b. Inr ((sdssetlen s 0)\<lparr>buf := b\<rparr>))"

section \<open>Room\<close>

text \<open>\<open>s_realloc\<close> of the whole block, whose first \<open>hdrlen\<close> bytes are the header: the bytes of the
  buffer that fit are kept, new bytes are uninitialised.\<close>

definition s_realloc_buf :: "s_malloc \<Rightarrow> nat \<Rightarrow> byte list \<Rightarrow> nat \<Rightarrow> byte list option outcome" where
  "s_realloc_buf mal hdrlen b n =
     (case mal n of
        None \<Rightarrow> Inr None
      | Some raw \<Rightarrow> (if length raw < hdrlen then Inl OutOfBounds
                     else Inr (Some (take (n - hdrlen) b @ drop (hdrlen + length b) raw))))"

text \<open>The move to a new header type: \<open>s_malloc\<close>, \<open>memcpy\<close> of the string with its terminator.\<close>

definition s_move_buf :: "s_malloc \<Rightarrow> nat \<Rightarrow> byte list \<Rightarrow> nat \<Rightarrow> nat \<Rightarrow> byte list option outcome" where
  "s_move_buf mal hdrlen b n cnt =
     (case mal n of
        None \<Rightarrow> Inr None
      | Some raw \<Rightarrow> (if length raw < hdrlen then Inl OutOfBounds
                     else bindE (mem_read b 0 cnt) (\<lambda>xs.
                          bindE (mem_write (drop hdrlen raw) 0 xs) (\<lambda>b. Inr (Some b)))))"

text \<open>The length \<open>sdsMakeRoomFor\<close> allocates for, and the type it uses: never type 5, which cannot
  remember free space.\<close>

definition prealloc :: "nat \<Rightarrow> nat" where
  "prealloc n = (if n < SDS_MAX_PREALLOC then to_size_t (n * 2) else to_size_t (n + SDS_MAX_PREALLOC))"

definition room_type :: "nat \<Rightarrow> sds_type" where
  "room_type n = (if sdsReqType n = SDS_TYPE_5 then SDS_TYPE_8 else sdsReqType n)"

definition sdsMakeRoomFor :: "s_malloc \<Rightarrow> sds \<Rightarrow> nat \<Rightarrow> sds option outcome" where
  "sdsMakeRoomFor mal s addlen =
     (if addlen \<le> sdsavail s then Inr (Some s)
      else
        let oldtype = type_of_hdr (hdr s);
            len = sdslen s;
            newlen = prealloc (to_size_t (len + addlen));
            type = room_type newlen;
            hdrlen = sdsHdrSize type;
            n = to_size_t (hdrlen + newlen + 1)
        in if oldtype = type
           then bindE (s_realloc_buf mal hdrlen (buf s) n) (\<lambda>r. case r of
                  None \<Rightarrow> Inr None
                | Some b \<Rightarrow> Inr (Some (sdssetalloc (s\<lparr>buf := b\<rparr>) newlen)))
           else bindE (s_move_buf mal hdrlen (buf s) n (len + 1)) (\<lambda>r. case r of
                  None \<Rightarrow> Inr None
                | Some b \<Rightarrow> Inr (Some \<lparr>hdr = make_hdr type len newlen, buf = b\<rparr>)))"

definition type_number :: "sds_type \<Rightarrow> nat" where
  "type_number t = (case t of SDS_TYPE_5 \<Rightarrow> 0 | SDS_TYPE_8 \<Rightarrow> 1 | SDS_TYPE_16 \<Rightarrow> 2
                    | SDS_TYPE_32 \<Rightarrow> 3 | SDS_TYPE_64 \<Rightarrow> 4)"

definition sdsRemoveFreeSpace :: "s_malloc \<Rightarrow> sds \<Rightarrow> sds option outcome" where
  "sdsRemoveFreeSpace mal s =
     (let oldtype = type_of_hdr (hdr s);
          oldhdrlen = sdsHdrSize oldtype;
          len = sdslen s
      in if sdsavail s = 0 then Inr (Some s)
         else
           let type = sdsReqType len;
               hdrlen = sdsHdrSize type
           in if oldtype = type \<or> type_number SDS_TYPE_8 < type_number type
              then bindE (s_realloc_buf mal oldhdrlen (buf s) (to_size_t (oldhdrlen + len + 1)))
                     (\<lambda>r. case r of None \<Rightarrow> Inr None
                          | Some b \<Rightarrow> Inr (Some (sdssetalloc (s\<lparr>buf := b\<rparr>) len)))
              else bindE (s_move_buf mal hdrlen (buf s) (to_size_t (hdrlen + len + 1)) (len + 1))
                     (\<lambda>r. case r of None \<Rightarrow> Inr None
                          | Some b \<Rightarrow> Inr (Some \<lparr>hdr = make_hdr type len len, buf = b\<rparr>)))"

definition sdsAllocSize :: "sds \<Rightarrow> nat" where
  "sdsAllocSize s = to_size_t (sdsHdrSize (type_of_hdr (hdr s)) + sdsalloc s + 1)"

text \<open>\<open>sdsIncrLen\<close> with its assertions; a 5 bit header accepts no increment of zero.\<close>

definition incr_ok :: "sdshdr \<Rightarrow> int \<Rightarrow> bool" where
  "incr_ok h incr =
     (case h of
        Hdr5 f \<Rightarrow> (incr > 0 \<and> int (hdr_len h) + incr < 32) \<or>
                  (incr < 0 \<and> hdr_len h \<ge> nat ((- incr) mod 2 ^ 32))
      | Hdr8 l a \<Rightarrow> (incr \<ge> 0 \<and> uint a - uint l \<ge> incr) \<or>
                    (incr < 0 \<and> hdr_len h \<ge> nat ((- incr) mod 2 ^ 32))
      | Hdr16 l a \<Rightarrow> (incr \<ge> 0 \<and> uint a - uint l \<ge> incr) \<or>
                     (incr < 0 \<and> hdr_len h \<ge> nat ((- incr) mod 2 ^ 32))
      | Hdr32 l a \<Rightarrow> (incr \<ge> 0 \<and> unat (a - l) \<ge> nat (incr mod 2 ^ 32)) \<or>
                     (incr < 0 \<and> hdr_len h \<ge> nat ((- incr) mod 2 ^ 32))
      | Hdr64 l a \<Rightarrow> (incr \<ge> 0 \<and> unat (a - l) \<ge> nat incr) \<or>
                     (incr < 0 \<and> hdr_len h \<ge> nat (- incr)))"

fun hdr_incr :: "sdshdr \<Rightarrow> int \<Rightarrow> sdshdr" where
  "hdr_incr (Hdr5 f) incr = Hdr5 (push_bit 3 (sds_type5_len f + word_of_int incr))"
| "hdr_incr (Hdr8 l a) incr = Hdr8 (l + word_of_int incr) a"
| "hdr_incr (Hdr16 l a) incr = Hdr16 (l + word_of_int incr) a"
| "hdr_incr (Hdr32 l a) incr = Hdr32 (l + word_of_int incr) a"
| "hdr_incr (Hdr64 l a) incr = Hdr64 (l + word_of_int incr) a"

definition sdsIncrLen :: "sds \<Rightarrow> int \<Rightarrow> sds outcome" where
  "sdsIncrLen s incr =
     (if incr_ok (hdr s) incr
      then let s = s\<lparr>hdr := hdr_incr (hdr s) incr\<rparr>
           in bindE (mem_write (buf s) (sdslen s) [0]) (\<lambda>b. Inr (s\<lparr>buf := b\<rparr>))
      else Inl AssertFailed)"

section \<open>Appending and copying\<close>

text \<open>NULL from the allocator is passed on.\<close>

definition bind_sds :: "sds option outcome \<Rightarrow> (sds \<Rightarrow> sds option outcome) \<Rightarrow> sds option outcome" where
  "bind_sds x f = bindE x (\<lambda>r. case r of None \<Rightarrow> Inr None | Some s \<Rightarrow> f s)"

definition sdsgrowzero :: "s_malloc \<Rightarrow> sds \<Rightarrow> nat \<Rightarrow> sds option outcome" where
  "sdsgrowzero mal s len =
     (let curlen = sdslen s in
      if len \<le> curlen then Inr (Some s)
      else bind_sds (sdsMakeRoomFor mal s (len - curlen)) (\<lambda>s.
           bindE (mem_write (buf s) curlen (replicate (to_size_t (len - curlen + 1)) 0)) (\<lambda>b.
           Inr (Some (sdssetlen (s\<lparr>buf := b\<rparr>) len)))))"

definition sdscatlen :: "s_malloc \<Rightarrow> sds \<Rightarrow> byte list \<Rightarrow> nat \<Rightarrow> sds option outcome" where
  "sdscatlen mal s t len =
     (let curlen = sdslen s in
      bind_sds (sdsMakeRoomFor mal s len) (\<lambda>s.
      bindE (mem_read t 0 len) (\<lambda>xs.
      bindE (mem_write (buf s) curlen xs) (\<lambda>b.
      let s = sdssetlen (s\<lparr>buf := b\<rparr>) (to_size_t (curlen + len)) in
      bindE (mem_write (buf s) (to_size_t (curlen + len)) [0]) (\<lambda>b.
      Inr (Some (s\<lparr>buf := b\<rparr>)))))))"

definition sdscat :: "s_malloc \<Rightarrow> sds \<Rightarrow> byte list \<Rightarrow> sds option outcome" where
  "sdscat mal s t = bindE (strlen t) (\<lambda>n. sdscatlen mal s t n)"

definition sdscatsds :: "s_malloc \<Rightarrow> sds \<Rightarrow> sds \<Rightarrow> sds option outcome" where
  "sdscatsds mal s t = sdscatlen mal s (buf t) (sdslen t)"

definition sdscpylen :: "s_malloc \<Rightarrow> sds \<Rightarrow> byte list \<Rightarrow> nat \<Rightarrow> sds option outcome" where
  "sdscpylen mal s t len =
     bind_sds (if sdsalloc s < len then sdsMakeRoomFor mal s (to_size_t (len + 2 ^ 64 - sdslen s))
               else Inr (Some s)) (\<lambda>s.
     bindE (mem_read t 0 len) (\<lambda>xs.
     bindE (mem_write (buf s) 0 xs) (\<lambda>b.
     bindE (mem_write b len [0]) (\<lambda>b.
     Inr (Some (sdssetlen (s\<lparr>buf := b\<rparr>) len))))))"

definition sdscpy :: "s_malloc \<Rightarrow> sds \<Rightarrow> byte list \<Rightarrow> sds option outcome" where
  "sdscpy mal s t = bindE (strlen t) (\<lambda>n. sdscpylen mal s t n)"

section \<open>Representation invariant\<close>

definition sds_wf :: "sds \<Rightarrow> bool" where
  "sds_wf s \<longleftrightarrow> sdslen s \<le> sdsalloc s \<and> sdsalloc s < length (buf s) \<and> buf s ! sdslen s = 0"

text \<open>While an operation writes behind the string there may be no terminator.\<close>

definition sds_open :: "sds \<Rightarrow> bool" where
  "sds_open s \<longleftrightarrow> sdslen s \<le> sdsalloc s \<and> sdsalloc s < length (buf s)"

definition content :: "sds \<Rightarrow> byte list" where
  "content s = take (sdslen s) (buf s)"

text \<open>What the allocator promises: a block of the requested size.\<close>

definition malloc_ok :: "s_malloc \<Rightarrow> bool" where
  "malloc_ok mal \<longleftrightarrow> (\<forall>n raw. mal n = Some raw \<longrightarrow> length raw = n)"

lemma malloc_okD: "malloc_ok mal \<Longrightarrow> mal n = Some raw \<Longrightarrow> length raw = n"
  by (simp add: malloc_ok_def)

fun type_max :: "sds_type \<Rightarrow> nat" where
  "type_max SDS_TYPE_5 = 2 ^ 5 - 1"
| "type_max SDS_TYPE_8 = 2 ^ 8 - 1"
| "type_max SDS_TYPE_16 = 2 ^ 16 - 1"
| "type_max SDS_TYPE_32 = 2 ^ 32 - 1"
| "type_max SDS_TYPE_64 = 2 ^ 64 - 1"

named_theorems header "fields of string headers"

lemma unat_type5_len: "unat (sds_type5_len f) = unat f div 8"
  unfolding sds_type5_len_def unat_drop_bit_eq by (simp add: drop_bit_eq_div)

lemma unat_type5_len_flags: "n < 32 \<Longrightarrow> unat (sds_type5_len (type5_flags n)) = n"
  unfolding unat_type5_len type5_flags_def unat_of_nat by simp

lemma hdr_len_setlen [header]:
  "n \<le> type_max (type_of_hdr h) \<Longrightarrow> hdr_len (hdr_setlen h n) = n"
  by (cases h) (simp_all add: unat_type5_len_flags unat_of_nat)

lemma hdr_alloc_setlen [header]:
  "hdr_alloc (hdr_setlen h n) =
     (if type_of_hdr h = SDS_TYPE_5 then hdr_len (hdr_setlen h n) else hdr_alloc h)"
  by (cases h) auto

lemma type_of_hdr_setlen [simp]: "type_of_hdr (hdr_setlen h n) = type_of_hdr h"
  by (cases h) auto

lemma type_of_hdr_setalloc [simp]: "type_of_hdr (hdr_setalloc h n) = type_of_hdr h"
  by (cases h) auto

lemma hdr_len_setalloc [header]: "hdr_len (hdr_setalloc h n) = hdr_len h"
  by (cases h) auto

lemma hdr_alloc_setalloc [header]:
  "type_of_hdr h \<noteq> SDS_TYPE_5 \<Longrightarrow> n \<le> type_max (type_of_hdr h) \<Longrightarrow> hdr_alloc (hdr_setalloc h n) = n"
  by (cases h) (simp_all add: unat_of_nat)

lemma hdr_len_make [header]: "l \<le> type_max t \<Longrightarrow> hdr_len (make_hdr t l a) = l"
  by (cases t) (simp_all add: unat_type5_len_flags unat_of_nat)

lemma hdr_alloc_make [header]:
  "l \<le> type_max t \<Longrightarrow> a \<le> type_max t \<Longrightarrow>
   hdr_alloc (make_hdr t l a) = (if t = SDS_TYPE_5 then l else a)"
  by (cases t) (simp_all add: unat_type5_len_flags unat_of_nat)

lemma type_of_make [simp]: "type_of_hdr (make_hdr t l a) = t"
  by (cases t) auto

lemma hdr_alloc_le_max: "hdr_alloc h \<le> type_max (type_of_hdr h)"
proof (cases h)
  case (Hdr5 f)
  have "unat (sds_type5_len f) < 32"
    using unat_byte_less [of f] unfolding unat_type5_len by linarith
  with Hdr5 show ?thesis by simp
next
  case (Hdr8 l a)
  then show ?thesis using unsigned_less [of a, where ?'a = nat] by simp
next
  case (Hdr16 l a)
  then show ?thesis using unsigned_less [of a, where ?'a = nat] by simp
next
  case (Hdr32 l a)
  then show ?thesis using unsigned_less [of a, where ?'a = nat] by simp
next
  case (Hdr64 l a)
  then show ?thesis using unsigned_less [of a, where ?'a = nat] by simp
qed

lemma type5_alloc: "type_of_hdr h = SDS_TYPE_5 \<Longrightarrow> hdr_alloc h = hdr_len h"
  by (cases h) auto

lemma promoted_difference:
  "(l :: nat) \<le> a \<Longrightarrow> a < 2 ^ 16 \<Longrightarrow> nat ((int a - int l) mod 2 ^ 64) = a - l"
  by (simp flip: of_nat_diff)

lemma hdr_avail_eq:
  assumes "hdr_len h \<le> hdr_alloc h"
  shows "hdr_avail h = hdr_alloc h - hdr_len h"
proof (cases h)
  case (Hdr8 l a)
  have "unat a < 2 ^ 16" using unat_byte_less [of a] by simp
  moreover have "unat l \<le> unat a" using assms Hdr8 by simp
  ultimately show ?thesis
    unfolding Hdr8 hdr_avail.simps hdr_alloc.simps hdr_len.simps uint_nat
    by (intro promoted_difference)
next
  case (Hdr16 l a)
  have "unat a < 2 ^ 16" using unsigned_less [of a, where ?'a = nat] by simp
  moreover have "unat l \<le> unat a" using assms Hdr16 by simp
  ultimately show ?thesis
    unfolding Hdr16 hdr_avail.simps hdr_alloc.simps hdr_len.simps uint_nat
    by (intro promoted_difference)
next
  case (Hdr32 l a)
  with assms show ?thesis by (simp add: unat_sub word_le_nat_alt)
next
  case (Hdr64 l a)
  with assms show ?thesis by (simp add: unat_sub word_le_nat_alt)
qed simp

lemma sdsReqType_fits: "n < 2 ^ 64 \<Longrightarrow> n \<le> type_max (sdsReqType n)"
  by (auto simp: sdsReqType_def)

lemma sdsHdrSize_bounds: "1 \<le> sdsHdrSize t \<and> sdsHdrSize t \<le> 17"
  by (cases t) auto

lemma sds_wf_open: "sds_wf s \<Longrightarrow> sds_open s"
  by (simp add: sds_wf_def sds_open_def)

lemma sdsavail_open: "sds_open s \<Longrightarrow> sdsavail s = sdsalloc s - sdslen s"
  by (simp add: sds_open_def sdsavail_def sdsalloc_def sdslen_def hdr_avail_eq)

lemma sdsavail_wf: "sds_wf s \<Longrightarrow> sdsavail s = sdsalloc s - sdslen s"
  by (rule sdsavail_open [OF sds_wf_open])

lemma sds_wf_le: "sds_wf s \<Longrightarrow> sdslen s \<le> sdsalloc s"
  by (simp add: sds_wf_def)

lemma length_content: "sds_wf s \<Longrightarrow> length (content s) = sdslen s"
  by (simp add: sds_wf_def content_def)

section \<open>Results of allocating operations\<close>

text \<open>
  \<open>returns mal r P\<close>: the operation returned NULL because the allocator did, or a string that
  satisfies \<open>P\<close>; in no case did it fault. \<open>yields\<close> asks for a well-formed string as well.
\<close>

definition returns :: "s_malloc \<Rightarrow> sds option outcome \<Rightarrow> (sds \<Rightarrow> bool) \<Rightarrow> bool" where
  "returns mal r P \<longleftrightarrow> (r = Inr None \<and> (\<exists>n. mal n = None)) \<or> (\<exists>s. r = Inr (Some s) \<and> P s)"

definition yields :: "s_malloc \<Rightarrow> sds option outcome \<Rightarrow> (sds \<Rightarrow> bool) \<Rightarrow> bool" where
  "yields mal r P \<longleftrightarrow> returns mal r (\<lambda>s. sds_wf s \<and> P s)"

lemma returns_Some [simp]: "returns mal (Inr (Some s)) P \<longleftrightarrow> P s"
  by (simp add: returns_def)

lemma returns_None [simp]: "returns mal (Inr None) P \<longleftrightarrow> (\<exists>n. mal n = None)"
  by (simp add: returns_def)

lemma returns_bind:
  "returns mal r P \<Longrightarrow> (\<And>s. P s \<Longrightarrow> returns mal (f s) Q) \<Longrightarrow> returns mal (bind_sds r f) Q"
  unfolding returns_def bind_sds_def by fastforce

lemma returns_mono: "returns mal r P \<Longrightarrow> (\<And>s. P s \<Longrightarrow> Q s) \<Longrightarrow> returns mal r Q"
  by (auto simp: returns_def)

lemma returns_full: "returns mal r P \<Longrightarrow> \<forall>n. mal n \<noteq> None \<Longrightarrow> \<exists>s. r = Inr (Some s) \<and> P s"
  by (auto simp: returns_def)

lemma yields_Some [simp]: "yields mal (Inr (Some s)) P \<longleftrightarrow> sds_wf s \<and> P s"
  by (simp add: yields_def)

lemma yields_None [simp]: "yields mal (Inr None) P \<longleftrightarrow> (\<exists>n. mal n = None)"
  by (simp add: yields_def)

lemma yields_bind:
  "yields mal r P \<Longrightarrow> (\<And>s. sds_wf s \<Longrightarrow> P s \<Longrightarrow> yields mal (f s) Q) \<Longrightarrow> yields mal (bind_sds r f) Q"
  unfolding yields_def by (erule returns_bind) auto

lemma yields_mono: "yields mal r P \<Longrightarrow> (\<And>s. sds_wf s \<Longrightarrow> P s \<Longrightarrow> Q s) \<Longrightarrow> yields mal r Q"
  unfolding yields_def by (erule returns_mono) auto

lemma yields_full: "yields mal r P \<Longrightarrow> \<forall>n. mal n \<noteq> None \<Longrightarrow> \<exists>s. r = Inr (Some s) \<and> sds_wf s \<and> P s"
  unfolding yields_def by (rule returns_full)

lemma to_size_t_id [simp]: "n < 2 ^ 64 \<Longrightarrow> to_size_t n = n"
  by (simp add: to_size_t_def)

section \<open>Creation is correct\<close>

lemma new_type_fits:
  assumes "n < 2 ^ 63"
  shows "n \<le> type_max (new_type n)"
    "to_size_t (sdsHdrSize (new_type n) + n + 1) = sdsHdrSize (new_type n) + n + 1"
  using assms sdsReqType_fits [of n] sdsHdrSize_bounds [of "new_type n"] by (auto simp: new_type_def)

lemma sds_wf_make:
  assumes "n \<le> type_max t" "a \<le> type_max t" "n \<le> a" "a < length b" "b ! n = 0"
  shows "sds_wf \<lparr>hdr = make_hdr t n a, buf = b\<rparr>" "content \<lparr>hdr = make_hdr t n a, buf = b\<rparr> = take n b"
  using assms by (auto simp: sds_wf_def content_def sdslen_def sdsalloc_def header)

lemma sdsnewlen_bytes:
  assumes "malloc_ok mal" "n < 2 ^ 63" "n \<le> length src"
  shows "yields mal (sdsnewlen mal (InitBytes src) n) (\<lambda>s. content s = take n src)"
proof -
  note t = new_type_fits [OF assms(2)]
  show ?thesis
  proof (cases "mal (sdsHdrSize (new_type n) + n + 1)")
    case None
    then show ?thesis unfolding sdsnewlen_def Let_def t(2) by auto
  next
    case (Some raw)
    with assms(1) have l: "length raw = sdsHdrSize (new_type n) + n + 1" by (rule malloc_okD)
    have "sdsnewlen mal (InitBytes src) n =
        Inr (Some \<lparr>hdr = make_hdr (new_type n) n n, buf = take n src @ [0]\<rparr>)"
      unfolding sdsnewlen_def Let_def t(2)
      using Some l assms(3) by (simp add: mem)
    then show ?thesis
      using sds_wf_make [OF t(1) t(1), of "take n src @ [0]"] assms(3) by (simp add: nth_append)
  qed
qed

lemma sdsnewlen_null:
  assumes "malloc_ok mal" "n < 2 ^ 63" "\<forall>k. mal k \<noteq> None"
  shows "yields mal (sdsnewlen mal InitNull n) (\<lambda>s. content s = replicate n 0)"
proof -
  note t = new_type_fits [OF assms(2)]
  obtain raw where Some: "mal (sdsHdrSize (new_type n) + n + 1) = Some raw" using assms(3) by blast
  with assms(1) have l: "length raw = sdsHdrSize (new_type n) + n + 1" by (rule malloc_okD)
  have "sdsnewlen mal InitNull n =
      Inr (Some \<lparr>hdr = make_hdr (new_type n) n n, buf = replicate n 0 @ [0]\<rparr>)"
    unfolding sdsnewlen_def Let_def t(2) using Some l by (simp add: mem del: replicate.simps)
  then show ?thesis
    using sds_wf_make [OF t(1) t(1), of "replicate n 0 @ [0]"] by (simp add: nth_append)
qed

section \<open>Growing is correct\<close>

text \<open>Reallocating a buffer, or moving it, and storing a new header: NULL from the allocator is passed
  on, otherwise the string is built from a buffer of the new size that keeps the first bytes.\<close>

lemma s_realloc_returns:
  assumes "malloc_ok mal" "k \<le> length b" "k \<le> m + 1"
    "\<And>b'. length b' = m + 1 \<Longrightarrow> take k b' = take k b \<Longrightarrow> P (g b')"
  shows "returns mal (bindE (s_realloc_buf mal h b (h + m + 1))
           (\<lambda>r. case r of None \<Rightarrow> Inr None | Some b \<Rightarrow> Inr (Some (g b)))) P"
proof (cases "mal (h + m + 1)")
  case (Some raw)
  with assms(1) have "length raw = h + m + 1" by (rule malloc_okD)
  with Some show ?thesis
    using assms(2,3) assms(4) [of "take (m + 1) b @ drop (h + length b) raw"]
    by (auto simp: s_realloc_buf_def min_def)
qed (auto simp: s_realloc_buf_def)

lemma s_move_returns:
  assumes "malloc_ok mal" "k \<le> length b" "k \<le> m + 1"
    "\<And>b'. length b' = m + 1 \<Longrightarrow> take k b' = take k b \<Longrightarrow> P (g b')"
  shows "returns mal (bindE (s_move_buf mal h b (h + m + 1) k)
           (\<lambda>r. case r of None \<Rightarrow> Inr None | Some b \<Rightarrow> Inr (Some (g b)))) P"
proof (cases "mal (h + m + 1)")
  case (Some raw)
  with assms(1) have "length raw = h + m + 1" by (rule malloc_okD)
  with Some show ?thesis
    using assms(2,3) assms(4) [of "take k b @ drop (h + k) raw"]
    by (auto simp: s_move_buf_def mem min_def add.commute)
qed (auto simp: s_move_buf_def)

lemma take_Suc_nth: "take (Suc k) xs = take (Suc k) ys \<Longrightarrow> k < length xs \<Longrightarrow> k < length ys \<Longrightarrow>
    take k xs = take k ys \<and> xs ! k = ys ! k"
  by (simp add: take_Suc_conv_app_nth)

lemma room_type_fits:
  assumes "n < 2 ^ 63"
  shows "prealloc n < 2 ^ 64 - 20" "n \<le> prealloc n" "prealloc n \<le> type_max (room_type (prealloc n))"
    "room_type (prealloc n) \<noteq> SDS_TYPE_5"
proof -
  show p: "prealloc n < 2 ^ 64 - 20" "n \<le> prealloc n"
    using assms by (auto simp: prealloc_def SDS_MAX_PREALLOC_def)
  then have "prealloc n \<le> type_max (sdsReqType (prealloc n))" by (intro sdsReqType_fits) simp
  then show "prealloc n \<le> type_max (room_type (prealloc n))" "room_type (prealloc n) \<noteq> SDS_TYPE_5"
    by (auto simp: room_type_def)
qed

text \<open>The string after its buffer was reallocated in place, or moved under a new header: the bytes
  up to the terminator are the old ones.\<close>

lemma grown_same_type:
  assumes "sds_open s" "type_of_hdr (hdr s) \<noteq> SDS_TYPE_5" "m \<le> type_max (type_of_hdr (hdr s))"
    "sdslen s \<le> m" "length b = m + 1"
  defines "s' \<equiv> sdssetalloc (s\<lparr>buf := b\<rparr>) m"
  shows "sds_open s'" "buf s' = b" "sdslen s' = sdslen s" "sdsavail s' = m - sdslen s"
  using assms(2-5)
  by (simp_all add: s'_def sds_open_def sdssetalloc_def sdslen_def sdsalloc_def sdsavail_def header hdr_avail_eq)

lemma grown_new_type:
  assumes "m \<le> type_max t" "t = SDS_TYPE_5 \<longrightarrow> m = sdslen s" "sdslen s \<le> m" "length b = m + 1"
  defines "s' \<equiv> \<lparr>hdr = make_hdr t (sdslen s) m, buf = b\<rparr>"
  shows "sds_open s'" "buf s' = b" "sdslen s' = sdslen s" "sdsavail s' = m - sdslen s"
  using assms(1-4)
  by (auto simp: s'_def sds_open_def sdslen_def sdsalloc_def sdsavail_def header hdr_avail_eq)

text \<open>A string that keeps the bytes of a well-formed one up to the terminator is well formed.\<close>

lemma kept_wf:
  assumes "sds_wf s" "sds_open s'" "sdslen s' = sdslen s"
    "take (Suc (sdslen s)) (buf s') = take (Suc (sdslen s)) (buf s)"
  shows "sds_wf s' \<and> content s' = content s"
  using take_Suc_nth [OF assms(4)] assms(1-3) by (auto simp: sds_wf_def sds_open_def content_def)

lemma sdsMakeRoomFor_open:
  assumes "malloc_ok mal" "sds_open s" "sdslen s + addlen < 2 ^ 63"
  shows "returns mal (sdsMakeRoomFor mal s addlen)
           (\<lambda>s'. sds_open s' \<and> sdslen s' = sdslen s \<and> addlen \<le> sdsavail s' \<and>
                 take (Suc (sdslen s)) (buf s') = take (Suc (sdslen s)) (buf s))"
proof (cases "addlen \<le> sdsavail s")
  case True
  then show ?thesis using assms(2) by (simp add: sdsMakeRoomFor_def)
next
  case False
  let ?m = "prealloc (sdslen s + addlen)"
  let ?t = "room_type ?m"
  note r = room_type_fits [OF assms(3)]
  have n: "to_size_t (sdslen s + addlen) = sdslen s + addlen"
    "to_size_t (sdsHdrSize ?t + ?m + 1) = sdsHdrSize ?t + ?m + 1"
    using assms(3) r(1) sdsHdrSize_bounds [of ?t] by simp_all
  note unfold = sdsMakeRoomFor_def Let_def n if_not_P [OF False]
  have len: "sdslen s \<le> ?m" "sdslen s + 1 \<le> length (buf s)"
    using r(2) assms(2) by (auto simp: sds_open_def)
  show ?thesis
  proof (cases "type_of_hdr (hdr s) = ?t")
    case True
    show ?thesis unfolding unfold if_P [OF True]
      by (rule s_realloc_returns [OF assms(1), where k = "Suc (sdslen s)"])
        (use grown_same_type [OF assms(2), of ?m] True r len in simp_all)
  next
    case type: False
    show ?thesis unfolding unfold if_not_P [OF type]
      by (rule s_move_returns [OF assms(1)])
        (use grown_new_type [OF r(3)] r len in simp_all)
  qed
qed

lemma sdsMakeRoomFor_correct:
  assumes "malloc_ok mal" "sds_wf s" "sdslen s + addlen < 2 ^ 63"
  shows "yields mal (sdsMakeRoomFor mal s addlen)
           (\<lambda>s'. content s' = content s \<and> sdslen s' = sdslen s \<and> addlen \<le> sdsavail s')"
  unfolding yields_def
  by (rule returns_mono [OF sdsMakeRoomFor_open [OF assms(1) sds_wf_open [OF assms(2)] assms(3)]])
    (use kept_wf [OF assms(2)] in simp)

section \<open>Writing into a string is correct\<close>

text \<open>Every writer ends the same way: the first \<open>k\<close> bytes are kept, \<open>xs\<close> and a terminator follow, the
  length is set.\<close>

lemma put_correct:
  assumes "sds_wf s" "k \<le> sdslen s" "k + length xs \<le> sdsalloc s"
  defines "s' \<equiv> sdssetlen (s\<lparr>buf := take k (buf s) @ xs @ 0 # drop (k + length xs + 1) (buf s)\<rparr>) (k + length xs)"
  shows "sds_wf s'" "content s' = take k (content s) @ xs"
proof -
  have "k + length xs \<le> type_max (type_of_hdr (hdr s))"
    using assms(3) hdr_alloc_le_max [of "hdr s"] by (simp add: sdsalloc_def)
  then have l: "sdslen s' = k + length xs" by (simp add: s'_def sdslen_def sdssetlen_def header)
  have "sdsalloc s' = (if type_of_hdr (hdr s) = SDS_TYPE_5 then k + length xs else sdsalloc s)"
    using l by (simp add: s'_def sdsalloc_def sdslen_def sdssetlen_def header)
  then show "sds_wf s'" "content s' = take k (content s) @ xs"
    using l assms(1-3)
    by (auto simp: sds_wf_def content_def s'_def sdssetlen_def nth_append min_def)
qed

lemma set_content:
  assumes "sds_open s" "length b = length (buf s)" "n \<le> sdsalloc s"
  defines "s' \<equiv> sdssetlen (s\<lparr>buf := take n b @ 0 # drop (Suc n) b\<rparr>) n"
  shows "sds_wf s'" "content s' = take n b"
proof -
  have "n \<le> type_max (type_of_hdr (hdr s))"
    using assms(3) hdr_alloc_le_max [of "hdr s"] by (simp add: sdsalloc_def)
  then have l: "sdslen s' = n" by (simp add: s'_def sdslen_def sdssetlen_def header)
  have "sdsalloc s' = (if type_of_hdr (hdr s) = SDS_TYPE_5 then n else sdsalloc s)"
    using l by (simp add: s'_def sdsalloc_def sdslen_def sdssetlen_def header)
  then show "sds_wf s'" "content s' = take n b"
    using l assms(1-3)
    by (auto simp: sds_open_def sds_wf_def content_def s'_def sdssetlen_def nth_append min_def)
qed

lemma sds_hdr_buf_commute [simp]: "s\<lparr>hdr := h, buf := b\<rparr> = s\<lparr>buf := b, hdr := h\<rparr>"
  by simp

lemma sdscatlen_correct:
  assumes "malloc_ok mal" "sds_wf s" "len \<le> length t" "sdslen s + len < 2 ^ 63"
  shows "yields mal (sdscatlen mal s t len) (\<lambda>s'. content s' = content s @ take len t)"
  unfolding sdscatlen_def Let_def
proof (rule yields_bind [OF sdsMakeRoomFor_correct [OF assms(1,2,4)]])
  fix s' assume s': "sds_wf s'" "content s' = content s \<and> sdslen s' = sdslen s \<and> len \<le> sdsavail s'"
  then have "sdslen s + length (take len t) \<le> sdsalloc s'" "sdsalloc s' < length (buf s')"
    using sdsavail_wf [OF s'(1)] assms(3) by (auto simp: sds_wf_def)
  moreover have "length (content s) = sdslen s" by (rule length_content [OF assms(2)])
  ultimately show "yields mal
      (bindE (mem_read t 0 len) (\<lambda>xs. bindE (mem_write (buf s') (sdslen s) xs) (\<lambda>b.
       bindE (mem_write (buf (sdssetlen (s'\<lparr>buf := b\<rparr>) (to_size_t (sdslen s + len)))) (to_size_t (sdslen s + len)) [0])
         (\<lambda>ba. Inr (Some (sdssetlen (s'\<lparr>buf := b\<rparr>) (to_size_t (sdslen s + len))\<lparr>buf := ba\<rparr>))))))
      (\<lambda>s'. content s' = content s @ take len t)"
    using put_correct [OF s'(1), of "sdslen s" "take len t"] s' assms(3,4)
    by (simp add: mem sdssetlen_def)
qed

lemma sdsgrowzero_correct:
  assumes "malloc_ok mal" "sds_wf s" "len < 2 ^ 63"
  shows "yields mal (sdsgrowzero mal s len)
           (\<lambda>s'. content s' = content s @ replicate (len - sdslen s) 0)"
proof (cases "len \<le> sdslen s")
  case True
  then show ?thesis using assms(2) by (simp add: sdsgrowzero_def)
next
  case False
  then have "sdslen s + (len - sdslen s) < 2 ^ 63" using assms(3) by simp
  note room = sdsMakeRoomFor_correct [OF assms(1,2) this]
  have sz: "to_size_t (len - sdslen s + 1) = Suc (len - sdslen s)" using assms(3) by simp
  show ?thesis
    unfolding sdsgrowzero_def Let_def if_not_P [OF False] sz
  proof (rule yields_bind [OF room])
    fix s' assume s': "sds_wf s'" "content s' = content s \<and> sdslen s' = sdslen s \<and> len - sdslen s \<le> sdsavail s'"
    then have "len \<le> sdsalloc s'" "sdsalloc s' < length (buf s')"
      using sdsavail_wf [OF s'(1)] by (auto simp: sds_wf_def)
    moreover have "replicate (Suc (len - sdslen s)) (0 :: byte) = replicate (len - sdslen s) 0 @ [0]"
      by (simp add: replicate_append_same)
    moreover have "length (content s) = sdslen s" by (rule length_content [OF assms(2)])
    ultimately show "yields mal
        (bindE (mem_write (buf s') (sdslen s) (replicate (Suc (len - sdslen s)) 0))
          (\<lambda>b. Inr (Some (sdssetlen (s'\<lparr>buf := b\<rparr>) len))))
        (\<lambda>s'. content s' = content s @ replicate (len - sdslen s) 0)"
      using put_correct [OF s'(1), of "sdslen s" "replicate (len - sdslen s) 0"] s' False
      by (simp add: mem del: replicate.simps)
  qed
qed

lemma sdscpylen_correct:
  assumes "malloc_ok mal" "sds_wf s" "len \<le> length t" "len < 2 ^ 63"
  shows "yields mal (sdscpylen mal s t len) (\<lambda>s'. content s' = take len t)"
  unfolding sdscpylen_def
proof (rule yields_bind [where P = "\<lambda>s'. len \<le> sdsalloc s'"])
  show "yields mal (if sdsalloc s < len then sdsMakeRoomFor mal s (to_size_t (len + 2 ^ 64 - sdslen s))
          else Inr (Some s)) (\<lambda>s'. len \<le> sdsalloc s')"
  proof (cases "sdsalloc s < len")
    case True
    then have l: "sdslen s \<le> len" using assms(2) by (simp add: sds_wf_def)
    then have "len + 2 ^ 64 - sdslen s = (len - sdslen s) + 2 ^ 64" by simp
    then have sz: "to_size_t (len + 2 ^ 64 - sdslen s) = len - sdslen s"
      using assms(4) unfolding to_size_t_def by (simp only: mod_add_self2) simp
    have "sdslen s + (len - sdslen s) < 2 ^ 63" using l assms(4) by simp
    from sdsMakeRoomFor_correct [OF assms(1,2) this] show ?thesis
      unfolding if_P [OF True] sz by (rule yields_mono) (use l in \<open>auto simp: sdsavail_wf dest: sds_wf_le\<close>)
  qed (use assms(2) in simp)
next
  fix s' assume s': "sds_wf s'" "len \<le> sdsalloc s'"
  then have "len < length (buf s')" by (simp add: sds_wf_def)
  then show "yields mal (bindE (mem_read t 0 len) (\<lambda>xs. bindE (mem_write (buf s') 0 xs) (\<lambda>b.
      bindE (mem_write b len [0]) (\<lambda>b. Inr (Some (sdssetlen (s'\<lparr>buf := b\<rparr>) len))))))
      (\<lambda>s'. content s' = take len t)"
    using put_correct [OF s'(1), of 0 "take len t"] s' assms(3) by (simp add: mem)
qed

text \<open>\<open>sdsRemoveFreeSpace\<close> keeps the string and leaves no free space.\<close>

lemma sdsRemoveFreeSpace_correct:
  assumes "malloc_ok mal" "sds_wf s" "sdslen s < 2 ^ 63"
  shows "yields mal (sdsRemoveFreeSpace mal s) (\<lambda>s'. content s' = content s \<and> sdsavail s' = 0)"
proof (cases "sdsavail s = 0")
  case True
  then show ?thesis using assms(2) by (simp add: sdsRemoveFreeSpace_def)
next
  case False
  let ?o = "type_of_hdr (hdr s)" and ?t = "sdsReqType (sdslen s)"
  note unfold = sdsRemoveFreeSpace_def Let_def if_not_P [OF False]
  have op: "sds_open s" by (rule sds_wf_open [OF assms(2)])
  have o: "?o \<noteq> SDS_TYPE_5" using False by (cases "hdr s") (auto simp: sdsavail_def)
  have sz: "to_size_t (sdsHdrSize t + sdslen s + 1) = sdsHdrSize t + sdslen s + 1" for t
    using assms(3) sdsHdrSize_bounds [of t] by simp
  have len: "sdslen s + 1 \<le> length (buf s)" "sdslen s \<le> type_max ?o" "sdslen s \<le> type_max ?t"
    using assms(2,3) hdr_alloc_le_max [of "hdr s"] sdsReqType_fits [of "sdslen s"]
    by (auto simp: sds_wf_def sdsalloc_def)
  show ?thesis
  proof (cases "?o = ?t \<or> type_number SDS_TYPE_8 < type_number ?t")
    case True
    show ?thesis unfolding unfold if_P [OF True] sz yields_def
      by (rule s_realloc_returns [OF assms(1), where k = "Suc (sdslen s)"])
        (use grown_same_type [OF op o len(2)] kept_wf [OF assms(2)] len in simp_all)
  next
    case False
    show ?thesis unfolding unfold if_not_P [OF False] sz yields_def
      by (rule s_move_returns [OF assms(1)])
        (use grown_new_type [OF len(3)] kept_wf [OF assms(2)] len in simp_all)
  qed
qed

section \<open>Moving the length is correct\<close>

lemma type5_len_push: "unat w < 32 \<Longrightarrow> unat (sds_type5_len (push_bit 3 w)) = unat w"
  unfolding unat_type5_len by (simp add: push_bit_eq_mult unat_word_ariths unat_mod_distrib)

lemma uint_add_of_int:
  fixes l :: "'a::len word"
  assumes "0 \<le> uint l + i" "uint l + i < 2 ^ LENGTH('a)"
  shows "unat (l + word_of_int i) = nat (uint l + i)"
proof -
  have "uint (l + word_of_int i) = (uint l + i) mod 2 ^ LENGTH('a)"
    by (simp add: uint_word_ariths uint_word_of_int mod_simps)
  then show ?thesis using assms by (simp add: unat_eq_nat_uint)
qed

lemma hdr_len_incr:
  assumes "0 \<le> int (hdr_len h) + i" "int (hdr_len h) + i \<le> int (type_max (type_of_hdr h))"
  shows "hdr_len (hdr_incr h i) = nat (int (hdr_len h) + i)"
proof (cases h)
  case (Hdr5 f)
  have "unat (sds_type5_len f + word_of_int i) = nat (uint (sds_type5_len f) + i)"
    using assms Hdr5 by (intro uint_add_of_int) auto
  moreover from this have "unat (sds_type5_len f + word_of_int i) < 32" using assms Hdr5 by auto
  ultimately show ?thesis using Hdr5 by (simp add: type5_len_push)
qed (use assms in \<open>auto intro!: trans [OF uint_add_of_int]\<close>)

lemma type_of_hdr_incr [simp]: "type_of_hdr (hdr_incr h i) = type_of_hdr h"
  by (cases h) auto

lemma hdr_alloc_incr [header]:
  "hdr_alloc (hdr_incr h i) = (if type_of_hdr h = SDS_TYPE_5 then hdr_len (hdr_incr h i) else hdr_alloc h)"
  by (cases h) auto

lemma unat_add_le_uint: "unat a + n \<le> unat b \<Longrightarrow> int n \<le> uint b - uint a"
  unfolding uint_nat by linarith

lemma incr_ok_grow:
  assumes "0 < n" "hdr_len h + n \<le> hdr_alloc h"
  shows "incr_ok h (int n)"
proof -
  have "hdr_avail h = hdr_alloc h - hdr_len h" using assms by (intro hdr_avail_eq) simp
  then show ?thesis using assms hdr_alloc_le_max [of h] by (cases h) (auto simp: incr_ok_def unat_add_le_uint)
qed

lemma incr_ok_shrink:
  assumes "0 < n" "n \<le> hdr_len h" "hdr_len h \<le> hdr_alloc h"
  shows "incr_ok h (- int n)"
  using assms hdr_alloc_le_max [of h] by (cases h) (auto simp: incr_ok_def)

lemma sdsIncrLen_grow:
  assumes "sdslen s + length xs \<le> sdsalloc s" "sdsalloc s < length (buf s)" "xs \<noteq> []"
  obtains s' where "sdsIncrLen (s\<lparr>buf := take (sdslen s) (buf s) @ xs @ drop (sdslen s + length xs) (buf s)\<rparr>)
      (int (length xs)) = Inr s'" "sds_wf s'" "content s' = take (sdslen s) (buf s) @ xs"
proof -
  let ?h = "hdr_incr (hdr s) (int (length xs))"
  have t: "type_of_hdr (hdr s) \<noteq> SDS_TYPE_5" using assms(1,3) type5_alloc [of "hdr s"] by (auto simp: sdslen_def sdsalloc_def)
  have l: "hdr_len ?h = sdslen s + length xs"
    using assms(1) hdr_alloc_le_max [of "hdr s"] by (subst hdr_len_incr) (auto simp: sdslen_def sdsalloc_def)
  have ok: "incr_ok (hdr s) (int (length xs))"
    using assms by (intro incr_ok_grow) (auto simp: sdslen_def sdsalloc_def)
  let ?s' = "s\<lparr>hdr := ?h, buf := take (sdslen s) (buf s) @ xs @ 0 # drop (sdslen s + length xs + 1) (buf s)\<rparr>"
  have len: "sdslen ?s' = sdslen s + length xs" "sdsalloc ?s' = sdsalloc s"
    using l t by (simp_all add: sdslen_def sdsalloc_def header)
  show thesis
  proof (rule that)
    show "sdsIncrLen (s\<lparr>buf := take (sdslen s) (buf s) @ xs @ drop (sdslen s + length xs) (buf s)\<rparr>)
        (int (length xs)) = Inr ?s'"
      using ok len(1) assms by (simp add: sdsIncrLen_def Let_def mem sdslen_def)
    show "sds_wf ?s'" using len assms unfolding sds_wf_def by (simp add: nth_append)
    show "content ?s' = take (sdslen s) (buf s) @ xs" using len assms unfolding content_def by simp
  qed
qed

lemma sdsIncrLen_shrink:
  assumes "sds_wf s" "0 < n" "n \<le> sdslen s"
  obtains s' where "sdsIncrLen s (- int n) = Inr s'" "sds_wf s'" "content s' = take (sdslen s - n) (content s)"
proof -
  let ?h = "hdr_incr (hdr s) (- int n)"
  have l: "hdr_len ?h = sdslen s - n"
    using assms hdr_alloc_le_max [of "hdr s"] by (subst hdr_len_incr) (auto simp: sdslen_def sdsalloc_def sds_wf_def)
  have ok: "incr_ok (hdr s) (- int n)"
    using assms by (intro incr_ok_shrink) (auto simp: sdslen_def sdsalloc_def sds_wf_def)
  let ?s' = "s\<lparr>hdr := ?h, buf := take (sdslen s - n) (buf s) @ 0 # drop (sdslen s - n + 1) (buf s)\<rparr>"
  have len: "sdslen ?s' = sdslen s - n" "sdsalloc ?s' = (if type_of_hdr (hdr s) = SDS_TYPE_5 then sdslen s - n else sdsalloc s)"
    using l by (simp_all add: sdslen_def sdsalloc_def header)
  show thesis
  proof (rule that)
    show "sdsIncrLen s (- int n) = Inr ?s'"
      using ok len(1) assms by (auto simp: sdsIncrLen_def Let_def mem sdslen_def sds_wf_def)
    show "sds_wf ?s'" using len assms unfolding sds_wf_def by (auto simp: nth_append)
    show "content ?s' = take (sdslen s - n) (content s)"
      using len assms unfolding content_def by (simp add: sds_wf_def min_def)
  qed
qed

section \<open>Properties\<close>

text \<open>An allocator that always succeeds, for the examples; the fresh bytes are not zero.\<close>

definition full_malloc :: s_malloc where
  "full_malloc n = Some (replicate n 170)"

lemma full_malloc_ok: "malloc_ok full_malloc" "full_malloc n \<noteq> None"
  by (simp_all add: malloc_ok_def full_malloc_def)

definition abc_sds :: sds where
  "abc_sds = \<lparr>hdr = Hdr8 3 5, buf = [97, 98, 99, 0, 170, 170]\<rparr>"

lemma abc_sds_wf: "sds_wf abc_sds" "content abc_sds = [97, 98, 99]" "sdslen abc_sds = 3"
  by (simp_all add: sds_wf_def content_def abc_sds_def sdslen_def sdsalloc_def)

text \<open>strings are binary safe: \<open>sdsnewlen\<close> of any \<open>n\<close> bytes, zero bytes included, is NULL because the
  allocator failed, or a well-formed string whose content is those bytes; it never faults.\<close>

theorem sdsnewlen_binary_safe:
  assumes "malloc_ok mal" "n < 2 ^ 63" "n \<le> length src"
  shows "yields mal (sdsnewlen mal (InitBytes src) n) (\<lambda>s. content s = take n src \<and> sdslen s = n)"
  by (rule yields_mono [OF sdsnewlen_bytes [OF assms]]) (use assms(3) in \<open>auto dest: length_content\<close>)

theorem sdsnewlen_binary_safe_witness:
  "yields full_malloc (sdsnewlen full_malloc (InitBytes [97, 0, 98, 0]) 3) (\<lambda>s. content s = [97, 0, 98] \<and> sdslen s = 3)"
  using sdsnewlen_binary_safe [OF full_malloc_ok(1), of 3 "[97, 0, 98, 0]"] by simp

text \<open>C12: appending refines list append: for a well-formed string and lengths whose sum is below
  \<open>2^63\<close>, \<open>sdscatlen\<close> returns NULL on allocation failure, or a well-formed string holding the old
  content followed by the new bytes, whatever header types are involved; it never writes outside its
  buffer.\<close>

theorem sdscatlen_appends:
  assumes "malloc_ok mal" "sds_wf s" "len \<le> length t" "sdslen s + len < 2 ^ 63"
  shows "yields mal (sdscatlen mal s t len) (\<lambda>s'. content s' = content s @ take len t)"
  using assms by (rule sdscatlen_correct)

theorem sdscatlen_appends_witness:
  "yields full_malloc (sdscatlen full_malloc abc_sds (replicate 300 7) 300) (\<lambda>s'. content s' = [97, 98, 99] @ replicate 300 7)"
  using sdscatlen_appends [OF full_malloc_ok(1) abc_sds_wf(1), of 300 "replicate 300 7"]
  by (simp add: abc_sds_wf del: replicate.simps)

text \<open>C13: the schema documented at \<open>sdsIncrLen\<close>: after \<open>sdsMakeRoomFor\<close> for \<open>n\<close> bytes a reader stores
  between one and \<open>n\<close> bytes behind the string and advances the length with \<open>sdsIncrLen\<close>; the assertion
  in \<open>sdsIncrLen\<close> never fires and the result is the old content followed by the bytes read.\<close>

theorem read_schema_appends:
  assumes "malloc_ok mal" "sds_wf s" "sdslen s + n < 2 ^ 63" "xs \<noteq> []" "length xs \<le> n"
  shows "yields mal
     (bind_sds (sdsMakeRoomFor mal s n) (\<lambda>s'.
        bindE (mem_write (buf s') (sdslen s) xs) (\<lambda>b.
        bindE (sdsIncrLen (s'\<lparr>buf := b\<rparr>) (int (length xs))) (\<lambda>s''. Inr (Some s'')))))
     (\<lambda>s''. content s'' = content s @ xs)"
proof (rule yields_bind [OF sdsMakeRoomFor_correct [OF assms(1-3)]])
  fix s' assume s': "sds_wf s'" "content s' = content s \<and> sdslen s' = sdslen s \<and> n \<le> sdsavail s'"
  then have room: "sdslen s' + length xs \<le> sdsalloc s'" "sdsalloc s' < length (buf s')"
    using sdsavail_wf [OF s'(1)] sds_wf_le [OF s'(1)] assms(5) by (auto simp: sds_wf_def)
  obtain s'' where s'': "sdsIncrLen (s'\<lparr>buf := take (sdslen s') (buf s') @ xs @ drop (sdslen s' + length xs) (buf s')\<rparr>)
      (int (length xs)) = Inr s''" "sds_wf s''" "content s'' = take (sdslen s') (buf s') @ xs"
    by (rule sdsIncrLen_grow [OF room assms(4)])
  then show "yields mal (bindE (mem_write (buf s') (sdslen s) xs) (\<lambda>b.
      bindE (sdsIncrLen (s'\<lparr>buf := b\<rparr>) (int (length xs))) (\<lambda>s''. Inr (Some s''))))
      (\<lambda>s''. content s'' = content s @ xs)"
    using s' room s'(2) [unfolded content_def [of s']] by (auto simp: mem)
qed

theorem read_schema_appends_witness:
  "yields full_malloc
     (bind_sds (sdsMakeRoomFor full_malloc abc_sds 16) (\<lambda>s'.
        bindE (mem_write (buf s') 3 [43, 79, 75]) (\<lambda>b.
        bindE (sdsIncrLen (s'\<lparr>buf := b\<rparr>) 3) (\<lambda>s''. Inr (Some s'')))))
     (\<lambda>s''. content s'' = [97, 98, 99, 43, 79, 75])"
  using read_schema_appends [OF full_malloc_ok(1) abc_sds_wf(1), of 16 "[43, 79, 75]"]
  by (simp add: abc_sds_wf)

text \<open>\<open>sdsRemoveFreeSpace\<close> returns NULL on allocation failure, or a well-formed string with the same
  content and no free space, also where it changes the header type.\<close>

theorem sdsRemoveFreeSpace_trims:
  assumes "malloc_ok mal" "sds_wf s" "sdslen s < 2 ^ 63"
  shows "yields mal (sdsRemoveFreeSpace mal s) (\<lambda>s'. content s' = content s \<and> sdsavail s' = 0)"
  using assms by (rule sdsRemoveFreeSpace_correct)

theorem sdsRemoveFreeSpace_trims_witness:
  "yields full_malloc (sdsRemoveFreeSpace full_malloc abc_sds) (\<lambda>s'. content s' = [97, 98, 99] \<and> sdsavail s' = 0)"
  using sdsRemoveFreeSpace_trims [OF full_malloc_ok(1) abc_sds_wf(1)] by (simp add: abc_sds_wf)

text \<open>The size computation of \<open>sdsMakeRoomFor\<close> is not checked: for the largest \<open>size_t\<close> the room
  wraps around to one megabyte.\<close>

lemma sdsMakeRoomFor_wraps:
  assumes "malloc_ok mal" "\<forall>n. mal n \<noteq> None" "sds_wf s" "length (buf s) < 2 ^ 20"
  obtains s' where "sdsMakeRoomFor mal s (2 ^ 64 - 1 - sdslen s) = Inr (Some s')" "length (buf s') = 2 ^ 20"
proof -
  have small: "sdslen s < 2 ^ 20" "sdslen s < length (buf s)" "sdsalloc s < 2 ^ 20"
    using assms(3,4) by (auto simp: sds_wf_def)
  then have no: "\<not> 2 ^ 64 - 1 - sdslen s \<le> sdsavail s" using sdsavail_wf [OF assms(3)] by simp
  have "sdslen s + (2 ^ 64 - 1 - sdslen s) = 2 ^ 64 - 1" using small by simp
  then have m: "prealloc (to_size_t (sdslen s + (2 ^ 64 - 1 - sdslen s))) = 2 ^ 20 - 1"
    by (simp only:) (simp add: prealloc_def SDS_MAX_PREALLOC_def to_size_t_def)
  have t: "room_type (2 ^ 20 - 1) = SDS_TYPE_32" by (simp add: room_type_def sdsReqType_def)
  obtain raw where raw: "mal (9 + (2 ^ 20 - 1) + 1) = Some raw" using assms(2) by blast
  with assms(1) have l: "length raw = 9 + (2 ^ 20 - 1) + 1" by (rule malloc_okD)
  have sz: "to_size_t (9 + (2 ^ 20 - 1) + 1) = 9 + (2 ^ 20 - 1) + 1" by simp
  note unfold = sdsMakeRoomFor_def Let_def if_not_P [OF no] m t sdsHdrSize.simps sz
  show thesis
  proof (cases "type_of_hdr (hdr s) = SDS_TYPE_32")
    case True
    then show thesis using that raw l assms(4)
      unfolding unfold by (simp add: s_realloc_buf_def sdssetalloc_def)
  next
    case False
    then show thesis using that raw l small
      unfolding unfold by (simp add: s_move_buf_def mem)
  qed
qed

text \<open>C27: the sizes are not checked for wrap-around: growing a short non-empty string to the largest
  \<open>size_t\<close> gets a block of one megabyte, and the \<open>memset\<close> that follows writes outside it.\<close>

theorem sdsgrowzero_wrap_overflows:
  assumes "malloc_ok mal" "\<forall>n. mal n \<noteq> None" "sds_wf s" "0 < sdslen s" "length (buf s) < 2 ^ 20"
  shows "sdsgrowzero mal s SIZE_MAX = Inl OutOfBounds"
proof -
  have l: "sdslen s < 2 ^ 20" using assms(3,5) by (auto simp: sds_wf_def)
  obtain s' where s': "sdsMakeRoomFor mal s (2 ^ 64 - 1 - sdslen s) = Inr (Some s')" "length (buf s') = 2 ^ 20"
    by (rule sdsMakeRoomFor_wraps [OF assms(1-3,5)])
  have "to_size_t (2 ^ 64 - 1 - sdslen s + 1) = 2 ^ 64 - sdslen s" using assms(4) l by (simp add: to_size_t_def)
  then show ?thesis
    using s' l by (simp add: sdsgrowzero_def SIZE_MAX_def bind_sds_def mem_write_def)
qed

theorem sdsgrowzero_wrap_overflows_witness:
  "sdsgrowzero full_malloc abc_sds SIZE_MAX = Inl OutOfBounds"
  by (rule sdsgrowzero_wrap_overflows [OF full_malloc_ok(1)])
    (simp_all add: full_malloc_def abc_sds_wf, simp add: abc_sds_def)

text \<open>The assertion of \<open>sdsIncrLen\<close> for type 5 compares with the largest length of the type and not with
  the buffer, which is never larger than the string: a positive increment passes it and the terminator
  is written outside the buffer. An increment of zero, accepted by every other type, fails it.\<close>

lemma sdsIncrLen_type5:
  assumes "hdr s = Hdr5 f" "length (buf s) = sdslen s + 1" "0 < n" "sdslen s + n < 32"
  shows "sdsIncrLen s (int n) = Inl OutOfBounds" "sdsIncrLen s 0 = Inl AssertFailed"
proof -
  have "int (sdslen s + n) < 32" using assms(4) by linarith
  then have "incr_ok (hdr s) (int n)" using assms by (simp add: incr_ok_def sdslen_def)
  moreover have "type_max (type_of_hdr (hdr s)) = 31" using assms(1) by simp
  then have "hdr_len (hdr_incr (hdr s) (int n)) = sdslen s + n"
    unfolding sdslen_def using assms(4) [unfolded sdslen_def] by (subst hdr_len_incr) auto
  ultimately show "sdsIncrLen s (int n) = Inl OutOfBounds"
    using assms(2,3) by (simp add: sdsIncrLen_def Let_def sdslen_def mem_write_def)
  show "sdsIncrLen s 0 = Inl AssertFailed" using assms(1) by (simp add: sdsIncrLen_def incr_ok_def)
qed

end
