(* ===== verification/Sds_Text.thy ===== *)
theory Sds_Text
  imports Sds "HOL-Library.Sublist"
begin

text \<open>
  The operations of \<open>sds.c\<close> that edit, compare, split and join strings: \<open>sdstrim\<close>, \<open>sdsrange\<close>,
  \<open>sdstolower\<close>, \<open>sdstoupper\<close>, \<open>sdsmapchars\<close>, \<open>sdscmp\<close>, \<open>sdssplitlen\<close>, \<open>sdsjoin\<close> and
  \<open>sdsjoinsds\<close>. The pointer loops are recursions over indices whose reads and writes are bounds
  checked; each is related to a list function on the content.
\<close>

section \<open>Trimming and ranges\<close>

text \<open>The two loops of \<open>sdstrim\<close>: \<open>sp\<close> moves right up to \<open>end\<close>, \<open>ep\<close> moves left down to \<open>sp\<close>. Offsets
  are relative to the string; \<open>ep\<close> is \<open>-1\<close> for the empty string.\<close>

function trim_left :: "byte list \<Rightarrow> byte list \<Rightarrow> nat \<Rightarrow> nat \<Rightarrow> nat outcome" where
  "trim_left b cset n sp =
     (if sp < n
      then bindE (rd b sp) (\<lambda>c. if strchr cset c then trim_left b cset n (Suc sp) else Inr sp)
      else Inr sp)"
  by auto
termination by (relation "measure (\<lambda>(b, cset, n, sp). n - sp)") auto

function trim_right :: "byte list \<Rightarrow> byte list \<Rightarrow> nat \<Rightarrow> int \<Rightarrow> int outcome" where
  "trim_right b cset sp ep =
     (if int sp < ep
      then bindE (rd b (nat ep)) (\<lambda>c. if strchr cset c then trim_right b cset sp (ep - 1) else Inr ep)
      else Inr ep)"
  by auto
termination by (relation "measure (\<lambda>(b, cset, sp, ep). nat ep)") auto

declare trim_left.simps [simp del] trim_right.simps [simp del]

definition sdstrim :: "sds \<Rightarrow> byte list \<Rightarrow> sds outcome" where
  "sdstrim s cset =
     bindE (trim_left (buf s) cset (sdslen s) 0) (\<lambda>sp.
     bindE (trim_right (buf s) cset sp (int (sdslen s) - 1)) (\<lambda>ep.
     let len = (if int sp > ep then 0 else nat (ep - int sp + 1)) in
     bindE (if sp \<noteq> 0 then bindE (mem_read (buf s) sp len) (mem_write (buf s) 0)
            else Inr (buf s)) (\<lambda>b.
     bindE (mem_write b len [0]) (\<lambda>b.
     Inr (sdssetlen (s\<lparr>buf := b\<rparr>) len)))))"

text \<open>\<open>ssize_t\<close> values are integers between \<open>-2^63\<close> and \<open>2^63 - 1\<close>; \<open>len + start\<close> is computed in
  \<open>size_t\<close> and converted back.\<close>

definition to_ssize_t :: "int \<Rightarrow> int" where
  "to_ssize_t x = (x + 2 ^ 63) mod 2 ^ 64 - 2 ^ 63"

definition range_index :: "nat \<Rightarrow> int \<Rightarrow> int" where
  "range_index len i = (if i < 0 then max 0 (to_ssize_t (int len + i)) else i)"

text \<open>\<open>(end - start) + 1\<close> is signed arithmetic.\<close>

definition range_len :: "int \<Rightarrow> int \<Rightarrow> nat outcome" where
  "range_len start e =
     (if start > e then Inr 0
      else if e - start + 1 \<ge> 2 ^ 63 then Inl SignedOverflow
      else Inr (nat (e - start + 1)))"

definition sdsrange :: "sds \<Rightarrow> int \<Rightarrow> int \<Rightarrow> sds outcome" where
  "sdsrange s start e =
     (let len = sdslen s in
      if len = 0 then Inr s
      else
        let start = range_index len start;
            e = range_index len e
        in bindE (range_len start e) (\<lambda>newlen.
           bindE (if newlen \<noteq> 0
                  then if start \<ge> to_ssize_t (int len) then Inr (start, 0)
                       else if e \<ge> to_ssize_t (int len)
                       then bindE (range_len start (int len - 1)) (\<lambda>newlen. Inr (start, newlen))
                       else Inr (start, newlen)
                  else Inr (0, newlen)) (\<lambda>(start, newlen).
           bindE (if start \<noteq> 0 \<and> newlen \<noteq> 0
                  then bindE (mem_read (buf s) (nat start) newlen) (mem_write (buf s) 0)
                  else Inr (buf s)) (\<lambda>b.
           bindE (mem_write b newlen [0]) (\<lambda>b.
           Inr (sdssetlen (s\<lparr>buf := b\<rparr>) newlen))))))"

section \<open>Character maps and comparison\<close>

text \<open>\<open>tolower\<close> and \<open>toupper\<close> of the C locale.\<close>

definition tolower :: "byte \<Rightarrow> byte" where
  "tolower c = (if 65 \<le> c \<and> c \<le> 90 then c + 32 else c)"

definition toupper :: "byte \<Rightarrow> byte" where
  "toupper c = (if 97 \<le> c \<and> c \<le> 122 then c - 32 else c)"

text \<open>\<open>for (j = 0; j < len; j++) s[j] = f(s[j])\<close>.\<close>

function map_loop :: "(byte \<Rightarrow> byte outcome) \<Rightarrow> byte list \<Rightarrow> nat \<Rightarrow> nat \<Rightarrow> byte list outcome" where
  "map_loop f b n j =
     (if j < n
      then bindE (rd b j) (\<lambda>c. bindE (f c) (\<lambda>d. bindE (mem_write b j [d]) (\<lambda>b. map_loop f b n (Suc j))))
      else Inr b)"
  by auto
termination by (relation "measure (\<lambda>(f, b, n, j). n - j)") auto

declare map_loop.simps [simp del]

definition sdstolower :: "sds \<Rightarrow> sds outcome" where
  "sdstolower s = bindE (map_loop (\<lambda>c. Inr (tolower c)) (buf s) (sdslen s) 0) (\<lambda>b. Inr (s\<lparr>buf := b\<rparr>))"

definition sdstoupper :: "sds \<Rightarrow> sds outcome" where
  "sdstoupper s = bindE (map_loop (\<lambda>c. Inr (toupper c)) (buf s) (sdslen s) 0) (\<lambda>b. Inr (s\<lparr>buf := b\<rparr>))"

text \<open>The inner loop of \<open>sdsmapchars\<close>: the first position of \<open>c\<close> in \<open>from\<close>.\<close>

function mapchar :: "byte list \<Rightarrow> byte list \<Rightarrow> nat \<Rightarrow> byte \<Rightarrow> nat \<Rightarrow> byte outcome" where
  "mapchar from_set to_set setlen c i =
     (if i < setlen
      then bindE (rd from_set i) (\<lambda>d. if c = d then rd to_set i else mapchar from_set to_set setlen c (Suc i))
      else Inr c)"
  by auto
termination by (relation "measure (\<lambda>(from_set, to_set, setlen, c, i). setlen - i)") auto

declare mapchar.simps [simp del]

definition sdsmapchars :: "sds \<Rightarrow> byte list \<Rightarrow> byte list \<Rightarrow> nat \<Rightarrow> sds outcome" where
  "sdsmapchars s from_set to_set setlen =
     bindE (map_loop (\<lambda>c. mapchar from_set to_set setlen c 0) (buf s) (sdslen s) 0) (\<lambda>b. Inr (s\<lparr>buf := b\<rparr>))"

definition sdscmp :: "sds \<Rightarrow> sds \<Rightarrow> int outcome" where
  "sdscmp s1 s2 =
     (let l1 = sdslen s1; l2 = sdslen s2; minlen = (if l1 < l2 then l1 else l2) in
      bindE (mem_read (buf s1) 0 minlen) (\<lambda>x.
      bindE (mem_read (buf s2) 0 minlen) (\<lambda>y.
      let cmp = memcmp x y in
      Inr (if cmp = 0 then (if l1 > l2 then 1 else if l1 < l2 then -1 else 0) else cmp))))"

section \<open>Splitting and joining\<close>

text \<open>\<open>memcmp(s + j, sep, seplen) == 0\<close>, with the shortcut for one byte.\<close>

definition sep_at :: "byte list \<Rightarrow> nat \<Rightarrow> byte list \<Rightarrow> nat \<Rightarrow> bool outcome" where
  "sep_at s j sep seplen =
     bindE (if seplen = 1 then bindE (rd s j) (\<lambda>c. bindE (rd sep 0) (\<lambda>d. Inr (c = d)))
            else Inr False) (\<lambda>found.
     if found then Inr True
     else bindE (mem_read s j seplen) (\<lambda>x. bindE (mem_read sep 0 seplen) (\<lambda>y. Inr (memcmp x y = 0))))"

text \<open>The vector of tokens: its number of slots and the tokens stored so far. Storing into a slot that
  does not exist is a write outside the array.\<close>

definition store_token :: "nat \<Rightarrow> sds list \<Rightarrow> sds \<Rightarrow> sds list outcome" where
  "store_token slots tokens t = (if length tokens < slots then Inr (tokens @ [t]) else Inl OutOfBounds)"

text \<open>Room for the next token and the final one; \<open>slots\<close> is an \<open>int\<close>.\<close>

definition grow_slots :: "s_malloc \<Rightarrow> nat \<Rightarrow> nat \<Rightarrow> nat option outcome" where
  "grow_slots mal slots elements =
     (if slots < elements + 2
      then if slots * 2 \<ge> 2 ^ 31 then Inl SignedOverflow
           else if mal (8 * (slots * 2)) = None then Inr None
           else Inr (Some (slots * 2))
      else Inr (Some slots))"

text \<open>\<open>None\<close> stands for \<open>goto cleanup\<close>. The next iteration starts behind the separator, which has at
  least one byte.\<close>

function split_loop :: "s_malloc \<Rightarrow> byte list \<Rightarrow> nat \<Rightarrow> byte list \<Rightarrow> nat \<Rightarrow> nat \<Rightarrow> nat \<Rightarrow> nat \<Rightarrow> sds list \<Rightarrow>
    (nat \<times> nat \<times> sds list) option outcome" where
  "split_loop mal s len sep seplen start j slots tokens =
     (if \<not> (int j < int len - (int seplen - 1)) then Inr (Some (start, slots, tokens))
      else
        bindE (grow_slots mal slots (length tokens)) (\<lambda>slots. case slots of None \<Rightarrow> Inr None | Some slots \<Rightarrow>
        bindE (sep_at s j sep seplen) (\<lambda>found.
        if found
        then bindE (mem_read s start (j - start)) (\<lambda>x.
             bindE (sdsnewlen mal (InitBytes x) (j - start)) (\<lambda>t. case t of None \<Rightarrow> Inr None | Some t \<Rightarrow>
             bindE (store_token slots tokens t) (\<lambda>tokens.
             split_loop mal s len sep seplen (j + seplen) (max (Suc j) (j + seplen)) slots tokens)))
        else split_loop mal s len sep seplen start (Suc j) slots tokens)))"
  by auto
termination by (relation "measure (\<lambda>(mal, s, len, sep, seplen, start, j, slots, tokens). len + 1 - j)") auto

declare split_loop.simps [simp del]

text \<open>
  \<open>sdssplitlen\<close>: the returned vector or NULL, and what is stored into \<open>*count\<close>, if anything is.
  \<open>seplen\<close> is an \<open>int\<close> and \<open>len\<close> a \<open>ssize_t\<close>.
\<close>

definition sdssplitlen :: "s_malloc \<Rightarrow> byte list \<Rightarrow> int \<Rightarrow> byte list \<Rightarrow> int \<Rightarrow> (sds list option \<times> nat option) outcome" where
  "sdssplitlen mal s len sep seplen =
     (if seplen < 1 \<or> len < 0 then Inr (None, None)
      else if mal (8 * 5) = None then Inr (None, None)
      else if len = 0 then Inr (Some [], Some 0)
      else
        bindE (split_loop mal s (nat len) sep (nat seplen) 0 0 5 []) (\<lambda>r. case r of
          None \<Rightarrow> Inr (None, Some 0)
        | Some (start, slots, tokens) \<Rightarrow>
            bindE (mem_read s start (nat len - start)) (\<lambda>x.
            bindE (sdsnewlen mal (InitBytes x) (nat len - start)) (\<lambda>t. case t of
              None \<Rightarrow> Inr (None, Some 0)
            | Some t \<Rightarrow> bindE (store_token slots tokens t) (\<lambda>tokens.
                Inr (Some tokens, Some (length tokens)))))))"

text \<open>A NULL string passed on to an operation is dereferenced.\<close>

definition on_sds :: "sds option \<Rightarrow> (sds \<Rightarrow> 'a outcome) \<Rightarrow> 'a outcome" where
  "on_sds r f = (case r of None \<Rightarrow> Inl NullDeref | Some s \<Rightarrow> f s)"

text \<open>The loops of \<open>sdsjoin\<close> (C strings) and \<open>sdsjoinsds\<close>; the separator follows every element but the
  last.\<close>

fun join_loop :: "(sds \<Rightarrow> 'a \<Rightarrow> sds option outcome) \<Rightarrow> (sds \<Rightarrow> sds option outcome) \<Rightarrow> sds option \<Rightarrow> 'a list \<Rightarrow>
    sds option outcome" where
  "join_loop cat cat_sep join [] = Inr join"
| "join_loop cat cat_sep join (a # argv) =
     bindE (on_sds join (\<lambda>s. cat s a)) (\<lambda>join.
     bindE (if argv \<noteq> [] then on_sds join cat_sep else Inr join) (\<lambda>join.
     join_loop cat cat_sep join argv))"

definition sdsjoin :: "s_malloc \<Rightarrow> byte list list \<Rightarrow> byte list \<Rightarrow> sds option outcome" where
  "sdsjoin mal argv sep =
     bindE (sdsempty mal) (\<lambda>join. join_loop (sdscat mal) (\<lambda>s. sdscat mal s sep) join argv)"

definition sdsjoinsds :: "s_malloc \<Rightarrow> sds list \<Rightarrow> byte list \<Rightarrow> nat \<Rightarrow> sds option outcome" where
  "sdsjoinsds mal argv sep seplen =
     bindE (sdsempty mal) (\<lambda>join. join_loop (sdscatsds mal) (\<lambda>s. sdscatlen mal s sep seplen) join argv)"

section \<open>Trimming is correct\<close>

definition trim :: "byte list \<Rightarrow> byte list \<Rightarrow> byte list" where
  "trim cset xs = rev (dropWhile (strchr cset) (rev (dropWhile (strchr cset) xs)))"

lemma drop_take_Suc: "j < n \<Longrightarrow> n \<le> length b \<Longrightarrow> drop j (take n b) = b ! j # drop (Suc j) (take n b)"
  by (simp add: Cons_nth_drop_Suc [symmetric])

lemma trim_left_correct:
  assumes "n \<le> length b" "sp \<le> n"
  shows "trim_left b cset n sp = Inr (sp + length (takeWhile (strchr cset) (drop sp (take n b))))"
  using assms
proof (induction b cset n sp rule: trim_left.induct)
  case (1 b cset n sp)
  then show ?case by (subst trim_left.simps) (auto simp: mem drop_take_Suc)
qed

lemma trim_right_correct:
  assumes "ep < int (length b)" "int sp \<le> ep"
  shows "\<exists>e. trim_right b cset sp ep = Inr (int e) \<and> sp \<le> e \<and> int e \<le> ep \<and>
           (\<forall>k. e < k \<and> int k \<le> ep \<longrightarrow> strchr cset (b ! k)) \<and> (e = sp \<or> \<not> strchr cset (b ! e))"
  using assms
proof (induction b cset sp ep rule: trim_right.induct)
  case (1 b cset sp ep)
  have in_range: "nat ep < length b" using 1(2,3) by linarith
  show ?case
  proof (cases "int sp < ep \<and> strchr cset (b ! nat ep)")
    case True
    then have r: "trim_right b cset sp ep = trim_right b cset sp (ep - 1)"
      by (subst trim_right.simps) (simp add: rd_ok [OF in_range])
    have "\<exists>e. trim_right b cset sp (ep - 1) = Inr (int e) \<and> sp \<le> e \<and> int e \<le> ep - 1 \<and>
        (\<forall>k. e < k \<and> int k \<le> ep - 1 \<longrightarrow> strchr cset (b ! k)) \<and> (e = sp \<or> \<not> strchr cset (b ! e))"
      using True 1(2,3) by (intro 1(1) [OF _ rd_ok [OF in_range]]) auto
    then obtain e where e: "trim_right b cset sp (ep - 1) = Inr (int e)" "sp \<le> e" "int e \<le> ep - 1"
      "\<forall>k. e < k \<and> int k \<le> ep - 1 \<longrightarrow> strchr cset (b ! k)" "e = sp \<or> \<not> strchr cset (b ! e)"
      by blast
    have "strchr cset (b ! k)" if "e < k" "int k \<le> ep" for k
      using e(4) that True by (cases "int k = ep") auto
    then show ?thesis using r e by (intro exI [of _ e]) auto
  next
    case False
    then have "trim_right b cset sp ep = Inr ep"
      by (subst trim_right.simps) (auto simp: rd_ok [OF in_range])
    then show ?thesis using False 1(3) by (intro exI [of _ "nat ep"]) auto
  qed
qed

lemma rev_dropWhile_unique:
  assumes "\<forall>z \<in> set zs. Q z" "ys \<noteq> []" "\<not> Q (last ys)"
  shows "rev (dropWhile Q (rev (ys @ zs))) = ys"
proof -
  have "dropWhile Q (rev zs @ rev ys) = dropWhile Q (rev ys)"
    using assms(1) by (simp add: dropWhile_append)
  also have "\<dots> = rev ys" using assms(2,3) by (cases ys rule: rev_cases) auto
  finally show ?thesis by simp
qed

text \<open>What the two loops find: the trimmed content is the part of the string between them.\<close>

lemma trim_loops:
  assumes "n < length b" "n \<noteq> 0" "trim_left b cset n 0 = Inr sp" "sp < n"
  obtains e where "trim_right b cset sp (int n - 1) = Inr (int e)" "sp \<le> e" "e < n"
    "take (e - sp + 1) (drop sp (take n b)) = trim cset (take n b)"
proof -
  let ?Q = "strchr cset" and ?c = "take n b"
  have sp: "sp = length (takeWhile ?Q ?c)" using trim_left_correct [of n b 0 cset] assms by simp
  then have drop: "dropWhile ?Q ?c = drop sp ?c" by (simp add: dropWhile_eq_drop)
  have "\<not> ?Q (?c ! sp)" unfolding sp using assms(1,4) sp by (intro nth_length_takeWhile) simp
  then have first: "\<not> ?Q (b ! sp)" using assms(4) by simp
  obtain e where e: "trim_right b cset sp (int n - 1) = Inr (int e)" "sp \<le> e" "int e \<le> int n - 1"
    "\<forall>k. e < k \<and> int k \<le> int n - 1 \<longrightarrow> ?Q (b ! k)" "e = sp \<or> \<not> ?Q (b ! e)"
    using trim_right_correct [of "int n - 1" b sp cset] assms(1,4) by auto
  define ys where "ys = take (e - sp + 1) (drop sp ?c)"
  define zs where "zs = drop (e - sp + 1) (drop sp ?c)"
  have len: "e < n" "sp + (e - sp) = e" using e(2,3) by auto
  have "last ys = ys ! (e - sp)" "ys \<noteq> []" using len assms(1) e(2) by (auto simp: ys_def last_conv_nth)
  then have "last ys = b ! e" using len assms(1) by (simp add: ys_def)
  then have last: "\<not> ?Q (last ys)" using e(5) first by auto
  have "\<forall>z \<in> set zs. ?Q z"
  proof
    fix z assume "z \<in> set zs"
    then obtain i where i: "i < length zs" "z = zs ! i" by (metis in_set_conv_nth)
    then have "z = b ! (e + 1 + i)" using len assms(1) e(2) by (simp add: zs_def add.commute)
    then show "?Q z" using e(4) i(1) assms(1) len by (simp add: zs_def)
  qed
  moreover have "ys @ zs = drop sp ?c" unfolding ys_def zs_def by (rule append_take_drop_id)
  ultimately have "ys = trim cset ?c"
    using rev_dropWhile_unique [of zs ?Q ys] \<open>ys \<noteq> []\<close> last unfolding trim_def drop by simp
  then show thesis using that [of e] e(1,2) len(1) by (simp add: ys_def)
qed

text \<open>Both \<open>sdstrim\<close> and \<open>sdsrange\<close> move \<open>k\<close> bytes to the front of the buffer, when there is something to
  move.\<close>

lemma memmove_prefix:
  assumes "c \<Longrightarrow> i + k \<le> length b" "\<not> c \<Longrightarrow> i = 0 \<or> k = 0"
  shows "\<exists>b'. (if c then bindE (mem_read b i k) (mem_write b 0) else Inr b) = Inr b' \<and>
           length b' = length b \<and> take k b' = take k (drop i b)"
  using assms by (auto simp: mem)

lemma sdstrim_correct:
  assumes "sds_wf s"
  shows "\<exists>s'. sdstrim s cset = Inr s' \<and> sds_wf s' \<and> content s' = trim cset (content s)"
proof -
  let ?n = "sdslen s" and ?b = "buf s"
  have wf: "?n < length ?b" "sds_open s" "?n \<le> sdsalloc s"
    using assms sds_wf_open by (auto simp: sds_wf_def)
  obtain sp where sp: "trim_left ?b cset ?n 0 = Inr sp" "sp = length (takeWhile (strchr cset) (content s))"
    using trim_left_correct [of ?n ?b 0 cset] wf by (simp add: content_def)
  then have "sp \<le> ?n" using length_takeWhile_le [of "strchr cset" "content s"] length_content [OF assms] by simp
  show ?thesis
  proof (cases "sp < ?n")
    case True
    then obtain e where e: "trim_right ?b cset sp (int ?n - 1) = Inr (int e)" "sp \<le> e" "e < ?n"
      "take (e - sp + 1) (drop sp (take ?n ?b)) = trim cset (content s)"
      using trim_loops [OF wf(1) _ sp(1)] unfolding content_def by auto
    define k where "k = e - sp + 1"
    have k: "k \<le> ?n" "sp + k \<le> ?n" "nat (int e - int sp + 1) = k" using e(2,3) by (auto simp: k_def)
    have "sp + k \<le> length ?b" using k(2) wf(1) by simp
    from memmove_prefix [OF this, of "sp \<noteq> 0"]
    obtain b where b: "(if sp \<noteq> 0 then bindE (mem_read ?b sp k) (mem_write ?b 0) else Inr ?b) = Inr b"
      "length b = length ?b" "take k b = take k (drop sp ?b)" by auto
    have "sdstrim s cset = Inr (sdssetlen (s\<lparr>buf := take k b @ 0 # drop (Suc k) b\<rparr>) k)"
      unfolding sdstrim_def using sp(1) e(1,2) k wf(1) b(1,2) by (simp add: mem)
    moreover have "take k b = trim cset (content s)" using b(3) e(4) k(2) by (simp add: k_def drop_take)
    ultimately show ?thesis using set_content [OF wf(2) b(2), of k] k(1) wf(3) by simp
  next
    case False
    then have "sp = ?n" using \<open>sp \<le> ?n\<close> by simp
    moreover have "trim_right ?b cset ?n (int ?n - 1) = Inr (int ?n - 1)" by (subst trim_right.simps) simp
    moreover have "trim cset (content s) = []"
      using sp(2) \<open>sp = ?n\<close> length_content [OF assms] by (simp add: trim_def dropWhile_eq_drop)
    ultimately show ?thesis
      using set_content [OF wf(2) refl, of 0] wf(1) sp(1)
      unfolding sdstrim_def by (simp add: mem)
  qed
qed

section \<open>Ranges are correct\<close>

text \<open>Indices count from the end when negative and are then cut at the front; the range is inclusive.\<close>

definition signed_index :: "nat \<Rightarrow> int \<Rightarrow> nat" where
  "signed_index len i = nat (if i < 0 then int len + i else i)"

definition sub_range :: "byte list \<Rightarrow> int \<Rightarrow> int \<Rightarrow> byte list" where
  "sub_range xs i j =
     (let a = signed_index (length xs) i; b = signed_index (length xs) j
      in take (Suc b - a) (drop a xs))"

lemma to_ssize_t_id: "- (2 ^ 63) \<le> x \<Longrightarrow> x < 2 ^ 63 \<Longrightarrow> to_ssize_t x = x"
  by (simp add: to_ssize_t_def)

lemma range_index_eq:
  assumes "len < 2 ^ 63" "- (2 ^ 63) \<le> i" "i < 2 ^ 63"
  shows "range_index len i = int (signed_index len i)"
  using assms by (auto simp: range_index_def signed_index_def to_ssize_t_id max_def)

lemma sdsrange_correct:
  assumes "sds_wf s" "sdslen s < 2 ^ 63" "- (2 ^ 63) \<le> i" "i < 2 ^ 63" "- (2 ^ 63) \<le> j" "j < 2 ^ 63 - 1"
  shows "\<exists>s'. sdsrange s i j = Inr s' \<and> sds_wf s' \<and> content s' = sub_range (content s) i j"
proof (cases "sdslen s = 0")
  case True
  then show ?thesis using assms(1) length_content [OF assms(1)] by (simp add: sdsrange_def sub_range_def Let_def)
next
  case False
  let ?n = "sdslen s" and ?a = "signed_index (sdslen s) i" and ?e = "signed_index (sdslen s) j"
  have wf: "?n < length (buf s)" "sds_open s" "?n \<le> sdsalloc s"
    using assms(1) sds_wf_open by (auto simp: sds_wf_def)
  have idx: "range_index ?n i = int ?a" "range_index ?n j = int ?e" "int ?e < 2 ^ 63 - 1" "to_ssize_t (int ?n) = int ?n"
    using assms by (auto simp: range_index_eq to_ssize_t_id signed_index_def)
  define k where "k = min (Suc ?e - ?a) (?n - ?a)"
  define st where "st = (if Suc ?e - ?a = 0 then 0 else ?a)"
  have len: "range_len (int ?a) (int ?e) = Inr (Suc ?e - ?a)"
    using idx(3) by (auto simp: range_len_def)
  have len2: "range_len (int ?a) (int ?n - 1) = Inr (?n - ?a)" if "?a < ?n"
    using assms(2) that by (auto simp: range_len_def)
  have pick: "(if Suc ?e - ?a \<noteq> 0
      then if int ?a \<ge> int ?n then Inr (int ?a, 0)
           else if int ?e \<ge> int ?n then bindE (range_len (int ?a) (int ?n - 1)) (\<lambda>newlen. Inr (int ?a, newlen))
           else Inr (int ?a, Suc ?e - ?a)
      else Inr (0, Suc ?e - ?a)) = (Inr (int st, k) :: (int \<times> nat) outcome)"
    using len2 by (auto simp: k_def st_def)
  have st: "int st \<noteq> 0 \<and> k \<noteq> 0 \<Longrightarrow> st + k \<le> length (buf s)" "\<not> (int st \<noteq> 0 \<and> k \<noteq> 0) \<Longrightarrow> st = 0 \<or> k = 0" "k \<le> ?n"
    using wf(1) by (auto simp: st_def k_def)
  from memmove_prefix [OF st(1,2)]
  obtain b where b: "(if int st \<noteq> 0 \<and> k \<noteq> 0 then bindE (mem_read (buf s) st k) (mem_write (buf s) 0)
      else Inr (buf s)) = Inr b" "length b = length (buf s)" "take k b = take k (drop st (buf s))" by blast
  have "sdsrange s i j = Inr (sdssetlen (s\<lparr>buf := take k b @ 0 # drop (Suc k) b\<rparr>) k)"
    unfolding sdsrange_def Let_def if_not_P [OF False] idx len bindE_Inr pick prod.case nat_int b(1)
    using b(2) st(3) wf(1) by (simp add: mem)
  moreover have "take k b = sub_range (content s) i j"
    using b(3) length_content [OF assms(1)]
    by (auto simp: sub_range_def Let_def content_def drop_take k_def st_def min_def)
  ultimately show ?thesis using set_content [OF wf(2) b(2), of k] st(3) wf(3) by simp
qed

section \<open>Character maps are correct\<close>

lemma map_loop_correct:
  assumes "n \<le> length b" "j \<le> n" "\<forall>c. f c = Inr (g c)"
  shows "map_loop f b n j = Inr (take j b @ map g (drop j (take n b)) @ drop n b)"
  using assms
proof (induction f b n j rule: map_loop.induct)
  case (1 f b n j)
  show ?case
  proof (cases "j < n")
    case True
    then have "map_loop f b n j = map_loop f (take j b @ g (b ! j) # drop (Suc j) b) n (Suc j)"
      using 1(2,4) by (subst map_loop.simps) (simp add: mem)
    also have "\<dots> = Inr (take j b @ map g (drop j (take n b)) @ drop n b)"
    proof -
      obtain d where d: "n = Suc (j + d)" using less_iff_Suc_add True by blast
      have "take (Suc d) (drop j b) = b ! j # take d (drop (Suc j) b)"
        using d 1(2) by (simp add: Cons_nth_drop_Suc [symmetric])
      then show ?thesis using True 1(2-4) d
        by (subst 1(1)) (auto simp: mem drop_take min_def add.commute)
    qed
    finally show ?thesis .
  next
    case False
    then show ?thesis using 1(3) by (subst map_loop.simps) simp
  qed
qed

lemma map_string:
  assumes "sds_wf s" "\<forall>c. f c = Inr (g c)"
  shows "\<exists>b. map_loop f (buf s) (sdslen s) 0 = Inr b \<and> sds_wf (s\<lparr>buf := b\<rparr>) \<and> content (s\<lparr>buf := b\<rparr>) = map g (content s)"
proof -
  have l: "sdslen s \<le> length (buf s)" using assms(1) by (simp add: sds_wf_def)
  show ?thesis
    using map_loop_correct [OF l le0 assms(2)] assms(1)
    by (auto simp: sds_wf_def content_def sdslen_def sdsalloc_def nth_append)
qed

text \<open>What \<open>sdsmapchars\<close> does to a byte: the first pair of the translation table that has it.\<close>

definition translate :: "byte list \<Rightarrow> byte list \<Rightarrow> byte \<Rightarrow> byte" where
  "translate from_set to_set c = (case map_of (zip from_set to_set) c of None \<Rightarrow> c | Some d \<Rightarrow> d)"

lemma mapchar_correct:
  assumes "n \<le> length from_set" "n \<le> length to_set" "i \<le> n"
  shows "mapchar from_set to_set n c i = Inr (translate (drop i (take n from_set)) (drop i (take n to_set)) c)"
  using assms
proof (induction from_set to_set n c i rule: mapchar.induct)
  case (1 from_set to_set n c i)
  then show ?case
    by (subst mapchar.simps) (auto simp: mem drop_take_Suc translate_def)
qed

lemma memcmp_lexord:
  assumes "c = memcmp (take (min (length xs) (length ys)) xs) (take (min (length xs) (length ys)) ys)"
    "r = (if c = 0 then (if length ys < length xs then 1 else if length xs < length ys then -1 else 0) else c)"
  shows "(r < 0 \<longleftrightarrow> ord_class.lexordp xs ys) \<and> (r = 0 \<longleftrightarrow> xs = ys)"
  using assms
proof (induction xs ys arbitrary: c r rule: list_induct2')
  case (4 x xs y ys)
  show ?case
  proof (cases "x = y")
    case True
    then have "c = memcmp (take (min (length xs) (length ys)) xs) (take (min (length xs) (length ys)) ys)"
      using 4(2) by simp
    then have "(r < 0 \<longleftrightarrow> ord_class.lexordp xs ys) \<and> (r = 0 \<longleftrightarrow> xs = ys)"
      by (rule 4(1)) (simp only: 4(3) length_Cons Suc_less_eq)
    then show ?thesis using True by simp
  next
    case False
    then have neq: "uint x \<noteq> uint y" by (simp add: word_uint_eq_iff)
    then have "r = uint x - uint y" using False 4(2,3) by simp
    then show ?thesis using False neq by (auto simp: word_less_def)
  qed
qed auto

lemma sdscmp_lexord:
  assumes "sds_wf s1" "sds_wf s2"
  obtains r where "sdscmp s1 s2 = Inr r" "r < 0 \<longleftrightarrow> ord_class.lexordp (content s1) (content s2)"
    "r = 0 \<longleftrightarrow> content s1 = content s2"
proof -
  let ?k = "min (sdslen s1) (sdslen s2)"
  have k: "(if sdslen s1 < sdslen s2 then sdslen s1 else sdslen s2) = ?k" by simp
  have "?k \<le> length (buf s1)" "?k \<le> length (buf s2)" using assms by (auto simp: sds_wf_def)
  then have rd: "mem_read (buf s1) 0 ?k = Inr (take ?k (content s1))" "mem_read (buf s2) 0 ?k = Inr (take ?k (content s2))"
    by (simp_all add: mem content_def)
  define c where "c = memcmp (take ?k (content s1)) (take ?k (content s2))"
  define r where "r = (if c = 0 then (if sdslen s2 < sdslen s1 then 1
      else if sdslen s1 < sdslen s2 then -1 else 0) else c)"
  have "sdscmp s1 s2 = Inr r" unfolding sdscmp_def Let_def k rd bindE_Inr r_def c_def by (rule refl)
  moreover have "(r < 0 \<longleftrightarrow> ord_class.lexordp (content s1) (content s2)) \<and> (r = 0 \<longleftrightarrow> content s1 = content s2)"
    by (rule memcmp_lexord [of c]) (simp_all only: c_def r_def length_content [OF assms(1)] length_content [OF assms(2)])
  ultimately show thesis using that by blast
qed

section \<open>Splitting is correct\<close>

text \<open>The reference: cut at the leftmost separator, continue behind it. \<open>acc\<close> is the token read so far.\<close>

function split_spec :: "byte list \<Rightarrow> byte list \<Rightarrow> byte list \<Rightarrow> byte list list" where
  "split_spec sep acc xs =
     (if xs = [] then [acc]
      else if sep \<noteq> [] \<and> prefix sep xs then acc # split_spec sep [] (drop (length sep) xs)
      else split_spec sep (acc @ [hd xs]) (tl xs))"
  by auto
termination by (relation "measure (\<lambda>(sep, acc, xs). length xs)") auto

declare split_spec.simps [simp del]

fun join_spec :: "byte list \<Rightarrow> byte list list \<Rightarrow> byte list" where
  "join_spec sep [] = []"
| "join_spec sep [t] = t"
| "join_spec sep (t # ts) = t @ sep @ join_spec sep ts"

lemma split_spec_Nil [simp]: "split_spec sep acc [] = [acc]"
  by (subst split_spec.simps) simp

lemma split_spec_sep: "sep \<noteq> [] \<Longrightarrow> split_spec sep acc (sep @ xs) = acc # split_spec sep [] xs"
  by (subst split_spec.simps) simp

lemma split_spec_step:
  "\<not> prefix sep (x # xs) \<or> sep = [] \<Longrightarrow> split_spec sep acc (x # xs) = split_spec sep (acc @ [x]) xs"
  by (subst split_spec.simps) auto

lemma split_spec_nonempty: "split_spec sep acc xs \<noteq> []"
proof (induction sep acc xs rule: split_spec.induct)
  case (1 sep acc xs)
  then show ?case by (subst split_spec.simps) simp
qed

lemma split_spec_cases [case_names Nil Sep Step]:
  assumes "xs = [] \<Longrightarrow> P" "\<And>ys. sep \<noteq> [] \<Longrightarrow> xs = sep @ ys \<Longrightarrow> P"
    "\<And>y ys. xs = y # ys \<Longrightarrow> \<not> prefix sep xs \<or> sep = [] \<Longrightarrow> P"
  shows P
  using assms by (cases xs) (auto simp: prefix_def)

lemma join_spec_Cons: "ts \<noteq> [] \<Longrightarrow> join_spec sep (t # ts) = t @ sep @ join_spec sep ts"
  by (cases ts) auto

lemma join_split_spec: "join_spec sep (split_spec sep acc xs) = acc @ xs"
proof (induction sep acc xs rule: split_spec.induct)
  case (1 sep acc xs)
  show ?case
  proof (cases rule: split_spec_cases [where xs = xs and sep = sep])
    case (Sep ys)
    then show ?thesis using 1(1) by (simp add: split_spec_sep join_spec_Cons split_spec_nonempty)
  next
    case (Step y ys)
    then show ?thesis using 1(2) by (auto simp: split_spec_step)
  qed simp
qed

lemma split_spec_short:
  assumes "length xs < length sep"
  shows "split_spec sep acc xs = [acc @ xs]"
  using assms
proof (induction xs arbitrary: acc)
  case (Cons x xs)
  then have "\<not> prefix sep (x # xs)" using prefix_length_le by fastforce
  then show ?case using Cons by (simp add: split_spec_step)
qed simp

text \<open>No token contains the separator.\<close>

lemma split_spec_separates:
  assumes "sep \<noteq> []" "\<forall>k < length acc. \<not> prefix sep (drop k (acc @ xs))" "t \<in> set (split_spec sep acc xs)"
  shows "\<not> sublist sep t"
  using assms
proof (induction sep acc xs rule: split_spec.induct)
  case (1 sep acc xs)
  have no: "\<not> sublist sep acc"
  proof
    assume "sublist sep acc"
    then obtain ps ss where acc: "acc = ps @ sep @ ss" by (auto simp: sublist_def)
    then have "length ps < length acc" "prefix sep (drop (length ps) (acc @ xs))" using 1(3) by auto
    then show False using 1(4) by blast
  qed
  show ?case
  proof (cases rule: split_spec_cases [where xs = xs and sep = sep])
    case Nil
    then show ?thesis using 1(5) no by simp
  next
    case (Sep ys)
    then have "t = acc \<or> t \<in> set (split_spec sep [] ys)" using 1(5) by (simp add: split_spec_sep)
    then show ?thesis using 1(1) Sep no by auto
  next
    case (Step y ys)
    have "\<forall>k < length (acc @ [y]). \<not> prefix sep (drop k ((acc @ [y]) @ ys))"
      using 1(3,4) Step by (auto simp: less_Suc_eq)
    moreover have "t \<in> set (split_spec sep (acc @ [y]) ys)" using 1(5) Step by (simp add: split_spec_step)
    ultimately show ?thesis using 1(2) Step 1(3) by simp
  qed
qed

lemma take_one: "xs \<noteq> [] \<Longrightarrow> take 1 xs = [xs ! 0]"
  by (cases xs) auto

lemma sep_at_correct:
  assumes "j + n \<le> length s" "n \<le> length sep" "1 \<le> n"
  shows "sep_at s j sep n = Inr (take n (drop j s) = take n sep)"
proof -
  have "memcmp (take n (drop j s)) (take n sep) = 0 \<longleftrightarrow> take n (drop j s) = take n sep"
    using assms by (intro memcmp_zero_iff) simp
  moreover have "drop j s \<noteq> []" "sep \<noteq> []" using assms by auto
  then have "take 1 (drop j s) = [s ! j]" "take 1 sep = [sep ! 0]"
    using assms take_one [of "drop j s"] take_one [of sep] by auto
  moreover have "rd s j = Inr (s ! j)" "rd sep 0 = Inr (sep ! 0)" using assms by (auto simp: rd_def)
  ultimately show ?thesis
    unfolding sep_at_def using assms by (auto simp: mem)
qed

lemma cut_at:
  assumes "i \<le> j" "j \<le> k"
  shows "drop i (take k s) = drop i (take j s) @ drop j (take k s)"
proof -
  have "take k s = take j s @ drop j (take k s)"
    using append_take_drop_id [of j "take k s"] assms(2) by (simp add: min_absorb1)
  then have "drop i (take k s) = drop i (take j s @ drop j (take k s))" by (rule arg_cong)
  then show ?thesis using assms by (cases "j \<le> length s") auto
qed

lemma grow_slots_correct:
  assumes "\<forall>n. mal n \<noteq> None" "elements < slots" "elements < 2 ^ 29"
  obtains k where "grow_slots mal slots elements = Inr (Some k)" "elements + 2 \<le> k"
  using assms that by (cases "slots < elements + 2") (auto simp: grow_slots_def)

lemma new_token:
  assumes "malloc_ok mal" "\<forall>n. mal n \<noteq> None" "start \<le> j" "j \<le> length s" "j < 2 ^ 63"
  obtains t where "mem_read s start (j - start) = Inr (drop start (take j s))"
    "sdsnewlen mal (InitBytes (drop start (take j s))) (j - start) = Inr (Some t)"
    "sds_wf t" "content t = drop start (take j s)"
proof -
  have "yields mal (sdsnewlen mal (InitBytes (drop start (take j s))) (j - start))
      (\<lambda>t. content t = take (j - start) (drop start (take j s)))"
    using assms by (intro sdsnewlen_bytes) auto
  from yields_full [OF this assms(2)] show thesis
    using that assms by (auto simp: mem drop_take)
qed

text \<open>
  The loop, with an allocator that does not fail and a string short enough for the slots to fit an
  \<open>int\<close>: tokens cut so far and the rest of the string are what the reference computes, and there
  is always a free slot for the last token.
\<close>

lemma split_loop_correct:
  assumes "malloc_ok mal" "\<forall>n. mal n \<noteq> None" "len \<le> length s" "len < 2 ^ 29" "1 \<le> n" "n \<le> length sep"
    "start \<le> j" "j \<le> len" "length tokens < slots" "length tokens \<le> j" "\<forall>t \<in> set tokens. sds_wf t"
  shows "\<exists>start' slots' tokens'.
           split_loop mal s len sep n start j slots tokens = Inr (Some (start', slots', tokens')) \<and>
           start' \<le> len \<and> length tokens' < slots' \<and> (\<forall>t \<in> set tokens'. sds_wf t) \<and>
           map content tokens' @ [drop start' (take len s)] =
             map content tokens @ split_spec (take n sep) (drop start (take j s)) (drop j (take len s))"
  using assms(7-)
proof (induction "len - j" arbitrary: start j slots tokens rule: less_induct)
  case (less j start slots tokens)
  let ?sep = "take n sep" and ?rest = "drop j (take len s)" and ?tok = "drop start (take j s)"
  have sep: "length ?sep = n" "?sep \<noteq> []" using assms(5,6) by auto
  show ?case
  proof (cases "j + n \<le> len")
    case False
    then have "split_spec ?sep ?tok ?rest = [?tok @ ?rest]"
      using sep assms(3) by (intro split_spec_short) auto
    then show ?thesis using False less(2-) cut_at [OF less(2,3), of s]
      by (subst split_loop.simps) auto
  next
    case True
    obtain k where k: "grow_slots mal slots (length tokens) = Inr (Some k)" "length tokens + 2 \<le> k"
      using grow_slots_correct [OF assms(2) less(4)] less(3,5) assms(4) by auto
    have "j + n \<le> length s" using True assms(3) by simp
    note at = sep_at_correct [OF this assms(6,5)]
    have go: "int j < int len - (int n - 1)" using True by simp
    show ?thesis
    proof (cases "take n (drop j s) = ?sep")
      case found: True
      have rest: "?rest = ?sep @ drop (j + n) (take len s)"
        using cut_at [of j "j + n" len s] found True by (simp add: drop_take)
      obtain t where t: "mem_read s start (j - start) = Inr ?tok"
        "sdsnewlen mal (InitBytes ?tok) (j - start) = Inr (Some t)" "sds_wf t" "content t = ?tok"
        using new_token [OF assms(1,2) less(2), of s] less(3) assms(3,4) by auto
      have st: "store_token k tokens t = Inr (tokens @ [t])" using k(2) by (simp add: store_token_def)
      have "split_loop mal s len sep n start j slots tokens =
          split_loop mal s len sep n (j + n) (j + n) k (tokens @ [t])"
        using found go k(1) at t(1,2) st assms(5) by (subst split_loop.simps) (simp add: max_def)
      moreover have "split_spec ?sep ?tok ?rest = ?tok # split_spec ?sep [] (drop (j + n) (take len s))"
        unfolding rest by (rule split_spec_sep [OF sep(2)])
      ultimately show ?thesis
        using less(1) [of "j + n" "j + n" "tokens @ [t]" k] True assms(5) k(2) t(3,4) less(5,6) by auto
    next
      case no: False
      have "split_loop mal s len sep n start j slots tokens = split_loop mal s len sep n start (Suc j) k tokens"
        using no go k(1) at by (subst split_loop.simps) simp
      moreover have "split_spec ?sep ?tok ?rest =
          split_spec ?sep (drop start (take (Suc j) s)) (drop (Suc j) (take len s))"
      proof -
        have j: "j < len" "j < length s" using go assms(3,5) by auto
        then have rest: "?rest = s ! j # drop (Suc j) (take len s)" using assms(3) by (simp add: drop_take_Suc)
        have "take n ?rest = take n (drop j s)" using True by (simp add: drop_take min_def)
        then have "\<not> prefix ?sep ?rest" using no sep(1) by (metis prefix_def append_eq_conv_conj)
        moreover have "drop start (take (Suc j) s) = ?tok @ [s ! j]"
          using cut_at [OF less(2), of "Suc j" s] j by (simp add: drop_take_Suc)
        ultimately show ?thesis unfolding rest by (simp add: split_spec_step)
      qed
      ultimately show ?thesis
        using less(1) [of "Suc j" start tokens k] True assms(5) k(2) less(2,5,6) by auto
    qed
  qed
qed

lemma sdssplitlen_correct:
  assumes "malloc_ok mal" "\<forall>n. mal n \<noteq> None" "0 < len" "len \<le> length s" "len < 2 ^ 29" "1 \<le> n" "n \<le> length sep"
  obtains tokens where "sdssplitlen mal s (int len) sep (int n) = Inr (Some tokens, Some (length tokens))"
    "\<forall>t \<in> set tokens. sds_wf t" "map content tokens = split_spec (take n sep) [] (take len s)"
proof -
  obtain start slots tokens where
    l: "split_loop mal s len sep n 0 0 5 [] = Inr (Some (start, slots, tokens))"
      "start \<le> len" "length tokens < slots" "\<forall>t \<in> set tokens. sds_wf t"
      "map content tokens @ [drop start (take len s)] = split_spec (take n sep) [] (take len s)"
    using split_loop_correct [OF assms(1,2,4,5,6,7), of 0 0 "[]" 5] by auto
  obtain t where t: "mem_read s start (len - start) = Inr (drop start (take len s))"
    "sdsnewlen mal (InitBytes (drop start (take len s))) (len - start) = Inr (Some t)"
    "sds_wf t" "content t = drop start (take len s)"
    using new_token [OF assms(1,2) l(2) assms(4)] assms(5) by auto
  show thesis
  proof (rule that)
    show "sdssplitlen mal s (int len) sep (int n) = Inr (Some (tokens @ [t]), Some (length (tokens @ [t])))"
      using assms(2,3,6) l(1,3) t(1,2) by (auto simp: sdssplitlen_def store_token_def)
    show "\<forall>t \<in> set (tokens @ [t]). sds_wf t" using l(4) t(3) by simp
    show "map content (tokens @ [t]) = split_spec (take n sep) [] (take len s)" using l(5) t(4) by simp
  qed
qed

section \<open>Joining is correct\<close>

text \<open>
  What the join loops rely on: an operation that appends what its argument denotes to a well-formed
  string, as long as the lengths stay below \<open>2^63\<close>. Both \<open>sdscat\<close> on C strings and \<open>sdscatsds\<close>
  provide it when the allocator does not fail.
\<close>

locale appender =
  fixes cat :: "sds \<Rightarrow> 'a \<Rightarrow> sds option outcome"
    and denotes :: "'a \<Rightarrow> byte list"
    and valid :: "'a \<Rightarrow> bool"
  assumes cat_appends: "sds_wf s \<Longrightarrow> valid a \<Longrightarrow> sdslen s + length (denotes a) < 2 ^ 63 \<Longrightarrow>
      \<exists>s'. cat s a = Inr (Some s') \<and> sds_wf s' \<and> content s' = content s @ denotes a"
begin

lemma join_loop_correct:
  assumes "\<And>s. sds_wf s \<Longrightarrow> sdslen s + length sep < 2 ^ 63 \<Longrightarrow>
      \<exists>s'. cat_sep s = Inr (Some s') \<and> sds_wf s' \<and> content s' = content s @ sep"
    "sds_wf s" "\<forall>a \<in> set argv. valid a" "sdslen s + length (join_spec sep (map denotes argv)) < 2 ^ 63"
  shows "\<exists>s'. join_loop cat cat_sep (Some s) argv = Inr (Some s') \<and> sds_wf s' \<and>
           content s' = content s @ join_spec sep (map denotes argv)"
  using assms(2-)
proof (induction argv arbitrary: s)
  case (Cons a argv)
  have "length (denotes a) \<le> length (join_spec sep (map denotes (a # argv)))" by (cases argv) auto
  then obtain s1 where s1: "cat s a = Inr (Some s1)" "sds_wf s1" "content s1 = content s @ denotes a"
    using cat_appends [of s a] Cons.prems by auto
  then have l1: "sdslen s1 = sdslen s + length (denotes a)"
    using length_content [OF s1(2)] length_content [OF Cons.prems(1)] by simp
  show ?case
  proof (cases argv)
    case Nil
    then show ?thesis using s1 by (simp add: on_sds_def)
  next
    case ne: (Cons b rest)
    then have total: "join_spec sep (map denotes (a # argv)) = denotes a @ sep @ join_spec sep (map denotes argv)"
      by simp
    then obtain s2 where s2: "cat_sep s1 = Inr (Some s2)" "sds_wf s2" "content s2 = content s1 @ sep"
      using assms(1) [OF s1(2)] Cons.prems(3) l1 by auto
    then have "sdslen s2 = sdslen s1 + length sep"
      using length_content [OF s2(2)] length_content [OF s1(2)] by simp
    then obtain s' where "join_loop cat cat_sep (Some s2) argv = Inr (Some s')" "sds_wf s'"
      "content s' = content s2 @ join_spec sep (map denotes argv)"
      using Cons.IH [OF s2(2)] Cons.prems l1 total by auto
    then show ?thesis using s1 s2 ne total by (simp add: on_sds_def)
  qed
qed simp

end

text \<open>An allocator that does not fail.\<close>

definition never_fails :: "s_malloc \<Rightarrow> bool" where
  "never_fails mal \<longleftrightarrow> malloc_ok mal \<and> (\<forall>n. mal n \<noteq> None)"

lemma sdscatlen_total:
  assumes "never_fails mal" "sds_wf s" "n \<le> length t" "sdslen s + n < 2 ^ 63"
  shows "\<exists>s'. sdscatlen mal s t n = Inr (Some s') \<and> sds_wf s' \<and> content s' = content s @ take n t"
  using yields_full [OF sdscatlen_correct] assms unfolding never_fails_def by blast

text \<open>The C string an array holds.\<close>

definition c_string :: "byte list \<Rightarrow> byte list" where
  "c_string a = takeWhile (\<lambda>c. c \<noteq> 0) a"

interpretation cstrings: appender "sdscat mal" c_string "\<lambda>a. never_fails mal \<and> 0 \<in> set a" for mal
proof
  fix s a assume "sds_wf s" "never_fails mal \<and> 0 \<in> set a" "sdslen s + length (c_string a) < 2 ^ 63"
  then show "\<exists>s'. sdscat mal s a = Inr (Some s') \<and> sds_wf s' \<and> content s' = content s @ c_string a"
    using sdscatlen_total [of mal s "length (c_string a)" a] length_takeWhile_le [of "\<lambda>c. c \<noteq> 0" a]
    by (simp add: sdscat_def strlen_takeWhile c_string_def takeWhile_eq_take [symmetric])
qed

interpretation sds_strings: appender "sdscatsds mal" content "\<lambda>a. never_fails mal \<and> sds_wf a" for mal
proof
  fix s a assume "sds_wf s" "never_fails mal \<and> sds_wf a" "sdslen s + length (content a) < 2 ^ 63"
  then show "\<exists>s'. sdscatsds mal s a = Inr (Some s') \<and> sds_wf s' \<and> content s' = content s @ content a"
    using sdscatlen_total [of mal s "sdslen a" "buf a"] length_content [of a]
    by (simp add: sdscatsds_def content_def sds_wf_def)
qed

lemma sdsempty_total:
  assumes "never_fails mal"
  obtains s where "sdsempty mal = Inr (Some s)" "sds_wf s" "content s = []"
proof -
  have "yields mal (sdsempty mal) (\<lambda>s. content s = take 0 [0])"
    unfolding sdsempty_def using assms by (intro sdsnewlen_bytes) (auto simp: never_fails_def)
  from yields_full [OF this] assms show thesis using that by (auto simp: never_fails_def)
qed

lemma sdsjoinsds_correct:
  assumes "never_fails mal" "\<forall>a \<in> set argv. sds_wf a" "n \<le> length sep"
    "length (join_spec (take n sep) (map content argv)) < 2 ^ 63"
  shows "\<exists>s. sdsjoinsds mal argv sep n = Inr (Some s) \<and> sds_wf s \<and> content s = join_spec (take n sep) (map content argv)"
proof -
  obtain e where e: "sdsempty mal = Inr (Some e)" "sds_wf e" "content e = []" by (rule sdsempty_total [OF assms(1)])
  have "sdslen e = 0" using length_content [OF e(2)] e(3) by simp
  moreover have "\<exists>s'. sdscatlen mal s sep n = Inr (Some s') \<and> sds_wf s' \<and> content s' = content s @ take n sep"
    if "sds_wf s" "sdslen s + length (take n sep) < 2 ^ 63" for s
    using sdscatlen_total [OF assms(1) that(1) assms(3)] that(2) assms(3) by (simp add: min_absorb2)
  ultimately show ?thesis
    using sds_strings.join_loop_correct [where cat_sep = "\<lambda>s. sdscatlen mal s sep n" and sep = "take n sep"
        and s = e and argv = argv and mal = mal] assms e
    by (simp add: sdsjoinsds_def)
qed

lemma sdsjoin_correct:
  assumes "never_fails mal" "\<forall>a \<in> set argv. 0 \<in> set a" "0 \<in> set sep"
    "length (join_spec (c_string sep) (map c_string argv)) < 2 ^ 63"
  shows "\<exists>s. sdsjoin mal argv sep = Inr (Some s) \<and> sds_wf s \<and> content s = join_spec (c_string sep) (map c_string argv)"
proof -
  obtain e where e: "sdsempty mal = Inr (Some e)" "sds_wf e" "content e = []" by (rule sdsempty_total [OF assms(1)])
  have "sdslen e = 0" using length_content [OF e(2)] e(3) by simp
  then show ?thesis
    using cstrings.join_loop_correct [where cat_sep = "\<lambda>s. sdscat mal s sep" and sep = "c_string sep"
        and s = e and argv = argv and mal = mal] cstrings.cat_appends [of _ mal sep] assms e
    by (simp add: sdsjoin_def)
qed

section \<open>Properties\<close>

lemma full_never_fails: "never_fails full_malloc"
  by (simp add: never_fails_def full_malloc_ok)

text \<open>C16: splitting and joining are inverse: for a non-empty string and a non-empty separator
  \<open>sdssplitlen\<close> returns well-formed tokens none of which contains the separator, stores their number,
  and \<open>sdsjoinsds\<close> of the tokens with the same separator is the original string.\<close>

theorem split_join_roundtrip:
  assumes "never_fails mal" "0 < len" "len \<le> length s" "len < 2 ^ 29" "1 \<le> n" "n \<le> length sep"
  shows "\<exists>tokens s'. sdssplitlen mal s (int len) sep (int n) = Inr (Some tokens, Some (length tokens)) \<and>
           (\<forall>t \<in> set tokens. sds_wf t \<and> \<not> sublist (take n sep) (content t)) \<and>
           sdsjoinsds mal tokens sep n = Inr (Some s') \<and> sds_wf s' \<and> content s' = take len s"
proof -
  have mal: "malloc_ok mal" "\<forall>n. mal n \<noteq> None" using assms(1) by (auto simp: never_fails_def)
  obtain tokens where t: "sdssplitlen mal s (int len) sep (int n) = Inr (Some tokens, Some (length tokens))"
    "\<forall>t \<in> set tokens. sds_wf t" "map content tokens = split_spec (take n sep) [] (take len s)"
    by (rule sdssplitlen_correct [OF mal assms(2-6)])
  have join: "join_spec (take n sep) (map content tokens) = take len s"
    unfolding t(3) join_split_spec by simp
  have "take n sep \<noteq> []" using assms(5,6) by auto
  then have "\<not> sublist (take n sep) (content x)" if "x \<in> set tokens" for x
    using split_spec_separates [of "take n sep" "[]" "take len s" "content x"] that t(3)
    by (metis image_eqI length_0_conv less_nat_zero_code list.set_map)
  moreover obtain s' where "sdsjoinsds mal tokens sep n = Inr (Some s')" "sds_wf s'" "content s' = take len s"
    using sdsjoinsds_correct [OF assms(1) t(2) assms(6)] join assms(3,4) by auto
  ultimately show ?thesis using t(1,2) by blast
qed

theorem split_join_roundtrip_witness:
  "\<exists>tokens s'. sdssplitlen full_malloc [102, 95, 45, 95, 98] 5 [95, 45, 95] 3 = Inr (Some tokens, Some (length tokens)) \<and>
     (\<forall>t \<in> set tokens. sds_wf t \<and> \<not> sublist [95, 45, 95] (content t)) \<and>
     sdsjoinsds full_malloc tokens [95, 45, 95] 3 = Inr (Some s') \<and> sds_wf s' \<and> content s' = [102, 95, 45, 95, 98]"
  using split_join_roundtrip [OF full_never_fails, of 5 "[102, 95, 45, 95, 98]" 3 "[95, 45, 95]"] by simp

text \<open>C26: \<open>sdstrim\<close> removes from both ends the longest runs of bytes found in \<open>cset\<close>; because \<open>strchr\<close> also
  finds the terminator of \<open>cset\<close>, zero bytes are always removed.\<close>

theorem sdstrim_trims:
  assumes "sds_wf s"
  shows "\<exists>s'. sdstrim s cset = Inr s' \<and> sds_wf s' \<and>
    content s' = rev (dropWhile (\<lambda>c. c = 0 \<or> c \<in> set cset) (rev (dropWhile (\<lambda>c. c = 0 \<or> c \<in> set cset) (content s))))"
  using sdstrim_correct [OF assms, of cset] unfolding trim_def strchr_def .

theorem sdstrim_trims_witness:
  "\<exists>s'. sdstrim \<lparr>hdr = Hdr8 5 5, buf = [0, 65, 98, 0, 65, 0]\<rparr> [65] = Inr s' \<and> sds_wf s' \<and> content s' = [98]"
  using sdstrim_trims [of "\<lparr>hdr = Hdr8 5 5, buf = [0, 65, 98, 0, 65, 0]\<rparr>" "[65]"]
  by (simp add: sds_wf_def content_def sdslen_def sdsalloc_def)

text \<open>C25: \<open>sdsrange\<close> keeps the inclusive range between two indices, negative ones counted from the end,
  for every pair of \<open>ssize_t\<close> indices except an \<open>end\<close> of \<open>SSIZE_MAX\<close>, whose length overflows.\<close>

theorem sdsrange_selects:
  assumes "sds_wf s" "sdslen s < 2 ^ 63" "- (2 ^ 63) \<le> i" "i < 2 ^ 63" "- (2 ^ 63) \<le> j" "j < 2 ^ 63 - 1"
  shows "\<exists>s'. sdsrange s i j = Inr s' \<and> sds_wf s' \<and> content s' = sub_range (content s) i j"
  using assms by (rule sdsrange_correct)

theorem sdsrange_selects_witness:
  "\<exists>s'. sdsrange abc_sds (-2) (-1) = Inr s' \<and> sds_wf s' \<and> content s' = [98, 99]"
  using sdsrange_selects [OF abc_sds_wf(1), of "-2" "-1"]
  by (simp add: abc_sds_wf sub_range_def signed_index_def)

text \<open>\<open>sdscmp\<close> orders strings lexicographically by unsigned bytes, a proper prefix first, and is zero
  exactly on equal contents.\<close>

theorem sdscmp_orders:
  assumes "sds_wf s1" "sds_wf s2"
  shows "\<exists>r. sdscmp s1 s2 = Inr r \<and> (r < 0 \<longleftrightarrow> ord_class.lexordp (content s1) (content s2)) \<and>
             (r = 0 \<longleftrightarrow> content s1 = content s2)"
  using sdscmp_lexord [OF assms] by metis

theorem sdscmp_orders_witness:
  "\<exists>r. sdscmp abc_sds \<lparr>hdr = Hdr5 16, buf = [97, 200, 0]\<rparr> = Inr r \<and> r < 0"
proof -
  have "sds_wf \<lparr>hdr = Hdr5 16, buf = [97, 200, 0]\<rparr>" "content \<lparr>hdr = Hdr5 16, buf = [97, 200, 0]\<rparr> = [97, 200]"
    by (simp_all add: sds_wf_def content_def sdslen_def sdsalloc_def sds_type5_len_def drop_bit_eq_div unat_div)
  then show ?thesis using sdscmp_orders [OF abc_sds_wf(1)] by (fastforce simp: abc_sds_wf)
qed

text \<open>\<open>sdsmapchars\<close>, \<open>sdstolower\<close> and \<open>sdstoupper\<close> change every byte of the string by the same
  function: the first entry of the translation table for the byte, or the case conversion.\<close>

theorem character_maps:
  assumes "sds_wf s" "n \<le> length from_set" "n \<le> length to_set"
  shows "(\<exists>s'. sdsmapchars s from_set to_set n = Inr s' \<and> sds_wf s' \<and>
            content s' = map (translate (take n from_set) (take n to_set)) (content s)) \<and>
         (\<exists>s'. sdstolower s = Inr s' \<and> sds_wf s' \<and> content s' = map tolower (content s)) \<and>
         (\<exists>s'. sdstoupper s = Inr s' \<and> sds_wf s' \<and> content s' = map toupper (content s))"
proof -
  have "\<forall>c. mapchar from_set to_set n c 0 = Inr (translate (take n from_set) (take n to_set) c)"
    using mapchar_correct [OF assms(2,3), of 0] by simp
  from map_string [OF assms(1) this] map_string [OF assms(1), of "\<lambda>c. Inr (tolower c)" tolower]
    map_string [OF assms(1), of "\<lambda>c. Inr (toupper c)" toupper]
  show ?thesis by (auto simp: sdsmapchars_def sdstolower_def sdstoupper_def)
qed

theorem character_maps_witness:
  "\<exists>s'. sdsmapchars abc_sds [97, 99] [48, 49] 2 = Inr s' \<and> sds_wf s' \<and> content s' = [48, 98, 49]"
  using character_maps [OF abc_sds_wf(1), of 2 "[97, 99]" "[48, 49]"]
  by (simp add: abc_sds_wf translate_def)

text \<open>The documentation of \<open>sdssplitlen\<close> promises NULL for an empty string; the code returns a vector
  without tokens.\<close>

lemma sdssplitlen_empty:
  "mal 40 \<noteq> None \<Longrightarrow> 1 \<le> n \<Longrightarrow> sdssplitlen mal s 0 sep n = Inr (Some [], Some 0)"
  by (simp add: sdssplitlen_def)

text \<open>An \<open>end\<close> of \<open>SSIZE_MAX\<close>, a natural way to say ``to the end'', overflows in \<open>(end-start)+1\<close>.\<close>

lemma sdsrange_overflow: "sdslen s \<noteq> 0 \<Longrightarrow> sdsrange s 0 (2 ^ 63 - 1) = Inl SignedOverflow"
  by (simp add: sdsrange_def range_index_def range_len_def)

end
