(* ===== verification/Sds_Args.thy ===== *)
theory Sds_Args
  imports Sds_Text
begin

text \<open>
  The formatting and argument parsing half of \<open>sds.c\<close>: integers to decimal text (\<open>sdsll2str\<close>,
  \<open>sdsull2str\<close>, \<open>sdsfromlonglong\<close>), \<open>sdscatvprintf\<close> with its growing buffer, \<open>sdscatfmt\<close>,
  the quoted representation \<open>sdscatrepr\<close> and the line parser \<open>sdssplitargs\<close>. The main results are
  that the digits are the decimal representation and fit \<open>SDS_LLSTR_SIZE\<close>, and that
  \<open>sdssplitargs\<close> reads back what \<open>sdscatrepr\<close> wrote.
\<close>

section \<open>Integers\<close>

definition SDS_LLSTR_SIZE :: nat where "SDS_LLSTR_SIZE = 21"

text \<open>\<open>do { *p++ = '0'+(v%10); v /= 10; } while(v)\<close>: the array, \<open>p\<close> and the digits.\<close>

function digits_loop :: "byte list \<Rightarrow> nat \<Rightarrow> nat \<Rightarrow> (byte list \<times> nat) outcome" where
  "digits_loop s p v =
     bindE (mem_write s p [word_of_nat (48 + v mod 10)]) (\<lambda>s.
     if v div 10 = 0 then Inr (s, Suc p) else digits_loop s (Suc p) (v div 10))"
  by auto
termination by (relation "measure (\<lambda>(s, p, v). v)") auto

declare digits_loop.simps [simp del]

text \<open>\<open>while(s < p) { swap *s, *p; s++; p--; }\<close> with offsets.\<close>

function reverse_loop :: "byte list \<Rightarrow> nat \<Rightarrow> int \<Rightarrow> byte list outcome" where
  "reverse_loop b i j =
     (if int i < j
      then bindE (rd b i) (\<lambda>x. bindE (rd b (nat j)) (\<lambda>y.
           bindE (mem_write b i [y]) (\<lambda>b. bindE (mem_write b (nat j) [x]) (\<lambda>b.
           reverse_loop b (Suc i) (j - 1)))))
      else Inr b)"
  by auto
termination by (relation "measure (\<lambda>(b, i, j). nat (j - int i))") auto

declare reverse_loop.simps [simp del]

text \<open>The array and the length returned. \<open>-value\<close> overflows for the smallest \<open>long long\<close>.\<close>

definition sdsll2str :: "byte list \<Rightarrow> int \<Rightarrow> (byte list \<times> nat) outcome" where
  "sdsll2str s val =
     (if val = - (2 ^ 63) then Inl SignedOverflow
      else
        bindE (digits_loop s 0 (nat \<bar>val\<bar>)) (\<lambda>(s, p).
        bindE (if val < 0 then bindE (mem_write s p [45]) (\<lambda>s. Inr (s, Suc p)) else Inr (s, p)) (\<lambda>(s, p).
        bindE (mem_write s p [0]) (\<lambda>s.
        bindE (reverse_loop s 0 (int p - 1)) (\<lambda>s. Inr (s, p))))))"

definition sdsull2str :: "byte list \<Rightarrow> nat \<Rightarrow> (byte list \<times> nat) outcome" where
  "sdsull2str s v =
     bindE (digits_loop s 0 v) (\<lambda>(s, p).
     bindE (mem_write s p [0]) (\<lambda>s.
     bindE (reverse_loop s 0 (int p - 1)) (\<lambda>s. Inr (s, p))))"

text \<open>The local array of \<open>SDS_LLSTR_SIZE\<close> bytes is uninitialised: \<open>stack\<close>.\<close>

definition sdsfromlonglong :: "s_malloc \<Rightarrow> byte list \<Rightarrow> int \<Rightarrow> sds option outcome" where
  "sdsfromlonglong mal stack val =
     bindE (sdsll2str stack val) (\<lambda>(b, len). sdsnewlen mal (InitBytes b) len)"

section \<open>Formatted output through vsnprintf\<close>

text \<open>
  \<open>vsnprintf(buf, buflen, fmt, ap)\<close> stores as much of the formatted text as fits before the
  terminator. The text \<open>out\<close> that a format and its arguments stand for is a parameter. This is the
  behaviour ISO C describes; the code does not look at the \<open>int\<close> it returns, so that the failure POSIX
  adds for sizes above \<open>INT_MAX\<close> (\<open>EOVERFLOW\<close>) goes unnoticed, and is not part of the model.
\<close>

definition vsnprintf :: "byte list \<Rightarrow> nat \<Rightarrow> byte list \<Rightarrow> byte list outcome" where
  "vsnprintf b buflen out = (if buflen = 0 then Inr b else mem_write b 0 (take (buflen - 1) out @ [0]))"

text \<open>The retry loop: the byte before the last one tells whether the text was cut. Each retry
  doubles the buffer.\<close>

partial_function (option) vprintf_loop ::
  "s_malloc \<Rightarrow> byte list \<Rightarrow> byte list \<Rightarrow> nat \<Rightarrow> byte list option outcome option" where
  "vprintf_loop mal out b buflen =
     (if buflen < 2 then Some (Inl OutOfBounds)
      else case bindE (mem_write b (buflen - 2) [0]) (\<lambda>b.
                bindE (vsnprintf b buflen out) (\<lambda>b.
                bindE (rd b (buflen - 2)) (\<lambda>c. Inr (b, c)))) of
             Inl e \<Rightarrow> Some (Inl e)
           | Inr (b, c) \<Rightarrow>
               (if c \<noteq> 0
                then case mal (to_size_t (buflen * 2)) of
                       None \<Rightarrow> Some (Inr None)
                     | Some b \<Rightarrow> vprintf_loop mal out b (to_size_t (buflen * 2))
                else Some (Inr (Some b))))"

text \<open>\<open>sdscatvprintf\<close>: a static buffer of 1024 bytes unless the format is long. \<open>sdscatprintf\<close> only
  collects the arguments.\<close>

definition sdscatvprintf :: "s_malloc \<Rightarrow> byte list \<Rightarrow> sds \<Rightarrow> byte list \<Rightarrow> byte list \<Rightarrow> sds option outcome option" where
  "sdscatvprintf mal staticbuf s fmt out =
     (case strlen fmt of
        Inl e \<Rightarrow> Some (Inl e)
      | Inr n \<Rightarrow>
          let buflen = to_size_t (n * 2) in
          case (if buflen > 1024 then mal buflen else Some staticbuf) of
            None \<Rightarrow> Some (Inr None)
          | Some b \<Rightarrow>
              (case vprintf_loop mal out b (if buflen > 1024 then buflen else 1024) of
                 None \<Rightarrow> None
               | Some r \<Rightarrow> Some (bindE r (\<lambda>b. case b of None \<Rightarrow> Inr None | Some b \<Rightarrow> sdscat mal s b))))"

definition sdscatprintf :: "s_malloc \<Rightarrow> byte list \<Rightarrow> sds \<Rightarrow> byte list \<Rightarrow> byte list \<Rightarrow> sds option outcome option" where
  "sdscatprintf mal staticbuf s fmt out = sdscatvprintf mal staticbuf s fmt out"

section \<open>Formatted output without vsnprintf\<close>

text \<open>The variable arguments of \<open>sdscatfmt\<close>, each with the type \<open>va_arg\<close> reads it at; reading an argument
  that is missing or of another type is undefined.\<close>

datatype fmt_arg =
    ArgStr "byte list"
  | ArgSds sds
  | ArgInt int
  | ArgLongLong int
  | ArgUInt nat
  | ArgULongLong nat

text \<open>The bytes an argument contributes to the conversion \<open>next\<close>, read from where the code reads them.\<close>

definition fmt_text :: "byte list \<Rightarrow> byte \<Rightarrow> fmt_arg \<Rightarrow> byte list outcome" where
  "fmt_text stack conv arg =
     (case arg of
        ArgStr str \<Rightarrow> (if conv = 115 then bindE (strlen str) (\<lambda>l. mem_read str 0 l) else Inl InvalidPointer)
      | ArgSds str \<Rightarrow> (if conv = 83 then mem_read (buf str) 0 (sdslen str) else Inl InvalidPointer)
      | ArgInt num \<Rightarrow> (if conv = 105 then bindE (sdsll2str stack num) (\<lambda>(b, l). mem_read b 0 l) else Inl InvalidPointer)
      | ArgLongLong num \<Rightarrow> (if conv = 73 then bindE (sdsll2str stack num) (\<lambda>(b, l). mem_read b 0 l) else Inl InvalidPointer)
      | ArgUInt num \<Rightarrow> (if conv = 117 then bindE (sdsull2str stack num) (\<lambda>(b, l). mem_read b 0 l) else Inl InvalidPointer)
      | ArgULongLong num \<Rightarrow> (if conv = 85 then bindE (sdsull2str stack num) (\<lambda>(b, l). mem_read b 0 l) else Inl InvalidPointer))"

text \<open>Store at \<open>s+i\<close> and add to the length; before a conversion the room is checked once more. NULL from
  \<open>sdsMakeRoomFor\<close> is not checked.\<close>

definition fmt_store :: "sds \<Rightarrow> nat \<Rightarrow> byte list \<Rightarrow> sds outcome" where
  "fmt_store s i xs = bindE (mem_write (buf s) i xs) (\<lambda>b. Inr (sdsinclen (s\<lparr>buf := b\<rparr>) (length xs)))"

definition fmt_room :: "s_malloc \<Rightarrow> sds \<Rightarrow> nat \<Rightarrow> sds outcome" where
  "fmt_room mal s n =
     bindE (if sdsavail s < n then sdsMakeRoomFor mal s n else Inr (Some s)) (\<lambda>r. on_sds r Inr)"

definition is_conversion :: "byte \<Rightarrow> bool" where
  "is_conversion c \<longleftrightarrow> c \<in> set [115, 83, 105, 73, 117, 85]"

text \<open>The loop over the format: the string, the position \<open>i\<close>, the rest of the format, the arguments. A
  \<open>%\<close> at the end of the format makes the loop step over the terminator.\<close>

function fmt_loop :: "s_malloc \<Rightarrow> byte list \<Rightarrow> sds \<Rightarrow> nat \<Rightarrow> byte list \<Rightarrow> fmt_arg list \<Rightarrow> (sds \<times> nat) outcome" where
  "fmt_loop mal stack s i [] args = Inl OutOfBounds"
| "fmt_loop mal stack s i (c # f) args =
     (if c = 0 then Inr (s, i)
      else
        bindE (fmt_room mal s 1) (\<lambda>s.
        if c = 37
        then (case f of
                [] \<Rightarrow> Inl OutOfBounds
              | conv # f' \<Rightarrow>
                  (if is_conversion conv
                   then (case args of
                           [] \<Rightarrow> Inl InvalidPointer
                         | arg # args' \<Rightarrow>
                             bindE (fmt_text stack conv arg) (\<lambda>xs.
                             bindE (fmt_room mal s (length xs)) (\<lambda>s.
                             bindE (fmt_store s i xs) (\<lambda>s.
                             fmt_loop mal stack s (i + length xs) f' args'))))
                   else bindE (fmt_store s i [conv]) (\<lambda>s. fmt_loop mal stack s (i + 1) f' args)))
        else bindE (fmt_store s i [c]) (\<lambda>s. fmt_loop mal stack s (i + 1) f args)))"
  by pat_completeness auto
termination by (relation "measure (\<lambda>(mal, stack, s, i, f, args). length f)") auto

declare fmt_loop.simps(2) [simp del]

definition sdscatfmt :: "s_malloc \<Rightarrow> byte list \<Rightarrow> sds \<Rightarrow> byte list \<Rightarrow> fmt_arg list \<Rightarrow> sds outcome" where
  "sdscatfmt mal stack s fmt args =
     bindE (fmt_loop mal stack s (sdslen s) fmt args) (\<lambda>(s, i).
     bindE (mem_write (buf s) i [0]) (\<lambda>b. Inr (s\<lparr>buf := b\<rparr>)))"

section \<open>Quoted representation\<close>

text \<open>\<open>isprint\<close> and \<open>isspace\<close> of the C locale.\<close>

definition isprint :: "byte \<Rightarrow> bool" where
  "isprint c \<longleftrightarrow> 32 \<le> c \<and> c \<le> 126"

definition isspace :: "byte \<Rightarrow> bool" where
  "isspace c \<longleftrightarrow> c = 32 \<or> (9 \<le> c \<and> c \<le> 13)"

text \<open>\<open>%02x\<close>.\<close>

definition hex_char :: "nat \<Rightarrow> byte" where
  "hex_char n = (if n < 10 then word_of_nat (48 + n) else word_of_nat (87 + n))"

definition hex_text :: "byte \<Rightarrow> byte list" where
  "hex_text c = [hex_char (unat c div 16), hex_char (unat c mod 16)]"

text \<open>One iteration of \<open>sdscatrepr\<close>; the format strings are \<open>\%c\<close>, \<open>%c\<close> and \<open>\x%02x\<close>.\<close>

definition repr_step :: "s_malloc \<Rightarrow> byte list \<Rightarrow> sds \<Rightarrow> byte \<Rightarrow> sds option outcome option" where
  "repr_step mal staticbuf s c =
     (if c = 92 \<or> c = 34 then sdscatprintf mal staticbuf s [92, 37, 99, 0] [92, c]
      else if c = 10 then Some (sdscatlen mal s [92, 110, 0] 2)
      else if c = 13 then Some (sdscatlen mal s [92, 114, 0] 2)
      else if c = 9 then Some (sdscatlen mal s [92, 116, 0] 2)
      else if c = 7 then Some (sdscatlen mal s [92, 97, 0] 2)
      else if c = 8 then Some (sdscatlen mal s [92, 98, 0] 2)
      else if isprint c then sdscatprintf mal staticbuf s [37, 99, 0] [c]
      else sdscatprintf mal staticbuf s [92, 120, 37, 48, 50, 120, 0] ([92, 120] @ hex_text c))"

fun repr_loop :: "s_malloc \<Rightarrow> byte list \<Rightarrow> sds option \<Rightarrow> byte list \<Rightarrow> sds option outcome option" where
  "repr_loop mal staticbuf s [] = Some (Inr s)"
| "repr_loop mal staticbuf s (c # p) =
     (case s of
        None \<Rightarrow> Some (Inl NullDeref)
      | Some s \<Rightarrow> bindO (repr_step mal staticbuf s c) (\<lambda>s. repr_loop mal staticbuf s p))"

definition sdscatrepr :: "s_malloc \<Rightarrow> byte list \<Rightarrow> sds \<Rightarrow> byte list \<Rightarrow> nat \<Rightarrow> sds option outcome option" where
  "sdscatrepr mal staticbuf s p len =
     bindO (Some (sdscatlen mal s [34, 0] 1)) (\<lambda>s.
     bindO (Some (mem_read p 0 len)) (\<lambda>p.
     bindO (repr_loop mal staticbuf s p) (\<lambda>s.
     Some (on_sds s (\<lambda>s. sdscatlen mal s [34, 0] 1)))))"

section \<open>Splitting a line into arguments\<close>

definition is_hex_digit :: "byte \<Rightarrow> bool" where
  "is_hex_digit c \<longleftrightarrow> (48 \<le> c \<and> c \<le> 57) \<or> (97 \<le> c \<and> c \<le> 102) \<or> (65 \<le> c \<and> c \<le> 70)"

definition hex_digit_to_int :: "byte \<Rightarrow> nat" where
  "hex_digit_to_int c =
     (if 48 \<le> c \<and> c \<le> 57 then unat c - 48
      else if 97 \<le> c \<and> c \<le> 102 then unat c - 87
      else if 65 \<le> c \<and> c \<le> 70 then unat c - 55
      else 0)"

text \<open>\<open>\xHH\<close> at \<open>p\<close>: the byte it stands for. The tests are evaluated from left to right and stop at the
  first that fails, so nothing behind the terminator is read.\<close>

definition hex_escape :: "byte list \<Rightarrow> byte option outcome" where
  "hex_escape p =
     bindE (rd p 0) (\<lambda>c0. if c0 \<noteq> 92 then Inr None else
     bindE (rd p 1) (\<lambda>c1. if c1 \<noteq> 120 then Inr None else
     bindE (rd p 2) (\<lambda>c2. if \<not> is_hex_digit c2 then Inr None else
     bindE (rd p 3) (\<lambda>c3. if \<not> is_hex_digit c3 then Inr None else
     Inr (Some (word_of_nat (hex_digit_to_int c2 * 16 + hex_digit_to_int c3)))))))"

definition unescape :: "byte \<Rightarrow> byte" where
  "unescape c =
     (if c = 110 then 10 else if c = 114 then 13 else if c = 116 then 9
      else if c = 98 then 8 else if c = 97 then 7 else c)"

text \<open>\<open>current = sdscatlen(current, &c, 1)\<close>; a NULL \<open>current\<close> is dereferenced.\<close>

definition cat_byte :: "s_malloc \<Rightarrow> sds option \<Rightarrow> byte \<Rightarrow> sds option outcome" where
  "cat_byte mal current c = on_sds current (\<lambda>s. sdscatlen mal s [c] 1)"

text \<open>
  One iteration of \<open>while(!done)\<close>, apart from its effect on \<open>current\<close>: \<open>goto err\<close>; done, with the
  number of bytes \<open>p\<close> advances; append a byte, with the number of bytes behind the first by which \<open>p\<close>
  advances; or enter a quote (\<open>inq\<close>, \<open>insq\<close>).
\<close>

datatype tok_step = StepErr | StepDone nat | StepCat byte nat | StepEnter bool bool

text \<open>\<open>if (*(p+1) && !isspace(*(p+1))) goto err; done=1;\<close>\<close>

definition close_quote :: "byte list \<Rightarrow> tok_step outcome" where
  "close_quote p = bindE (rd p 1) (\<lambda>d. if d \<noteq> 0 \<and> \<not> isspace d then Inr StepErr else Inr (StepDone 1))"

definition quoted_step :: "byte list \<Rightarrow> tok_step outcome" where
  "quoted_step p =
     bindE (hex_escape p) (\<lambda>h. case h of
       Some b \<Rightarrow> Inr (StepCat b 3)
     | None \<Rightarrow>
         bindE (rd p 0) (\<lambda>c.
         bindE (if c = 92 then rd p 1 else Inr 0) (\<lambda>d.
         if d \<noteq> 0 then Inr (StepCat (unescape d) 1)
         else if c = 34 then close_quote p
         else if c = 0 then Inr StepErr
         else Inr (StepCat c 0))))"

definition single_quoted_step :: "byte list \<Rightarrow> tok_step outcome" where
  "single_quoted_step p =
     bindE (rd p 0) (\<lambda>c.
     bindE (if c = 92 then rd p 1 else Inr 0) (\<lambda>d.
     if d = 39 then Inr (StepCat 39 1)
     else if c = 39 then close_quote p
     else if c = 0 then Inr StepErr
     else Inr (StepCat c 0)))"

definition plain_step :: "byte list \<Rightarrow> tok_step outcome" where
  "plain_step p =
     bindE (rd p 0) (\<lambda>c.
     if c = 32 \<or> c = 10 \<or> c = 13 \<or> c = 9 then Inr (StepDone 1)
     else if c = 0 then Inr (StepDone 0)
     else if c = 34 then Inr (StepEnter True False)
     else if c = 39 then Inr (StepEnter False True)
     else Inr (StepCat c 0))"

definition tok_next :: "bool \<Rightarrow> bool \<Rightarrow> byte list \<Rightarrow> tok_step outcome" where
  "tok_next inq insq p =
     (if inq then quoted_step p else if insq then single_quoted_step p else plain_step p)"

lemma tok_next_Nil [simp]: "tok_next inq insq [] = Inl OutOfBounds"
  by (simp add: tok_next_def quoted_step_def single_quoted_step_def plain_step_def hex_escape_def rd_def)

text \<open>The loop: the token read and the rest of the line, or an error.\<close>

datatype tok_result = TokErr | TokDone "sds option" "byte list"

function split_token :: "s_malloc \<Rightarrow> bool \<Rightarrow> bool \<Rightarrow> sds option \<Rightarrow> byte list \<Rightarrow> tok_result outcome" where
  "split_token mal inq insq current p =
     bindE (tok_next inq insq p) (\<lambda>st. case st of
       StepErr \<Rightarrow> Inr TokErr
     | StepDone n \<Rightarrow> Inr (TokDone current (drop n p))
     | StepCat b n \<Rightarrow> bindE (cat_byte mal current b) (\<lambda>current. split_token mal inq insq current (drop (Suc n) p))
     | StepEnter q sq \<Rightarrow> split_token mal q sq current (drop 1 p))"
  by auto
termination
proof (relation "measure (\<lambda>(mal, inq, insq, current, p). length p)", goal_cases)
  case (2 mal inq insq current p st b n cur)
  then show ?case by (cases p) auto
next
  case (3 mal inq insq current p st q sq)
  then show ?case by (cases p) auto
qed simp

declare split_token.simps [simp del]

text \<open>\<open>while(*p && isspace(*p)) p++\<close>\<close>

fun skip_blanks :: "byte list \<Rightarrow> byte list outcome" where
  "skip_blanks [] = Inl OutOfBounds"
| "skip_blanks (c # p) = (if c \<noteq> 0 \<and> isspace c then skip_blanks p else Inr (c # p))"

lemma skip_blanks_length: "skip_blanks p = Inr q \<Longrightarrow> length q \<le> length p \<and> q \<noteq> []"
  by (induction p) (auto split: if_splits)

text \<open>What the termination of the outer loop rests on: a token consumes at least one byte.\<close>

lemma tok_next_done: "tok_next inq insq p = Inr (StepDone n) \<Longrightarrow> hd p \<noteq> 0 \<Longrightarrow> 0 < n"
  by (cases p)
    (auto simp: tok_next_def quoted_step_def single_quoted_step_def plain_step_def close_quote_def rd_def outcome
      split: if_splits option.splits)

lemma split_token_fault: "tok_next inq insq p = Inl e \<Longrightarrow> split_token mal inq insq current p = Inl e"
  by (subst split_token.simps) simp

lemma split_token_err: "tok_next inq insq p = Inr StepErr \<Longrightarrow> split_token mal inq insq current p = Inr TokErr"
  by (subst split_token.simps) simp

lemma split_token_done:
  "tok_next inq insq p = Inr (StepDone n) \<Longrightarrow> split_token mal inq insq current p = Inr (TokDone current (drop n p))"
  by (subst split_token.simps) simp

lemma split_token_cat:
  "tok_next inq insq p = Inr (StepCat b n) \<Longrightarrow> split_token mal inq insq current p =
     bindE (cat_byte mal current b) (\<lambda>current. split_token mal inq insq current (drop (Suc n) p))"
  by (subst split_token.simps) simp

lemma split_token_enter:
  "tok_next inq insq p = Inr (StepEnter q sq) \<Longrightarrow> split_token mal inq insq current p =
     split_token mal q sq current (drop 1 p)"
  by (subst split_token.simps) simp

lemmas split_token_steps = split_token_fault split_token_err split_token_done split_token_cat split_token_enter

lemma split_token_length:
  "split_token mal inq insq current p = Inr (TokDone current' p') \<Longrightarrow> length p' \<le> length p"
proof (induction mal inq insq current p rule: split_token.induct)
  case (1 mal inq insq current p)
  show ?case
  proof (cases "tok_next inq insq p")
    case (Inr st)
    show ?thesis
    proof (cases st)
      case (StepCat b n)
      then obtain cur where cur: "cat_byte mal current b = Inr cur"
        "split_token mal inq insq cur (drop (Suc n) p) = Inr (TokDone current' p')"
        using 1(3) Inr by (auto simp: split_token_steps outcome)
      from 1(1) [OF Inr StepCat cur] show ?thesis by simp
    next
      case (StepEnter q sq)
      then have "split_token mal q sq current (drop 1 p) = Inr (TokDone current' p')"
        using 1(3) Inr by (simp add: split_token_steps)
      from 1(2) [OF Inr StepEnter this] show ?thesis by simp
    qed (use 1(3) Inr in \<open>auto simp: split_token_steps\<close>)
  qed (use 1(3) in \<open>simp add: split_token_steps\<close>)
qed

lemma split_token_shorter:
  assumes "split_token mal inq insq current p = Inr (TokDone current' p')" "hd p \<noteq> 0"
  shows "length p' < length p"
proof (cases "tok_next inq insq p")
  case (Inr st)
  then have ne: "length p > 0" by auto
  show ?thesis
  proof (cases st)
    case (StepDone n)
    then show ?thesis using assms Inr ne tok_next_done by (auto simp: split_token_steps)
  next
    case (StepCat b n)
    then obtain cur where "split_token mal inq insq cur (drop (Suc n) p) = Inr (TokDone current' p')"
      using assms(1) Inr by (auto simp: split_token_steps outcome)
    from split_token_length [OF this] show ?thesis using ne unfolding length_drop by linarith
  next
    case (StepEnter q sq)
    then have "split_token mal q sq current (drop 1 p) = Inr (TokDone current' p')"
      using assms(1) Inr by (simp add: split_token_steps)
    from split_token_length [OF this] show ?thesis using ne unfolding length_drop by linarith
  qed (use assms(1) Inr in \<open>simp add: split_token_steps\<close>)
qed (use assms(1) in \<open>simp add: split_token_steps\<close>)

text \<open>The outer loop of \<open>sdssplitargs\<close>. The vector grows by one slot per token; \<open>*argc\<close>, its length, is an \<open>int\<close>,
  so that \<open>(*argc)+1\<close> overflows for the token number \<open>2 ^ 31\<close>; NULL from \<open>s_realloc\<close> is not checked. The
  result is the vector, or \<open>None\<close> for \<open>goto err\<close>.\<close>

definition INT_MAX :: nat where "INT_MAX = 2 ^ 31 - 1"

function args_loop :: "s_malloc \<Rightarrow> sds option list \<Rightarrow> byte list \<Rightarrow> sds option list option outcome" where
  "args_loop mal vec p =
     bindE (skip_blanks p) (\<lambda>p.
     if hd p \<noteq> 0
     then bindE (sdsempty mal) (\<lambda>current.
          bindE (split_token mal False False current p) (\<lambda>r. case r of
            TokErr \<Rightarrow> Inr None
          | TokDone current p \<Rightarrow>
              (if INT_MAX \<le> length vec then Inl SignedOverflow
               else if mal ((length vec + 1) * 8) = None then Inl NullDeref
               else args_loop mal (vec @ [current]) p)))
     else if vec = [] \<and> mal 8 = None then Inr None
     else Inr (Some vec))"
  by auto
termination
proof (relation "measure (\<lambda>(mal, vec, p). length p)", goal_cases)
  case (2 mal vec p q current r current' p')
  then have "length p' < length q" using split_token_shorter by simp
  with 2 show ?case using skip_blanks_length [of p q] by simp
qed simp

declare args_loop.simps [simp del]

text \<open>\<open>sdssplitargs\<close>: the vector or NULL, and \<open>*argc\<close>.\<close>

definition sdssplitargs :: "s_malloc \<Rightarrow> byte list \<Rightarrow> (sds option list option \<times> nat) outcome" where
  "sdssplitargs mal line =
     bindE (args_loop mal [] line) (\<lambda>r. case r of
       None \<Rightarrow> Inr (None, 0)
     | Some vec \<Rightarrow> Inr (Some vec, length vec))"

section \<open>Decimal text is correct\<close>

text \<open>The reference: the decimal digits, most significant first, and the value of a text.\<close>

fun dec :: "nat \<Rightarrow> byte list" where
  "dec v = (if v < 10 then [word_of_nat (48 + v)] else dec (v div 10) @ [word_of_nat (48 + v mod 10)])"

declare dec.simps [simp del]

definition dec_int :: "int \<Rightarrow> byte list" where
  "dec_int i = (if i < 0 then 45 # dec (nat \<bar>i\<bar>) else dec (nat i))"

definition dec_value :: "byte list \<Rightarrow> nat" where
  "dec_value xs = foldl (\<lambda>a c. 10 * a + (unat c - 48)) 0 xs"

lemma unat_digit: "d < 10 \<Longrightarrow> unat (word_of_nat (48 + d) :: byte) = 48 + d"
  by (simp add: unat_of_nat del: of_nat_add)

lemma dec_value_dec: "dec_value (dec v) = v"
proof (induction v rule: dec.induct)
  case (1 v)
  then show ?case
    by (subst dec.simps) (auto simp: dec_value_def unat_digit simp del: of_nat_add)
qed

lemma dec_length: "v < 10 ^ k \<Longrightarrow> 0 < k \<Longrightarrow> length (dec v) \<le> k"
proof (induction k arbitrary: v)
  case (Suc k)
  show ?case
  proof (cases "v < 10")
    case True
    then show ?thesis by (subst dec.simps) simp
  next
    case False
    then have "v div 10 < 10 ^ k" "0 < k"
      using Suc.prems(1) by (cases k; simp add: div_less_iff_less_mult mult.commute)+
    from Suc.IH [OF this] False show ?thesis by (subst dec.simps) simp
  qed
qed simp

lemma dec_nonempty: "dec v \<noteq> []"
  by (subst dec.simps) simp

lemma digits_loop_correct:
  "p + length (dec v) \<le> length s \<Longrightarrow>
   digits_loop s p v = Inr (take p s @ rev (dec v) @ drop (p + length (dec v)) s, p + length (dec v))"
proof (induction s p v rule: digits_loop.induct)
  case (1 s p v)
  show ?case
  proof (cases "v < 10")
    case True
    then have "dec v = [word_of_nat (48 + v)]" by (subst dec.simps) simp
    then show ?thesis using True 1(2) by (subst digits_loop.simps) (simp add: mem)
  next
    case False
    then have d: "dec v = dec (v div 10) @ [word_of_nat (48 + v mod 10)]" by (subst dec.simps) simp
    let ?c = "word_of_nat (48 + v mod 10) :: byte"
    let ?s = "take p s @ [?c] @ drop (p + 1) s"
    have nz: "v div 10 \<noteq> 0" using False by (simp add: div_eq_0_iff)
    have w: "mem_write s p [?c] = Inr ?s" using 1(2) d by (simp add: mem del: of_nat_add)
    have "digits_loop s p v = digits_loop ?s (Suc p) (v div 10)"
      unfolding digits_loop.simps [of s p v] w bindE_Inr if_not_P [OF nz] by (rule refl)
    also have "\<dots> = Inr (take (Suc p) ?s @ rev (dec (v div 10)) @ drop (Suc p + length (dec (v div 10))) ?s,
        Suc p + length (dec (v div 10)))"
      using 1(2) d nz by (intro 1(1) [OF w]) (simp_all del: of_nat_add)
    also have "\<dots> = Inr (take p s @ rev (dec v) @ drop (p + length (dec v)) s, p + length (dec v))"
      using 1(2) d by (simp add: add.commute del: of_nat_add)
    finally show ?thesis .
  qed
qed

lemma reverse_loop_correct:
  "reverse_loop (pre @ xs @ post) (length pre) (int (length pre) + int (length xs) - 1) = Inr (pre @ rev xs @ post)"
proof (induction "length xs" arbitrary: pre xs post rule: less_induct)
  case less
  show ?case
  proof (cases xs)
    case Nil
    then show ?thesis by (subst reverse_loop.simps) simp
  next
    case (Cons x ys)
    show ?thesis
    proof (cases ys rule: rev_cases)
      case Nil
      then show ?thesis using Cons by (subst reverse_loop.simps) simp
    next
      case (snoc m y)
      let ?b = "pre @ xs @ post" and ?j = "length pre + length m + 1"
      have b: "?b = pre @ x # m @ y # post" using Cons snoc by simp
      have j: "int (length pre) + int (length xs) - 1 = int ?j" using Cons snoc by simp
      have r: "rd ?b (length pre) = Inr x" "rd ?b ?j = Inr y"
        unfolding b by (simp_all add: rd_def nth_append)
      have w1: "mem_write ?b (length pre) [y] = Inr (pre @ y # m @ y # post)" unfolding b by (simp add: mem)
      have w2: "mem_write (pre @ y # m @ y # post) ?j [x] = Inr (pre @ y # m @ x # post)" by (simp add: mem)
      have "reverse_loop ?b (length pre) (int ?j) = reverse_loop (pre @ y # m @ x # post) (Suc (length pre)) (int ?j - 1)"
        unfolding reverse_loop.simps [of ?b] nat_int r w1 w2 bindE_Inr by simp
      also have "\<dots> = reverse_loop ((pre @ [y]) @ m @ x # post) (length (pre @ [y]))
          (int (length (pre @ [y])) + int (length m) - 1)" by simp
      also have "\<dots> = Inr ((pre @ [y]) @ rev m @ x # post)" using Cons snoc by (intro less) simp
      finally show ?thesis unfolding j using Cons snoc by simp
    qed
  qed
qed

text \<open>The two conversions store the decimal text and its terminator, and return its length; 21 bytes are
  always enough.\<close>

lemma sdsull2str_correct:
  assumes "v < 2 ^ 64" "SDS_LLSTR_SIZE \<le> length s"
  shows "sdsull2str s v = Inr (dec v @ 0 # drop (length (dec v) + 1) s, length (dec v))"
proof -
  let ?d = "dec v"
  have "v < 10 ^ 20" using assms(1) by simp
  then have l: "length ?d + 1 \<le> length s" using dec_length [of v 20] assms(2) by (simp add: SDS_LLSTR_SIZE_def)
  then have "digits_loop s 0 v = Inr (rev ?d @ drop (length ?d) s, length ?d)"
    using digits_loop_correct [of 0 v s] by simp
  moreover have "reverse_loop (rev ?d @ 0 # drop (length ?d + 1) s) 0 (int (length ?d) - 1) =
      Inr (?d @ 0 # drop (length ?d + 1) s)"
    using reverse_loop_correct [of "[]" "rev ?d" "0 # drop (length ?d + 1) s"] by simp
  ultimately show ?thesis using l by (simp add: sdsull2str_def mem)
qed

lemma sdsll2str_correct:
  assumes "- (2 ^ 63) < i" "i < 2 ^ 63" "SDS_LLSTR_SIZE \<le> length s"
  shows "sdsll2str s i = Inr (dec_int i @ 0 # drop (length (dec_int i) + 1) s, length (dec_int i))"
proof -
  let ?d = "dec (nat \<bar>i\<bar>)"
  have "nat \<bar>i\<bar> < 10 ^ 19" using assms(1,2) by (simp add: nat_less_iff abs_if)
  then have l: "length ?d + 2 \<le> length s" using dec_length [of "nat \<bar>i\<bar>" 19] assms(3) by (simp add: SDS_LLSTR_SIZE_def)
  then have digits: "digits_loop s 0 (nat \<bar>i\<bar>) = Inr (rev ?d @ drop (length ?d) s, length ?d)"
    using digits_loop_correct [of 0 "nat \<bar>i\<bar>" s] by simp
  have neq: "i \<noteq> - (2 ^ 63)" using assms(1) by simp
  have rev: "rev (dec_int i) = rev ?d @ (if i < 0 then [45] else [])" by (simp add: dec_int_def)
  have sign: "(if i < 0 then bindE (mem_write (rev ?d @ drop (length ?d) s) (length ?d) [45]) (\<lambda>s. Inr (s, Suc (length ?d)))
      else Inr (rev ?d @ drop (length ?d) s, length ?d)) =
      Inr (rev (dec_int i) @ drop (length (dec_int i)) s, length (dec_int i))"
    using l by (cases "i < 0") (simp_all add: dec_int_def mem)
  have "length (dec_int i) + 1 \<le> length s" using l by (cases "i < 0") (simp_all add: dec_int_def)
  moreover have "reverse_loop (rev (dec_int i) @ 0 # drop (length (dec_int i) + 1) s) 0 (int (length (dec_int i)) - 1) =
      Inr (dec_int i @ 0 # drop (length (dec_int i) + 1) s)"
    using reverse_loop_correct [of "[]" "rev (dec_int i)" "0 # drop (length (dec_int i) + 1) s"] by simp
  ultimately show ?thesis
    unfolding sdsll2str_def if_not_P [OF neq] digits bindE_Inr prod.case sign by (simp add: mem)
qed

section \<open>The retry loop returns\<close>

lemma vsnprintf_fits:
  assumes "length out + 2 \<le> n" "n \<le> length b"
  shows "vsnprintf b n out = Inr (out @ 0 # drop (length out + 1) b)"
  using assms by (simp add: vsnprintf_def mem)

text \<open>With an allocator that does not fail, the loop ends: the buffer doubles until the text fits.\<close>

lemma vprintf_loop_unfold:
  assumes "2 \<le> n" "n \<le> length b"
  shows "vprintf_loop mal out b n =
    (if length out + 2 \<le> n then Some (Inr (Some (out @ 0 # drop (length out + 1) (b[n - 2 := 0]))))
     else if out ! (n - 2) = 0 then Some (Inr (Some (take (n - 1) out @ 0 # drop n b)))
     else (case mal (to_size_t (n * 2)) of None \<Rightarrow> Some (Inr None)
           | Some b \<Rightarrow> vprintf_loop mal out b (to_size_t (n * 2))))"
proof -
  have w: "mem_write b (n - 2) [0] = Inr (b[n - 2 := 0])"
    using assms by (simp add: mem upd_conv_take_nth_drop)
  show ?thesis
  proof (cases "length out + 2 \<le> n")
    case True
    have "vsnprintf (b[n - 2 := 0]) n out = Inr (out @ 0 # drop (length out + 1) (b[n - 2 := 0]))"
      using True assms by (intro vsnprintf_fits) auto
    moreover have "(out @ 0 # drop (length out + 1) (b[n - 2 := 0])) ! (n - 2) = 0"
    proof -
      obtain d where d: "n = length out + 2 + d" using True le_Suc_ex by blast
      then show ?thesis using assms by (cases d) (simp_all add: nth_append)
    qed
    ultimately show ?thesis using True assms w by (subst vprintf_loop.simps) (simp add: rd_def)
  next
    case False
    have "vsnprintf (b[n - 2 := 0]) n out = Inr (take (n - 1) out @ 0 # drop n b)"
      using False assms by (simp add: vsnprintf_def mem)
    moreover have "n - 2 < n - 1" using assms(1) by simp
    then have "rd (take (n - 1) out @ 0 # drop n b) (n - 2) = Inr (out ! (n - 2))"
      using False assms by (simp add: rd_def nth_append)
    ultimately show ?thesis using False assms w by (subst vprintf_loop.simps) simp
  qed
qed

lemma vprintf_loop_returns:
  assumes "never_fails mal" "0 \<notin> set out" "length out < 2 ^ 61" "2 \<le> n" "n < 2 ^ 63" "n \<le> length b"
  shows "\<exists>r. vprintf_loop mal out b n = Some (Inr (Some (out @ 0 # r)))"
  using assms(4-)
proof (induction "length out + 2 - n" arbitrary: n b rule: less_induct)
  case less
  note u = vprintf_loop_unfold [OF less(2,4)]
  show ?case
  proof (cases "length out + 2 \<le> n")
    case True
    then show ?thesis by (simp add: u)
  next
    case False
    have nz: "out ! (n - 2) \<noteq> 0" using assms(2) False less(2) by (auto simp: in_set_conv_nth)
    have "n * 2 < 2 ^ 63 + 4" using False assms(3) by simp
    then have sz: "to_size_t (n * 2) = n * 2" by simp
    obtain b' where b': "mal (n * 2) = Some b'" "length b' = n * 2"
      using assms(1) unfolding never_fails_def malloc_ok_def by (metis option.exhaust)
    then have "vprintf_loop mal out b n = vprintf_loop mal out b' (n * 2)" using u False nz sz by simp
    moreover have "\<exists>r. vprintf_loop mal out b' (n * 2) = Some (Inr (Some (out @ 0 # r)))"
      using False less(2) b' assms(3) by (intro less(1)) auto
    ultimately show ?thesis by simp
  qed
qed

lemma sdscatvprintf_correct:
  assumes "never_fails mal" "length staticbuf = 1024" "0 \<notin> set out" "length out < 2 ^ 61"
    "strlen fmt = Inr n" "n < 2 ^ 62" "sds_wf s" "sdslen s + length out < 2 ^ 63"
  shows "\<exists>s'. sdscatvprintf mal staticbuf s fmt out = Some (Inr (Some s')) \<and> sds_wf s' \<and> content s' = content s @ out"
proof -
  let ?n = "to_size_t (n * 2)"
  have n: "?n = n * 2" using assms(6) by simp
  obtain b where b: "(if ?n > 1024 then mal ?n else Some staticbuf) = Some b"
    "length b = (if ?n > 1024 then ?n else 1024)"
    using assms(1,2) unfolding never_fails_def malloc_ok_def by (metis option.exhaust)
  have "2 \<le> length b" "length b < 2 ^ 63" unfolding b(2) n using assms(6) by simp_all
  from vprintf_loop_returns [OF assms(1,3,4) this order_refl]
  obtain r where r: "vprintf_loop mal out b (if ?n > 1024 then ?n else 1024) = Some (Inr (Some (out @ 0 # r)))"
    unfolding b(2) by blast
  have "sdscat mal s (out @ 0 # r) = sdscatlen mal s (out @ 0 # r) (length out)"
    unfolding sdscat_def strlen_append_zero [OF assms(3)] by simp
  then show ?thesis
    using sdscatlen_total [OF assms(1,7), of "length out" "out @ 0 # r"] assms(5,8) b(1) r
    by (simp add: sdscatvprintf_def Let_def)
qed

section \<open>Formatting without vsnprintf is correct\<close>

lemma hdr_inclen_incr: "hdr_inclen h n = hdr_incr h (int n)"
  by (cases h) simp_all

lemma fmt_store_correct:
  assumes "sds_open s" "sdslen s + length xs \<le> sdsalloc s"
  obtains s' where "fmt_store s (sdslen s) xs = Inr s'" "sds_open s'" "sdslen s' = sdslen s + length xs"
    "content s' = content s @ xs"
proof -
  let ?b = "take (sdslen s) (buf s) @ xs @ drop (sdslen s + length xs) (buf s)"
  let ?s = "sdsinclen (s\<lparr>buf := ?b\<rparr>) (length xs)"
  have "hdr_len (hdr_incr (hdr s) (int (length xs))) = sdslen s + length xs"
    using assms(2) hdr_alloc_le_max [of "hdr s"] by (subst hdr_len_incr) (auto simp: sdslen_def sdsalloc_def)
  then have len: "sdslen ?s = sdslen s + length xs"
    "sdsalloc ?s = (if type_of_hdr (hdr s) = SDS_TYPE_5 then sdslen s + length xs else sdsalloc s)"
    by (simp_all add: sdslen_def sdsalloc_def sdsinclen_def hdr_inclen_incr header)
  show thesis
  proof (rule that)
    show "fmt_store s (sdslen s) xs = Inr ?s" using assms by (simp add: fmt_store_def sds_open_def mem)
    show "sds_open ?s" using len assms by (simp add: sds_open_def sdsinclen_def)
    show "sdslen ?s = sdslen s + length xs" by (rule len)
    show "content ?s = content s @ xs"
      unfolding content_def [of ?s] len(1) using assms by (simp add: content_def sdsinclen_def sds_open_def)
  qed
qed

lemma fmt_room_correct:
  assumes "never_fails mal" "sds_open s" "sdslen s + n < 2 ^ 63"
  obtains s' where "fmt_room mal s n = Inr s'" "sds_open s'" "sdslen s' = sdslen s" "content s' = content s"
    "sdslen s' + n \<le> sdsalloc s'"
proof (cases "sdsavail s < n")
  case True
  from assms(1) have "malloc_ok mal" "\<forall>n. mal n \<noteq> None" by (auto simp: never_fails_def)
  from returns_full [OF sdsMakeRoomFor_open [OF this(1) assms(2,3)] this(2)]
  obtain s' where s': "sdsMakeRoomFor mal s n = Inr (Some s')" "sds_open s'" "sdslen s' = sdslen s" "n \<le> sdsavail s'"
    "take (Suc (sdslen s)) (buf s') = take (Suc (sdslen s)) (buf s)" by blast
  have "take (sdslen s) (buf s') = take (sdslen s) (buf s)"
    using arg_cong [OF s'(5), of "take (sdslen s)"] by (simp add: min_def)
  then show thesis
    using that [of s'] s' True sdsavail_open [OF s'(2)] by (simp add: fmt_room_def on_sds_def content_def sds_open_def)
next
  case False
  moreover from this have "sdslen s + n \<le> sdsalloc s"
    using sdsavail_open [OF assms(2)] assms(2) unfolding sds_open_def by linarith
  ultimately show thesis using that [of s] assms(2) by (simp add: fmt_room_def on_sds_def)
qed

text \<open>The reference: what a format and its arguments stand for; \<open>None\<close> where the behaviour is undefined.\<close>

definition arg_text :: "byte \<Rightarrow> fmt_arg \<Rightarrow> byte list option" where
  "arg_text conv arg =
     (case arg of
        ArgStr str \<Rightarrow> (if conv = 115 \<and> 0 \<in> set str then Some (c_string str) else None)
      | ArgSds str \<Rightarrow> (if conv = 83 \<and> sds_wf str then Some (content str) else None)
      | ArgInt num \<Rightarrow> (if conv = 105 \<and> - (2 ^ 31) \<le> num \<and> num < 2 ^ 31 then Some (dec_int num) else None)
      | ArgLongLong num \<Rightarrow> (if conv = 73 \<and> - (2 ^ 63) < num \<and> num < 2 ^ 63 then Some (dec_int num) else None)
      | ArgUInt num \<Rightarrow> (if conv = 117 \<and> num < 2 ^ 32 then Some (dec num) else None)
      | ArgULongLong num \<Rightarrow> (if conv = 85 \<and> num < 2 ^ 64 then Some (dec num) else None))"

fun fmt_spec :: "byte list \<Rightarrow> fmt_arg list \<Rightarrow> byte list option" where
  "fmt_spec [] args = Some []"
| "fmt_spec (c # f) args =
     (if c = 37
      then (case f of
              [] \<Rightarrow> None
            | conv # f' \<Rightarrow>
                (if is_conversion conv
                 then (case args of
                         [] \<Rightarrow> None
                       | arg # args' \<Rightarrow>
                           (case arg_text conv arg of
                              None \<Rightarrow> None
                            | Some xs \<Rightarrow> map_option (\<lambda>ys. xs @ ys) (fmt_spec f' args')))
                 else map_option (\<lambda>ys. conv # ys) (fmt_spec f' args)))
      else map_option (\<lambda>ys. c # ys) (fmt_spec f args))"

lemma fmt_text_correct:
  assumes "arg_text conv arg = Some xs" "length stack = SDS_LLSTR_SIZE"
  shows "fmt_text stack conv arg = Inr xs"
proof -
  have "strlen str = Inr (length (c_string str))" "take (length (c_string str)) str = c_string str"
    "length (c_string str) \<le> length str" if "0 \<in> set str" for str
    using that strlen_takeWhile [of str] length_takeWhile_le [of "\<lambda>c. c \<noteq> 0" str]
    by (simp_all add: c_string_def takeWhile_eq_take [symmetric])
  moreover have "- (2 ^ 63) < num" "num < 2 ^ 63" if "- (2 ^ 31) \<le> num" "num < 2 ^ 31" for num :: int
    using that by simp_all
  ultimately show ?thesis
    using assms sdsll2str_correct [of _ stack] sdsull2str_correct [of _ stack]
    by (auto simp: arg_text_def fmt_text_def mem sds_wf_def content_def split: fmt_arg.splits if_splits)
qed

text \<open>A conversion, and a plain byte, stored behind the string.\<close>

lemma fmt_put:
  assumes "never_fails mal" "sds_open s" "sdslen s + length xs < 2 ^ 63"
  shows "\<exists>s'. bindE (fmt_room mal s (length xs)) (\<lambda>s'. fmt_store s' (sdslen s) xs) = Inr s' \<and> sds_open s' \<and>
           sdslen s' = sdslen s + length xs \<and> content s' = content s @ xs"
proof -
  obtain s1 where s1: "fmt_room mal s (length xs) = Inr s1" "sds_open s1" "sdslen s1 = sdslen s" "content s1 = content s"
    "sdslen s1 + length xs \<le> sdsalloc s1" by (rule fmt_room_correct [OF assms])
  obtain s2 where "fmt_store s1 (sdslen s1) xs = Inr s2" "sds_open s2" "sdslen s2 = sdslen s1 + length xs"
    "content s2 = content s1 @ xs" by (rule fmt_store_correct [OF s1(2,5)])
  then show ?thesis using s1 by simp
qed

lemma fmt_loop_correct:
  assumes "never_fails mal" "length stack = SDS_LLSTR_SIZE"
    "sds_open s" "0 \<notin> set f" "fmt_spec f args = Some out" "sdslen s + length out + 1 < 2 ^ 63"
  shows "\<exists>s'. fmt_loop mal stack s (sdslen s) (f @ 0 # r) args = Inr (s', sdslen s') \<and> sds_open s' \<and>
           content s' = content s @ out"
  using assms(3-)
proof (induction f args arbitrary: s out rule: fmt_spec.induct)
  case (1 args)
  then show ?case by (simp add: fmt_loop.simps)
next
  case (2 c f args)
  obtain s1 where s1: "fmt_room mal s 1 = Inr s1" "sds_open s1" "sdslen s1 = sdslen s" "content s1 = content s"
    "sdslen s1 + 1 \<le> sdsalloc s1"
    using fmt_room_correct [OF assms(1) 2(4), of 1] 2(7) by auto
  have plain: ?case if step: "fmt_loop mal stack s (sdslen s) ((c # f) @ 0 # r) args =
        bindE (fmt_store s1 (sdslen s1) [d]) (\<lambda>s. fmt_loop mal stack s (sdslen s1 + 1) (g @ 0 # r) args)"
      and out: "out = d # ys"
      and IH: "\<And>s. sds_open s \<Longrightarrow> sdslen s + length ys + 1 < 2 ^ 63 \<Longrightarrow>
        \<exists>s'. fmt_loop mal stack s (sdslen s) (g @ 0 # r) args = Inr (s', sdslen s') \<and> sds_open s' \<and> content s' = content s @ ys"
    for d g ys
  proof -
    obtain s2 where s2: "fmt_store s1 (sdslen s1) [d] = Inr s2" "sds_open s2" "sdslen s2 = sdslen s1 + 1"
      "content s2 = content s1 @ [d]" using fmt_store_correct [OF s1(2), of "[d]"] s1(5) by auto
    then show ?thesis using IH [OF s2(2)] s1 2(7) out unfolding step by auto
  qed
  show ?case
  proof (cases "c = 37")
    case False
    then obtain ys where ys: "fmt_spec f args = Some ys" "out = c # ys" using 2(6) by auto
    show ?thesis
      by (rule plain [OF _ ys(2)]) (use False s1 2(3) ys(1) 2(5) in \<open>auto simp: fmt_loop.simps\<close>)
  next
    case True
    then obtain conv g where f: "f = conv # g" using 2(6) by (cases f) auto
    show ?thesis
    proof (cases "is_conversion conv")
      case False
      then obtain ys where ys: "fmt_spec g args = Some ys" "out = conv # ys" using 2(6) True f by auto
      show ?thesis
        by (rule plain [OF _ ys(2)]) (use True False f s1 2(2) ys(1) 2(5) in \<open>auto simp: fmt_loop.simps\<close>)
    next
      case conv: True
      then obtain arg args' xs ys where a: "args = arg # args'" "arg_text conv arg = Some xs"
        "fmt_spec g args' = Some ys" "out = xs @ ys"
        using 2(6) True f by (auto split: list.splits option.splits)
      have "sdslen s1 + length xs < 2 ^ 63" using 2(7) a(4) s1(3) by simp
      from fmt_put [OF assms(1) s1(2) this]
      obtain s2 where s2: "bindE (fmt_room mal s1 (length xs)) (\<lambda>s'. fmt_store s' (sdslen s1) xs) = Inr s2" "sds_open s2"
        "sdslen s2 = sdslen s1 + length xs" "content s2 = content s1 @ xs" by blast
      have "fmt_loop mal stack s (sdslen s) ((c # f) @ 0 # r) args =
          bindE (bindE (fmt_room mal s1 (length xs)) (\<lambda>s'. fmt_store s' (sdslen s1) xs))
            (\<lambda>s. fmt_loop mal stack s (sdslen s1 + length xs) (g @ 0 # r) args')"
        using True f conv a(1) s1(1,3) fmt_text_correct [OF a(2) assms(2)]
        by (simp add: fmt_loop.simps bindE_assoc)
      also have "\<dots> = fmt_loop mal stack s2 (sdslen s2) (g @ 0 # r) args'" using s2 by simp
      finally show ?thesis
        using 2(1) [OF True f conv a(1,2) s2(2) _ a(3)] 2(5,7) f a(4) s1(3,4) s2(3,4) by simp
    qed
  qed
qed

lemma sdscatfmt_correct:
  assumes "never_fails mal" "length stack = SDS_LLSTR_SIZE"
    "sds_wf s" "0 \<notin> set f" "fmt_spec f args = Some out" "sdslen s + length out + 1 < 2 ^ 63"
  shows "\<exists>s'. sdscatfmt mal stack s (f @ [0]) args = Inr s' \<and> sds_wf s' \<and> content s' = content s @ out"
proof -
  obtain s1 where s1: "fmt_loop mal stack s (sdslen s) (f @ [0]) args = Inr (s1, sdslen s1)" "sds_open s1"
    "content s1 = content s @ out"
    using fmt_loop_correct [OF assms(1,2) sds_wf_open [OF assms(3)] assms(4-6), of "[]"] by auto
  let ?b = "take (sdslen s1) (buf s1) @ 0 # drop (Suc (sdslen s1)) (buf s1)"
  have "sds_wf (s1\<lparr>buf := ?b\<rparr>)" "content (s1\<lparr>buf := ?b\<rparr>) = content s1"
    using s1(2) by (auto simp: sds_wf_def sds_open_def content_def sdslen_def sdsalloc_def nth_append)
  moreover have "sdscatfmt mal stack s (f @ [0]) args = Inr (s1\<lparr>buf := ?b\<rparr>)"
    using s1(1,2) by (simp add: sdscatfmt_def sds_open_def mem)
  ultimately show ?thesis using s1(3) by simp
qed

section \<open>Quoting and parsing are inverse\<close>

definition repr_byte :: "byte \<Rightarrow> byte list" where
  "repr_byte c =
     (if c = 92 \<or> c = 34 then [92, c]
      else if c = 10 then [92, 110] else if c = 13 then [92, 114] else if c = 9 then [92, 116]
      else if c = 7 then [92, 97] else if c = 8 then [92, 98]
      else if isprint c then [c]
      else [92, 120] @ hex_text c)"

definition quote :: "byte list \<Rightarrow> byte list" where
  "quote p = 34 # concat (map repr_byte p) @ [34]"

lemma hex_char_digit:
  assumes "n < 16"
  shows "is_hex_digit (hex_char n)" "hex_digit_to_int (hex_char n) = n" "hex_char n \<noteq> 0"
proof -
  have "\<forall>n \<in> set [0..<16]. is_hex_digit (hex_char n) \<and> hex_digit_to_int (hex_char n) = n \<and> hex_char n \<noteq> 0"
    by code_simp
  then show "is_hex_digit (hex_char n)" "hex_digit_to_int (hex_char n) = n" "hex_char n \<noteq> 0"
    using assms by auto
qed

lemma hex_text_digits:
  "unat c div 16 < 16" "unat (c :: byte) mod 16 < 16" "hex_text c = [hex_char (unat c div 16), hex_char (unat c mod 16)]"
  using unat_byte_less [of c] by (simp_all add: hex_text_def)

lemma repr_byte_nonzero: "0 \<notin> set (repr_byte c)"
  using hex_char_digit(3) [OF hex_text_digits(1) [of c]] hex_char_digit(3) [OF hex_text_digits(2) [of c]]
  by (auto simp: repr_byte_def hex_text_def isprint_def)

lemma repr_byte_length: "1 \<le> length (repr_byte c)" "length (repr_byte c) \<le> 4"
  by (auto simp: repr_byte_def hex_text_def)

lemma repr_step_correct:
  assumes "never_fails mal" "length staticbuf = 1024" "sds_wf s" "sdslen s + 4 < 2 ^ 63"
  shows "\<exists>s'. repr_step mal staticbuf s c = Some (Inr (Some s')) \<and> sds_wf s' \<and> content s' = content s @ repr_byte c"
proof -
  have printf: "\<exists>s'. sdscatprintf mal staticbuf s fmt (repr_byte c) = Some (Inr (Some s')) \<and> sds_wf s' \<and>
      content s' = content s @ repr_byte c" if "strlen fmt = Inr n" "n < 2 ^ 62" for fmt n
    unfolding sdscatprintf_def using repr_byte_length(2) [of c] that assms(3,4)
    by (intro sdscatvprintf_correct [OF assms(1,2) repr_byte_nonzero]) simp_all
  have cat: "\<exists>s'. sdscatlen mal s (repr_byte c @ [0]) (length (repr_byte c)) = Inr (Some s') \<and> sds_wf s' \<and>
      content s' = content s @ repr_byte c"
    using sdscatlen_total [OF assms(1,3), of "length (repr_byte c)" "repr_byte c @ [0]"] repr_byte_length(2) [of c] assms(4)
    by auto
  have fmts: "strlen [92, 37, 99, 0] = Inr 3" "strlen [37, 99, 0] = Inr 2" "strlen [92, 120, 37, 48, 50, 120, 0] = Inr 6"
    by simp_all
  have "repr_step mal staticbuf s c = sdscatprintf mal staticbuf s [92, 37, 99, 0] (repr_byte c) \<or>
      repr_step mal staticbuf s c = sdscatprintf mal staticbuf s [37, 99, 0] (repr_byte c) \<or>
      repr_step mal staticbuf s c = sdscatprintf mal staticbuf s [92, 120, 37, 48, 50, 120, 0] (repr_byte c) \<or>
      repr_step mal staticbuf s c = Some (sdscatlen mal s (repr_byte c @ [0]) (length (repr_byte c)))"
    unfolding repr_step_def repr_byte_def by (simp add: numeral_2_eq_2)
  then show ?thesis
    using printf [OF fmts(1)] printf [OF fmts(2)] printf [OF fmts(3)] cat by (elim disjE) simp_all
qed

lemma repr_loop_correct:
  assumes "never_fails mal" "length staticbuf = 1024" "sds_wf s" "sdslen s + 4 * length p + 4 < 2 ^ 63"
  shows "\<exists>s'. repr_loop mal staticbuf (Some s) p = Some (Inr (Some s')) \<and> sds_wf s' \<and>
           content s' = content s @ concat (map repr_byte p)"
  using assms(3,4)
proof (induction p arbitrary: s)
  case (Cons c p)
  obtain s1 where s1: "repr_step mal staticbuf s c = Some (Inr (Some s1))" "sds_wf s1" "content s1 = content s @ repr_byte c"
    using repr_step_correct [OF assms(1,2) Cons.prems(1), of c] Cons.prems(2) by auto
  have "sdslen s1 = sdslen s + length (repr_byte c)"
    using length_content [OF s1(2)] length_content [OF Cons.prems(1)] s1(3) by simp
  then have "sdslen s1 + 4 * length p + 4 < 2 ^ 63" using Cons.prems(2) repr_byte_length(2) [of c] by simp
  from Cons.IH [OF s1(2) this] show ?case using s1 by auto
qed simp

lemma sdscatrepr_correct:
  assumes "never_fails mal" "length staticbuf = 1024" "sds_wf s" "n \<le> length p" "sdslen s + 4 * n + 8 < 2 ^ 63"
  shows "\<exists>s'. sdscatrepr mal staticbuf s p n = Some (Inr (Some s')) \<and> sds_wf s' \<and>
           content s' = content s @ quote (take n p)"
proof -
  obtain s1 where s1: "sdscatlen mal s [34, 0] 1 = Inr (Some s1)" "sds_wf s1" "content s1 = content s @ [34]"
    using sdscatlen_total [OF assms(1,3), of 1 "[34, 0]"] assms(5) by auto
  have l1: "sdslen s1 = sdslen s + 1"
    using length_content [OF s1(2)] length_content [OF assms(3)] s1(3) by simp
  obtain s2 where s2: "repr_loop mal staticbuf (Some s1) (take n p) = Some (Inr (Some s2))" "sds_wf s2"
    "content s2 = content s1 @ concat (map repr_byte (take n p))"
    using repr_loop_correct [OF assms(1,2) s1(2), of "take n p"] l1 assms(4,5) by auto
  have "length (concat (map repr_byte xs)) \<le> 4 * length xs" for xs
    by (induction xs) (use repr_byte_length(2) in \<open>auto intro: add_mono\<close>)
  from this [of "take n p"] have "sdslen s2 + 1 < 2 ^ 63"
    using arg_cong [OF s2(3), of length] length_content [OF s2(2)] length_content [OF s1(2)] l1 assms(4,5) by simp
  then obtain s3 where "sdscatlen mal s2 [34, 0] 1 = Inr (Some s3)" "sds_wf s3" "content s3 = content s2 @ [34]"
    using sdscatlen_total [OF assms(1) s2(2), of 1 "[34, 0]"] by auto
  then show ?thesis
    using s1 s2 assms(4) by (simp add: sdscatrepr_def mem on_sds_def quote_def)
qed

lemma cat_byte_correct:
  assumes "never_fails mal" "sds_wf s" "sdslen s + 1 < 2 ^ 63"
  obtains s' where "cat_byte mal (Some s) c = Inr (Some s')" "sds_wf s'" "content s' = content s @ [c]"
    "sdslen s' = sdslen s + 1"
proof -
  obtain s' where s': "sdscatlen mal s [c] 1 = Inr (Some s')" "sds_wf s'" "content s' = content s @ [c]"
    using sdscatlen_total [OF assms(1,2), of 1 "[c]"] assms(3) by auto
  then show thesis
    using that length_content [OF s'(2)] length_content [OF assms(2)] by (simp add: cat_byte_def on_sds_def)
qed

text \<open>The parser reads back one represented byte.\<close>

lemma tok_next_repr: "tok_next True insq (repr_byte c @ r) = Inr (StepCat c (length (repr_byte c) - 1))"
proof (cases "c = 92 \<or> c = 34 \<or> c = 10 \<or> c = 13 \<or> c = 9 \<or> c = 7 \<or> c = 8")
  case True
  then show ?thesis
    by (elim disjE; simp add: tok_next_def quoted_step_def hex_escape_def repr_byte_def unescape_def rd_def)
next
  case special: False
  show ?thesis
  proof (cases "isprint c")
    case True
    then have "c \<noteq> 0" by (auto simp: isprint_def)
    then show ?thesis using special True
      by (simp add: tok_next_def quoted_step_def hex_escape_def repr_byte_def rd_def)
  next
    case False
    let ?h = "hex_char (unat c div 16)" and ?l = "hex_char (unat c mod 16)"
    have "repr_byte c = [92, 120, ?h, ?l]" using special False by (simp add: repr_byte_def hex_text_def)
    moreover have "hex_escape ([92, 120, ?h, ?l] @ r) = Inr (Some c)"
      using hex_char_digit [OF hex_text_digits(1) [of c]] hex_char_digit [OF hex_text_digits(2) [of c]]
      by (simp add: hex_escape_def rd_def flip: of_nat_mult of_nat_add)
    ultimately show ?thesis by (simp add: tok_next_def quoted_step_def)
  qed
qed

lemma split_token_repr:
  assumes "never_fails mal" "sds_wf s" "sdslen s + length p < 2 ^ 63 - 1" "d = 0 \<or> isspace d"
  shows "\<exists>s'. split_token mal True insq (Some s) (concat (map repr_byte p) @ 34 # d # r) =
           Inr (TokDone (Some s') (d # r)) \<and> sds_wf s' \<and> content s' = content s @ p"
  using assms(2,3)
proof (induction p arbitrary: s)
  case Nil
  have "tok_next True insq (34 # d # r) = Inr (StepDone 1)"
    using assms(4) by (auto simp: tok_next_def quoted_step_def hex_escape_def close_quote_def rd_def)
  then show ?case using Nil by (simp add: split_token_done)
next
  case (Cons c p)
  obtain s1 where s1: "cat_byte mal (Some s) c = Inr (Some s1)" "sds_wf s1" "content s1 = content s @ [c]"
    "sdslen s1 = sdslen s + 1" using cat_byte_correct [OF assms(1) Cons.prems(1)] Cons.prems(2) by auto
  have "Suc (length (repr_byte c) - 1) = length (repr_byte c)" using repr_byte_length(1) [of c] by simp
  then show ?case
    using Cons.IH [OF s1(2)] s1 Cons.prems(2) split_token_cat [OF tok_next_repr [of insq c "concat (map repr_byte p) @ 34 # d # r"], of mal "Some s"]
    by simp
qed

text \<open>A quoted argument, as the outer loop meets it.\<close>

lemma args_loop_quote:
  assumes "never_fails mal" "length p < 2 ^ 62" "d = 0 \<or> isspace d"
  shows "\<exists>t. args_loop mal vec (quote p @ d # r) =
      (if INT_MAX \<le> length vec then Inl SignedOverflow else args_loop mal (vec @ [Some t]) (d # r)) \<and> sds_wf t \<and> content t = p"
proof -
  obtain e where e: "sdsempty mal = Inr (Some e)" "sds_wf e" "content e = []" by (rule sdsempty_total [OF assms(1)])
  have "sdslen e = 0" using length_content [OF e(2)] e(3) by simp
  then obtain t where t: "split_token mal True False (Some e) (concat (map repr_byte p) @ 34 # d # r) = Inr (TokDone (Some t) (d # r))"
    "sds_wf t" "content t = p"
    using split_token_repr [OF assms(1) e(2) _ assms(3), of p False r] assms(2) e(3) by auto
  have "tok_next False False (quote p @ d # r) = Inr (StepEnter True False)"
    by (simp add: tok_next_def plain_step_def quote_def rd_def)
  from split_token_enter [OF this, of mal "Some e"] t(1)
  have "split_token mal False False (Some e) (quote p @ d # r) = Inr (TokDone (Some t) (d # r))"
    by (simp add: quote_def)
  moreover have "skip_blanks (quote p @ d # r) = Inr (quote p @ d # r)" by (simp add: quote_def isspace_def)
  moreover have "hd (quote p @ d # r) \<noteq> 0" by (simp add: quote_def)
  moreover have "mal ((length vec + 1) * 8) \<noteq> None" using assms(1) by (simp add: never_fails_def)
  ultimately have "args_loop mal vec (quote p @ d # r) =
      (if INT_MAX \<le> length vec then Inl SignedOverflow else args_loop mal (vec @ [Some t]) (d # r))"
    using e(1) by (subst args_loop.simps) auto
  then show ?thesis using t(2,3) by blast
qed

lemma args_loop_blank: "isspace c \<Longrightarrow> c \<noteq> 0 \<Longrightarrow> args_loop mal vec (c # p) = args_loop mal vec p"
  unfolding args_loop.simps [of mal vec "c # p"] args_loop.simps [of mal vec p] by simp

lemma args_loop_end: "never_fails mal \<Longrightarrow> args_loop mal vec (0 # r) = Inr (Some vec)"
  by (subst args_loop.simps) (auto simp: never_fails_def)

lemma args_loop_quotes:
  assumes "never_fails mal" "\<forall>p \<in> set ps. length p < 2 ^ 62" "length vec + length ps \<le> INT_MAX"
  shows "\<exists>ts. args_loop mal vec (join_spec [32] (map quote ps) @ 0 # r) = Inr (Some (vec @ map Some ts)) \<and>
           (\<forall>t \<in> set ts. sds_wf t) \<and> map content ts = ps"
  using assms(2,3)
proof (induction ps arbitrary: vec)
  case Nil
  then show ?case by (simp add: args_loop_end [OF assms(1)])
next
  case (Cons p ps)
  have p: "length p < 2 ^ 62" and room: "\<not> INT_MAX \<le> length vec" using Cons.prems by simp_all
  show ?case
  proof (cases ps)
    case Nil
    obtain t where "args_loop mal vec (quote p @ 0 # r) = args_loop mal (vec @ [Some t]) (0 # r)" "sds_wf t" "content t = p"
      using args_loop_quote [OF assms(1) p, of 0 vec r] room by auto
    then show ?thesis using Nil by (intro exI [of _ "[t]"]) (simp add: args_loop_end [OF assms(1)])
  next
    case (Cons q qs)
    let ?rest = "join_spec [32] (map quote ps) @ 0 # r"
    have "isspace 32" by (simp add: isspace_def)
    then obtain t where t: "args_loop mal vec (quote p @ 32 # ?rest) = args_loop mal (vec @ [Some t]) (32 # ?rest)"
      "sds_wf t" "content t = p"
      using args_loop_quote [OF assms(1) p, of 32 vec ?rest] room by auto
    obtain ts where ts: "args_loop mal (vec @ [Some t]) ?rest = Inr (Some ((vec @ [Some t]) @ map Some ts))"
      "\<forall>t \<in> set ts. sds_wf t" "map content ts = ps"
      using Cons.IH [of "vec @ [Some t]"] Cons.prems by auto
    have "join_spec [32] (map quote (p # ps)) @ 0 # r = quote p @ 32 # ?rest" using Cons by simp
    then show ?thesis
      using t ts \<open>isspace 32\<close> by (intro exI [of _ "t # ts"]) (simp add: args_loop_blank)
  qed
qed

section \<open>The parser stays inside the line\<close>

lemma rd_Cons [simp]: "rd (c # p) 0 = Inr c" "rd (c # p) (Suc i) = rd p i" "rd (c # p) 1 = rd p 0"
  "rd (c # p) 2 = rd p 1" "rd (c # p) 3 = rd p 2"
  by (simp_all add: rd_def numeral_2_eq_2 numeral_3_eq_3)

lemma hex_digit_nonzero: "is_hex_digit c \<Longrightarrow> c \<noteq> 0"
  by (auto simp: is_hex_digit_def)

lemma hex_escape_safe:
  assumes "0 \<in> set p"
  shows "\<exists>h. hex_escape p = Inr h \<and> (\<forall>b. h = Some b \<longrightarrow> 0 \<in> set (drop 4 p))"
proof (cases p)
  case (Cons c p1)
  show ?thesis
  proof (cases "c = 92 \<and> p1 \<noteq> [] \<and> hd p1 = 120")
    case True
    then obtain p2 where p2: "p = 92 # 120 # p2" using Cons by (cases p1) auto
    with assms have "0 \<in> set p2" by simp
    then obtain c2 p3 where p3: "p2 = c2 # p3" by (cases p2) auto
    show ?thesis
    proof (cases "is_hex_digit c2")
      case True
      then have "0 \<in> set p3" using p3 \<open>0 \<in> set p2\<close> hex_digit_nonzero by auto
      then obtain c3 p4 where "p3 = c3 # p4" by (cases p3) auto
      then show ?thesis using p2 p3 True \<open>0 \<in> set p3\<close> hex_digit_nonzero by (auto simp: hex_escape_def)
    qed (use p2 p3 in \<open>simp add: hex_escape_def\<close>)
  next
    case False
    then show ?thesis using Cons assms by (cases p1) (auto simp: hex_escape_def)
  qed
qed (use assms in simp)

text \<open>No step reads behind the terminator, and none moves \<open>p\<close> past it.\<close>

definition step_safe :: "byte list \<Rightarrow> tok_step outcome \<Rightarrow> bool" where
  "step_safe p r = (case r of Inl e \<Rightarrow> False | Inr StepErr \<Rightarrow> True | Inr (StepDone n) \<Rightarrow> 0 \<in> set (drop n p)
     | Inr (StepCat b n) \<Rightarrow> 0 \<in> set (drop (Suc n) p) | Inr (StepEnter q sq) \<Rightarrow> 0 \<in> set (drop 1 p))"

lemma step_safe_simps [simp]:
  "step_safe p (Inr StepErr)" "step_safe p (Inr (StepDone n)) \<longleftrightarrow> 0 \<in> set (drop n p)"
  "step_safe p (Inr (StepCat b n)) \<longleftrightarrow> 0 \<in> set (drop (Suc n) p)"
  "step_safe p (Inr (StepEnter q sq)) \<longleftrightarrow> 0 \<in> set (drop 1 p)"
  by (simp_all add: step_safe_def)

lemma line_cases [consumes 1, case_names End More]:
  assumes "0 \<in> set p" "\<And>r. p = 0 # r \<Longrightarrow> P" "\<And>c d r. p = c # d # r \<Longrightarrow> c \<noteq> 0 \<Longrightarrow> 0 \<in> set (d # r) \<Longrightarrow> P"
  shows P
proof (cases p)
  case (Cons c q)
  then show ?thesis using assms by (cases "c = 0"; cases q) auto
qed (use assms(1) in simp)

lemma close_quote_safe: "0 \<in> set (d # r) \<Longrightarrow> step_safe (c # d # r) (close_quote (c # d # r))"
  by (simp add: close_quote_def)

lemma quoted_step_safe:
  assumes "0 \<in> set p"
  shows "step_safe p (quoted_step p)"
proof -
  obtain h where h: "hex_escape p = Inr h" "\<forall>b. h = Some b \<longrightarrow> 0 \<in> set (drop 4 p)"
    using hex_escape_safe [OF assms] by blast
  show ?thesis
  proof (cases h)
    case None
    from assms show ?thesis
    proof (cases rule: line_cases)
      case (More c d r)
      then show ?thesis using h None close_quote_safe [of d r c] by (auto simp: quoted_step_def)
    qed (use h None in \<open>simp add: quoted_step_def\<close>)
  next
    case (Some b)
    then show ?thesis using h by (simp add: quoted_step_def)
  qed
qed

lemma single_quoted_step_safe:
  assumes "0 \<in> set p"
  shows "step_safe p (single_quoted_step p)"
  using assms
proof (cases rule: line_cases)
  case (More c d r)
  then show ?thesis using close_quote_safe [of d r c] by (auto simp: single_quoted_step_def)
qed (simp add: single_quoted_step_def)

lemma plain_step_safe:
  assumes "0 \<in> set p"
  shows "step_safe p (plain_step p)"
  using assms by (cases rule: line_cases) (auto simp: plain_step_def)

lemma tok_next_safe: "0 \<in> set p \<Longrightarrow> step_safe p (tok_next inq insq p)"
  by (simp add: tok_next_def quoted_step_safe single_quoted_step_safe plain_step_safe)

lemma split_token_safe:
  assumes "never_fails mal" "sds_wf s" "sdslen s + length p < 2 ^ 63" "0 \<in> set p"
  shows "split_token mal inq insq (Some s) p = Inr TokErr \<or>
    (\<exists>t p'. split_token mal inq insq (Some s) p = Inr (TokDone (Some t) p') \<and> sds_wf t \<and> 0 \<in> set p')"
  using assms(2-)
proof (induction "length p" arbitrary: inq insq s p rule: less_induct)
  case less
  note safe = tok_next_safe [OF less(4), of inq insq]
  have ne: "0 < length p" using less(4) by auto
  show ?case
  proof (cases "tok_next inq insq p")
    case (Inr st)
    show ?thesis
    proof (cases st)
      case StepErr
      then show ?thesis using Inr by (simp add: split_token_steps)
    next
      case (StepDone n)
      then show ?thesis using Inr safe less(2) by (simp add: split_token_steps)
    next
      case (StepCat b n)
      have "sdslen s + 1 < 2 ^ 63" using less(3) ne by linarith
      then obtain s1 where s1: "cat_byte mal (Some s) b = Inr (Some s1)" "sds_wf s1" "sdslen s1 = sdslen s + 1"
        using cat_byte_correct [OF assms(1) less(2), of b] by blast
      moreover have "sdslen s1 + length (drop (Suc n) p) < 2 ^ 63"
        unfolding length_drop s1(3) using less(3) ne by linarith
      ultimately show ?thesis
        using less(1) [of "drop (Suc n) p" s1 inq insq] Inr StepCat safe ne by (simp add: split_token_steps)
    next
      case (StepEnter q sq)
      then show ?thesis
        using less(1) [of "drop 1 p" s q sq] less(2,3) Inr safe ne by (simp add: split_token_steps)
    qed
  qed (use safe in \<open>simp add: step_safe_def\<close>)
qed

lemma skip_blanks_safe: "0 \<in> set p \<Longrightarrow> \<exists>q. skip_blanks p = Inr q \<and> 0 \<in> set q \<and> length q \<le> length p"
  by (induction p) auto

lemma args_loop_safe:
  assumes "never_fails mal" "0 \<in> set p" "length vec + length p < 2 ^ 31" "\<forall>t \<in> set vec. \<exists>s. t = Some s \<and> sds_wf s"
  shows "args_loop mal vec p = Inr None \<or>
    (\<exists>vec'. args_loop mal vec p = Inr (Some vec') \<and> length vec' < length vec + length p \<and> (\<forall>t \<in> set vec'. \<exists>s. t = Some s \<and> sds_wf s))"
  using assms(2-)
proof (induction "length p" arbitrary: vec p rule: less_induct)
  case less
  obtain q where q: "skip_blanks p = Inr q" "0 \<in> set q" "length q \<le> length p" using skip_blanks_safe [OF less(2)] by blast
  have full: "mal n \<noteq> None" for n using assms(1) by (simp add: never_fails_def)
  show ?case
  proof (cases "hd q = 0")
    case True
    then show ?thesis using q(1) full less(4) by (subst (1 2) args_loop.simps) auto
  next
    case False
    obtain e where e: "sdsempty mal = Inr (Some e)" "sds_wf e" "content e = []" by (rule sdsempty_total [OF assms(1)])
    have "sdslen e = 0" using length_content [OF e(2)] e(3) by simp
    then have "sdslen e + length q < 2 ^ 63" using q(3) less(3) by simp
    from split_token_safe [OF assms(1) e(2) this q(2), of False False] show ?thesis
    proof (elim disjE exE conjE)
      assume "split_token mal False False (Some e) q = Inr TokErr"
      then have "args_loop mal vec p = Inr None" using q(1) False e(1) by (subst args_loop.simps) simp
      then show ?thesis ..
    next
      fix t p' assume t: "split_token mal False False (Some e) q = Inr (TokDone (Some t) p')" "sds_wf t" "0 \<in> set p'"
      have shorter: "length p' < length p" using split_token_shorter [OF t(1) False] q(3) by simp
      have "\<not> INT_MAX \<le> length vec" using less(3) shorter t(3) by (cases p') (auto simp: INT_MAX_def)
      then have "args_loop mal vec p = args_loop mal (vec @ [Some t]) p'"
        using q(1) False e(1) t(1) full [of "(length vec + 1) * 8"] by (subst args_loop.simps) auto
      then show ?thesis using less(1) [OF shorter t(3), of "vec @ [Some t]"] shorter less(3,4) t(2) by auto
    qed
  qed
qed

section \<open>Properties\<close>

lemma sds_buf_split: "sds_wf s \<Longrightarrow> buf s = content s @ 0 # drop (Suc (sdslen s)) (buf s)"
  using id_take_nth_drop [of "sdslen s" "buf s"] by (simp add: sds_wf_def content_def)

text \<open>C15: \<open>sdssplitargs\<close> reads back what \<open>sdscatrepr\<close> writes: for arbitrary bytes, zero bytes, quotes and
  control characters included, the line \<open>sdscatrepr\<close> builds from an empty string splits into exactly one
  argument, those bytes.\<close>

theorem splitargs_repr_roundtrip:
  assumes "never_fails mal" "length staticbuf = 1024" "sds_wf e" "content e = []" "n \<le> length p" "n < 2 ^ 60"
  shows "\<exists>s t. sdscatrepr mal staticbuf e p n = Some (Inr (Some s)) \<and>
           sdssplitargs mal (buf s) = Inr (Some [Some t], 1) \<and> sds_wf t \<and> content t = take n p"
proof -
  have "sdslen e = 0" using length_content [OF assms(3)] assms(4) by simp
  then obtain s where s: "sdscatrepr mal staticbuf e p n = Some (Inr (Some s))" "sds_wf s" "content s = quote (take n p)"
    using sdscatrepr_correct [OF assms(1-3,5)] assms(4,6) by auto
  have "length (take n p) < 2 ^ 62" "length [take n p] \<le> INT_MAX" using assms(5,6) by (simp_all add: INT_MAX_def)
  then obtain t where t: "args_loop mal [] (buf s) = Inr (Some [Some t])" "sds_wf t" "content t = take n p"
    using args_loop_quotes [OF assms(1), of "[take n p]" "[]" "drop (Suc (sdslen s)) (buf s)"] sds_buf_split [OF s(2)] s(3)
    by auto
  then show ?thesis using s(1) by (simp add: sdssplitargs_def)
qed

theorem splitargs_repr_roundtrip_witness:
  "\<exists>s t. sdscatrepr full_malloc (replicate 1024 1) \<lparr>hdr = Hdr8 0 0, buf = [0]\<rparr> [0, 255, 10, 34, 92] 5 = Some (Inr (Some s)) \<and>
     sdssplitargs full_malloc (buf s) = Inr (Some [Some t], 1) \<and> content t = [0, 255, 10, 34, 92]"
  using splitargs_repr_roundtrip [OF full_never_fails, of "replicate 1024 1" "\<lparr>hdr = Hdr8 0 0, buf = [0]\<rparr>" 5 "[0, 255, 10, 34, 92]"]
  by (simp add: sds_wf_def content_def sdslen_def sdsalloc_def del: replicate.simps) blast

text \<open>C21: a line of at most \<open>INT_MAX\<close> quoted arguments separated by spaces splits into exactly these
  arguments, and \<open>*argc\<close> is their number.\<close>

theorem splitargs_quoted_lines:
  assumes "never_fails mal" "\<forall>p \<in> set ps. length p < 2 ^ 62" "length ps \<le> INT_MAX"
  shows "\<exists>ts. sdssplitargs mal (join_spec [32] (map quote ps) @ [0]) = Inr (Some (map Some ts), length ps) \<and>
           (\<forall>t \<in> set ts. sds_wf t) \<and> map content ts = ps"
proof -
  obtain ts where "args_loop mal [] (join_spec [32] (map quote ps) @ [0]) = Inr (Some ([] @ map Some ts))"
    "\<forall>t \<in> set ts. sds_wf t" "map content ts = ps"
    using args_loop_quotes [OF assms(1,2), of "[]" "[]"] assms(3) by auto
  moreover from this(3) have "length ts = length ps" by (metis length_map)
  ultimately show ?thesis by (simp add: sdssplitargs_def)
qed

theorem splitargs_quoted_lines_witness:
  "\<exists>ts. sdssplitargs full_malloc (join_spec [32] (map quote [[115, 101, 116], [0, 255, 10, 34, 92], []]) @ [0]) =
       Inr (Some (map Some ts), 3) \<and> (\<forall>t \<in> set ts. sds_wf t) \<and> map content ts = [[115, 101, 116], [0, 255, 10, 34, 92], []]"
  using splitargs_quoted_lines [OF full_never_fails, of "[[115, 101, 116], [0, 255, 10, 34, 92], []]"]
  by (simp add: numeral_3_eq_3 INT_MAX_def)

text \<open>C24: \<open>sdscatrepr\<close> appends the quoted representation of any bytes, at most four bytes for each and no
  zero byte.\<close>

theorem sdscatrepr_quotes:
  assumes "never_fails mal" "length staticbuf = 1024" "sds_wf s" "n \<le> length p" "sdslen s + 4 * n + 8 < 2 ^ 63"
  shows "\<exists>s'. sdscatrepr mal staticbuf s p n = Some (Inr (Some s')) \<and> sds_wf s' \<and>
           content s' = content s @ quote (take n p) \<and> 0 \<notin> set (quote (take n p))"
  using sdscatrepr_correct [OF assms] repr_byte_nonzero by (auto simp: quote_def)

theorem sdscatrepr_quotes_witness:
  "\<exists>s'. sdscatrepr full_malloc (replicate 1024 1) abc_sds [10, 255] 2 = Some (Inr (Some s')) \<and>
     content s' = [97, 98, 99, 34, 92, 110, 92, 120, 102, 102, 34]"
proof -
  have "quote [10, 255] = [34, 92, 110, 92, 120, 102, 102, 34]" by code_simp
  then show ?thesis
    using sdscatrepr_quotes [OF full_never_fails, of "replicate 1024 1" abc_sds 2 "[10, 255]"]
    by (auto simp: abc_sds_wf simp del: replicate.simps)
qed

text \<open>C17: on every zero-terminated line of less than \<open>2 ^ 31\<close> bytes \<open>sdssplitargs\<close> returns without reading or
  stepping past the terminator and without overflowing \<open>*argc\<close>, whatever quotes and escapes it has: NULL and
  0, or a vector of as many well-formed strings as \<open>*argc\<close> says, fewer than the line has bytes.\<close>

theorem sdssplitargs_memory_safe:
  assumes "never_fails mal" "0 \<in> set line" "length line < 2 ^ 31"
  shows "sdssplitargs mal line = Inr (None, 0) \<or>
    (\<exists>vec. sdssplitargs mal line = Inr (Some vec, length vec) \<and> length vec < length line \<and>
       (\<forall>t \<in> set vec. \<exists>s. t = Some s \<and> sds_wf s))"
  using args_loop_safe [OF assms(1,2), of "[]"] assms(3) by (auto simp: sdssplitargs_def)

theorem sdssplitargs_memory_safe_witness:
  "\<exists>r. sdssplitargs full_malloc [34, 92, 120, 49, 0] = Inr r"
  using sdssplitargs_memory_safe [OF full_never_fails, of "[34, 92, 120, 49, 0]"] by auto

text \<open>\<open>sdsll2str\<close> stores the decimal representation of every \<open>long long\<close> but the smallest into a
  buffer of \<open>SDS_LLSTR_SIZE\<close> bytes, terminator included, and returns its length; the digits stand for
  the value.\<close>

theorem sdsll2str_decimal:
  assumes "- (2 ^ 63) < i" "i < 2 ^ 63" "length s = SDS_LLSTR_SIZE"
  shows "\<exists>r. sdsll2str s i = Inr (dec_int i @ 0 # r, length (dec_int i)) \<and> length (dec_int i @ 0 # r) = SDS_LLSTR_SIZE \<and>
           dec_value (if i < 0 then tl (dec_int i) else dec_int i) = nat \<bar>i\<bar> \<and> (i < 0 \<longrightarrow> hd (dec_int i) = 45)"
proof -
  have "sdsll2str s i = Inr (dec_int i @ 0 # drop (length (dec_int i) + 1) s, length (dec_int i))"
    using assms by (intro sdsll2str_correct) auto
  moreover have "nat \<bar>i\<bar> < 10 ^ 19" using assms(1,2) by (simp add: nat_less_iff abs_if)
  from dec_length [OF this] have "length (dec_int i) + 1 \<le> length s"
    using assms(3) by (auto simp: dec_int_def SDS_LLSTR_SIZE_def abs_if split: if_splits)
  ultimately show ?thesis using assms(3) dec_value_dec by (auto simp: dec_int_def)
qed

theorem sdsll2str_decimal_witness:
  "\<exists>r. sdsll2str (replicate 21 1) (- 120) = Inr ([45, 49, 50, 48] @ 0 # r, 4)"
proof -
  have "dec_int (- 120) = [45, 49, 50, 48]" by code_simp
  then show ?thesis using sdsll2str_decimal [of "- 120" "replicate 21 1"] by (auto simp: SDS_LLSTR_SIZE_def)
qed

text \<open>C22: \<open>sdscatfmt\<close> appends what the format and its arguments stand for, whenever the format does not end
  in the middle of a conversion and the arguments fit their conversions.\<close>

theorem sdscatfmt_appends:
  assumes "never_fails mal" "length stack = SDS_LLSTR_SIZE"
    "sds_wf s" "0 \<notin> set f" "fmt_spec f args = Some out" "sdslen s + length out + 1 < 2 ^ 63"
  shows "\<exists>s'. sdscatfmt mal stack s (f @ [0]) args = Inr s' \<and> sds_wf s' \<and> content s' = content s @ out"
  using assms by (rule sdscatfmt_correct)

theorem sdscatfmt_appends_witness:
  "\<exists>s'. sdscatfmt full_malloc (replicate 21 1) abc_sds [61, 37, 105, 37, 37, 37, 115, 0] [ArgInt (- 7), ArgStr [120, 0]] = Inr s' \<and>
     content s' = [97, 98, 99, 61, 45, 55, 37, 120]"
proof -
  have "fmt_spec [61, 37, 105, 37, 37, 37, 115] [ArgInt (- 7), ArgStr [120, 0]] = Some [61, 45, 55, 37, 120]" by code_simp
  then show ?thesis
    using sdscatfmt_appends [OF full_never_fails, of "replicate 21 1" abc_sds "[61, 37, 105, 37, 37, 37, 115]"
        "[ArgInt (- 7), ArgStr [120, 0]]" "[61, 45, 55, 37, 120]"]
    by (auto simp: abc_sds_wf SDS_LLSTR_SIZE_def)
qed



text \<open>Undefined behaviour the model exhibits: the smallest \<open>long long\<close> is negated; a format that ends with
  \<open>%\<close> is read past its terminator; the counter of arguments overflows at the argument after \<open>INT_MAX\<close>.\<close>

lemma args_loop_overflow:
  assumes "never_fails mal" "length p < 2 ^ 62" "INT_MAX \<le> length vec"
  shows "args_loop mal vec (quote p @ 0 # r) = Inl SignedOverflow"
  using args_loop_quote [OF assms(1,2), of 0 vec r] assms(3) by auto

lemma sdsll2str_min: "sdsll2str s (- (2 ^ 63)) = Inl SignedOverflow"
  by (simp add: sdsll2str_def)

lemma sdscatfmt_trailing_percent:
  "sds_wf s \<Longrightarrow> 0 < sdsavail s \<Longrightarrow> sdscatfmt mal stack s [37, 0] args = Inl OutOfBounds"
  by (simp add: sdscatfmt_def fmt_loop.simps fmt_room_def on_sds_def is_conversion_def fmt_store_def mem sds_wf_def sdsavail_wf)

end
