(* ===== verification/Ae.thy ===== *)
theory Ae
  imports Prelude
begin

unbundle bit_operations_syntax

text \<open>
  \<open>ae.c\<close>: the event loop. The loop is a record with the arrays of registered and fired file events,
  the list of time events and the state of the polling API; \<open>world\<close> is everything else a callback or
  the kernel may change. The polling API, the clocks and the callbacks are parameters: function
  pointers are numbers, and \<open>aeProcs\<close> says what calling them does to the loop. A pointer into the
  array of file events is the index and the generation of the array, so that a pointer kept over a
  \<open>zrealloc\<close> faults; a pointer to a time event is the address of its node.
\<close>

section \<open>State\<close>

definition AE_OK :: int where "AE_OK = 0"
definition AE_ERR :: int where "AE_ERR = - 1"
definition AE_NONE :: "32 word" where "AE_NONE = 0"
definition AE_READABLE :: "32 word" where "AE_READABLE = 1"
definition AE_WRITABLE :: "32 word" where "AE_WRITABLE = 2"
definition AE_BARRIER :: "32 word" where "AE_BARRIER = 4"
definition AE_FILE_EVENTS :: "32 word" where "AE_FILE_EVENTS = 1"
definition AE_TIME_EVENTS :: "32 word" where "AE_TIME_EVENTS = 2"
definition AE_ALL_EVENTS :: "32 word" where "AE_ALL_EVENTS = 3"
definition AE_DONT_WAIT :: "32 word" where "AE_DONT_WAIT = 4"
definition AE_CALL_AFTER_SLEEP :: "32 word" where "AE_CALL_AFTER_SLEEP = 8"
definition AE_NOMORE :: int where "AE_NOMORE = - 1"
definition AE_DELETED_EVENT_ID :: int where "AE_DELETED_EVENT_ID = - 1"

lemmas ae_consts = AE_OK_def AE_ERR_def AE_NONE_def AE_READABLE_def AE_WRITABLE_def AE_BARRIER_def
  AE_FILE_EVENTS_def AE_TIME_EVENTS_def AE_ALL_EVENTS_def AE_DONT_WAIT_def AE_CALL_AFTER_SLEEP_def
  AE_NOMORE_def AE_DELETED_EVENT_ID_def

text \<open>\<open>m & b\<close> as a condition.\<close>

definition has :: "32 word \<Rightarrow> 32 word \<Rightarrow> bool" where
  "has m b \<longleftrightarrow> m AND b \<noteq> 0"

lemma has_bits:
  "has m AE_READABLE \<longleftrightarrow> bit m 0" "has m AE_WRITABLE \<longleftrightarrow> bit m 1" "has m AE_BARRIER \<longleftrightarrow> bit m 2"
  "has m AE_FILE_EVENTS \<longleftrightarrow> bit m 0" "has m AE_TIME_EVENTS \<longleftrightarrow> bit m 1" "has m AE_DONT_WAIT \<longleftrightarrow> bit m 2"
  "has m AE_CALL_AFTER_SLEEP \<longleftrightarrow> bit m 3"
  using and_exp_eq_0_iff_not_bit [of m 0] and_exp_eq_0_iff_not_bit [of m 1] and_exp_eq_0_iff_not_bit [of m 2]
    and_exp_eq_0_iff_not_bit [of m 3]
  by (simp_all add: has_def ae_consts)

record aeFileEvent =
  fe_mask :: "32 word"
  rfileProc :: nat
  wfileProc :: nat
  fe_clientData :: nat

record aeTimeEvent =
  te_addr :: nat
  te_id :: int
  when_sec :: int
  when_ms :: int
  timeProc :: nat
  finalizerProc :: "nat option"
  te_clientData :: nat

record aeFiredEvent =
  fired_fd :: int
  fired_mask :: "32 word"

record ('a, 'w) aeEventLoop =
  maxfd :: int
  setsize :: int
  timeEventNextId :: int
  lastTime :: int
  events :: "aeFileEvent list"
  events_gen :: nat
  fired :: "aeFiredEvent list"
  timeEvents :: "aeTimeEvent list"
  te_fresh :: nat
  stop :: bool
  apidata :: 'a
  beforesleep :: "nat option"
  aftersleep :: "nat option"
  world :: 'w

text \<open>The callbacks by function pointer, the clocks, and the polling API of \<open>ae_epoll.c\<close> or
  \<open>ae_select.c\<close> (results are the C return values; a timeout is seconds and microseconds).\<close>

record 'l aeProcs =
  file_proc :: "nat \<Rightarrow> int \<Rightarrow> nat \<Rightarrow> 32 word \<Rightarrow> 'l \<Rightarrow> 'l outcome"
  time_proc :: "nat \<Rightarrow> int \<Rightarrow> nat \<Rightarrow> 'l \<Rightarrow> (int \<times> 'l) outcome"
  final_proc :: "nat \<Rightarrow> nat \<Rightarrow> 'l \<Rightarrow> 'l outcome"
  sleep_proc :: "nat \<Rightarrow> 'l \<Rightarrow> 'l outcome"

record 'w aeOs =
  os_time :: "'w \<Rightarrow> int \<times> 'w"
  gettimeofday :: "'w \<Rightarrow> (int \<times> int) \<times> 'w"

record 'l aeApi =
  aeApiCreate :: "'l \<Rightarrow> int \<times> 'l"
  aeApiResize :: "'l \<Rightarrow> int \<Rightarrow> int \<times> 'l"
  aeApiFree :: "'l \<Rightarrow> 'l"
  aeApiAddEvent :: "'l \<Rightarrow> int \<Rightarrow> 32 word \<Rightarrow> (int \<times> 'l) outcome"
  aeApiDelEvent :: "'l \<Rightarrow> int \<Rightarrow> 32 word \<Rightarrow> 'l outcome"
  aeApiPoll :: "'l \<Rightarrow> (int \<times> int) option \<Rightarrow> (nat \<times> 'l) outcome"

section \<open>Creation and resizing\<close>

text \<open>\<open>zmalloc\<close> ends the process when it fails, and a negative size is a huge one. The fresh arrays hold
  arbitrary values (\<open>raw_fe\<close>, \<open>raw_fired\<close>).\<close>

definition aeCreateEventLoop ::
  "('a, 'w) aeEventLoop aeApi \<Rightarrow> 'w aeOs \<Rightarrow> (nat \<Rightarrow> aeFileEvent) \<Rightarrow> (nat \<Rightarrow> aeFiredEvent) \<Rightarrow> 'a \<Rightarrow> int \<Rightarrow> 'w \<Rightarrow>
   ('a, 'w) aeEventLoop option outcome" where
  "aeCreateEventLoop A os raw_fe raw_fired raw_api n w =
     (if n < 0 then Inl OutOfMemory
      else
        let (t, w) = os_time os w;
            l = \<lparr>maxfd = - 1, setsize = n, timeEventNextId = 0, lastTime = t,
                 events = map raw_fe [0..<nat n], events_gen = 0, fired = map raw_fired [0..<nat n],
                 timeEvents = [], te_fresh = 0, stop = False, apidata = raw_api,
                 beforesleep = None, aftersleep = None, world = w\<rparr>;
            (r, l) = aeApiCreate A l
        in if r = - 1 then Inr None
           else Inr (Some (l\<lparr>events := map (\<lambda>e. e\<lparr>fe_mask := AE_NONE\<rparr>) (events l)\<rparr>)))"

definition aeGetSetSize :: "('a, 'w) aeEventLoop \<Rightarrow> int" where
  "aeGetSetSize l = setsize l"

text \<open>\<open>zrealloc\<close> keeps the common prefix; the slots behind \<open>maxfd\<close> are cleared.\<close>

definition realloc_list :: "(nat \<Rightarrow> 'b) \<Rightarrow> 'b list \<Rightarrow> nat \<Rightarrow> 'b list" where
  "realloc_list raw xs n = map (\<lambda>i. if i < length xs then xs ! i else raw i) [0..<n]"

definition clear_above :: "int \<Rightarrow> aeFileEvent list \<Rightarrow> aeFileEvent list" where
  "clear_above m es = map (\<lambda>i. if m + 1 \<le> int i then (es ! i)\<lparr>fe_mask := AE_NONE\<rparr> else es ! i) [0..<length es]"

definition aeResizeSetSize ::
  "('a, 'w) aeEventLoop aeApi \<Rightarrow> (nat \<Rightarrow> aeFileEvent) \<Rightarrow> (nat \<Rightarrow> aeFiredEvent) \<Rightarrow> ('a, 'w) aeEventLoop \<Rightarrow> int \<Rightarrow>
   int \<times> ('a, 'w) aeEventLoop" where
  "aeResizeSetSize A raw_fe raw_fired l n =
     (if n = setsize l then (AE_OK, l)
      else if maxfd l \<ge> n then (AE_ERR, l)
      else
        let (r, l) = aeApiResize A l n
        in if r = - 1 then (AE_ERR, l)
           else (AE_OK, l\<lparr>events := clear_above (maxfd l) (realloc_list raw_fe (events l) (nat n)),
                          events_gen := Suc (events_gen l),
                          fired := realloc_list raw_fired (fired l) (nat n),
                          setsize := n\<rparr>))"

text \<open>Freeing the loop leaves the world behind.\<close>

definition aeDeleteEventLoop :: "('a, 'w) aeEventLoop aeApi \<Rightarrow> ('a, 'w) aeEventLoop \<Rightarrow> 'w" where
  "aeDeleteEventLoop A l = world (aeApiFree A l)"

definition aeStop :: "('a, 'w) aeEventLoop \<Rightarrow> ('a, 'w) aeEventLoop" where
  "aeStop l = l\<lparr>stop := True\<rparr>"

section \<open>File events\<close>

text \<open>\<open>eventLoop->events[fd]\<close>\<close>

definition fe_at :: "('a, 'w) aeEventLoop \<Rightarrow> int \<Rightarrow> aeFileEvent outcome" where
  "fe_at l fd = (if 0 \<le> fd \<and> fd < int (length (events l)) then Inr (events l ! nat fd) else Inl OutOfBounds)"

definition set_fe :: "('a, 'w) aeEventLoop \<Rightarrow> int \<Rightarrow> aeFileEvent \<Rightarrow> ('a, 'w) aeEventLoop" where
  "set_fe l fd fe = l\<lparr>events := (events l)[nat fd := fe]\<rparr>"

definition aeCreateFileEvent ::
  "('a, 'w) aeEventLoop aeApi \<Rightarrow> ('a, 'w) aeEventLoop \<Rightarrow> int \<Rightarrow> 32 word \<Rightarrow> nat \<Rightarrow> nat \<Rightarrow> (int \<times> ('a, 'w) aeEventLoop) outcome" where
  "aeCreateFileEvent A l fd msk proc clientData =
     (if fd \<ge> setsize l then Inr (AE_ERR, l)
      else
        bindE (fe_at l fd) (\<lambda>_.
        bindE (aeApiAddEvent A l fd msk) (\<lambda>(r, l).
        if r = - 1 then Inr (AE_ERR, l)
        else
          bindE (fe_at l fd) (\<lambda>fe.
          let fe = fe\<lparr>fe_mask := fe_mask fe OR msk\<rparr>;
              fe = (if has msk AE_READABLE then fe\<lparr>rfileProc := proc\<rparr> else fe);
              fe = (if has msk AE_WRITABLE then fe\<lparr>wfileProc := proc\<rparr> else fe);
              fe = fe\<lparr>fe_clientData := clientData\<rparr>;
              l = set_fe l fd fe
          in Inr (AE_OK, if fd > maxfd l then l\<lparr>maxfd := fd\<rparr> else l)))))"

text \<open>\<open>for (j = maxfd - 1; j >= 0; j--) if (events[j].msk != AE_NONE) break;\<close> with \<open>j + 1\<close> as argument.\<close>

fun scan_maxfd :: "aeFileEvent list \<Rightarrow> nat \<Rightarrow> int" where
  "scan_maxfd es 0 = - 1"
| "scan_maxfd es (Suc j) = (if fe_mask (es ! j) \<noteq> AE_NONE then int j else scan_maxfd es j)"

definition aeDeleteFileEvent ::
  "('a, 'w) aeEventLoop aeApi \<Rightarrow> ('a, 'w) aeEventLoop \<Rightarrow> int \<Rightarrow> 32 word \<Rightarrow> ('a, 'w) aeEventLoop outcome" where
  "aeDeleteFileEvent A l fd msk =
     (if fd \<ge> setsize l then Inr l
      else
        bindE (fe_at l fd) (\<lambda>fe.
        if fe_mask fe = AE_NONE then Inr l
        else
          let msk = (if has msk AE_WRITABLE then msk OR AE_BARRIER else msk)
          in bindE (aeApiDelEvent A l fd msk) (\<lambda>l.
             bindE (fe_at l fd) (\<lambda>fe.
             let fe = fe\<lparr>fe_mask := fe_mask fe AND NOT msk\<rparr>;
                 l = set_fe l fd fe
             in Inr (if fd = maxfd l \<and> fe_mask fe = AE_NONE
                     then l\<lparr>maxfd := scan_maxfd (events l) (nat (maxfd l))\<rparr> else l)))))"

definition aeGetFileEvents :: "('a, 'w) aeEventLoop \<Rightarrow> int \<Rightarrow> 32 word outcome" where
  "aeGetFileEvents l fd = (if fd \<ge> setsize l then Inr 0 else bindE (fe_at l fd) (\<lambda>fe. Inr (fe_mask fe)))"

section \<open>Time events\<close>

definition aeGetTime :: "'w aeOs \<Rightarrow> ('a, 'w) aeEventLoop \<Rightarrow> int \<times> int \<times> ('a, 'w) aeEventLoop" where
  "aeGetTime os l = (let ((s, us), w) = gettimeofday os (world l) in (s, us div 1000, l\<lparr>world := w\<rparr>))"

text \<open>Division and remainder of C round towards zero.\<close>

definition c_div :: "int \<Rightarrow> int \<Rightarrow> int" where
  "c_div a b = (if a < 0 then - ((- a) div b) else a div b)"

definition c_mod :: "int \<Rightarrow> int \<Rightarrow> int" where
  "c_mod a b = (if a < 0 then - ((- a) mod b) else a mod b)"

definition aeAddMillisecondsToNow :: "'w aeOs \<Rightarrow> int \<Rightarrow> ('a, 'w) aeEventLoop \<Rightarrow> int \<times> int \<times> ('a, 'w) aeEventLoop" where
  "aeAddMillisecondsToNow os milliseconds l =
     (let (cur_sec, cur_ms, l) = aeGetTime os l;
          wsec = cur_sec + c_div milliseconds 1000;
          wms = cur_ms + c_mod milliseconds 1000
      in if wms \<ge> 1000 then (wsec + 1, wms - 1000, l) else (wsec, wms, l))"

definition aeCreateTimeEvent ::
  "'w aeOs \<Rightarrow> ('a, 'w) aeEventLoop \<Rightarrow> int \<Rightarrow> nat \<Rightarrow> nat \<Rightarrow> nat option \<Rightarrow> int \<times> ('a, 'w) aeEventLoop" where
  "aeCreateTimeEvent os l milliseconds proc clientData fin =
     (let i = timeEventNextId l;
          l = l\<lparr>timeEventNextId := i + 1\<rparr>;
          (s, ms, l) = aeAddMillisecondsToNow os milliseconds l;
          te = \<lparr>te_addr = te_fresh l, te_id = i, when_sec = s, when_ms = ms, timeProc = proc,
                finalizerProc = fin, te_clientData = clientData\<rparr>
      in (i, l\<lparr>timeEvents := te # timeEvents l, te_fresh := Suc (te_fresh l)\<rparr>))"

fun mark_deleted :: "int \<Rightarrow> aeTimeEvent list \<Rightarrow> aeTimeEvent list option" where
  "mark_deleted i [] = None"
| "mark_deleted i (te # tes) =
     (if te_id te = i then Some (te\<lparr>te_id := AE_DELETED_EVENT_ID\<rparr> # tes)
      else map_option (\<lambda>tes. te # tes) (mark_deleted i tes))"

definition aeDeleteTimeEvent :: "('a, 'w) aeEventLoop \<Rightarrow> int \<Rightarrow> int \<times> ('a, 'w) aeEventLoop" where
  "aeDeleteTimeEvent l i =
     (case mark_deleted i (timeEvents l) of
        None \<Rightarrow> (AE_ERR, l)
      | Some tes \<Rightarrow> (AE_OK, l\<lparr>timeEvents := tes\<rparr>))"

definition earlier :: "aeTimeEvent \<Rightarrow> aeTimeEvent \<Rightarrow> bool" where
  "earlier t n \<longleftrightarrow> when_sec t < when_sec n \<or> (when_sec t = when_sec n \<and> when_ms t < when_ms n)"

fun nearest_loop :: "aeTimeEvent option \<Rightarrow> aeTimeEvent list \<Rightarrow> aeTimeEvent option" where
  "nearest_loop nearest [] = nearest"
| "nearest_loop nearest (te # tes) =
     nearest_loop (case nearest of None \<Rightarrow> Some te | Some n \<Rightarrow> if earlier te n then Some te else nearest) tes"

definition aeSearchNearestTimer :: "('a, 'w) aeEventLoop \<Rightarrow> aeTimeEvent option" where
  "aeSearchNearestTimer l = nearest_loop None (timeEvents l)"

text \<open>Nodes by address: the node, the pointer to the next one, the list without it and with it changed.\<close>

fun te_find :: "nat \<Rightarrow> aeTimeEvent list \<Rightarrow> aeTimeEvent option" where
  "te_find a [] = None"
| "te_find a (te # tes) = (if te_addr te = a then Some te else te_find a tes)"

definition te_head :: "aeTimeEvent list \<Rightarrow> nat option" where
  "te_head tes = (case tes of [] \<Rightarrow> None | te # _ \<Rightarrow> Some (te_addr te))"

fun te_next :: "nat \<Rightarrow> aeTimeEvent list \<Rightarrow> nat option" where
  "te_next a [] = None"
| "te_next a (te # tes) = (if te_addr te = a then te_head tes else te_next a tes)"

fun te_unlink :: "nat \<Rightarrow> aeTimeEvent list \<Rightarrow> aeTimeEvent list" where
  "te_unlink a [] = []"
| "te_unlink a (te # tes) = (if te_addr te = a then tes else te # te_unlink a tes)"

fun te_update :: "nat \<Rightarrow> (aeTimeEvent \<Rightarrow> aeTimeEvent) \<Rightarrow> aeTimeEvent list \<Rightarrow> aeTimeEvent list" where
  "te_update a f [] = []"
| "te_update a f (te # tes) = (if te_addr te = a then f te # tes else te # te_update a f tes)"

text \<open>After its callback a node is rescheduled or marked as deleted.\<close>

definition rearm :: "'w aeOs \<Rightarrow> int \<Rightarrow> ('a, 'w) aeEventLoop \<Rightarrow> nat \<Rightarrow> ('a, 'w) aeEventLoop" where
  "rearm os retval l a =
     (if retval \<noteq> AE_NOMORE
      then let (s, ms, l) = aeAddMillisecondsToNow os retval l
           in l\<lparr>timeEvents := te_update a (\<lambda>te. te\<lparr>when_sec := s, when_ms := ms\<rparr>) (timeEvents l)\<rparr>
      else l\<lparr>timeEvents := te_update a (\<lambda>te. te\<lparr>te_id := AE_DELETED_EVENT_ID\<rparr>) (timeEvents l)\<rparr>)"

text \<open>One iteration of the loop of \<open>processTimeEvents\<close> at the node \<open>a\<close>: the loop, the next node, and how
  many events were processed. The node is dereferenced again after its callback.\<close>

definition time_step ::
  "('a, 'w) aeEventLoop aeProcs \<Rightarrow> 'w aeOs \<Rightarrow> int \<Rightarrow> ('a, 'w) aeEventLoop \<Rightarrow> nat \<Rightarrow>
   (('a, 'w) aeEventLoop \<times> nat option \<times> int) outcome" where
  "time_step P os maxId l a =
     (case te_find a (timeEvents l) of
        None \<Rightarrow> Inl InvalidPointer
      | Some te \<Rightarrow>
          if te_id te = AE_DELETED_EVENT_ID
          then let nx = te_next a (timeEvents l);
                   l = l\<lparr>timeEvents := te_unlink a (timeEvents l)\<rparr>
               in bindE (case finalizerProc te of None \<Rightarrow> Inr l | Some f \<Rightarrow> final_proc P f (te_clientData te) l)
                    (\<lambda>l. Inr (l, nx, 0))
          else if te_id te > maxId then Inr (l, te_next a (timeEvents l), 0)
          else
            let (now_sec, now_ms, l) = aeGetTime os l
            in if now_sec > when_sec te \<or> (now_sec = when_sec te \<and> now_ms \<ge> when_ms te)
               then bindE (time_proc P (timeProc te) (te_id te) (te_clientData te) l) (\<lambda>(retval, l).
                    if te_find a (timeEvents l) = None then Inl InvalidPointer
                    else
                      let l = rearm os retval l a
                      in Inr (l, te_next a (timeEvents l), 1))
               else Inr (l, te_next a (timeEvents l), 0))"

partial_function (option) time_loop ::
  "('a, 'w) aeEventLoop aeProcs \<Rightarrow> 'w aeOs \<Rightarrow> int \<Rightarrow> ('a, 'w) aeEventLoop \<Rightarrow> nat option \<Rightarrow> int \<Rightarrow>
   (int \<times> ('a, 'w) aeEventLoop) outcome option" where
  "time_loop P os maxId l te processed =
     (case te of
        None \<Rightarrow> Some (Inr (processed, l))
      | Some a \<Rightarrow>
          (case time_step P os maxId l a of
             Inl e \<Rightarrow> Some (Inl e)
           | Inr (l, nx, n) \<Rightarrow> time_loop P os maxId l nx (processed + n)))"

text \<open>When the clock went back, every event is made due. \<open>processTimeEvents\<close> starts the loop at the head of
  the list.\<close>

definition begin_time_events :: "'w aeOs \<Rightarrow> ('a, 'w) aeEventLoop \<Rightarrow> ('a, 'w) aeEventLoop" where
  "begin_time_events os l =
     (let (now, w) = os_time os (world l);
          l = l\<lparr>world := w\<rparr>;
          l = (if now < lastTime l then l\<lparr>timeEvents := map (\<lambda>te. te\<lparr>when_sec := 0\<rparr>) (timeEvents l)\<rparr> else l)
      in l\<lparr>lastTime := now\<rparr>)"

definition processTimeEvents ::
  "('a, 'w) aeEventLoop aeProcs \<Rightarrow> 'w aeOs \<Rightarrow> ('a, 'w) aeEventLoop \<Rightarrow> (int \<times> ('a, 'w) aeEventLoop) outcome option" where
  "processTimeEvents P os l =
     (let l = begin_time_events os l
      in time_loop P os (timeEventNextId l - 1) l (te_head (timeEvents l)) 0)"

section \<open>Processing events\<close>

text \<open>\<open>fe->...\<close> for the pointer \<open>fe = &eventLoop->events[fd]\<close> taken when the array had generation \<open>g\<close>.\<close>

definition fe_deref :: "('a, 'w) aeEventLoop \<Rightarrow> nat \<Rightarrow> int \<Rightarrow> aeFileEvent outcome" where
  "fe_deref l g fd = (if g \<noteq> events_gen l then Inl InvalidPointer else fe_at l fd)"

text \<open>The three conditional calls for one fired event. \<open>call_read\<close> and \<open>call_write\<close> return the loop and the
  new value of \<open>fired\<close>.\<close>

definition call_read ::
  "('a, 'w) aeEventLoop aeProcs \<Rightarrow> nat \<Rightarrow> int \<Rightarrow> 32 word \<Rightarrow> ('a, 'w) aeEventLoop \<Rightarrow> bool \<Rightarrow> bool \<Rightarrow>
   (('a, 'w) aeEventLoop \<times> bool) outcome" where
  "call_read P g fd msk l enabled done =
     (if \<not> enabled then Inr (l, done)
      else
        bindE (fe_deref l g fd) (\<lambda>fe.
        if has (fe_mask fe AND msk) AE_READABLE \<and> (\<not> done \<or> wfileProc fe \<noteq> rfileProc fe)
        then bindE (file_proc P (rfileProc fe) fd (fe_clientData fe) msk l) (\<lambda>l. Inr (l, True))
        else Inr (l, done)))"

definition call_write ::
  "('a, 'w) aeEventLoop aeProcs \<Rightarrow> nat \<Rightarrow> int \<Rightarrow> 32 word \<Rightarrow> ('a, 'w) aeEventLoop \<Rightarrow> bool \<Rightarrow>
   (('a, 'w) aeEventLoop \<times> bool) outcome" where
  "call_write P g fd msk l done =
     bindE (fe_deref l g fd) (\<lambda>fe.
     if has (fe_mask fe AND msk) AE_WRITABLE \<and> (\<not> done \<or> wfileProc fe \<noteq> rfileProc fe)
     then bindE (file_proc P (wfileProc fe) fd (fe_clientData fe) msk l) (\<lambda>l. Inr (l, True))
     else Inr (l, done))"

text \<open>One iteration of the loop over the fired events.\<close>

definition fire_event ::
  "('a, 'w) aeEventLoop aeProcs \<Rightarrow> ('a, 'w) aeEventLoop \<Rightarrow> nat \<Rightarrow> ('a, 'w) aeEventLoop outcome" where
  "fire_event P l j =
     bindE (rd (fired l) j) (\<lambda>f.
     let fd = fired_fd f; msk = fired_mask f; g = events_gen l in
     bindE (fe_at l fd) (\<lambda>fe.
     let invert = has (fe_mask fe) AE_BARRIER in
     bindE (call_read P g fd msk l (\<not> invert) False) (\<lambda>(l, done).
     bindE (call_write P g fd msk l done) (\<lambda>(l, done).
     bindE (call_read P g fd msk l invert done) (\<lambda>(l, done). Inr l)))))"

function file_loop ::
  "('a, 'w) aeEventLoop aeProcs \<Rightarrow> ('a, 'w) aeEventLoop \<Rightarrow> nat \<Rightarrow> nat \<Rightarrow> ('a, 'w) aeEventLoop outcome" where
  "file_loop P l j n =
     (if j < n then bindE (fire_event P l j) (\<lambda>l. file_loop P l (Suc j) n) else Inr l)"
  by auto
termination by (relation "measure (\<lambda>(P, l, j, n). n - j)") auto

declare file_loop.simps [simp del]

text \<open>Signed arithmetic at the width of \<open>long\<close>: a result that does not fit is undefined.\<close>

definition as_long :: "int \<Rightarrow> int outcome" where
  "as_long x = (if - (2 ^ 63) \<le> x \<and> x < 2 ^ 63 then Inr x else Inl SignedOverflow)"

lemma as_long_ok [simp]: "- (2 ^ 63) \<le> x \<Longrightarrow> x < 2 ^ 63 \<Longrightarrow> as_long x = Inr x"
  by (simp add: as_long_def)

text \<open>How long the polling API may sleep: until the nearest timer, not at all, or forever (\<open>None\<close>).
  \<open>(when_sec - now_sec)*1000 + when_ms - now_ms\<close> is computed in \<open>long\<close>.\<close>

definition wait_ms :: "aeTimeEvent \<Rightarrow> int \<Rightarrow> int \<Rightarrow> int outcome" where
  "wait_ms te now_sec now_ms =
     bindE (as_long (when_sec te - now_sec)) (\<lambda>x.
     bindE (as_long (x * 1000)) (\<lambda>x.
     bindE (as_long (x + when_ms te)) (\<lambda>x. as_long (x - now_ms))))"

definition poll_timeout ::
  "'w aeOs \<Rightarrow> ('a, 'w) aeEventLoop \<Rightarrow> 32 word \<Rightarrow> ((int \<times> int) option \<times> ('a, 'w) aeEventLoop) outcome" where
  "poll_timeout os l flags =
     (case (if has flags AE_TIME_EVENTS \<and> \<not> has flags AE_DONT_WAIT then aeSearchNearestTimer l else None) of
        Some shortest \<Rightarrow>
          (let (now_sec, now_ms, l) = aeGetTime os l
           in bindE (wait_ms shortest now_sec now_ms) (\<lambda>ms.
              Inr (Some (if ms > 0 then (ms div 1000, (ms mod 1000) * 1000) else (0, 0)), l)))
      | None \<Rightarrow> Inr (if has flags AE_DONT_WAIT then (Some (0, 0), l) else (None, l)))"

definition process_file_events ::
  "('a, 'w) aeEventLoop aeApi \<Rightarrow> ('a, 'w) aeEventLoop aeProcs \<Rightarrow> 'w aeOs \<Rightarrow> ('a, 'w) aeEventLoop \<Rightarrow> 32 word \<Rightarrow>
   (int \<times> ('a, 'w) aeEventLoop) outcome" where
  "process_file_events A P os l flags =
     bindE (poll_timeout os l flags) (\<lambda>(tvp, l).
     bindE (aeApiPoll A l tvp) (\<lambda>(numevents, l).
     bindE (case aftersleep l of
              Some f \<Rightarrow> if has flags AE_CALL_AFTER_SLEEP then sleep_proc P f l else Inr l
            | None \<Rightarrow> Inr l) (\<lambda>l.
     bindE (file_loop P l 0 numevents) (\<lambda>l. Inr (int numevents, l)))))"

definition aeProcessEvents ::
  "('a, 'w) aeEventLoop aeApi \<Rightarrow> ('a, 'w) aeEventLoop aeProcs \<Rightarrow> 'w aeOs \<Rightarrow> ('a, 'w) aeEventLoop \<Rightarrow> 32 word \<Rightarrow>
   (int \<times> ('a, 'w) aeEventLoop) outcome option" where
  "aeProcessEvents A P os l flags =
     (if \<not> has flags AE_TIME_EVENTS \<and> \<not> has flags AE_FILE_EVENTS then Some (Inr (0, l))
      else
        bindO (Some (if maxfd l \<noteq> - 1 \<or> (has flags AE_TIME_EVENTS \<and> \<not> has flags AE_DONT_WAIT)
                     then process_file_events A P os l flags else Inr (0, l))) (\<lambda>(processed, l).
        if has flags AE_TIME_EVENTS
        then bindO (processTimeEvents P os l) (\<lambda>(n, l). Some (Inr (processed + n, l)))
        else Some (Inr (processed, l))))"

text \<open>\<open>aeMain\<close>: \<open>main_step\<close> is the body of its loop.\<close>

definition main_step ::
  "('a, 'w) aeEventLoop aeApi \<Rightarrow> ('a, 'w) aeEventLoop aeProcs \<Rightarrow> 'w aeOs \<Rightarrow> ('a, 'w) aeEventLoop \<Rightarrow>
   ('a, 'w) aeEventLoop outcome option" where
  "main_step A P os l =
     bindO (Some (case beforesleep l of Some f \<Rightarrow> sleep_proc P f l | None \<Rightarrow> Inr l)) (\<lambda>l.
     bindO (aeProcessEvents A P os l (AE_ALL_EVENTS OR AE_CALL_AFTER_SLEEP)) (\<lambda>(n, l). Some (Inr l)))"

partial_function (option) main_loop ::
  "('a, 'w) aeEventLoop aeApi \<Rightarrow> ('a, 'w) aeEventLoop aeProcs \<Rightarrow> 'w aeOs \<Rightarrow> ('a, 'w) aeEventLoop \<Rightarrow>
   ('a, 'w) aeEventLoop outcome option" where
  "main_loop A P os l =
     (if stop l then Some (Inr l)
      else (case main_step A P os l of
              None \<Rightarrow> None
            | Some (Inl e) \<Rightarrow> Some (Inl e)
            | Some (Inr l) \<Rightarrow> main_loop A P os l))"

definition aeMain ::
  "('a, 'w) aeEventLoop aeApi \<Rightarrow> ('a, 'w) aeEventLoop aeProcs \<Rightarrow> 'w aeOs \<Rightarrow> ('a, 'w) aeEventLoop \<Rightarrow>
   ('a, 'w) aeEventLoop outcome option" where
  "aeMain A P os l = main_loop A P os (l\<lparr>stop := False\<rparr>)"

definition aeSetBeforeSleepProc :: "('a, 'w) aeEventLoop \<Rightarrow> nat option \<Rightarrow> ('a, 'w) aeEventLoop" where
  "aeSetBeforeSleepProc l f = l\<lparr>beforesleep := f\<rparr>"

definition aeSetAfterSleepProc :: "('a, 'w) aeEventLoop \<Rightarrow> nat option \<Rightarrow> ('a, 'w) aeEventLoop" where
  "aeSetAfterSleepProc l f = l\<lparr>aftersleep := f\<rparr>"

text \<open>\<open>aeWait\<close>: \<open>poll\<close> of one descriptor is a parameter that returns its result and \<open>revents\<close>.\<close>

definition POLLIN :: "16 word" where "POLLIN = 1"
definition POLLOUT :: "16 word" where "POLLOUT = 4"
definition POLLERR :: "16 word" where "POLLERR = 8"
definition POLLHUP :: "16 word" where "POLLHUP = 16"

text \<open>Conversion of a wider integer to \<open>int\<close>.\<close>

definition to_int :: "int \<Rightarrow> int" where
  "to_int x = (x + 2 ^ 31) mod 2 ^ 32 - 2 ^ 31"

definition aeWait :: "(int \<Rightarrow> 16 word \<Rightarrow> int \<Rightarrow> int \<times> 16 word) \<Rightarrow> int \<Rightarrow> 32 word \<Rightarrow> int \<Rightarrow> int" where
  "aeWait poll fd msk milliseconds =
     (let ev = (if has msk AE_READABLE then POLLIN else 0) OR (if has msk AE_WRITABLE then POLLOUT else 0);
          (retval, revents) = poll fd ev (to_int milliseconds)
      in if retval = 1
         then uint ((if revents AND POLLIN \<noteq> 0 then AE_READABLE else 0) OR
                    (if revents AND POLLOUT \<noteq> 0 then AE_WRITABLE else 0) OR
                    (if revents AND POLLERR \<noteq> 0 then AE_WRITABLE else 0) OR
                    (if revents AND POLLHUP \<noteq> 0 then AE_WRITABLE else 0))
         else retval)"

section \<open>Invariant\<close>

definition masks :: "('a, 'w) aeEventLoop \<Rightarrow> 32 word list" where
  "masks l = map fe_mask (events l)"

text \<open>The arrays have \<open>setsize\<close> slots and no slot behind \<open>maxfd\<close> is registered.\<close>

definition files_wf :: "('a, 'w) aeEventLoop \<Rightarrow> bool" where
  "files_wf l \<longleftrightarrow> 0 \<le> setsize l \<and> length (events l) = nat (setsize l) \<and> length (fired l) = nat (setsize l) \<and>
     - 1 \<le> maxfd l \<and> maxfd l < setsize l \<and>
     (\<forall>i < length (events l). maxfd l < int i \<longrightarrow> fe_mask (events l ! i) = AE_NONE)"

text \<open>Nodes of time events have distinct addresses, identifiers were handed out by the loop, and no two
  live events share one.\<close>

definition live_ids :: "aeTimeEvent list \<Rightarrow> int list" where
  "live_ids tes = filter (\<lambda>i. i \<noteq> AE_DELETED_EVENT_ID) (map te_id tes)"

definition timers_wf :: "('a, 'w) aeEventLoop \<Rightarrow> bool" where
  "timers_wf l \<longleftrightarrow> 0 \<le> timeEventNextId l \<and> distinct (map te_addr (timeEvents l)) \<and>
     (\<forall>te \<in> set (timeEvents l). te_addr te < te_fresh l \<and> AE_DELETED_EVENT_ID \<le> te_id te \<and> te_id te < timeEventNextId l) \<and>
     distinct (live_ids (timeEvents l))"

lemma masks_nth: "i < length (events l) \<Longrightarrow> masks l ! i = fe_mask (events l ! i)"
  by (simp add: masks_def)

lemma length_masks [simp]: "length (masks l) = length (events l)"
  by (simp add: masks_def)

lemma masks_set_fe: "masks (set_fe l fd fe) = (masks l)[nat fd := fe_mask fe]"
  by (simp add: masks_def set_fe_def map_update)

lemma set_fe_simps [simp]:
  "maxfd (set_fe l fd fe) = maxfd l" "setsize (set_fe l fd fe) = setsize l" "fired (set_fe l fd fe) = fired l"
  "length (events (set_fe l fd fe)) = length (events l)" "events_gen (set_fe l fd fe) = events_gen l"
  "apidata (set_fe l fd fe) = apidata l" "world (set_fe l fd fe) = world l" "timeEvents (set_fe l fd fe) = timeEvents l"
  "te_fresh (set_fe l fd fe) = te_fresh l" "timeEventNextId (set_fe l fd fe) = timeEventNextId l"
  by (simp_all add: set_fe_def)

lemma fe_at_ok: "0 \<le> fd \<Longrightarrow> fd < int (length (events l)) \<Longrightarrow> fe_at l fd = Inr (events l ! nat fd)"
  by (simp add: fe_at_def)

lemma fe_at_masks: "fe_at l fd = Inr fe \<Longrightarrow> 0 \<le> fd \<and> nat fd < length (events l) \<and> fe_mask fe = masks l ! nat fd"
  by (auto simp: fe_at_def masks_nth split: if_splits)

text \<open>The new \<open>maxfd\<close> is the highest registered slot below the old one.\<close>

lemma scan_maxfd_bounds: "- 1 \<le> scan_maxfd es n \<and> scan_maxfd es n < int n"
  by (induction n) auto

lemma scan_maxfd_above: "scan_maxfd es n < int i \<Longrightarrow> i < n \<Longrightarrow> fe_mask (es ! i) = AE_NONE"
  by (induction n) (auto simp: less_Suc_eq split: if_splits)

lemma scan_maxfd_registered: "scan_maxfd es n \<noteq> - 1 \<Longrightarrow> fe_mask (es ! nat (scan_maxfd es n)) \<noteq> AE_NONE"
  by (induction n) auto

lemma scan_maxfd_update: "n \<le> i \<Longrightarrow> scan_maxfd (es[i := fe]) n = scan_maxfd es n"
  by (induction n) auto

section \<open>The contract of the polling API\<close>

text \<open>
  What \<open>ae.c\<close> relies on: the operations change nothing of the loop but the state of the API, the world
  and, when polling, the fired events; \<open>sync\<close> relates the state of the API and of the kernel to the
  masks of the registered events, and every operation keeps it without faulting; polling reports
  descriptors inside the arrays only, at most \<open>setsize\<close> of them; reading the clocks does not disturb the
  kernel. \<open>size_ok\<close> are the sizes the API can handle. The timeout is a valid one (\<open>timeval_ok\<close>), whose
  milliseconds fit into a \<open>long\<close>. Making the arrays smaller is a stronger contract, \<open>shrinking_api\<close>.
\<close>

definition api_frame :: "('a, 'w) aeEventLoop \<Rightarrow> ('a, 'w) aeEventLoop \<Rightarrow> bool" where
  "api_frame l l' \<longleftrightarrow> (\<exists>a w. l' = l\<lparr>apidata := a, world := w\<rparr>)"

definition poll_frame :: "('a, 'w) aeEventLoop \<Rightarrow> ('a, 'w) aeEventLoop \<Rightarrow> bool" where
  "poll_frame l l' \<longleftrightarrow> (\<exists>a w f. l' = l\<lparr>apidata := a, world := w, fired := f\<rparr> \<and> length f = length (fired l))"

text \<open>The masks after a resize: slots are cut off only if unregistered, new ones are unregistered.\<close>

definition resized :: "32 word list \<Rightarrow> 32 word list \<Rightarrow> bool" where
  "resized ms ms' \<longleftrightarrow> (\<forall>i < length ms'. ms' ! i = (if i < length ms then ms ! i else 0)) \<and>
     (\<forall>i < length ms. length ms' \<le> i \<longrightarrow> ms ! i = 0)"

text \<open>Descriptors reported by polling are slots of the arrays.\<close>

definition fired_ok :: "('a, 'w) aeEventLoop \<Rightarrow> nat \<Rightarrow> bool" where
  "fired_ok l n \<longleftrightarrow> n \<le> length (fired l) \<and>
     (\<forall>j < n. 0 \<le> fired_fd (fired l ! j) \<and> nat (fired_fd (fired l ! j)) < length (events l))"

definition timeval_ok :: "(int \<times> int) option \<Rightarrow> bool" where
  "timeval_ok tvp \<longleftrightarrow> (\<forall>s us. tvp = Some (s, us) \<longrightarrow> 0 \<le> s \<and> 0 \<le> us \<and> us < 1000000 \<and> s * 1000 + us div 1000 < 2 ^ 63)"

text \<open>What an API leaves after resizing its arrays to \<open>sz\<close> slots.\<close>

definition resizes :: "('a \<Rightarrow> 'w \<Rightarrow> 32 word list \<Rightarrow> bool) \<Rightarrow> ('a, 'w) aeEventLoop \<Rightarrow> int \<Rightarrow> int \<times> ('a, 'w) aeEventLoop \<Rightarrow> bool" where
  "resizes sync l sz = (\<lambda>(r, l').
     if r = - 1 then sync (apidata l') (world l') (masks l)
     else (\<forall>ms'. length ms' = nat sz \<and> resized (masks l) ms' \<longrightarrow> sync (apidata l') (world l') ms'))"

locale polling_api =
  fixes A :: "('a, 'w) aeEventLoop aeApi"
    and os :: "'w aeOs"
    and size_ok :: "int \<Rightarrow> bool"
    and sync :: "'a \<Rightarrow> 'w \<Rightarrow> 32 word list \<Rightarrow> bool"
  assumes create_frame: "aeApiCreate A l = (r, l') \<Longrightarrow> api_frame l l'"
    and create_sync: "aeApiCreate A l = (r, l') \<Longrightarrow> r \<noteq> - 1 \<Longrightarrow> size_ok (setsize l) \<Longrightarrow>
      sync (apidata l') (world l') (replicate (nat (setsize l)) 0)"
    and resize_frame: "aeApiResize A l sz = (r, l') \<Longrightarrow> api_frame l l'"
    and grow_sync: "sync (apidata l) (world l) (masks l) \<Longrightarrow> length (events l) \<le> nat sz \<Longrightarrow> resizes sync l sz (aeApiResize A l sz)"
    and add_event: "sync (apidata l) (world l) (masks l) \<Longrightarrow> 0 \<le> fd \<Longrightarrow> nat fd < length (events l) \<Longrightarrow> m \<noteq> AE_NONE \<Longrightarrow>
      \<exists>r l'. aeApiAddEvent A l fd m = Inr (r, l') \<and> api_frame l l' \<and>
        sync (apidata l') (world l') (if r = - 1 then masks l else (masks l)[nat fd := masks l ! nat fd OR m])"
    and del_event: "sync (apidata l) (world l) (masks l) \<Longrightarrow> 0 \<le> fd \<Longrightarrow> nat fd < length (events l) \<Longrightarrow>
      masks l ! nat fd \<noteq> AE_NONE \<Longrightarrow>
      \<exists>l'. aeApiDelEvent A l fd m = Inr l' \<and> api_frame l l' \<and>
        sync (apidata l') (world l') ((masks l)[nat fd := masks l ! nat fd AND NOT m])"
    and poll_events: "files_wf l \<Longrightarrow> timeval_ok tvp \<Longrightarrow> sync (apidata l) (world l) (masks l) \<Longrightarrow>
      \<exists>cnt l'. aeApiPoll A l tvp = Inr (cnt, l') \<and> poll_frame l l' \<and> sync (apidata l') (world l') (masks l) \<and> fired_ok l' cnt"
    and clock_sync: "sync a w ms \<Longrightarrow> sync a (snd (gettimeofday os w)) ms" "sync a w ms \<Longrightarrow> sync a (snd (os_time os w)) ms"

locale shrinking_api = polling_api +
  assumes resize_sync: "sync (apidata l) (world l) (masks l) \<Longrightarrow> resizes sync l sz (aeApiResize A l sz)"

text \<open>The invariant of the loop together with its polling API.\<close>

definition ae_inv :: "('a \<Rightarrow> 'w \<Rightarrow> 32 word list \<Rightarrow> bool) \<Rightarrow> ('a, 'w) aeEventLoop \<Rightarrow> bool" where
  "ae_inv sync l \<longleftrightarrow> files_wf l \<and> timers_wf l \<and> sync (apidata l) (world l) (masks l)"

lemma api_frame_simps:
  assumes "api_frame l l'"
  shows "events l' = events l" "maxfd l' = maxfd l" "setsize l' = setsize l" "fired l' = fired l"
    "timeEvents l' = timeEvents l" "te_fresh l' = te_fresh l" "timeEventNextId l' = timeEventNextId l"
    "events_gen l' = events_gen l" "masks l' = masks l" "fe_at l' = fe_at l"
  using assms by (auto simp: api_frame_def masks_def fe_at_def fun_eq_iff)

lemma poll_frame_simps:
  assumes "poll_frame l l'"
  shows "events l' = events l" "maxfd l' = maxfd l" "setsize l' = setsize l" "length (fired l') = length (fired l)"
    "timeEvents l' = timeEvents l" "te_fresh l' = te_fresh l" "timeEventNextId l' = timeEventNextId l"
    "events_gen l' = events_gen l" "masks l' = masks l" "aftersleep l' = aftersleep l"
  using assms by (auto simp: poll_frame_def masks_def)

text \<open>Both halves of the invariant depend on their own fields only.\<close>

lemma files_wf_cong:
  "events l' = events l \<Longrightarrow> maxfd l' = maxfd l \<Longrightarrow> setsize l' = setsize l \<Longrightarrow> length (fired l') = length (fired l) \<Longrightarrow>
   files_wf l' \<longleftrightarrow> files_wf l"
  by (simp add: files_wf_def)

lemma timers_wf_cong:
  "timeEvents l' = timeEvents l \<Longrightarrow> te_fresh l' = te_fresh l \<Longrightarrow> timeEventNextId l' = timeEventNextId l \<Longrightarrow>
   timers_wf l' \<longleftrightarrow> timers_wf l"
  by (simp add: timers_wf_def)

text \<open>Clearing the masks behind \<open>maxfd\<close> and resizing.\<close>

lemma length_realloc_list [simp]: "length (realloc_list raw xs n) = n"
  by (simp add: realloc_list_def)

lemma length_clear_above [simp]: "length (clear_above m es) = length es"
  by (simp add: clear_above_def)

lemma clear_above_nth:
  "i < length es \<Longrightarrow> clear_above m es ! i = (if m < int i then (es ! i)\<lparr>fe_mask := AE_NONE\<rparr> else es ! i)"
  by (auto simp: clear_above_def)

lemma realloc_list_nth: "i < n \<Longrightarrow> realloc_list raw xs n ! i = (if i < length xs then xs ! i else raw i)"
  by (simp add: realloc_list_def)

lemma resized_clear_above:
  assumes "files_wf l" "maxfd l < n"
  shows "resized (masks l) (map fe_mask (clear_above (maxfd l) (realloc_list raw (events l) (nat n))))"
proof -
  have "nat n \<le> i \<Longrightarrow> maxfd l < int i" for i using assms(2) by linarith
  then show ?thesis
    using assms unfolding resized_def files_wf_def
    by (auto simp: clear_above_nth realloc_list_nth masks_nth AE_NONE_def)
qed

lemma set_nth_wf:
  assumes "files_wf l" "0 \<le> fd" "nat fd < length (events l)" "fd \<le> m" "maxfd l \<le> m" "m < setsize l"
  shows "files_wf (set_fe l fd fe\<lparr>maxfd := m\<rparr>)"
  using assms unfolding files_wf_def set_fe_def by (auto simp: nth_list_update)

lemma delete_wf:
  assumes "files_wf l" "0 \<le> fd" "nat fd < length (events l)" "fe_mask fe \<noteq> AE_NONE \<longrightarrow> fd \<le> maxfd l"
  shows "files_wf (set_fe l fd fe)"
    "fd = maxfd l \<Longrightarrow> fe_mask fe = AE_NONE \<Longrightarrow>
     files_wf (set_fe l fd fe\<lparr>maxfd := scan_maxfd (events (set_fe l fd fe)) (nat (maxfd l))\<rparr>)"
proof -
  show w: "files_wf (set_fe l fd fe)"
    using assms unfolding files_wf_def set_fe_def by (auto simp: nth_list_update)
  assume fd: "fd = maxfd l" "fe_mask fe = AE_NONE"
  let ?es = "events (set_fe l fd fe)"
  have "fe_mask (?es ! i) = AE_NONE" if "i < length ?es" "scan_maxfd ?es (nat (maxfd l)) < int i" for i
  proof (cases "int i < maxfd l")
    case True
    then show ?thesis using scan_maxfd_above that(2) by auto
  next
    case False
    show ?thesis
    proof (cases "i = nat fd")
      case True
      then show ?thesis using fd(2) assms(3) by (simp add: set_fe_def)
    next
      case ne: False
      then have "maxfd l < int i" using False fd(1) assms(2) by linarith
      then show ?thesis using w that(1) unfolding files_wf_def by simp
    qed
  qed
  then show "files_wf (set_fe l fd fe\<lparr>maxfd := scan_maxfd ?es (nat (maxfd l))\<rparr>)"
    using w fd assms(2) scan_maxfd_bounds [of ?es "nat (maxfd l)"] unfolding files_wf_def by auto
qed

section \<open>The operations keep the invariant\<close>

definition del_mask :: "32 word \<Rightarrow> 32 word" where
  "del_mask m = (if has m AE_WRITABLE then m OR AE_BARRIER else m)"

context polling_api
begin

lemma create_loop_inv:
  assumes "aeCreateEventLoop A os raw_fe raw_fired raw_api n w = Inr (Some l)" "size_ok n"
  shows "ae_inv sync l" "masks l = replicate (nat n) AE_NONE" "setsize l = n" "timeEvents l = []"
proof -
  obtain t w1 where t: "os_time os w = (t, w1)" by (cases "os_time os w") auto
  define l0 where "l0 = \<lparr>maxfd = - 1, setsize = n, timeEventNextId = 0, lastTime = t,
                 events = map raw_fe [0..<nat n], events_gen = 0, fired = map raw_fired [0..<nat n],
                 timeEvents = [], te_fresh = 0, stop = False, apidata = raw_api,
                 beforesleep = None, aftersleep = None, world = w1\<rparr>"
  obtain r l1 where l1: "aeApiCreate A l0 = (r, l1)" by (cases "aeApiCreate A l0") auto
  have n: "0 \<le> n" "r \<noteq> - 1" and l: "l = l1\<lparr>events := map (\<lambda>e. e\<lparr>fe_mask := AE_NONE\<rparr>) (events l1)\<rparr>"
    using assms(1) t l1 unfolding aeCreateEventLoop_def by (auto simp: Let_def l0_def [symmetric] split: if_splits)
  note f = api_frame_simps [OF create_frame [OF l1]]
  show m: "masks l = replicate (nat n) AE_NONE" and "setsize l = n" "timeEvents l = []"
    using f by (auto simp: l masks_def l0_def map_replicate_const o_def)
  have "sync (apidata l1) (world l1) (replicate (nat n) 0)"
    using create_sync [OF l1 n(2)] assms(2) by (simp add: l0_def)
  moreover have "files_wf l" using f n by (auto simp: files_wf_def l l0_def)
  moreover have "timers_wf l" using f by (simp add: timers_wf_def l l0_def live_ids_def)
  ultimately show "ae_inv sync l" using m by (simp add: ae_inv_def l AE_NONE_def)
qed

lemma create_file_inv:
  assumes "ae_inv sync l" "0 \<le> fd" "m \<noteq> AE_NONE"
  shows "\<exists>r l'. aeCreateFileEvent A l fd m p c = Inr (r, l') \<and> ae_inv sync l' \<and>
    (if r = AE_OK then fd < setsize l \<and> masks l' = (masks l)[nat fd := masks l ! nat fd OR m] \<and> maxfd l' = max (maxfd l) fd
     else r = AE_ERR \<and> masks l' = masks l \<and> maxfd l' = maxfd l) \<and>
    timeEvents l' = timeEvents l \<and> setsize l' = setsize l \<and> events_gen l' = events_gen l \<and> fired l' = fired l \<and> te_fresh l' = te_fresh l"
proof (cases "fd \<ge> setsize l")
  case True
  then show ?thesis using assms by (simp add: aeCreateFileEvent_def ae_consts)
next
  case False
  have wf: "files_wf l" "timers_wf l" "sync (apidata l) (world l) (masks l)" using assms(1) by (auto simp: ae_inv_def)
  then have in_range: "nat fd < length (events l)" "fd < int (length (events l))" using False assms(2) by (auto simp: files_wf_def)
  obtain r l1 where l1: "aeApiAddEvent A l fd m = Inr (r, l1)" "api_frame l l1"
    "sync (apidata l1) (world l1) (if r = - 1 then masks l else (masks l)[nat fd := masks l ! nat fd OR m])"
    using add_event [OF wf(3) assms(2) in_range(1) assms(3)] by blast
  note f = api_frame_simps [OF l1(2)]
  have wf1: "files_wf l1" "timers_wf l1" using wf files_wf_cong [of l1 l] timers_wf_cong [of l1 l] f by auto
  note at = fe_at_ok [OF assms(2) in_range(2)]
  show ?thesis
  proof (cases "r = - 1")
    case True
    then show ?thesis
      using False l1 at f wf1 unfolding aeCreateFileEvent_def by (simp add: ae_inv_def ae_consts)
  next
    case ok: False
    obtain fe where fe: "aeCreateFileEvent A l fd m p c =
        Inr (AE_OK, if fd > maxfd l then set_fe l1 fd fe\<lparr>maxfd := fd\<rparr> else set_fe l1 fd fe)"
      "fe_mask fe = fe_mask (events l ! nat fd) OR m"
      using False ok l1(1) at f unfolding aeCreateFileEvent_def by (simp add: Let_def)
    have eq: "(if fd > maxfd l then set_fe l1 fd fe\<lparr>maxfd := fd\<rparr> else set_fe l1 fd fe) =
        set_fe l1 fd fe\<lparr>maxfd := max (maxfd l) fd\<rparr>"
      using f by (auto simp: max_def set_fe_def)
    have "files_wf (set_fe l1 fd fe\<lparr>maxfd := max (maxfd l) fd\<rparr>)"
      using wf(1) False assms(2) in_range f by (intro set_nth_wf wf1) (auto simp: files_wf_def)
    moreover have "masks (set_fe l1 fd fe\<lparr>maxfd := max (maxfd l) fd\<rparr>) = (masks l)[nat fd := masks l ! nat fd OR m]"
      using fe(2) f in_range masks_set_fe [of l1 fd fe] by (simp add: masks_def)
    ultimately show ?thesis
      using l1(3) ok False f wf1(2) unfolding fe(1) eq by (simp add: ae_inv_def timers_wf_def ae_consts)
  qed
qed

lemma delete_file_inv:
  assumes "ae_inv sync l" "0 \<le> fd"
  shows "\<exists>l'. aeDeleteFileEvent A l fd m = Inr l' \<and> ae_inv sync l' \<and>
    masks l' = (if fd < setsize l then (masks l)[nat fd := masks l ! nat fd AND NOT (del_mask m)] else masks l) \<and>
    maxfd l' = (if fd = maxfd l \<and> masks l ! nat fd \<noteq> AE_NONE \<and> masks l ! nat fd AND NOT (del_mask m) = AE_NONE
                then scan_maxfd (events l) (nat fd) else maxfd l) \<and>
    timeEvents l' = timeEvents l \<and> setsize l' = setsize l \<and> events_gen l' = events_gen l \<and> fired l' = fired l \<and> te_fresh l' = te_fresh l"
proof (cases "fd \<ge> setsize l")
  case True
  then show ?thesis using assms by (simp add: aeDeleteFileEvent_def ae_inv_def files_wf_def)
next
  case False
  have wf: "files_wf l" "timers_wf l" "sync (apidata l) (world l) (masks l)" using assms(1) by (auto simp: ae_inv_def)
  then have in_range: "nat fd < length (events l)" "fd < int (length (events l))" using False assms(2) by (auto simp: files_wf_def)
  note at = fe_at_ok [OF assms(2) in_range(2)]
  have m: "masks l ! nat fd = fe_mask (events l ! nat fd)" using in_range(1) by (rule masks_nth)
  show ?thesis
  proof (cases "masks l ! nat fd = AE_NONE")
    case True
    then have "(masks l)[nat fd := masks l ! nat fd AND NOT (del_mask m)] = masks l"
      using list_update_id [of "masks l" "nat fd"] by (simp add: AE_NONE_def)
    moreover have "aeDeleteFileEvent A l fd m = Inr l"
      using True False at m by (simp add: aeDeleteFileEvent_def)
    ultimately show ?thesis using True assms(1) by simp
  next
    case reg: False
    obtain l1 where l1: "aeApiDelEvent A l fd (del_mask m) = Inr l1" "api_frame l l1"
      "sync (apidata l1) (world l1) ((masks l)[nat fd := masks l ! nat fd AND NOT (del_mask m)])"
      using del_event [OF wf(3) assms(2) in_range(1) reg] by blast
    note f = api_frame_simps [OF l1(2)]
    have wf1: "files_wf l1" "timers_wf l1" using wf files_wf_cong [of l1 l] timers_wf_cong [of l1 l] f by auto
    define fe where "fe = (events l ! nat fd)\<lparr>fe_mask := fe_mask (events l ! nat fd) AND NOT (del_mask m)\<rparr>"
    define l2 where "l2 = set_fe l1 fd fe"
    have res: "aeDeleteFileEvent A l fd m = Inr (if fd = maxfd l \<and> fe_mask fe = AE_NONE
        then l2\<lparr>maxfd := scan_maxfd (events l2) (nat (maxfd l2))\<rparr> else l2)"
      using False l1(1) at f(10,2) reg m unfolding aeDeleteFileEvent_def l2_def fe_def
      by (simp add: Let_def del_mask_def [symmetric] split del: if_split)
    have feb: "fd \<le> maxfd l1"
    proof (rule ccontr)
      assume "\<not> fd \<le> maxfd l1"
      then have "maxfd l < int (nat fd)" using f(2) by simp
      then have "fe_mask (events l ! nat fd) = AE_NONE" using wf(1) in_range(1) unfolding files_wf_def by simp
      then show False using reg m by simp
    qed
    have len: "nat fd < length (events l1)" using in_range f by simp
    have "files_wf l2" unfolding l2_def using delete_wf(1) [OF wf1(1) assms(2) len] feb by blast
    moreover have "fd = maxfd l \<Longrightarrow> fe_mask fe = AE_NONE \<Longrightarrow> files_wf (l2\<lparr>maxfd := scan_maxfd (events l2) (nat (maxfd l))\<rparr>)"
      using delete_wf(2) [OF wf1(1) assms(2) len] feb unfolding l2_def f(2) by blast
    moreover have m2: "masks l2 = (masks l)[nat fd := masks l ! nat fd AND NOT (del_mask m)]"
      unfolding l2_def masks_set_fe f(9) m by (simp add: fe_def)
    moreover have "scan_maxfd (events l2) (nat fd) = scan_maxfd (events l) (nat fd)"
      using f(1) by (simp add: l2_def set_fe_def scan_maxfd_update)
    moreover have "timers_wf l2" using wf1(2) timers_wf_cong [of l2 l1] by (simp add: l2_def)
    moreover have "fe_mask fe = masks l ! nat fd AND NOT (del_mask m)" using m by (simp add: fe_def)
    moreover have "masks (l2\<lparr>maxfd := k\<rparr>) = masks l2" for k by (simp add: masks_def)
    moreover have "timers_wf (l2\<lparr>maxfd := k\<rparr>) = timers_wf l2" for k by (simp add: timers_wf_def)
    ultimately show ?thesis
      unfolding res using False reg f l1(3) by (auto simp: ae_inv_def l2_def)
  qed
qed

lemma resize_step:
  assumes "ae_inv sync l" "aeResizeSetSize A raw_fe raw_fired l n = (r, l')" "resizes sync l n (aeApiResize A l n)"
  shows "ae_inv sync l'" "timeEvents l' = timeEvents l" "maxfd l' = maxfd l"
    "r = AE_OK \<Longrightarrow> setsize l' = n \<and> (\<forall>i < nat n. masks l' ! i = (if i < length (masks l) then masks l ! i else AE_NONE))"
    "r \<noteq> AE_OK \<Longrightarrow> r = AE_ERR \<and> masks l' = masks l \<and> setsize l' = setsize l"
proof -
  have wf: "files_wf l" "timers_wf l" "sync (apidata l) (world l) (masks l)" using assms(1) by (auto simp: ae_inv_def)
  obtain r1 l1 where l1: "aeApiResize A l n = (r1, l1)" by (cases "aeApiResize A l n") auto
  note f = api_frame_simps [OF resize_frame [OF l1]]
  have wf1: "files_wf l1" "timers_wf l1" using wf files_wf_cong [of l1 l] timers_wf_cong [of l1 l] f by auto
  define es where "es = clear_above (maxfd l1) (realloc_list raw_fe (events l1) (nat n))"
  define l2 where "l2 = l1\<lparr>events := es, events_gen := Suc (events_gen l1),
    fired := realloc_list raw_fired (fired l1) (nat n), setsize := n\<rparr>"
  consider "n = setsize l" "r = AE_OK" "l' = l" | "n \<noteq> setsize l" "maxfd l \<ge> n" "r = AE_ERR" "l' = l"
    | "n \<noteq> setsize l" "maxfd l < n" "r1 = - 1" "r = AE_ERR" "l' = l1"
    | "n \<noteq> setsize l" "maxfd l < n" "r1 \<noteq> - 1" "r = AE_OK" "l' = l2"
    using assms(2) l1 unfolding aeResizeSetSize_def by (force simp: Let_def l2_def es_def split: if_splits)
  then have "ae_inv sync l' \<and> timeEvents l' = timeEvents l \<and> maxfd l' = maxfd l \<and>
    (r = AE_OK \<longrightarrow> setsize l' = n \<and> (\<forall>i < nat n. masks l' ! i = (if i < length (masks l) then masks l ! i else AE_NONE))) \<and>
    (r \<noteq> AE_OK \<longrightarrow> r = AE_ERR \<and> masks l' = masks l \<and> setsize l' = setsize l)"
  proof cases
    case 1
    then show ?thesis using assms(1) wf by (auto simp: files_wf_def)
  next
    case 2
    then show ?thesis using assms(1) by (simp add: ae_consts)
  next
    case 3
    then show ?thesis using assms(3) l1 wf1 f by (simp add: ae_inv_def ae_consts resizes_def)
  next
    case 4
    have m: "masks l2 = map fe_mask es" by (simp add: masks_def l2_def)
    have rs: "resized (masks l) (masks l2)"
      using resized_clear_above [of l1 n raw_fe] wf1(1) 4(2) f(2,9) by (simp add: m es_def)
    have len: "length es = nat n" by (simp add: es_def)
    have "sync (apidata l2) (world l2) (masks l2)"
      using assms(3) l1 4(3) rs len by (simp add: l2_def masks_def resizes_def)
    moreover have "files_wf l2"
      using wf1(1) 4(2) f(2) len unfolding files_wf_def
      by (auto simp: l2_def es_def clear_above_nth)
    moreover have "timers_wf l2" using wf1(2) timers_wf_cong [of l2 l1] by (simp add: l2_def)
    moreover have "\<forall>i < nat n. masks l2 ! i = (if i < length (masks l) then masks l ! i else AE_NONE)"
      using rs len m unfolding resized_def by (simp add: AE_NONE_def)
    ultimately show ?thesis using 4 f by (simp add: ae_inv_def l2_def ae_consts)
  qed
  then show "ae_inv sync l'" "timeEvents l' = timeEvents l" "maxfd l' = maxfd l"
    "r = AE_OK \<Longrightarrow> setsize l' = n \<and> (\<forall>i < nat n. masks l' ! i = (if i < length (masks l) then masks l ! i else AE_NONE))"
    "r \<noteq> AE_OK \<Longrightarrow> r = AE_ERR \<and> masks l' = masks l \<and> setsize l' = setsize l"
    by auto
qed

lemma grow_inv:
  assumes "ae_inv sync l" "aeResizeSetSize A raw_fe raw_fired l n = (r, l')" "setsize l \<le> n"
  shows "ae_inv sync l'"
proof -
  have "length (events l) \<le> nat n" using assms(1,3) by (simp add: ae_inv_def files_wf_def)
  then show ?thesis using assms(1) by (intro resize_step(1) [OF assms(1,2)] grow_sync) (simp_all add: ae_inv_def)
qed

end

context shrinking_api
begin

lemma resize_any: "ae_inv sync l \<Longrightarrow> resizes sync l n (aeApiResize A l n)"
  using resize_sync by (simp add: ae_inv_def)

lemmas resize_inv = resize_step [OF _ _ resize_any]

end

section \<open>Time events keep the invariant\<close>

text \<open>What may happen to the time events behind the back of a loop over them: nodes are created in front,
  with fresh addresses, and existing ones are rescheduled or marked as deleted.\<close>

definition retires :: "aeTimeEvent \<Rightarrow> aeTimeEvent \<Rightarrow> bool" where
  "retires te te' \<longleftrightarrow> te_addr te' = te_addr te \<and> (te_id te' = te_id te \<or> te_id te' = AE_DELETED_EVENT_ID)"

definition te_grows :: "('a, 'w) aeEventLoop \<Rightarrow> ('a, 'w) aeEventLoop \<Rightarrow> bool" where
  "te_grows l l' \<longleftrightarrow> te_fresh l \<le> te_fresh l' \<and>
     (\<exists>new old. timeEvents l' = new @ old \<and> list_all2 retires (timeEvents l) old \<and> (\<forall>te \<in> set new. te_fresh l \<le> te_addr te))"

lemma retires_refl [simp]: "retires te te"
  by (simp add: retires_def)

lemma retires_all_refl [simp]: "list_all2 retires tes tes"
  by (simp add: list_all2_same)

lemma retires_trans: "list_all2 retires xs ys \<Longrightarrow> list_all2 retires ys zs \<Longrightarrow> list_all2 retires xs zs"
  by (rule list_all2_trans [of retires retires retires]) (auto simp: retires_def)

lemma te_grows_retires:
  "list_all2 retires (timeEvents l) (timeEvents l') \<Longrightarrow> te_fresh l' = te_fresh l \<Longrightarrow> te_grows l l'"
  unfolding te_grows_def by (intro conjI exI [of _ "[]"] exI [of _ "timeEvents l'"]) auto

lemma te_grows_same: "timeEvents l' = timeEvents l \<Longrightarrow> te_fresh l' = te_fresh l \<Longrightarrow> te_grows l l'"
  by (rule te_grows_retires) auto

lemma te_grows_refl [simp]: "te_grows l l"
  by (rule te_grows_same) auto

lemma te_grows_trans:
  assumes "te_grows l l'" "te_grows l' l''"
  shows "te_grows l l''"
proof -
  obtain new old where 1: "timeEvents l' = new @ old" "list_all2 retires (timeEvents l) old"
    "\<forall>te \<in> set new. te_fresh l \<le> te_addr te" "te_fresh l \<le> te_fresh l'" using assms(1) unfolding te_grows_def by blast
  obtain new' old' where 2: "timeEvents l'' = new' @ old'" "list_all2 retires (timeEvents l') old'"
    "\<forall>te \<in> set new'. te_fresh l' \<le> te_addr te" "te_fresh l' \<le> te_fresh l''" using assms(2) unfolding te_grows_def by blast
  obtain o1 o2 where 3: "old' = o1 @ o2" "list_all2 retires new o1" "list_all2 retires old o2"
    using 2(2) unfolding 1(1) by (auto simp: list_all2_append1)
  have "\<forall>te \<in> set (new' @ o1). te_fresh l \<le> te_addr te"
  proof
    fix te assume "te \<in> set (new' @ o1)"
    then consider "te \<in> set new'" | "te \<in> set o1" by auto
    then show "te_fresh l \<le> te_addr te"
    proof cases
      case 1
      then show ?thesis using 2(3) \<open>te_fresh l \<le> te_fresh l'\<close> by fastforce
    next
      case 2
      then obtain t where "t \<in> set new" "retires t te" using 3(2) by (metis in_set_conv_nth list_all2_conv_all_nth)
      then show ?thesis using 1(3) by (auto simp: retires_def)
    qed
  qed
  then show ?thesis
    using 1(4) 2(1,4) 3 retires_trans [OF 1(2) 3(3)] unfolding te_grows_def
    by (intro conjI exI [of _ "new' @ o1"] exI [of _ o2]) auto
qed

lemma retires_addrs: "list_all2 retires xs ys \<Longrightarrow> map te_addr ys = map te_addr xs"
  by (induction rule: list_all2_induct) (auto simp: retires_def)

lemma retires_ids:
  assumes "list_all2 retires xs ys" "te' \<in> set ys"
  shows "\<exists>te \<in> set xs. retires te te'"
  using assms by (induction rule: list_all2_induct) auto

lemma retires_forward:
  assumes "list_all2 retires xs ys" "te \<in> set xs"
  shows "\<exists>te' \<in> set ys. retires te te'"
  using assms by (induction rule: list_all2_induct) auto

lemma retires_live: "list_all2 retires xs ys \<Longrightarrow> subseq (live_ids ys) (live_ids xs)"
  by (induction rule: list_all2_induct) (auto simp: live_ids_def retires_def)

text \<open>Rescheduling, retiring and unlinking keep the lists well formed.\<close>

lemma timers_wf_retires:
  assumes "timers_wf l" "list_all2 retires (timeEvents l) tes"
  shows "timers_wf (l\<lparr>timeEvents := tes\<rparr>)"
proof -
  have "AE_DELETED_EVENT_ID < timeEventNextId l" using assms(1) by (simp add: timers_wf_def ae_consts)
  then have "\<forall>te \<in> set tes. te_addr te < te_fresh l \<and> AE_DELETED_EVENT_ID \<le> te_id te \<and> te_id te < timeEventNextId l"
    using assms(1) retires_ids [OF assms(2)] unfolding timers_wf_def retires_def by fastforce
  then show ?thesis
    using assms(1) retires_addrs [OF assms(2)] distinct_subseq [OF retires_live [OF assms(2)]]
    unfolding timers_wf_def by simp
qed

lemma te_update_retires: "(\<And>te. retires te (f te)) \<Longrightarrow> list_all2 retires tes (te_update a f tes)"
  by (induction tes) auto

lemma mark_deleted_retires: "mark_deleted i tes = Some tes' \<Longrightarrow> list_all2 retires tes tes'"
  by (induction tes arbitrary: tes') (auto simp: retires_def split: if_splits)

lemma te_unlink_subseq: "subseq (te_unlink a tes) tes"
  by (induction tes) auto

lemma timers_wf_subseq:
  assumes "timers_wf l" "subseq tes (timeEvents l)"
  shows "timers_wf (l\<lparr>timeEvents := tes\<rparr>)"
proof -
  have "set tes \<subseteq> set (timeEvents l)" using assms(2) by (auto dest: list_emb_set)
  moreover have "subseq (map te_addr tes) (map te_addr (timeEvents l))" using assms(2) by (rule subseq_map)
  moreover have "subseq (live_ids tes) (live_ids (timeEvents l))"
    unfolding live_ids_def by (intro subseq_filter subseq_map assms(2))
  ultimately show ?thesis using assms(1) distinct_subseq unfolding timers_wf_def by (auto; blast)
qed

lemma te_at:
  assumes "te_addr te \<notin> te_addr ` set pre"
  shows "te_find (te_addr te) (pre @ te # rest) = Some te" "te_next (te_addr te) (pre @ te # rest) = te_head rest"
    "te_unlink (te_addr te) (pre @ te # rest) = pre @ rest"
    "te_update (te_addr te) f (pre @ te # rest) = pre @ f te # rest"
  using assms by (induction pre) auto

lemma te_head_simps [simp]: "te_head [] = None" "te_head (te # tes) = Some (te_addr te)"
  by (simp_all add: te_head_def)

lemma timers_wf_at: "timers_wf l \<Longrightarrow> timeEvents l = pre @ te # rest \<Longrightarrow> te_addr te \<notin> te_addr ` set pre"
  by (auto simp: timers_wf_def)

lemma te_grows_split:
  assumes "te_grows l l'" "timeEvents l = pre @ te # rest"
  obtains pre' te' rest' where "timeEvents l' = pre' @ te' # rest'" "retires te te'" "list_all2 retires rest rest'"
  using assms unfolding te_grows_def by (auto simp: list_all2_append1 list_all2_Cons1) (metis append_assoc)

lemma te_grows_old:
  "te_grows l l' \<Longrightarrow> te \<in> set (timeEvents l') \<Longrightarrow> te_addr te < te_fresh l \<Longrightarrow> te_addr te \<in> te_addr ` set (timeEvents l)"
  unfolding te_grows_def by (auto dest!: retires_ids simp: retires_def) force

lemma ae_inv_at: "ae_inv sync l \<Longrightarrow> timeEvents l = pre @ te # rest \<Longrightarrow> te_addr te \<notin> te_addr ` set pre"
  using timers_wf_at [of l] by (simp add: ae_inv_def)

text \<open>Reading the clocks changes the world only.\<close>

definition tick :: "'w aeOs \<Rightarrow> ('a, 'w) aeEventLoop \<Rightarrow> ('a, 'w) aeEventLoop" where
  "tick os l = l\<lparr>world := snd (gettimeofday os (world l))\<rparr>"

lemma aeGetTime_tick: "\<exists>s ms. aeGetTime os l = (s, ms, tick os l)"
  by (cases "gettimeofday os (world l)") (auto simp: aeGetTime_def tick_def split: prod.splits)

lemma aeAddMillisecondsToNow_tick: "\<exists>s ms. aeAddMillisecondsToNow os n l = (s, ms, tick os l)"
  using aeGetTime_tick [of os l] by (auto simp: aeAddMillisecondsToNow_def Let_def)

lemma tick_simps [simp]:
  "timeEvents (tick os l) = timeEvents l" "te_fresh (tick os l) = te_fresh l" "events (tick os l) = events l"
  "events_gen (tick os l) = events_gen l" "fired (tick os l) = fired l" "setsize (tick os l) = setsize l"
  "maxfd (tick os l) = maxfd l" "aftersleep (tick os l) = aftersleep l" "timeEventNextId (tick os l) = timeEventNextId l"
  "masks (tick os l) = masks l" "apidata (tick os l) = apidata l" "stop (tick os l) = stop l"
  by (simp_all add: tick_def masks_def)

text \<open>Callbacks that can be trusted with the loop: they return, keep its invariant and, when the caller
  walks the fired events, neither resize the loop nor poll again.\<close>

definition frozen :: "('a, 'w) aeEventLoop \<Rightarrow> ('a, 'w) aeEventLoop \<Rightarrow> bool" where
  "frozen l l' \<longleftrightarrow> events_gen l' = events_gen l \<and> setsize l' = setsize l \<and> fired l' = fired l"

definition callback_ok :: "('a \<Rightarrow> 'w \<Rightarrow> 32 word list \<Rightarrow> bool) \<Rightarrow> ('a, 'w) aeEventLoop \<Rightarrow> ('a, 'w) aeEventLoop \<Rightarrow> bool" where
  "callback_ok sync l l' \<longleftrightarrow> ae_inv sync l' \<and> te_grows l l' \<and> frozen l l'"

definition procs_ok :: "('a \<Rightarrow> 'w \<Rightarrow> 32 word list \<Rightarrow> bool) \<Rightarrow> ('a, 'w) aeEventLoop aeProcs \<Rightarrow> bool" where
  "procs_ok sync P \<longleftrightarrow> (\<forall>l. ae_inv sync l \<longrightarrow>
     (\<forall>p fd c m. \<exists>l'. file_proc P p fd c m l = Inr l' \<and> callback_ok sync l l') \<and>
     (\<forall>p i c. \<exists>r l'. time_proc P p i c l = Inr (r, l') \<and> callback_ok sync l l') \<and>
     (\<forall>p c. \<exists>l'. final_proc P p c l = Inr l' \<and> callback_ok sync l l') \<and>
     (\<forall>p. \<exists>l'. sleep_proc P p l = Inr l' \<and> callback_ok sync l l'))"

lemma procs_okD:
  assumes "procs_ok sync P" "ae_inv sync l"
  shows "\<exists>l'. file_proc P p fd c m l = Inr l' \<and> callback_ok sync l l'"
    "\<exists>r l'. time_proc P p i c l = Inr (r, l') \<and> callback_ok sync l l'"
    "\<exists>l'. final_proc P p c l = Inr l' \<and> callback_ok sync l l'"
    "\<exists>l'. sleep_proc P p l = Inr l' \<and> callback_ok sync l l'"
  using assms unfolding procs_ok_def by simp_all

lemma callback_ok_refl: "ae_inv sync l \<Longrightarrow> callback_ok sync l l"
  by (simp add: callback_ok_def frozen_def)

lemma callback_ok_trans: "callback_ok sync l l' \<Longrightarrow> callback_ok sync l' l'' \<Longrightarrow> callback_ok sync l l''"
  using te_grows_trans by (auto simp: callback_ok_def frozen_def)

text \<open>What one pass over the time events from some node on does.\<close>

definition time_frame :: "('a, 'w) aeEventLoop \<Rightarrow> ('a, 'w) aeEventLoop \<Rightarrow> bool" where
  "time_frame l l' \<longleftrightarrow> te_fresh l \<le> te_fresh l' \<and> frozen l l' \<and>
     (\<forall>te \<in> set (timeEvents l'). te_addr te < te_fresh l \<longrightarrow> te_addr te \<in> te_addr ` set (timeEvents l))"

lemma time_frame_refl [simp]: "time_frame l l"
  by (simp add: time_frame_def frozen_def)

lemma time_frame_trans:
  assumes "time_frame l l'" "time_frame l' l''"
  shows "time_frame l l''"
proof -
  have "te_addr te \<in> te_addr ` set (timeEvents l)" if "te \<in> set (timeEvents l'')" "te_addr te < te_fresh l" for te
  proof -
    note old = that
    have "te_addr te < te_fresh l'" using that(2) assms(1) by (simp add: time_frame_def)
    then obtain te' where "te' \<in> set (timeEvents l')" "te_addr te' = te_addr te"
      using assms(2) old(1) unfolding time_frame_def by force
    then show ?thesis using assms(1) old(2) unfolding time_frame_def by metis
  qed
  then show ?thesis using assms unfolding time_frame_def frozen_def by simp
qed

lemma time_frame_callback: "te_grows l l' \<Longrightarrow> frozen l l' \<Longrightarrow> time_frame l l'"
  using te_grows_old [of l l'] by (auto simp: time_frame_def te_grows_def)

lemma set_timeEvents_simps [simp]:
  "masks (l\<lparr>timeEvents := tes\<rparr>) = masks l" "files_wf (l\<lparr>timeEvents := tes\<rparr>) = files_wf l"
  by (simp_all add: masks_def files_wf_def)

lemma ae_inv_retires: "ae_inv sync l \<Longrightarrow> list_all2 retires (timeEvents l) tes \<Longrightarrow> ae_inv sync (l\<lparr>timeEvents := tes\<rparr>)"
  using timers_wf_retires [of l tes] by (simp add: ae_inv_def)

context polling_api
begin

lemma tick_inv: "ae_inv sync l \<Longrightarrow> ae_inv sync (tick os l)"
  using files_wf_cong [of "tick os l" l] timers_wf_cong [of "tick os l" l] clock_sync(1)
  by (simp add: ae_inv_def) (simp add: tick_def)

lemma rearm_ok:
  assumes "ae_inv sync l" "timeEvents l = pre @ te # rest"
  shows "ae_inv sync (rearm os retval l (te_addr te))" "\<exists>te'. timeEvents (rearm os retval l (te_addr te)) = pre @ te' # rest \<and> retires te te'"
    "te_grows l (rearm os retval l (te_addr te))" "frozen l (rearm os retval l (te_addr te))"
proof -
  have at: "te_addr te \<notin> te_addr ` set pre" using ae_inv_at assms by blast
  obtain s ms where now: "aeAddMillisecondsToNow os retval l = (s, ms, tick os l)"
    using aeAddMillisecondsToNow_tick by blast
  obtain f l0 where f: "rearm os retval l (te_addr te) = l0\<lparr>timeEvents := te_update (te_addr te) f (timeEvents l)\<rparr>"
    "\<And>te. retires te (f te)" "l0 = l \<or> l0 = tick os l"
    unfolding rearm_def using now by (cases "retval = AE_NOMORE") (auto simp: retires_def Let_def)
  have l0: "ae_inv sync l0" "timeEvents l0 = timeEvents l" "frozen l l0" "te_fresh l0 = te_fresh l"
    using f(3) assms(1) tick_inv by (auto simp: frozen_def)
  have u: "list_all2 retires (timeEvents l) (te_update (te_addr te) f (timeEvents l))"
    by (rule te_update_retires) (rule f(2))
  show "ae_inv sync (rearm os retval l (te_addr te))"
    unfolding f(1) by (rule ae_inv_retires) (use l0 u in auto)
  show "\<exists>te'. timeEvents (rearm os retval l (te_addr te)) = pre @ te' # rest \<and> retires te te'"
    unfolding f(1) assms(2) using te_at(4) [OF at] f(2) by auto
  show "te_grows l (rearm os retval l (te_addr te))"
    unfolding f(1) using u l0(4) by (intro te_grows_retires) auto
  show "frozen l (rearm os retval l (te_addr te))" using l0(3) unfolding f(1) frozen_def by simp
qed

lemma time_step_ok:
  assumes "ae_inv sync l" "procs_ok sync P" "timeEvents l = pre @ te # rest"
  shows "\<exists>l' n pre' rest'. time_step P os maxId l (te_addr te) = Inr (l', te_head rest', n) \<and> ae_inv sync l' \<and>
    timeEvents l' = pre' @ rest' \<and> list_all2 retires rest rest' \<and> 0 \<le> n \<and> n \<le> 1 \<and> time_frame l l' \<and>
    (te_id te = AE_DELETED_EVENT_ID \<longrightarrow> te_addr te \<notin> te_addr ` set (timeEvents l'))"
proof -
  have at: "te_addr te \<notin> te_addr ` set pre" using ae_inv_at assms by blast
  note nodes = te_at [OF at]
  consider "te_id te = AE_DELETED_EVENT_ID" | "te_id te \<noteq> AE_DELETED_EVENT_ID" "te_id te > maxId"
    | "te_id te \<noteq> AE_DELETED_EVENT_ID" "\<not> te_id te > maxId" by blast
  then show ?thesis
  proof cases
    case 1
    define l1 where "l1 = l\<lparr>timeEvents := pre @ rest\<rparr>"
    have "subseq (pre @ rest) (timeEvents l)"
      using te_unlink_subseq [of "te_addr te" "timeEvents l"] nodes(3) assms(3) by simp
    then have l1: "ae_inv sync l1" using assms(1) timers_wf_subseq [of l "pre @ rest"] by (simp add: ae_inv_def l1_def)
    obtain l2 where l2: "(case finalizerProc te of None \<Rightarrow> Inr l1 | Some f \<Rightarrow> final_proc P f (te_clientData te) l1) = Inr l2"
      "callback_ok sync l1 l2"
      using procs_okD(3) [OF assms(2) l1] callback_ok_refl [OF l1] by (cases "finalizerProc te") auto
    then have g: "te_grows l1 l2" "frozen l1 l2" "ae_inv sync l2" by (auto simp: callback_ok_def)
    obtain new pre2 rest2 where t2: "timeEvents l2 = (new @ pre2) @ rest2" "list_all2 retires rest rest2"
      using g(1) unfolding te_grows_def l1_def by (auto simp: list_all2_append1) 
    have "time_step P os maxId l (te_addr te) = Inr (l2, te_head rest, 0)"
      using 1 l2(1) nodes assms(3) unfolding time_step_def l1_def by simp
    moreover have "te_head rest2 = te_head rest" using t2(2) by (cases rest) (auto simp: list_all2_Cons1 retires_def)
    moreover have "time_frame l l1" by (auto simp: time_frame_def l1_def frozen_def assms(3))
    then have "time_frame l l2" using time_frame_callback [OF g(1,2)] time_frame_trans by blast
    moreover have "te_addr te \<notin> te_addr ` set (timeEvents l2)"
    proof
      assume "te_addr te \<in> te_addr ` set (timeEvents l2)"
      then have "te_addr te \<in> te_addr ` set (timeEvents l1)"
        using te_grows_old [OF g(1)] assms(1,3) by (auto simp: ae_inv_def timers_wf_def l1_def image_iff)
      then show False using assms(1,3) by (auto simp: ae_inv_def timers_wf_def l1_def)
    qed
    ultimately show ?thesis using g(3) t2 by (intro exI [of _ l2] exI [of _ 0] exI [of _ "new @ pre2"] exI [of _ rest2]) auto
  next
    case 2
    then show ?thesis
      using assms nodes unfolding time_step_def
      by (intro exI [of _ l] exI [of _ 0] exI [of _ "pre @ [te]"] exI [of _ rest]) auto
  next
    case 3
    obtain s ms where now: "aeGetTime os l = (s, ms, tick os l)" using aeGetTime_tick by blast
    have ti: "ae_inv sync (tick os l)" "time_frame l (tick os l)"
      using assms(1) tick_inv by (auto simp: time_frame_def frozen_def)
    show ?thesis
    proof (cases "s > when_sec te \<or> (s = when_sec te \<and> ms \<ge> when_ms te)")
      case False
      then show ?thesis
        using 3 assms nodes now ti unfolding time_step_def
        by (intro exI [of _ "tick os l"] exI [of _ 0] exI [of _ "pre @ [te]"] exI [of _ rest]) auto
    next
      case True
      obtain r l1 where l1: "time_proc P (timeProc te) (te_id te) (te_clientData te) (tick os l) = Inr (r, l1)"
        "callback_ok sync (tick os l) l1" using procs_okD(2) [OF assms(2) ti(1)] by blast
      then have g: "te_grows (tick os l) l1" "frozen (tick os l) l1" "ae_inv sync l1" by (auto simp: callback_ok_def)
      obtain pre1 te1 rest1 where t1: "timeEvents l1 = pre1 @ te1 # rest1" "retires te te1" "list_all2 retires rest rest1"
        using te_grows_split [OF g(1), of pre te rest] assms(3) by auto
      have a1: "te_addr te1 = te_addr te" using t1(2) by (simp add: retires_def)
      have at1: "te_addr te1 \<notin> te_addr ` set pre1" using ae_inv_at g(3) t1(1) by blast
      note r = rearm_ok [OF g(3) t1(1), where retval = r]
      obtain te2 where t2: "timeEvents (rearm os r l1 (te_addr te)) = pre1 @ te2 # rest1" "retires te1 te2"
        using r(2) a1 by auto
      have "te_addr te2 = te_addr te" using t2(2) a1 by (simp add: retires_def)
      moreover have "te_addr te2 \<notin> te_addr ` set pre1" using t2(2) at1 by (simp add: retires_def)
      ultimately have "te_next (te_addr te) (timeEvents (rearm os r l1 (te_addr te))) = te_head rest1"
        unfolding t2(1) using te_at(2) [of te2 pre1 rest1] by simp
      then have "time_step P os maxId l (te_addr te) = Inr (rearm os r l1 (te_addr te), te_head rest1, 1)"
        using 3 True now nodes assms(3) l1(1) te_at(1) [OF at1, of rest1] t1(1) a1
        unfolding time_step_def rearm_def by (simp add: Let_def)
      moreover have "time_frame (tick os l) (rearm os r l1 (te_addr te))"
        using time_frame_callback [OF g(1,2)] time_frame_callback [OF r(3,4)] time_frame_trans a1 by metis
      then have "time_frame l (rearm os r l1 (te_addr te))" using ti(2) time_frame_trans by blast
      ultimately show ?thesis
        using r(1) t1(3) t2(1) a1 3(1)
        by (intro exI [of _ "rearm os r l1 (te_addr te)"] exI [of _ 1] exI [of _ "pre1 @ [te2]"] exI [of _ rest1]) auto
    qed
  qed
qed

text \<open>A pass over the nodes from \<open>rest\<close> on ends, and the nodes that were marked as deleted are gone.\<close>

lemma time_loop_ok:
  assumes "ae_inv sync l" "procs_ok sync P" "timeEvents l = pre @ rest"
  shows "\<exists>n l'. time_loop P os maxId l (te_head rest) k = Some (Inr (k + n, l')) \<and> ae_inv sync l' \<and> time_frame l l' \<and>
    0 \<le> n \<and> n \<le> int (length rest) \<and>
    (\<forall>te \<in> set rest. te_id te = AE_DELETED_EVENT_ID \<longrightarrow> te_addr te \<notin> te_addr ` set (timeEvents l'))"
  using assms(1,3)
proof (induction "length rest" arbitrary: rest pre l k)
  case 0
  then show ?case by (auto simp: time_loop.simps [of P os maxId l None])
next
  case (Suc m)
  then obtain te rest0 where rest: "rest = te # rest0" by (cases rest) auto
  obtain l1 n1 pre1 rest1 where l1: "time_step P os maxId l (te_addr te) = Inr (l1, te_head rest1, n1)" "ae_inv sync l1"
    "timeEvents l1 = pre1 @ rest1" "list_all2 retires rest0 rest1" "0 \<le> n1" "n1 \<le> 1" "time_frame l l1"
    "te_id te = AE_DELETED_EVENT_ID \<longrightarrow> te_addr te \<notin> te_addr ` set (timeEvents l1)"
    using time_step_ok [OF Suc(3) assms(2), of pre te rest0] Suc(4) rest by blast
  have "m = length rest1" using Suc(2) rest l1(4) by (simp add: list_all2_lengthD)
  from Suc(1) [OF this l1(2,3)]
  obtain n2 l2 where l2: "time_loop P os maxId l1 (te_head rest1) (k + n1) = Some (Inr (k + n1 + n2, l2))" "ae_inv sync l2"
    "time_frame l1 l2" "0 \<le> n2" "n2 \<le> int (length rest1)"
    "\<forall>te \<in> set rest1. te_id te = AE_DELETED_EVENT_ID \<longrightarrow> te_addr te \<notin> te_addr ` set (timeEvents l2)"
    by blast
  have "time_loop P os maxId l (te_head rest) k = Some (Inr (k + (n1 + n2), l2))"
    using l1(1) l2(1) unfolding rest by (simp add: time_loop.simps [of P os maxId l "Some (te_addr te)"] algebra_simps)
  moreover have "te_addr t \<notin> te_addr ` set (timeEvents l2)" if "t \<in> set rest" "te_id t = AE_DELETED_EVENT_ID" for t
  proof (cases "t = te")
    case True
    have "te_addr te < te_fresh l1"
      using Suc(3,4) rest l1(7) by (auto simp: ae_inv_def timers_wf_def time_frame_def)
    then show ?thesis using True that(2) l1(8) l2(3) unfolding time_frame_def by auto
  next
    case False
    then have "t \<in> set rest0" using that(1) rest by simp
    then obtain t' where "t' \<in> set rest1" "retires t t'"
      using retires_forward [OF l1(4)] by blast
    then have "te_addr t' = te_addr t" "te_id t' = AE_DELETED_EVENT_ID" using that(2) by (auto simp: retires_def)
    then show ?thesis using l2(6) \<open>t' \<in> set rest1\<close> by metis
  qed
  moreover have "n1 + n2 \<le> int (length rest)" using l1(6) l2(5) Suc(2) \<open>m = length rest1\<close> by simp
  ultimately show ?case
    using l1(5,7) l2(2,3,4) time_frame_trans by (intro exI [of _ "n1 + n2"] exI [of _ l2]) auto
qed

lemma begin_time_events_ok:
  assumes "ae_inv sync l"
  shows "ae_inv sync (begin_time_events os l)" "te_grows l (begin_time_events os l)" "frozen l (begin_time_events os l)"
    "map te_id (timeEvents (begin_time_events os l)) = map te_id (timeEvents l)"
proof -
  define l1 where "l1 = l\<lparr>world := snd (os_time os (world l)), lastTime := fst (os_time os (world l))\<rparr>"
  define tes where "tes = (if fst (os_time os (world l)) < lastTime l then map (\<lambda>te. te\<lparr>when_sec := 0\<rparr>) (timeEvents l) else timeEvents l)"
  have eq: "begin_time_events os l = l1\<lparr>timeEvents := tes\<rparr>"
    by (simp add: begin_time_events_def l1_def tes_def Let_def split: prod.split)
  have r: "list_all2 retires (timeEvents l) tes"
    by (auto simp: tes_def list_all2_map2 retires_def list_all2_same)
  have "ae_inv sync l1" using assms clock_sync(2) files_wf_cong [of l1 l] timers_wf_cong [of l1 l]
    by (simp add: ae_inv_def l1_def masks_def)
  then show "ae_inv sync (begin_time_events os l)" unfolding eq using r by (intro ae_inv_retires) (auto simp: l1_def)
  show "te_grows l (begin_time_events os l)" unfolding eq using r by (intro te_grows_retires) (auto simp: l1_def)
  show "frozen l (begin_time_events os l)" by (simp add: eq frozen_def l1_def)
  show "map te_id (timeEvents (begin_time_events os l)) = map te_id (timeEvents l)" by (simp add: eq tes_def)
qed

lemma processTimeEvents_ok:
  assumes "ae_inv sync l" "procs_ok sync P"
  shows "\<exists>n l'. processTimeEvents P os l = Some (Inr (n, l')) \<and> ae_inv sync l' \<and> time_frame l l' \<and> 0 \<le> n \<and>
    n \<le> int (length (timeEvents l)) \<and>
    (\<forall>te \<in> set (timeEvents l). te_id te = AE_DELETED_EVENT_ID \<longrightarrow> te_addr te \<notin> te_addr ` set (timeEvents l'))"
proof -
  let ?b = "begin_time_events os l"
  note b = begin_time_events_ok [OF assms(1)]
  obtain n l' where l': "processTimeEvents P os l = Some (Inr (n, l'))" "ae_inv sync l'" "time_frame ?b l'" "0 \<le> n"
    "n \<le> int (length (timeEvents ?b))"
    "\<forall>te \<in> set (timeEvents ?b). te_id te = AE_DELETED_EVENT_ID \<longrightarrow> te_addr te \<notin> te_addr ` set (timeEvents l')"
    using time_loop_ok [OF b(1) assms(2), of "[]" "timeEvents ?b" "timeEventNextId ?b - 1" 0]
    unfolding processTimeEvents_def by (auto simp: Let_def)
  have len: "length (timeEvents ?b) = length (timeEvents l)" using arg_cong [OF b(4), of length] by simp
  have "te_addr te \<notin> te_addr ` set (timeEvents l')" if "te \<in> set (timeEvents l)" "te_id te = AE_DELETED_EVENT_ID" for te
  proof -
    note deleted = that
    obtain new old where "timeEvents ?b = new @ old" "list_all2 retires (timeEvents l) old"
      using b(2) unfolding te_grows_def by blast
    then obtain te' where "te' \<in> set (timeEvents ?b)" "retires te te'"
      using retires_forward [OF _ deleted(1)] by fastforce
    then show ?thesis using l'(6) deleted(2) by (metis retires_def)
  qed
  moreover have "time_frame l l'" using time_frame_callback [OF b(2,3)] l'(3) time_frame_trans by blast
  ultimately show ?thesis using l' len by auto
qed

end

section \<open>Processing events\<close>

lemma fe_deref_ok:
  "g = events_gen l \<Longrightarrow> 0 \<le> fd \<Longrightarrow> nat fd < length (events l) \<Longrightarrow> fe_deref l g fd = Inr (events l ! nat fd)"
  by (simp add: fe_deref_def fe_at_def)

text \<open>The fired events are descriptors of the loop.\<close>

definition fired_in_range :: "('a, 'w) aeEventLoop \<Rightarrow> nat \<Rightarrow> bool" where
  "fired_in_range l n \<longleftrightarrow> n \<le> length (fired l) \<and>
     (\<forall>j < n. 0 \<le> fired_fd (fired l ! j) \<and> fired_fd (fired l ! j) < setsize l)"

lemma fired_in_range_frozen: "frozen l l' \<Longrightarrow> fired_in_range l n \<Longrightarrow> fired_in_range l' n"
  by (auto simp: frozen_def fired_in_range_def)

lemma files_wf_range: "files_wf l \<Longrightarrow> 0 \<le> fd \<Longrightarrow> fd < setsize l \<Longrightarrow> nat fd < length (events l)"
  by (auto simp: files_wf_def)

lemma call_read_ok:
  assumes "procs_ok sync P" "ae_inv sync l" "g = events_gen l" "0 \<le> fd" "fd < setsize l"
  shows "\<exists>l' d. call_read P g fd msk l enabled done = Inr (l', d) \<and> callback_ok sync l l'"
proof -
  have "nat fd < length (events l)" using assms(2,4,5) files_wf_range by (auto simp: ae_inv_def)
  from fe_deref_ok [OF assms(3,4) this] show ?thesis
    using procs_okD(1) [OF assms(1,2), of "rfileProc (events l ! nat fd)" fd "fe_clientData (events l ! nat fd)" msk]
      callback_ok_refl [OF assms(2)]
    unfolding call_read_def by auto
qed

lemma call_write_ok:
  assumes "procs_ok sync P" "ae_inv sync l" "g = events_gen l" "0 \<le> fd" "fd < setsize l"
  shows "\<exists>l' d. call_write P g fd msk l done = Inr (l', d) \<and> callback_ok sync l l'"
proof -
  have "nat fd < length (events l)" using assms(2,4,5) files_wf_range by (auto simp: ae_inv_def)
  from fe_deref_ok [OF assms(3,4) this] show ?thesis
    using procs_okD(1) [OF assms(1,2), of "wfileProc (events l ! nat fd)" fd "fe_clientData (events l ! nat fd)" msk]
      callback_ok_refl [OF assms(2)]
    unfolding call_write_def by auto
qed

lemma fire_event_ok:
  assumes "procs_ok sync P" "ae_inv sync l" "fired_in_range l n" "j < n"
  shows "\<exists>l'. fire_event P l j = Inr l' \<and> callback_ok sync l l'"
proof -
  define fd where "fd = fired_fd (fired l ! j)"
  define msk where "msk = fired_mask (fired l ! j)"
  have fd: "0 \<le> fd" "fd < setsize l" "j < length (fired l)" using assms(3,4) by (auto simp: fired_in_range_def fd_def)
  have "nat fd < length (events l)" using fd assms(2) files_wf_range by (auto simp: ae_inv_def)
  then have fe: "fe_at l fd = Inr (events l ! nat fd)" using fd(1) by (simp add: fe_at_def)
  let ?inv = "has (fe_mask (events l ! nat fd)) AE_BARRIER"
  obtain l1 d1 where l1: "call_read P (events_gen l) fd msk l (\<not> ?inv) False = Inr (l1, d1)" "callback_ok sync l l1"
    using call_read_ok [OF assms(1,2) refl fd(1,2)] by blast
  then have 1: "ae_inv sync l1" "events_gen l = events_gen l1" "fd < setsize l1" using fd by (auto simp: callback_ok_def frozen_def)
  obtain l2 d2 where l2: "call_write P (events_gen l) fd msk l1 d1 = Inr (l2, d2)" "callback_ok sync l1 l2"
    using call_write_ok [OF assms(1) 1(1,2) fd(1) 1(3)] by blast
  then have 2: "ae_inv sync l2" "events_gen l = events_gen l2" "fd < setsize l2" using 1 by (auto simp: callback_ok_def frozen_def)
  obtain l3 d3 where l3: "call_read P (events_gen l) fd msk l2 ?inv d2 = Inr (l3, d3)" "callback_ok sync l2 l3"
    using call_read_ok [OF assms(1) 2(1,2) fd(1) 2(3)] by blast
  have "fire_event P l j = Inr l3"
    using fd(3) fe l1(1) l2(1) l3(1) by (simp add: fire_event_def rd_ok fd_def [symmetric] msk_def [symmetric] Let_def)
  then show ?thesis using callback_ok_trans [OF callback_ok_trans [OF l1(2) l2(2)] l3(2)] by blast
qed

lemma file_loop_ok:
  assumes "procs_ok sync P" "ae_inv sync l" "fired_in_range l n"
  shows "\<exists>l'. file_loop P l j n = Inr l' \<and> callback_ok sync l l'"
  using assms(2,3)
proof (induction "n - j" arbitrary: l j)
  case 0
  then show ?case using callback_ok_refl by (auto simp: file_loop.simps [of P l j n])
next
  case (Suc k)
  then have j: "j < n" "k = n - Suc j" by auto
  obtain l1 where l1: "fire_event P l j = Inr l1" "callback_ok sync l l1"
    using fire_event_ok [OF assms(1) Suc(3,4) j(1)] by blast
  then have "ae_inv sync l1" "fired_in_range l1 n"
    using fired_in_range_frozen [of l l1] Suc(4) by (auto simp: callback_ok_def)
  then obtain l2 where "file_loop P l1 (Suc j) n = Inr l2" "callback_ok sync l1 l2" using Suc(1) j(2) by blast
  then show ?case using l1 j(1) callback_ok_trans by (auto simp: file_loop.simps [of P l j n])
qed

text \<open>
  Times for which the arithmetic of a round fits into \<open>long\<close>: the nodes of the loop and the clock are within
  \<open>2 ^ 52\<close> seconds (more than a hundred million years) of the epoch.
\<close>

definition times_fit :: "('a, 'w) aeEventLoop \<Rightarrow> bool" where
  "times_fit l \<longleftrightarrow> (\<forall>te \<in> set (timeEvents l). \<bar>when_sec te\<bar> \<le> 2 ^ 52 \<and> \<bar>when_ms te\<bar> \<le> 2 ^ 52)"

definition clock_fits :: "'w aeOs \<Rightarrow> bool" where
  "clock_fits os \<longleftrightarrow> (\<forall>w s us w'. gettimeofday os w = ((s, us), w') \<longrightarrow> \<bar>s\<bar> \<le> 2 ^ 52 \<and> 0 \<le> us \<and> us < 1000000)"

lemma wait_ms_fits:
  assumes "\<bar>when_sec te\<bar> \<le> 2 ^ 52" "\<bar>when_ms te\<bar> \<le> 2 ^ 52" "\<bar>s\<bar> \<le> 2 ^ 52" "0 \<le> ms" "ms < 1000"
  shows "wait_ms te s ms = Inr ((when_sec te - s) * 1000 + when_ms te - ms)"
    "(when_sec te - s) * 1000 + when_ms te - ms < 2 ^ 63"
proof -
  define x where "x = when_sec te - s"
  have x: "- (2 ^ 53) \<le> x" "x \<le> 2 ^ 53" "- (2 ^ 52) \<le> when_ms te" "when_ms te \<le> 2 ^ 52"
    using assms(1-3) by (auto simp: x_def)
  then have "as_long x = Inr x" "as_long (x * 1000) = Inr (x * 1000)" "as_long (x * 1000 + when_ms te) = Inr (x * 1000 + when_ms te)"
    "as_long (x * 1000 + when_ms te - ms) = Inr (x * 1000 + when_ms te - ms)"
    using assms(4,5) by (auto intro!: as_long_ok)
  then show "wait_ms te s ms = Inr ((when_sec te - s) * 1000 + when_ms te - ms)"
    unfolding wait_ms_def x_def [symmetric] by simp
  show "(when_sec te - s) * 1000 + when_ms te - ms < 2 ^ 63" using x assms(4,5) unfolding x_def [symmetric] by simp
qed

lemma nearest_loop_in: "nearest_loop n tes = Some te \<Longrightarrow> te \<in> set tes \<or> n = Some te"
  by (induction n tes rule: nearest_loop.induct) (auto split: option.splits if_splits)

lemma poll_timeout_loop:
  assumes "times_fit l" "clock_fits os"
  shows "\<exists>tvp l'. poll_timeout os l flags = Inr (tvp, l') \<and> timeval_ok tvp \<and> (l' = l \<or> l' = tick os l)"
proof (cases "if has flags AE_TIME_EVENTS \<and> \<not> has flags AE_DONT_WAIT then aeSearchNearestTimer l else None")
  case None
  then show ?thesis by (auto simp: poll_timeout_def timeval_ok_def)
next
  case (Some te)
  then have "aeSearchNearestTimer l = Some te" by (simp split: if_splits)
  then have te: "te \<in> set (timeEvents l)" using nearest_loop_in [of None] by (auto simp: aeSearchNearestTimer_def)
  obtain s us w where g: "gettimeofday os (world l) = ((s, us), w)" by (metis prod.collapse)
  let ?ms = "(when_sec te - s) * 1000 + when_ms te - us div 1000"
  have "\<bar>s\<bar> \<le> 2 ^ 52" "0 \<le> us" "us < 1000000" using assms(2) g unfolding clock_fits_def by blast+
  then have b: "\<bar>s\<bar> \<le> 2 ^ 52" "0 \<le> us div 1000" "us div 1000 < 1000" by (simp_all add: pos_imp_zdiv_nonneg_iff div_less_iff_less_mult)
  have t: "\<bar>when_sec te\<bar> \<le> 2 ^ 52" "\<bar>when_ms te\<bar> \<le> 2 ^ 52" using assms(1) te unfolding times_fit_def by blast+
  note w = wait_ms_fits [OF t b]
  have "poll_timeout os l flags = Inr (Some (if ?ms > 0 then (?ms div 1000, ?ms mod 1000 * 1000) else (0, 0)), tick os l)"
    using Some g w(1) by (simp add: poll_timeout_def aeGetTime_def tick_def)
  moreover have "timeval_ok (Some (if ?ms > 0 then (?ms div 1000, ?ms mod 1000 * 1000) else (0, 0)))"
    using w(2) by (auto simp: timeval_ok_def)
  ultimately show ?thesis by blast
qed

text \<open>Nodes marked as deleted stay marked as long as they are there.\<close>

definition deleted_addrs :: "('a, 'w) aeEventLoop \<Rightarrow> nat set" where
  "deleted_addrs l = te_addr ` {te \<in> set (timeEvents l). te_id te = AE_DELETED_EVENT_ID}"

lemma deleted_addrs_grows: "te_grows l l' \<Longrightarrow> deleted_addrs l \<subseteq> deleted_addrs l'"
proof
  fix a assume g: "te_grows l l'" and "a \<in> deleted_addrs l"
  then obtain te where te: "te \<in> set (timeEvents l)" "te_id te = AE_DELETED_EVENT_ID" "a = te_addr te"
    by (auto simp: deleted_addrs_def)
  obtain new old where "timeEvents l' = new @ old" "list_all2 retires (timeEvents l) old"
    using g unfolding te_grows_def by blast
  then obtain te' where "te' \<in> set (timeEvents l')" "retires te te'" using retires_forward [OF _ te(1)] by fastforce
  then have "te' \<in> {te \<in> set (timeEvents l'). te_id te = AE_DELETED_EVENT_ID}" "a = te_addr te'"
    using te by (auto simp: retires_def)
  then show "a \<in> deleted_addrs l'" unfolding deleted_addrs_def by (rule rev_image_eqI)
qed

context polling_api
begin

lemma process_file_events_ok:
  assumes "procs_ok sync P" "ae_inv sync l" "times_fit l" "clock_fits os"
  shows "\<exists>n l'. process_file_events A P os l flags = Inr (n, l') \<and> ae_inv sync l' \<and> te_grows l l' \<and> 0 \<le> n \<and> n \<le> setsize l"
proof -
  obtain tvp l1 where l1: "poll_timeout os l flags = Inr (tvp, l1)" "l1 = l \<or> l1 = tick os l" and tv: "timeval_ok tvp"
    using poll_timeout_loop [OF assms(3,4)] by blast
  have inv1: "ae_inv sync l1" "te_grows l l1" "setsize l1 = setsize l"
    using l1(2) assms(2) tick_inv by (auto intro: te_grows_same)
  then have wf1: "files_wf l1" "timers_wf l1" "sync (apidata l1) (world l1) (masks l1)" by (auto simp: ae_inv_def)
  obtain n l2 where l2: "aeApiPoll A l1 tvp = Inr (n, l2)" "poll_frame l1 l2" "sync (apidata l2) (world l2) (masks l1)" "fired_ok l2 n"
    using poll_events [OF wf1(1) tv wf1(3)] by blast
  note f = poll_frame_simps [OF l2(2)]
  have inv2: "ae_inv sync l2" "te_grows l1 l2"
    using wf1 l2(3) f files_wf_cong [of l2 l1] timers_wf_cong [of l2 l1] by (auto simp: ae_inv_def intro: te_grows_same)
  have "n \<le> length (fired l2)" "\<forall>j < n. 0 \<le> fired_fd (fired l2 ! j) \<and> nat (fired_fd (fired l2 ! j)) < length (events l2)"
    using l2(4) by (auto simp: fired_ok_def)
  moreover have "length (events l2) = nat (setsize l2)" "length (fired l2) = nat (setsize l2)" "0 \<le> setsize l2"
    using inv2(1) by (auto simp: ae_inv_def files_wf_def)
  ultimately have r2: "fired_in_range l2 n" "int n \<le> setsize l"
    using f(3) inv1(3) unfolding fired_in_range_def by (auto simp: nat_less_iff)
  obtain l3 where l3: "(case aftersleep l2 of Some f \<Rightarrow> if has flags AE_CALL_AFTER_SLEEP then sleep_proc P f l2 else Inr l2
      | None \<Rightarrow> Inr l2) = Inr l3" "callback_ok sync l2 l3"
    using procs_okD(4) [OF assms(1) inv2(1)] callback_ok_refl [OF inv2(1)]
    by (cases "aftersleep l2"; cases "has flags AE_CALL_AFTER_SLEEP") (simp_all, blast)
  then have inv3: "ae_inv sync l3" "fired_in_range l3 n" using r2 fired_in_range_frozen by (auto simp: callback_ok_def)
  obtain l4 where l4: "file_loop P l3 0 n = Inr l4" "callback_ok sync l3 l4" using file_loop_ok [OF assms(1) inv3] by blast
  have "process_file_events A P os l flags = Inr (int n, l4)"
    using l1(1) l2(1) l3(1) l4(1) by (simp add: process_file_events_def)
  moreover have "te_grows l l4"
    using inv1(2) inv2(2) l3(2) l4(2) te_grows_trans unfolding callback_ok_def by metis
  ultimately show ?thesis using l4(2) r2(2) by (auto simp: callback_ok_def)
qed

lemma process_events_ok:
  assumes "procs_ok sync P" "ae_inv sync l" "times_fit l" "clock_fits os"
  shows "\<exists>n l'. aeProcessEvents A P os l flags = Some (Inr (n, l')) \<and> ae_inv sync l' \<and> 0 \<le> n \<and>
    (has flags AE_TIME_EVENTS \<longrightarrow> deleted_addrs l \<inter> te_addr ` set (timeEvents l') = {})"
proof -
  let ?c = "maxfd l \<noteq> - 1 \<or> (has flags AE_TIME_EVENTS \<and> \<not> has flags AE_DONT_WAIT)"
  obtain n1 l1 where l1: "(if ?c then process_file_events A P os l flags else Inr (0, l)) = Inr (n1, l1)"
    "ae_inv sync l1" "te_grows l l1" "0 \<le> n1"
    using process_file_events_ok [OF assms, of flags] assms(2) by (cases ?c) auto
  obtain n2 l2 where l2: "processTimeEvents P os l1 = Some (Inr (n2, l2))" "ae_inv sync l2" "0 \<le> n2"
    "\<forall>te \<in> set (timeEvents l1). te_id te = AE_DELETED_EVENT_ID \<longrightarrow> te_addr te \<notin> te_addr ` set (timeEvents l2)"
    using processTimeEvents_ok [OF l1(2) assms(1)] by blast
  have "deleted_addrs l1 \<inter> te_addr ` set (timeEvents l2) = {}" using l2(4) by (auto simp: deleted_addrs_def)
  then have gone: "deleted_addrs l \<inter> te_addr ` set (timeEvents l2) = {}" using deleted_addrs_grows [OF l1(3)] by blast
  show ?thesis
  proof (cases "\<not> has flags AE_TIME_EVENTS \<and> \<not> has flags AE_FILE_EVENTS")
    case True
    then show ?thesis using assms(2) by (simp add: aeProcessEvents_def)
  next
    case False
    then show ?thesis
      unfolding aeProcessEvents_def if_not_P [OF False] l1(1) using l1 l2 gone by simp
  qed
qed

end

section \<open>Callbacks built from the operations\<close>

text \<open>Creating and deleting time events, and stopping the loop, are things a callback may do.\<close>

lemma aeCreateTimeEvent_timers:
  assumes "timers_wf l" "aeCreateTimeEvent os l ms p c fin = (i, l')"
  shows "timers_wf l'" "te_grows l l'" "frozen l l'" "i = timeEventNextId l" "\<exists>te. timeEvents l' = te # timeEvents l \<and> te_id te = i"
    "events l' = events l" "maxfd l' = maxfd l" "apidata l' = apidata l" "world l' = snd (gettimeofday os (world l))"
proof -
  define l1 where "l1 = l\<lparr>timeEventNextId := timeEventNextId l + 1\<rparr>"
  obtain s m where now: "aeAddMillisecondsToNow os ms l1 = (s, m, tick os l1)" using aeAddMillisecondsToNow_tick by blast
  define te where "te = \<lparr>te_addr = te_fresh l, te_id = timeEventNextId l, when_sec = s, when_ms = m, timeProc = p,
                finalizerProc = fin, te_clientData = c\<rparr>"
  have eq: "i = timeEventNextId l" "l' = (tick os l1)\<lparr>timeEvents := te # timeEvents l, te_fresh := Suc (te_fresh l)\<rparr>"
    using assms(2) now by (auto simp: aeCreateTimeEvent_def Let_def l1_def te_def)
  show "i = timeEventNextId l" by (rule eq(1))
  show "\<exists>te. timeEvents l' = te # timeEvents l \<and> te_id te = i" using eq by (simp add: te_def)
  show "events l' = events l" "maxfd l' = maxfd l" "apidata l' = apidata l" "world l' = snd (gettimeofday os (world l))"
    unfolding eq(2) by (simp_all add: l1_def tick_def)
  show "frozen l l'" by (simp add: eq(2) frozen_def l1_def)
  show "te_grows l l'" unfolding te_grows_def eq(2) by (intro conjI exI [of _ "[te]"] exI [of _ "timeEvents l"]) (auto simp: te_def)
  have "timeEventNextId l \<notin> set (live_ids (timeEvents l))" using assms(1) by (auto simp: timers_wf_def live_ids_def)
  moreover have "te_fresh l \<notin> te_addr ` set (timeEvents l)" using assms(1) by (auto simp: timers_wf_def)
  ultimately show "timers_wf l'"
    using assms(1) unfolding timers_wf_def eq(2) by (auto simp: te_def l1_def live_ids_def ae_consts)
qed

definition busy_procs :: "('a, 'w) aeEventLoop aeApi \<Rightarrow> 'w aeOs \<Rightarrow> ('a, 'w) aeEventLoop aeProcs" where
  "busy_procs A os = \<lparr>file_proc = (\<lambda>p fd c m l. if fd < 0 then Inr l else aeDeleteFileEvent A l fd m),
     time_proc = (\<lambda>p i c l. Inr (AE_NOMORE, snd (aeCreateTimeEvent os (snd (aeDeleteTimeEvent l (int c))) 1000 p c None))),
     final_proc = (\<lambda>p c l. Inr l),
     sleep_proc = (\<lambda>p l. Inr (aeStop l))\<rparr>"

lemma aeStop_ok: "ae_inv sync l \<Longrightarrow> callback_ok sync l (aeStop l)"
  by (auto simp: aeStop_def callback_ok_def ae_inv_def frozen_def files_wf_def timers_wf_def masks_def intro: te_grows_same)

lemma aeDeleteTimeEvent_ok:
  assumes "ae_inv sync l"
  shows "callback_ok sync l (snd (aeDeleteTimeEvent l i))"
proof (cases "mark_deleted i (timeEvents l)")
  case None
  then show ?thesis using callback_ok_refl [OF assms] by (simp add: aeDeleteTimeEvent_def)
next
  case (Some tes)
  from mark_deleted_retires [OF this] show ?thesis
    using Some ae_inv_retires [OF assms, of tes] te_grows_retires [of l "l\<lparr>timeEvents := tes\<rparr>"]
    by (simp add: aeDeleteTimeEvent_def callback_ok_def frozen_def)
qed

context polling_api
begin

lemma create_time_ok:
  assumes "ae_inv sync l"
  shows "callback_ok sync l (snd (aeCreateTimeEvent os l ms p c fin))"
proof -
  obtain i l' where l': "aeCreateTimeEvent os l ms p c fin = (i, l')" by (cases "aeCreateTimeEvent os l ms p c fin") auto
  have wf: "timers_wf l" "files_wf l" "sync (apidata l) (world l) (masks l)" using assms by (simp_all add: ae_inv_def)
  note t = aeCreateTimeEvent_timers [OF wf(1) l']
  have "files_wf l'" using wf(2) files_wf_cong [of l' l] t(3,6,7) by (simp add: frozen_def)
  moreover have "masks l' = masks l" using t(6) by (simp add: masks_def)
  ultimately show ?thesis using t wf clock_sync(1) [OF wf(3)] l' by (simp add: callback_ok_def ae_inv_def)
qed

lemma delete_file_ok:
  assumes "ae_inv sync l" "0 \<le> fd"
  shows "\<exists>l'. aeDeleteFileEvent A l fd m = Inr l' \<and> callback_ok sync l l'"
  using delete_file_inv [OF assms, of m] unfolding callback_ok_def frozen_def by (auto intro: te_grows_same)

lemma create_file_ok:
  assumes "ae_inv sync l" "0 \<le> fd" "m \<noteq> AE_NONE"
  shows "\<exists>r l'. aeCreateFileEvent A l fd m p c = Inr (r, l') \<and> callback_ok sync l l'"
  using create_file_inv [OF assms, of p c] unfolding callback_ok_def frozen_def by (auto intro: te_grows_same)

lemma busy_procs_ok: "procs_ok sync (busy_procs A os)"
  unfolding procs_ok_def
proof (intro allI impI conjI)
  fix l p c assume inv: "ae_inv sync l"
  show "\<exists>l'. file_proc (busy_procs A os) p fd c m l = Inr l' \<and> callback_ok sync l l'" for fd m
    using delete_file_ok [OF inv] callback_ok_refl [OF inv] by (cases "fd < 0") (auto simp: busy_procs_def)
  show "\<exists>r l'. time_proc (busy_procs A os) p i c l = Inr (r, l') \<and> callback_ok sync l l'" for i
  proof -
    have d: "callback_ok sync l (snd (aeDeleteTimeEvent l (int c)))" by (rule aeDeleteTimeEvent_ok [OF inv])
    then have "ae_inv sync (snd (aeDeleteTimeEvent l (int c)))" by (simp add: callback_ok_def)
    from callback_ok_trans [OF d create_time_ok [OF this]] show ?thesis by (auto simp: busy_procs_def)
  qed
  show "\<exists>l'. final_proc (busy_procs A os) p c l = Inr l' \<and> callback_ok sync l l'"
    using callback_ok_refl [OF inv] by (simp add: busy_procs_def)
  show "\<exists>l'. sleep_proc (busy_procs A os) p l = Inr l' \<and> callback_ok sync l l'"
    using aeStop_ok [OF inv] by (simp add: busy_procs_def)
qed

end

text \<open>A loop with one descriptor, registered for both directions with \<open>AE_BARRIER\<close>, two time events, and callbacks that
  log their function pointer.\<close>

definition sample_loop :: "(unit, nat list) aeEventLoop" where
  "sample_loop = \<lparr>maxfd = 0, setsize = 1, timeEventNextId = 2, lastTime = 0,
     events = [\<lparr>fe_mask = 7, rfileProc = 1, wfileProc = 2, fe_clientData = 0\<rparr>], events_gen = 0,
     fired = [\<lparr>fired_fd = 0, fired_mask = 3\<rparr>],
     timeEvents = [\<lparr>te_addr = 1, te_id = 1, when_sec = 7, when_ms = 250, timeProc = 3, finalizerProc = None, te_clientData = 0\<rparr>,
                   \<lparr>te_addr = 0, te_id = 0, when_sec = 9, when_ms = 0, timeProc = 3, finalizerProc = None, te_clientData = 0\<rparr>],
     te_fresh = 2, stop = False, apidata = (), beforesleep = None, aftersleep = None, world = []\<rparr>"

definition log_procs :: "('a, nat list) aeEventLoop aeProcs" where
  "log_procs = \<lparr>file_proc = (\<lambda>p fd c m l. Inr (l\<lparr>world := world l @ [p]\<rparr>)),
     time_proc = (\<lambda>p i c l. Inr (AE_NOMORE, l\<lparr>world := world l @ [p]\<rparr>)),
     final_proc = (\<lambda>p c l. Inr (l\<lparr>world := world l @ [p]\<rparr>)),
     sleep_proc = (\<lambda>p l. Inr (l\<lparr>world := world l @ [p], stop := True\<rparr>))\<rparr>"

definition clock_at :: "int \<Rightarrow> int \<Rightarrow> 'w aeOs" where
  "clock_at s us = \<lparr>os_time = (\<lambda>w. (s, w)), gettimeofday = (\<lambda>w. ((s, us), w))\<rparr>"

section \<open>Which callbacks are called, and how long the loop sleeps\<close>

text \<open>The callbacks for a fired event: readable before writable, the other way round under \<open>AE_BARRIER\<close>, and
  a callback registered for both only once.\<close>

definition calls :: "aeFileEvent \<Rightarrow> 32 word \<Rightarrow> nat list" where
  "calls fe msk =
     (let r = (if has (fe_mask fe AND msk) AE_READABLE then [rfileProc fe] else []);
          w = (if has (fe_mask fe AND msk) AE_WRITABLE then [wfileProc fe] else [])
      in remdups_adj (if has (fe_mask fe) AE_BARRIER then w @ r else r @ w))"

fun run_calls :: "('a, 'w) aeEventLoop aeProcs \<Rightarrow> int \<Rightarrow> nat \<Rightarrow> 32 word \<Rightarrow> nat list \<Rightarrow> ('a, 'w) aeEventLoop \<Rightarrow> ('a, 'w) aeEventLoop outcome" where
  "run_calls P fd c msk [] l = Inr l"
| "run_calls P fd c msk (p # ps) l = bindE (file_proc P p fd c msk l) (run_calls P fd c msk ps)"

lemma fe_deref_world [simp]: "fe_deref (l\<lparr>world := w\<rparr>) = fe_deref l"
  by (simp add: fe_deref_def fe_at_def fun_eq_iff)

lemma bindE_return: "bindE x Inr = x"
  by (cases x) auto

text \<open>C33: for callbacks that leave the registration of their own descriptor alone, processing a fired event
  runs exactly the callbacks \<open>calls\<close> lists, in that order.\<close>

theorem fire_event_order:
  assumes "j < length (fired l)" "fired l ! j = \<lparr>fired_fd = fd, fired_mask = msk\<rparr>" "fe_at l fd = Inr fe"
    and keeps: "\<And>p l1 l2. file_proc P p fd (fe_clientData fe) msk l1 = Inr l2 \<Longrightarrow> fe_deref l1 (events_gen l) fd = Inr fe \<Longrightarrow>
      fe_deref l2 (events_gen l) fd = Inr fe"
  shows "fire_event P l j = run_calls P fd (fe_clientData fe) msk (calls fe msk) l"
proof -
  let ?g = "events_gen l" and ?r = "has (fe_mask fe AND msk) AE_READABLE" and ?w = "has (fe_mask fe AND msk) AE_WRITABLE"
    and ?call = "\<lambda>p l. file_proc P p fd (fe_clientData fe) msk l"
  have d: "fe_deref l ?g fd = Inr fe" using assms(3) by (simp add: fe_deref_def)
  have rd1: "call_read P ?g fd msk l1 en dn = (if en \<and> ?r \<and> (\<not> dn \<or> wfileProc fe \<noteq> rfileProc fe)
      then bindE (?call (rfileProc fe) l1) (\<lambda>l2. Inr (l2, True)) else Inr (l1, dn))" if "fe_deref l1 ?g fd = Inr fe" for l1 en dn
    using that by (auto simp: call_read_def)
  have wr1: "call_write P ?g fd msk l1 dn = (if ?w \<and> (\<not> dn \<or> wfileProc fe \<noteq> rfileProc fe)
      then bindE (?call (wfileProc fe) l1) (\<lambda>l2. Inr (l2, True)) else Inr (l1, dn))" if "fe_deref l1 ?g fd = Inr fe" for l1 dn
    using that by (auto simp: call_write_def)
  have step: "bindE (?call p l1) h = bindE (?call p l1) h'"
    if "fe_deref l1 ?g fd = Inr fe" "\<And>l2. fe_deref l2 ?g fd = Inr fe \<Longrightarrow> h l2 = h' l2" for p l1 and h h' :: "('a, 'b) aeEventLoop \<Rightarrow> ('a, 'b) aeEventLoop outcome"
    using that keeps by (intro bindE_cong) auto
  have nil: "run_calls P fd (fe_clientData fe) msk [] = Inr" by (rule ext) simp
  have "fire_event P l j =
     bindE (call_read P ?g fd msk l (\<not> has (fe_mask fe) AE_BARRIER) False) (\<lambda>(l, done).
     bindE (call_write P ?g fd msk l done) (\<lambda>(l, done).
     bindE (call_read P ?g fd msk l (has (fe_mask fe) AE_BARRIER) done) (\<lambda>(l, done). Inr l)))"
    using assms(1-3) by (simp add: fire_event_def rd_ok Let_def)
  also have "\<dots> = run_calls P fd (fe_clientData fe) msk (calls fe msk) l"
    by (cases "has (fe_mask fe) AE_BARRIER"; cases ?r; cases ?w; cases "wfileProc fe = rfileProc fe")
      (auto simp: calls_def Let_def rd1 wr1 d bindE_assoc bindE_return intro!: step, simp_all add: nil bindE_return)
  finally show ?thesis .
qed

theorem fire_event_order_witness:
  "fire_event log_procs sample_loop 0 = Inr (sample_loop\<lparr>world := [2, 1]\<rparr>)"
proof -
  let ?fe = "\<lparr>fe_mask = 7, rfileProc = 1, wfileProc = 2, fe_clientData = 0\<rparr>"
  have "fire_event log_procs sample_loop 0 = run_calls log_procs 0 (fe_clientData ?fe) 3 (calls ?fe 3) sample_loop"
    by (rule fire_event_order) (auto simp: sample_loop_def fe_at_def log_procs_def)
  also have "calls ?fe 3 = [2, 1]" by (simp add: calls_def has_def ae_consts)
  finally show ?thesis by (simp add: log_procs_def sample_loop_def)
qed

text \<open>The time a node is due in milliseconds; the fields of a node are normalized when it is scheduled for
  a time not in the past.\<close>

definition due :: "aeTimeEvent \<Rightarrow> int" where
  "due te = when_sec te * 1000 + when_ms te"

definition normal_time :: "aeTimeEvent \<Rightarrow> bool" where
  "normal_time te \<longleftrightarrow> 0 \<le> when_ms te \<and> when_ms te < 1000"

lemma earlier_due: "normal_time t \<Longrightarrow> normal_time n \<Longrightarrow> earlier t n \<longleftrightarrow> due t < due n"
  by (auto simp: earlier_def due_def normal_time_def)

lemma nearest_loop_min:
  assumes "\<forall>te \<in> set (n # tes). normal_time te"
  shows "\<exists>te \<in> set (n # tes). nearest_loop (Some n) tes = Some te \<and> (\<forall>t \<in> set (n # tes). due te \<le> due t)"
  using assms
proof (induction tes arbitrary: n)
  case (Cons t tes)
  then show ?case using earlier_due [of t n] Cons(1) [of t] Cons(1) [of n] by (cases "earlier t n") force+
qed simp

lemma aeSearchNearestTimer_min:
  assumes "timeEvents l \<noteq> []" "\<forall>te \<in> set (timeEvents l). normal_time te"
  shows "\<exists>te. aeSearchNearestTimer l = Some te \<and> normal_time te \<and> due te = Min (due ` set (timeEvents l))"
proof -
  obtain n tes where l: "timeEvents l = n # tes" using assms(1) by (cases "timeEvents l") auto
  from nearest_loop_min [of n tes] obtain te where te: "te \<in> set (n # tes)" "nearest_loop (Some n) tes = Some te"
    "\<forall>t \<in> set (n # tes). due te \<le> due t" using assms(2) l by auto
  then have "Min (due ` set (n # tes)) = due te" by (intro Min_eqI) auto
  then show ?thesis using te assms(2) l by (auto simp: aeSearchNearestTimer_def)
qed

text \<open>C34: with time events to process, the timeout handed to the polling API is exactly the time left until the
  earliest event is due, to the millisecond, and zero when it is overdue. This holds for events whose milliseconds are
  normalized (between 0 and 999) and for times for which the arithmetic in \<open>long\<close> does not overflow.\<close>

theorem poll_timeout_exact:
  assumes "timeEvents l \<noteq> []" "\<forall>te \<in> set (timeEvents l). normal_time te"
    and "has flags AE_TIME_EVENTS" "\<not> has flags AE_DONT_WAIT" "gettimeofday os (world l) = ((s, us), w)"
    and "times_fit l" "\<bar>s\<bar> \<le> 2 ^ 52" "0 \<le> us" "us < 1000000"
    and "d = max 0 (Min (due ` set (timeEvents l)) - (s * 1000 + us div 1000))"
  shows "poll_timeout os l flags = Inr (Some (d div 1000, d mod 1000 * 1000), l\<lparr>world := w\<rparr>)"
proof -
  obtain te where te: "aeSearchNearestTimer l = Some te" "due te = Min (due ` set (timeEvents l))"
    using aeSearchNearestTimer_min [OF assms(1,2)] by blast
  then have "te \<in> set (timeEvents l)" using nearest_loop_in [of None] by (auto simp: aeSearchNearestTimer_def)
  then have t: "\<bar>when_sec te\<bar> \<le> 2 ^ 52" "\<bar>when_ms te\<bar> \<le> 2 ^ 52" using assms(6) unfolding times_fit_def by blast+
  define ms where "ms = (when_sec te - s) * 1000 + when_ms te - us div 1000"
  have "wait_ms te s (us div 1000) = Inr ms"
    unfolding ms_def using assms(8,9) by (intro wait_ms_fits(1) t assms(7)) (simp_all add: pos_imp_zdiv_nonneg_iff div_less_iff_less_mult)
  then have "poll_timeout os l flags = Inr (Some (if ms > 0 then (ms div 1000, ms mod 1000 * 1000) else (0, 0)), l\<lparr>world := w\<rparr>)"
    using te(1) assms(3-5) unfolding poll_timeout_def by (simp add: aeGetTime_def)
  moreover have "d = max 0 ms" using te(2) assms(10) by (simp add: ms_def due_def algebra_simps)
  ultimately show ?thesis by (simp add: max_def)
qed

theorem poll_timeout_exact_witness:
  "poll_timeout (clock_at 5 100000) sample_loop AE_ALL_EVENTS = Inr (Some (2, 150000), sample_loop)"
proof -
  have "Min (due ` set (timeEvents sample_loop)) = 7250" by (simp add: sample_loop_def due_def)
  then have "poll_timeout (clock_at 5 100000) sample_loop AE_ALL_EVENTS =
      Inr (Some (2150 div 1000, 2150 mod 1000 * 1000), sample_loop\<lparr>world := []\<rparr>)"
    by (intro poll_timeout_exact [where s = 5 and us = 100000])
      (auto simp: sample_loop_def clock_at_def normal_time_def has_def ae_consts times_fit_def)
  then show ?thesis by (simp add: sample_loop_def)
qed

text \<open>The bounds matter: for a node \<open>2 ^ 54\<close> seconds away the multiplication overflows.\<close>

lemma poll_timeout_overflows:
  assumes "aeSearchNearestTimer l = Some te" "has flags AE_TIME_EVENTS" "\<not> has flags AE_DONT_WAIT"
    "gettimeofday os (world l) = ((s, us), w)" "2 ^ 54 \<le> when_sec te" "when_sec te < 2 ^ 63" "0 \<le> s" "s \<le> 2 ^ 52"
  shows "poll_timeout os l flags = Inl SignedOverflow"
  using assms by (simp add: poll_timeout_def aeGetTime_def wait_ms_def as_long_def)

text \<open>The pointer to the file event is kept over the callbacks: a readable callback that resizes the loop leaves it
  dangling.\<close>

lemma resize_in_callback_faults:
  assumes "j < length (fired l)" "fired l ! j = \<lparr>fired_fd = fd, fired_mask = msk\<rparr>" "fe_at l fd = Inr fe"
    and "\<not> has (fe_mask fe) AE_BARRIER" "has (fe_mask fe AND msk) AE_READABLE"
    and "file_proc P (rfileProc fe) fd (fe_clientData fe) msk l = Inr l1" "events_gen l1 \<noteq> events_gen l"
  shows "fire_event P l j = Inl InvalidPointer"
  using assms by (simp add: fire_event_def rd_ok call_read_def call_write_def fe_deref_def Let_def)

end
