(* ===== verification/Ae_Select.thy ===== *)
theory Ae_Select
  imports Ae
begin

unbundle bit_operations_syntax

text \<open>
  \<open>ae_select.c\<close>: the polling API on \<open>select\<close>. A descriptor set is an array of \<open>FD_SETSIZE\<close> bits, and the
  macros on it do not check their argument. The system call is a parameter that returns its result
  and which descriptors are readable and writable; it writes the bits below \<open>nfds\<close>.
\<close>

definition FD_SETSIZE :: int where "FD_SETSIZE = 1024"

type_synonym fd_set = "bool list"

definition FD_ZERO :: fd_set where "FD_ZERO = replicate (nat FD_SETSIZE) False"

definition FD_SET :: "int \<Rightarrow> bool \<Rightarrow> fd_set \<Rightarrow> fd_set outcome" where
  "FD_SET fd b s = (if 0 \<le> fd \<and> fd < int (length s) then Inr (s[nat fd := b]) else Inl OutOfBounds)"

definition FD_ISSET :: "int \<Rightarrow> fd_set \<Rightarrow> bool outcome" where
  "FD_ISSET fd s = (if 0 \<le> fd \<and> fd < int (length s) then Inr (s ! nat fd) else Inl OutOfBounds)"

record selectState =
  rfds :: fd_set
  wfds :: fd_set
  rfds_copy :: fd_set
  wfds_copy :: fd_set

type_synonym 'w select_call =
  "int \<Rightarrow> fd_set \<Rightarrow> fd_set \<Rightarrow> (int \<times> int) option \<Rightarrow> 'w \<Rightarrow> (int \<times> (nat \<Rightarrow> bool) \<times> (nat \<Rightarrow> bool)) \<times> 'w"

definition select_aeApiCreate :: "(selectState, 'w) aeEventLoop \<Rightarrow> int \<times> (selectState, 'w) aeEventLoop" where
  "select_aeApiCreate l = (0, l\<lparr>apidata := (apidata l)\<lparr>rfds := FD_ZERO, wfds := FD_ZERO\<rparr>\<rparr>)"

definition select_aeApiResize :: "(selectState, 'w) aeEventLoop \<Rightarrow> int \<Rightarrow> int \<times> (selectState, 'w) aeEventLoop" where
  "select_aeApiResize l n = (if n \<ge> FD_SETSIZE then (- 1, l) else (0, l))"

definition select_aeApiFree :: "(selectState, 'w) aeEventLoop \<Rightarrow> (selectState, 'w) aeEventLoop" where
  "select_aeApiFree l = l"

text \<open>Setting (\<open>b\<close>) or clearing the bits the mask asks for.\<close>

definition mark_fds :: "int \<Rightarrow> 32 word \<Rightarrow> bool \<Rightarrow> selectState \<Rightarrow> selectState outcome" where
  "mark_fds fd m b st =
     bindE (if has m AE_READABLE then FD_SET fd b (rfds st) else Inr (rfds st)) (\<lambda>r.
     bindE (if has m AE_WRITABLE then FD_SET fd b (wfds st) else Inr (wfds st)) (\<lambda>w.
     Inr (st\<lparr>rfds := r, wfds := w\<rparr>)))"

definition select_aeApiAddEvent ::
  "(selectState, 'w) aeEventLoop \<Rightarrow> int \<Rightarrow> 32 word \<Rightarrow> (int \<times> (selectState, 'w) aeEventLoop) outcome" where
  "select_aeApiAddEvent l fd m = bindE (mark_fds fd m True (apidata l)) (\<lambda>st. Inr (0, l\<lparr>apidata := st\<rparr>))"

definition select_aeApiDelEvent ::
  "(selectState, 'w) aeEventLoop \<Rightarrow> int \<Rightarrow> 32 word \<Rightarrow> (selectState, 'w) aeEventLoop outcome" where
  "select_aeApiDelEvent l fd m = bindE (mark_fds fd m False (apidata l)) (\<lambda>st. Inr (l\<lparr>apidata := st\<rparr>))"

text \<open>The loop over the descriptors up to \<open>maxfd\<close>; \<open>n\<close> events were stored so far.\<close>

definition select_mask :: "selectState \<Rightarrow> aeFileEvent \<Rightarrow> int \<Rightarrow> 32 word outcome" where
  "select_mask st fe j =
     bindE (if has (fe_mask fe) AE_READABLE then FD_ISSET j (rfds_copy st) else Inr False) (\<lambda>r.
     bindE (if has (fe_mask fe) AE_WRITABLE then FD_ISSET j (wfds_copy st) else Inr False) (\<lambda>w.
     Inr ((if r then AE_READABLE else 0) OR (if w then AE_WRITABLE else 0))))"

function select_collect ::
  "(selectState, 'w) aeEventLoop \<Rightarrow> nat \<Rightarrow> nat \<Rightarrow> (nat \<times> (selectState, 'w) aeEventLoop) outcome" where
  "select_collect l j n =
     (if int j \<le> maxfd l
      then bindE (fe_at l (int j)) (\<lambda>fe.
           if fe_mask fe = AE_NONE then select_collect l (Suc j) n
           else bindE (select_mask (apidata l) fe (int j)) (\<lambda>m.
                bindE (mem_write (fired l) n [\<lparr>fired_fd = int j, fired_mask = m\<rparr>]) (\<lambda>f.
                select_collect (l\<lparr>fired := f\<rparr>) (Suc j) (Suc n))))
      else Inr (n, l))"
  by auto
termination by (relation "measure (\<lambda>(l, j, n). nat (maxfd l + 1 - int j))") auto

declare select_collect.simps [simp del]

definition written :: "int \<Rightarrow> (nat \<Rightarrow> bool) \<Rightarrow> fd_set \<Rightarrow> fd_set" where
  "written nfds ready s = map (\<lambda>i. if int i < nfds then ready i else s ! i) [0..<length s]"

definition select_aeApiPoll ::
  "'w select_call \<Rightarrow> (selectState, 'w) aeEventLoop \<Rightarrow> (int \<times> int) option \<Rightarrow> (nat \<times> (selectState, 'w) aeEventLoop) outcome" where
  "select_aeApiPoll sel l tvp =
     (let st = apidata l;
          st = st\<lparr>rfds_copy := rfds st, wfds_copy := wfds st\<rparr>;
          nfds = maxfd l + 1;
          ((retval, r, w), wd) = sel nfds (rfds_copy st) (wfds_copy st) tvp (world l);
          st = st\<lparr>rfds_copy := written nfds r (rfds_copy st), wfds_copy := written nfds w (wfds_copy st)\<rparr>;
          l = l\<lparr>apidata := st, world := wd\<rparr>
      in if retval > 0 then select_collect l 0 0 else Inr (0, l))"

definition select_api :: "'w select_call \<Rightarrow> (selectState, 'w) aeEventLoop aeApi" where
  "select_api sel = \<lparr>aeApiCreate = select_aeApiCreate, aeApiResize = select_aeApiResize, aeApiFree = select_aeApiFree,
     aeApiAddEvent = select_aeApiAddEvent, aeApiDelEvent = select_aeApiDelEvent, aeApiPoll = select_aeApiPoll sel\<rparr>"

section \<open>The contract\<close>

text \<open>The sets hold exactly the registered descriptors, and all descriptors fit.\<close>

definition select_sync :: "selectState \<Rightarrow> 'w \<Rightarrow> 32 word list \<Rightarrow> bool" where
  "select_sync st w ms \<longleftrightarrow> length (rfds st) = nat FD_SETSIZE \<and> length (wfds st) = nat FD_SETSIZE \<and>
     length ms \<le> nat FD_SETSIZE \<and>
     (\<forall>i < nat FD_SETSIZE. (rfds st ! i \<longleftrightarrow> i < length ms \<and> has (ms ! i) AE_READABLE) \<and>
                        (wfds st ! i \<longleftrightarrow> i < length ms \<and> has (ms ! i) AE_WRITABLE))"

lemma has_or [simp]: "has (a OR b) AE_READABLE \<longleftrightarrow> has a AE_READABLE \<or> has b AE_READABLE"
  "has (a OR b) AE_WRITABLE \<longleftrightarrow> has a AE_WRITABLE \<or> has b AE_WRITABLE"
  by (simp_all add: has_bits bit_or_iff)

lemma has_and_not [simp]: "has (a AND NOT b) AE_READABLE \<longleftrightarrow> has a AE_READABLE \<and> \<not> has b AE_READABLE"
  "has (a AND NOT b) AE_WRITABLE \<longleftrightarrow> has a AE_WRITABLE \<and> \<not> has b AE_WRITABLE"
  by (simp_all add: has_bits bit_and_iff bit_not_iff)

lemma has_none [simp]: "\<not> has 0 b" "\<not> has AE_NONE b"
  by (simp_all add: has_def AE_NONE_def)

lemma mark_fds_ok:
  assumes "length (rfds st) = k" "length (wfds st) = k" "0 \<le> fd" "nat fd < k"
  shows "mark_fds fd m b st = Inr (st\<lparr>rfds := if has m AE_READABLE then (rfds st)[nat fd := b] else rfds st,
    wfds := if has m AE_WRITABLE then (wfds st)[nat fd := b] else wfds st\<rparr>)"
  using assms by (simp add: mark_fds_def FD_SET_def nat_less_iff)

lemma select_mask_ok:
  assumes "length (rfds_copy st) = k" "length (wfds_copy st) = k" "j < k"
  shows "\<exists>m. select_mask st fe (int j) = Inr m"
  using assms by (simp add: select_mask_def FD_ISSET_def)

text \<open>Every slot written is a descriptor inside the arrays, and there is room for all of them.\<close>

lemma fired_ok_update:
  assumes "fired_ok l n" "n < length (fired l)" "j < length (events l)" "fe_mask (events l ! j) \<noteq> AE_NONE"
  shows "fired_ok (l\<lparr>fired := take n (fired l) @ [\<lparr>fired_fd = int j, fired_mask = m\<rparr>] @ drop (Suc n) (fired l)\<rparr>) (Suc n)"
  using assms unfolding fired_ok_def masks_def
  by (auto simp: nth_append less_Suc_eq min_def)

lemma select_collect_ok:
  assumes "files_wf l" "length (rfds_copy (apidata l)) = k" "length (wfds_copy (apidata l)) = k" "length (events l) \<le> k"
    "n \<le> j" "fired_ok l n"
  shows "\<exists>cnt l'. select_collect l j n = Inr (cnt, l') \<and> (\<exists>f. l' = l\<lparr>fired := f\<rparr> \<and> length f = length (fired l)) \<and> fired_ok l' cnt"
  using assms
proof (induction "nat (maxfd l + 1 - int j)" arbitrary: l j n)
  case 0
  then have "\<not> int j \<le> maxfd l" by simp
  then have "select_collect l j n = Inr (n, l)" by (simp add: select_collect.simps [of l j n])
  then show ?case using 0(7) by (intro exI [of _ n] exI [of _ l] conjI exI [of _ "fired l"]) auto
next
  case (Suc x)
  then have j: "int j \<le> maxfd l" "x = nat (maxfd l + 1 - int (Suc j))" by auto
  then have je: "j < length (events l)" "length (fired l) = length (events l)" using Suc(3) by (auto simp: files_wf_def)
  then have fe: "fe_at l (int j) = Inr (events l ! j)" by (simp add: fe_at_def)
  show ?case
  proof (cases "fe_mask (events l ! j) = AE_NONE")
    case True
    have "select_collect l j n = select_collect l (Suc j) n"
      using True j(1) fe by (simp add: select_collect.simps [of l j n])
    then show ?thesis using Suc(1) [OF j(2) Suc(3-6) _ Suc(8)] Suc(7) by simp
  next
    case False
    obtain m where m: "select_mask (apidata l) (events l ! j) (int j) = Inr m"
      using select_mask_ok [OF Suc(4,5)] je Suc(6) by (meson less_le_trans)
    define l1 where "l1 = l\<lparr>fired := take n (fired l) @ [\<lparr>fired_fd = int j, fired_mask = m\<rparr>] @ drop (Suc n) (fired l)\<rparr>"
    have n: "n < length (fired l)" using je Suc(7) by simp
    have eq: "select_collect l j n = select_collect l1 (Suc j) (Suc n)"
      using j(1) fe False m n by (simp add: select_collect.simps [of l j n] mem_write_ok l1_def)
    have "files_wf l1" using Suc(3) n files_wf_cong [of l1 l] by (simp add: l1_def)
    moreover have "fired_ok l1 (Suc n)" unfolding l1_def by (rule fired_ok_update [OF Suc(8) n je(1) False])
    moreover have "x = nat (maxfd l1 + 1 - int (Suc j))" using j(2) by (simp add: l1_def)
    moreover have "rfds_copy (apidata l1) = rfds_copy (apidata l)" "wfds_copy (apidata l1) = wfds_copy (apidata l)"
      "events l1 = events l" by (simp_all add: l1_def)
    ultimately obtain cnt l' f where "select_collect l1 (Suc j) (Suc n) = Inr (cnt, l')" "l' = l1\<lparr>fired := f\<rparr>"
      "length f = length (fired l1)" "fired_ok l' cnt"
      using Suc(1) [of l1 "Suc j" "Suc n"] Suc(4-7) by auto
    then show ?thesis unfolding eq using n by (auto simp: l1_def)
  qed
qed

lemma select_poll_ok:
  assumes "files_wf l" "select_sync (apidata l) (world l) (masks l)"
  shows "\<exists>cnt l'. select_aeApiPoll sel l tvp = Inr (cnt, l') \<and> poll_frame l l' \<and>
    select_sync (apidata l') (world l') (masks l) \<and> fired_ok l' cnt"
proof -
  let ?nfds = "maxfd l + 1"
  obtain retval r w wd where s: "sel ?nfds (rfds (apidata l)) (wfds (apidata l)) tvp (world l) = ((retval, r, w), wd)"
    by (metis prod.collapse)
  define st where "st = (apidata l)\<lparr>rfds_copy := written ?nfds r (rfds (apidata l)), wfds_copy := written ?nfds w (wfds (apidata l))\<rparr>"
  define l1 where "l1 = l\<lparr>apidata := st, world := wd\<rparr>"
  have eq: "select_aeApiPoll sel l tvp = (if retval > 0 then select_collect l1 0 0 else Inr (0, l1))"
    using s by (simp add: select_aeApiPoll_def Let_def l1_def st_def)
  have len: "length (rfds_copy st) = nat FD_SETSIZE" "length (wfds_copy st) = nat FD_SETSIZE" "length (events l) \<le> nat FD_SETSIZE"
    using assms(2) by (auto simp: st_def written_def select_sync_def)
  have sy: "select_sync st wd' (masks l)" for wd' :: 'a using assms(2) by (simp add: select_sync_def st_def)
  have 1: "files_wf l1" using assms(1) files_wf_cong [of l1 l] by (simp add: l1_def)
  have "fired_ok l1 0" by (simp add: fired_ok_def)
  then obtain cnt l' f where c: "select_collect l1 0 0 = Inr (cnt, l')" "l' = l1\<lparr>fired := f\<rparr>" "length f = length (fired l1)"
      "fired_ok l' cnt"
    using select_collect_ok [OF 1, where k = "nat FD_SETSIZE" and j = 0 and n = 0] len by (auto simp: l1_def)
  show ?thesis
  proof (cases "retval > 0")
    case True
    have "poll_frame l l'" unfolding poll_frame_def using c(2,3)
      by (intro exI [of _ st] exI [of _ wd] exI [of _ f]) (simp add: l1_def)
    then show ?thesis using True eq c sy by (auto simp: l1_def)
  next
    case False
    have "poll_frame l l1" unfolding poll_frame_def by (intro exI [of _ st] exI [of _ wd] exI [of _ "fired l"]) (simp add: l1_def)
    then show ?thesis using False eq sy \<open>fired_ok l1 0\<close> by (auto simp: l1_def)
  qed
qed

lemma select_sync_add:
  assumes "select_sync st w ms" "0 \<le> fd" "nat fd < length ms" "mark_fds fd m True st = Inr st'"
  shows "select_sync st' w' (ms[nat fd := ms ! nat fd OR m])"
proof -
  have fd: "nat fd < nat FD_SETSIZE" using assms(1,3) unfolding select_sync_def by linarith
  have "st' = st\<lparr>rfds := if has m AE_READABLE then (rfds st)[nat fd := True] else rfds st,
    wfds := if has m AE_WRITABLE then (wfds st)[nat fd := True] else wfds st\<rparr>"
    using assms(4) mark_fds_ok [OF _ _ assms(2) fd] assms(1) by (simp add: select_sync_def)
  then show ?thesis using assms(1,3) unfolding select_sync_def by (auto simp: nth_list_update)
qed

lemma select_sync_del:
  assumes "select_sync st w ms" "0 \<le> fd" "nat fd < length ms" "mark_fds fd m False st = Inr st'"
  shows "select_sync st' w' (ms[nat fd := ms ! nat fd AND NOT m])"
proof -
  have fd: "nat fd < nat FD_SETSIZE" using assms(1,3) unfolding select_sync_def by linarith
  have "st' = st\<lparr>rfds := if has m AE_READABLE then (rfds st)[nat fd := False] else rfds st,
    wfds := if has m AE_WRITABLE then (wfds st)[nat fd := False] else wfds st\<rparr>"
    using assms(4) mark_fds_ok [OF _ _ assms(2) fd] assms(1) by (simp add: select_sync_def)
  then show ?thesis using assms(1,3) unfolding select_sync_def by (auto simp: nth_list_update)
qed

lemma select_sync_resize:
  assumes "select_sync st w ms" "resized ms ms'" "length ms' \<le> nat FD_SETSIZE"
  shows "select_sync st w' ms'"
proof -
  have "i < length ms' \<and> has (ms' ! i) b \<longleftrightarrow> i < length ms \<and> has (ms ! i) b" for i b
    using assms(2) unfolding resized_def
    by (cases "i < length ms'"; cases "i < length ms") (simp_all add: not_less)
  then show ?thesis using assms(1,3) unfolding select_sync_def by simp
qed

interpretation select: shrinking_api "select_api sel" os "\<lambda>n. n \<le> FD_SETSIZE" select_sync for sel os
proof
  fix l l' :: "(selectState, 'a) aeEventLoop" and r sz :: int and fd m
  show "aeApiCreate (select_api sel) l = (r, l') \<Longrightarrow> api_frame l l'"
    by (auto simp: select_api_def select_aeApiCreate_def api_frame_def intro!: exI [of _ "world l"])
  show "aeApiCreate (select_api sel) l = (r, l') \<Longrightarrow> r \<noteq> - 1 \<Longrightarrow> setsize l \<le> FD_SETSIZE \<Longrightarrow>
    select_sync (apidata l') (world l') (replicate (nat (setsize l)) 0)"
    by (auto simp: select_api_def select_aeApiCreate_def select_sync_def FD_ZERO_def)
  show "aeApiResize (select_api sel) l sz = (r, l') \<Longrightarrow> api_frame l l'"
    by (auto simp: select_api_def select_aeApiResize_def api_frame_def intro!: exI [of _ "world l"] exI [of _ "apidata l"] split: if_splits)
  show "select_sync (apidata l) (world l) (masks l) \<Longrightarrow> resizes select_sync l sz (aeApiResize (select_api sel) l sz)"
    using select_sync_resize [of "apidata l" "world l" "masks l" _ "world l"]
    by (auto simp: resizes_def select_api_def select_aeApiResize_def not_le nat_le_iff)
  then show "select_sync (apidata l) (world l) (masks l) \<Longrightarrow> resizes select_sync l sz (aeApiResize (select_api sel) l sz)" .
next
  fix l :: "(selectState, 'a) aeEventLoop" and fd m
  assume *: "select_sync (apidata l) (world l) (masks l)" "0 \<le> fd" "nat fd < length (events l)"
  have "nat fd < nat FD_SETSIZE" using *(1,3) unfolding select_sync_def length_masks by linarith
  then have "\<exists>st. mark_fds fd m b (apidata l) = Inr st" for b
    using mark_fds_ok [of "apidata l" "nat FD_SETSIZE" fd m b] *(1,2) unfolding select_sync_def by simp
  then obtain st st' where st: "mark_fds fd m True (apidata l) = Inr st" "mark_fds fd m False (apidata l) = Inr st'" by metis
  show "\<exists>r l'. aeApiAddEvent (select_api sel) l fd m = Inr (r, l') \<and> api_frame l l' \<and>
    select_sync (apidata l') (world l') (if r = - 1 then masks l else (masks l)[nat fd := masks l ! nat fd OR m])"
    using st(1) select_sync_add [OF *(1,2) _ st(1)] *(3)
    by (auto simp: select_api_def select_aeApiAddEvent_def api_frame_def intro!: exI [of _ st] exI [of _ "world l"])
  show "\<exists>l'. aeApiDelEvent (select_api sel) l fd m = Inr l' \<and> api_frame l l' \<and>
    select_sync (apidata l') (world l') ((masks l)[nat fd := masks l ! nat fd AND NOT m])"
    using st(2) select_sync_del [OF *(1,2) _ st(2)] *(3)
    by (auto simp: select_api_def select_aeApiDelEvent_def api_frame_def intro!: exI [of _ st'] exI [of _ "world l"])
next
  fix l :: "(selectState, 'a) aeEventLoop" and tvp
  assume "files_wf l" "select_sync (apidata l) (world l) (masks l)"
  then show "\<exists>cnt l'. aeApiPoll (select_api sel) l tvp = Inr (cnt, l') \<and> poll_frame l l' \<and>
    select_sync (apidata l') (world l') (masks l) \<and> fired_ok l' cnt"
    using select_poll_ok by (simp add: select_api_def)
qed (simp_all add: select_sync_def)

end
