(* ===== verification/Ae_Epoll.thy ===== *)
theory Ae_Epoll
  imports Ae
begin

unbundle bit_operations_syntax

text \<open>
  \<open>ae_epoll.c\<close>: the polling API on \<open>epoll\<close>. The system calls are parameters; \<open>epoll_laws\<close> states what their
  manual pages promise about the interest list of an epoll instance.
\<close>

definition EPOLLIN :: "32 word" where "EPOLLIN = 1"
definition EPOLLOUT :: "32 word" where "EPOLLOUT = 4"
definition EPOLLERR :: "32 word" where "EPOLLERR = 8"
definition EPOLLHUP :: "32 word" where "EPOLLHUP = 16"
definition EPOLL_CTL_ADD :: int where "EPOLL_CTL_ADD = 1"
definition EPOLL_CTL_DEL :: int where "EPOLL_CTL_DEL = 2"
definition EPOLL_CTL_MOD :: int where "EPOLL_CTL_MOD = 3"

record epoll_event =
  ee_events :: "32 word"
  ee_fd :: int

record epollState =
  epfd :: int
  ep_events :: "epoll_event list"

text \<open>The system calls. \<open>epoll_wait\<close> returns its result and the events it stored.\<close>

record 'w epollCalls =
  epoll_create :: "'w \<Rightarrow> int \<times> 'w"
  epoll_ctl :: "int \<Rightarrow> int \<Rightarrow> int \<Rightarrow> epoll_event \<Rightarrow> 'w \<Rightarrow> int \<times> 'w"
  epoll_wait :: "int \<Rightarrow> int \<Rightarrow> int \<Rightarrow> 'w \<Rightarrow> (int \<times> epoll_event list) \<times> 'w"
  epoll_close :: "int \<Rightarrow> 'w \<Rightarrow> 'w"

definition epoll_aeApiCreate ::
  "'w epollCalls \<Rightarrow> (nat \<Rightarrow> epoll_event) \<Rightarrow> (epollState, 'w) aeEventLoop \<Rightarrow> int \<times> (epollState, 'w) aeEventLoop" where
  "epoll_aeApiCreate K raw l =
     (let evs = map raw [0..<nat (setsize l)];
          (fd, w) = epoll_create K (world l)
      in if fd = - 1 then (- 1, l\<lparr>world := w\<rparr>)
         else (0, l\<lparr>apidata := \<lparr>epfd = fd, ep_events = evs\<rparr>, world := w\<rparr>))"

definition epoll_aeApiResize ::
  "(nat \<Rightarrow> epoll_event) \<Rightarrow> (epollState, 'w) aeEventLoop \<Rightarrow> int \<Rightarrow> int \<times> (epollState, 'w) aeEventLoop" where
  "epoll_aeApiResize raw l n =
     (0, l\<lparr>apidata := (apidata l)\<lparr>ep_events := realloc_list raw (ep_events (apidata l)) (nat n)\<rparr>\<rparr>)"

definition epoll_aeApiFree :: "'w epollCalls \<Rightarrow> (epollState, 'w) aeEventLoop \<Rightarrow> (epollState, 'w) aeEventLoop" where
  "epoll_aeApiFree K l = l\<lparr>world := epoll_close K (epfd (apidata l)) (world l)\<rparr>"

text \<open>The events to wait for.\<close>

definition epoll_bits :: "32 word \<Rightarrow> 32 word" where
  "epoll_bits m = (if has m AE_READABLE then EPOLLIN else 0) OR (if has m AE_WRITABLE then EPOLLOUT else 0)"

definition epoll_aeApiAddEvent ::
  "'w epollCalls \<Rightarrow> (epollState, 'w) aeEventLoop \<Rightarrow> int \<Rightarrow> 32 word \<Rightarrow> (int \<times> (epollState, 'w) aeEventLoop) outcome" where
  "epoll_aeApiAddEvent K l fd m =
     bindE (fe_at l fd) (\<lambda>fe.
     let op = (if fe_mask fe = AE_NONE then EPOLL_CTL_ADD else EPOLL_CTL_MOD);
         m = m OR fe_mask fe;
         ee = \<lparr>ee_events = epoll_bits m, ee_fd = fd\<rparr>;
         (r, w) = epoll_ctl K (epfd (apidata l)) op fd ee (world l)
     in Inr (if r = - 1 then - 1 else 0, l\<lparr>world := w\<rparr>))"

definition epoll_aeApiDelEvent ::
  "'w epollCalls \<Rightarrow> (epollState, 'w) aeEventLoop \<Rightarrow> int \<Rightarrow> 32 word \<Rightarrow> (epollState, 'w) aeEventLoop outcome" where
  "epoll_aeApiDelEvent K l fd delmask =
     bindE (fe_at l fd) (\<lambda>fe.
     let m = fe_mask fe AND NOT delmask;
         ee = \<lparr>ee_events = epoll_bits m, ee_fd = fd\<rparr>;
         (r, w) = epoll_ctl K (epfd (apidata l)) (if m \<noteq> AE_NONE then EPOLL_CTL_MOD else EPOLL_CTL_DEL) fd ee (world l)
     in Inr (l\<lparr>world := w\<rparr>))"

text \<open>The expression for the timeout has type \<open>long\<close>, the parameter of \<open>epoll_wait\<close> has type \<open>int\<close>: the value is
  reduced modulo \<open>2 ^ 32\<close>.\<close>

definition epoll_timeout :: "(int \<times> int) option \<Rightarrow> int outcome" where
  "epoll_timeout tvp =
     (case tvp of
        Some (s, us) \<Rightarrow>
          bindE (as_long (s * 1000)) (\<lambda>x.
          bindE (as_long (x + c_div us 1000)) (\<lambda>x. Inr (to_int x)))
      | None \<Rightarrow> Inr (- 1))"

definition fired_bits :: "32 word \<Rightarrow> 32 word" where
  "fired_bits e = (if has e EPOLLIN then AE_READABLE else 0) OR (if has e EPOLLOUT then AE_WRITABLE else 0) OR
     (if has e EPOLLERR then AE_WRITABLE else 0) OR (if has e EPOLLHUP then AE_WRITABLE else 0)"

function epoll_collect ::
  "(epollState, 'w) aeEventLoop \<Rightarrow> nat \<Rightarrow> nat \<Rightarrow> (epollState, 'w) aeEventLoop outcome" where
  "epoll_collect l j n =
     (if j < n
      then bindE (rd (ep_events (apidata l)) j) (\<lambda>e.
           bindE (mem_write (fired l) j [\<lparr>fired_fd = ee_fd e, fired_mask = fired_bits (ee_events e)\<rparr>]) (\<lambda>f.
           epoll_collect (l\<lparr>fired := f\<rparr>) (Suc j) n))
      else Inr l)"
  by auto
termination by (relation "measure (\<lambda>(l, j, n). n - j)") auto

declare epoll_collect.simps [simp del]

definition epoll_aeApiPoll ::
  "'w epollCalls \<Rightarrow> (epollState, 'w) aeEventLoop \<Rightarrow> (int \<times> int) option \<Rightarrow> (nat \<times> (epollState, 'w) aeEventLoop) outcome" where
  "epoll_aeApiPoll K l tvp =
     bindE (epoll_timeout tvp) (\<lambda>timeout.
     let st = apidata l;
         ((retval, evs), w) = epoll_wait K (epfd st) (setsize l) timeout (world l)
     in bindE (mem_write (ep_events st) 0 evs) (\<lambda>es.
        let l = l\<lparr>apidata := st\<lparr>ep_events := es\<rparr>, world := w\<rparr>
        in if retval > 0 then bindE (epoll_collect l 0 (nat retval)) (\<lambda>l. Inr (nat retval, l)) else Inr (0, l)))"

definition epoll_api :: "'w epollCalls \<Rightarrow> (nat \<Rightarrow> epoll_event) \<Rightarrow> (epollState, 'w) aeEventLoop aeApi" where
  "epoll_api K raw = \<lparr>aeApiCreate = epoll_aeApiCreate K raw, aeApiResize = epoll_aeApiResize raw, aeApiFree = epoll_aeApiFree K,
     aeApiAddEvent = epoll_aeApiAddEvent K, aeApiDelEvent = epoll_aeApiDelEvent K, aeApiPoll = epoll_aeApiPoll K\<rparr>"

section \<open>What the system calls promise\<close>

text \<open>
  \<open>interest e w\<close> is the interest list of the instance \<open>e\<close>: the events asked for and the user data stored with each descriptor.
  A fresh instance watches nothing; a successful \<open>epoll_ctl\<close> adds or changes an entry, storing what it is given, or removes
  it, and a failing one changes nothing, whichever the operation; \<open>epoll_wait\<close> stores at most \<open>maxevents\<close> events, each with the user
  data of an entry and with events that were asked for there (or errors and hang-ups, which are always reported), and does not
  change the list; reading the clock does not either.
\<close>

type_synonym interest_list = "int \<Rightarrow> epoll_event option"

definition create_law :: "'w epollCalls \<Rightarrow> (int \<Rightarrow> 'w \<Rightarrow> interest_list) \<Rightarrow> bool" where
  "create_law K interest \<longleftrightarrow> (\<forall>w e w'. epoll_create K w = (e, w') \<and> e \<noteq> - 1 \<longrightarrow> interest e w' = Map.empty)"

definition ctl_law :: "'w epollCalls \<Rightarrow> (int \<Rightarrow> 'w \<Rightarrow> interest_list) \<Rightarrow> bool" where
  "ctl_law K interest \<longleftrightarrow> (\<forall>e op fd ee w r w'. epoll_ctl K e op fd ee w = (r, w') \<longrightarrow>
     interest e w' = (if r = - 1 then interest e w
       else (interest e w)(fd := if op = EPOLL_CTL_DEL then None else Some ee)))"

text \<open>\<open>a\<close> has no bit that \<open>b\<close> does not have.\<close>

definition within :: "32 word \<Rightarrow> 32 word \<Rightarrow> bool" where
  "within a b \<longleftrightarrow> a AND b = a"

definition reported :: "interest_list \<Rightarrow> epoll_event \<Rightarrow> bool" where
  "reported il ev \<longleftrightarrow> (\<exists>fd ee. il fd = Some ee \<and> ee_fd ev = ee_fd ee \<and>
     within (ee_events ev) (ee_events ee OR EPOLLERR OR EPOLLHUP))"

definition wait_law :: "'w epollCalls \<Rightarrow> (int \<Rightarrow> 'w \<Rightarrow> interest_list) \<Rightarrow> bool" where
  "wait_law K interest \<longleftrightarrow> (\<forall>e n t w r evs w'. epoll_wait K e n t w = ((r, evs), w') \<longrightarrow>
     r \<le> max 0 n \<and> length evs = nat r \<and> interest e w' = interest e w \<and> (\<forall>ev \<in> set evs. reported (interest e w) ev))"

definition clock_law :: "'w aeOs \<Rightarrow> (int \<Rightarrow> 'w \<Rightarrow> interest_list) \<Rightarrow> bool" where
  "clock_law os interest \<longleftrightarrow>
     (\<forall>e w. interest e (snd (gettimeofday os w)) = interest e w \<and> interest e (snd (os_time os w)) = interest e w)"

definition epoll_laws :: "'w epollCalls \<Rightarrow> 'w aeOs \<Rightarrow> (int \<Rightarrow> 'w \<Rightarrow> interest_list) \<Rightarrow> bool" where
  "epoll_laws K os interest \<longleftrightarrow> create_law K interest \<and> ctl_law K interest \<and> wait_law K interest \<and> clock_law os interest"

section \<open>The contract\<close>

text \<open>
  Every descriptor the kernel watches is a slot of the arrays, and its user data is the descriptor; every registered descriptor is
  watched, for its events at least. The kernel may watch more than what is registered, since \<open>aeApiDelEvent\<close> does not look at
  the result of \<open>epoll_ctl\<close>.
\<close>

definition covers :: "interest_list \<Rightarrow> 32 word list \<Rightarrow> bool" where
  "covers il ms \<longleftrightarrow> (\<forall>fd ee. il fd = Some ee \<longrightarrow> ee_fd ee = fd \<and> 0 \<le> fd \<and> nat fd < length ms) \<and>
     (\<forall>i < length ms. ms ! i \<noteq> AE_NONE \<longrightarrow> (\<exists>ee. il (int i) = Some ee \<and> within (epoll_bits (ms ! i)) (ee_events ee)))"

definition epoll_sync ::
  "'w epollCalls \<Rightarrow> 'w aeOs \<Rightarrow> (int \<Rightarrow> 'w \<Rightarrow> interest_list) \<Rightarrow> epollState \<Rightarrow> 'w \<Rightarrow> 32 word list \<Rightarrow> bool" where
  "epoll_sync K os interest st w ms \<longleftrightarrow>
     epoll_laws K os interest \<and> length (ep_events st) = length ms \<and> covers (interest (epfd st) w) ms"

lemma epoll_lawsD:
  assumes "epoll_laws K os interest"
  shows "epoll_create K w = (e, w') \<Longrightarrow> e \<noteq> - 1 \<Longrightarrow> interest e w' = Map.empty"
    "epoll_ctl K e op fd ee w = (r, w') \<Longrightarrow> interest e w' =
       (if r = - 1 then interest e w else (interest e w)(fd := if op = EPOLL_CTL_DEL then None else Some ee))"
    "epoll_wait K e n t w = ((r, evs), w') \<Longrightarrow>
     r \<le> max 0 n \<and> length evs = nat r \<and> interest e w' = interest e w \<and> (\<forall>ev \<in> set evs. reported (interest e w) ev)"
    "interest e (snd (gettimeofday os w)) = interest e w" "interest e (snd (os_time os w)) = interest e w"
proof -
  have l: "create_law K interest" "ctl_law K interest" "wait_law K interest" "clock_law os interest"
    using assms by (simp_all add: epoll_laws_def)
  show "epoll_create K w = (e, w') \<Longrightarrow> e \<noteq> - 1 \<Longrightarrow> interest e w' = Map.empty" using l(1) unfolding create_law_def by blast
  show "epoll_ctl K e op fd ee w = (r, w') \<Longrightarrow> interest e w' =
       (if r = - 1 then interest e w else (interest e w)(fd := if op = EPOLL_CTL_DEL then None else Some ee))"
    using l(2) unfolding ctl_law_def by blast
  show "epoll_wait K e n t w = ((r, evs), w') \<Longrightarrow>
     r \<le> max 0 n \<and> length evs = nat r \<and> interest e w' = interest e w \<and> (\<forall>ev \<in> set evs. reported (interest e w) ev)"
    using l(3) unfolding wait_law_def by blast
  show "interest e (snd (gettimeofday os w)) = interest e w" "interest e (snd (os_time os w)) = interest e w"
    using l(4) by (simp_all add: clock_law_def)
qed

lemma within_refl [simp]: "within a a"
  by (simp add: within_def)

lemma epoll_bits_mono: "within (epoll_bits (m AND NOT d)) (epoll_bits m)"
  by (auto simp: within_def epoll_bits_def has_bits bit_and_iff bit_not_iff EPOLLIN_def EPOLLOUT_def)

lemma within_trans: "within a b \<Longrightarrow> within b c \<Longrightarrow> within a c"
  unfolding within_def by (metis and.assoc)

text \<open>The effects of registering, of unregistering (whether or not \<open>epoll_ctl\<close> succeeds) and of adding slots.\<close>

lemma covers_set:
  assumes "covers il ms" "0 \<le> fd" "nat fd < length ms"
  shows "covers (il(fd := Some \<lparr>ee_events = epoll_bits m, ee_fd = fd\<rparr>)) (ms[nat fd := m])"
  using assms unfolding covers_def by (auto simp: nth_list_update)

lemma covers_unset:
  assumes "covers il ms" "0 \<le> fd" "nat fd < length ms"
  shows "covers (il(fd := None)) (ms[nat fd := AE_NONE])"
  using assms unfolding covers_def by (auto simp: nth_list_update)

lemma covers_less:
  assumes "covers il ms" "0 \<le> fd" "nat fd < length ms" "ms ! nat fd \<noteq> AE_NONE"
  shows "covers il (ms[nat fd := ms ! nat fd AND NOT d])"
proof -
  obtain ee where "il fd = Some ee" "within (epoll_bits (ms ! nat fd)) (ee_events ee)"
    using assms unfolding covers_def by fastforce
  then have "il fd = Some ee" "within (epoll_bits (ms ! nat fd AND NOT d)) (ee_events ee)"
    using within_trans [OF epoll_bits_mono] by blast+
  then show ?thesis using assms(1-3) unfolding covers_def by (auto simp: nth_list_update)
qed

lemma covers_grow:
  assumes "covers il ms" "resized ms ms'" "length ms \<le> length ms'"
  shows "covers il ms'"
proof -
  have "nat fd < length ms'" if "nat fd < length ms" for fd using that assms(3) by linarith
  then show ?thesis using assms(1,2) unfolding covers_def resized_def by (auto simp: AE_NONE_def split: if_splits)
qed

lemma epoll_collect_ok:
  assumes "n \<le> length (ep_events (apidata l))" "n \<le> length (fired l)" "j \<le> n"
    "\<forall>i < j. fired_fd (fired l ! i) = ee_fd (ep_events (apidata l) ! i)"
  shows "\<exists>f. epoll_collect l j n = Inr (l\<lparr>fired := f\<rparr>) \<and> length f = length (fired l) \<and>
    (\<forall>i < n. fired_fd (f ! i) = ee_fd (ep_events (apidata l) ! i))"
  using assms
proof (induction "n - j" arbitrary: l j)
  case 0
  then have "epoll_collect l j n = Inr l" unfolding epoll_collect.simps [of l j n] by simp
  then show ?case using 0 by (intro exI [of _ "fired l"]) simp
next
  case (Suc x)
  define e where "e = ep_events (apidata l) ! j"
  define f where "f = take j (fired l) @ [\<lparr>fired_fd = ee_fd e, fired_mask = fired_bits (ee_events e)\<rparr>] @ drop (Suc j) (fired l)"
  have j: "j < n" "x = n - Suc j" using Suc(2,5) by auto
  have eq: "epoll_collect l j n = epoll_collect (l\<lparr>fired := f\<rparr>) (Suc j) n"
    using j Suc(3,4) by (simp add: epoll_collect.simps [of l j n] rd_ok mem_write_ok f_def e_def)
  have len: "length f = length (fired l)" using j Suc(4) by (simp add: f_def)
  have "\<forall>i < Suc j. fired_fd (f ! i) = ee_fd (ep_events (apidata l) ! i)"
    using Suc(4,6) j by (auto simp: f_def nth_append less_Suc_eq e_def)
  then show ?case
    using Suc(1) [OF j(2), of "l\<lparr>fired := f\<rparr>"] Suc(3,4) j len unfolding eq by auto
qed

lemma epoll_timeout_value:
  assumes "0 \<le> s" "0 \<le> us" "s * 1000 + us div 1000 < 2 ^ 63"
  shows "epoll_timeout (Some (s, us)) = Inr (to_int (s * 1000 + us div 1000))"
proof -
  have "0 \<le> us div 1000" using assms(2) by (simp add: pos_imp_zdiv_nonneg_iff)
  then have "as_long (s * 1000) = Inr (s * 1000)" "as_long (s * 1000 + us div 1000) = Inr (s * 1000 + us div 1000)"
    using assms by (auto intro!: as_long_ok)
  then show ?thesis using assms(2) by (simp add: epoll_timeout_def c_div_def)
qed

lemma epoll_timeout_valid: "timeval_ok tvp \<Longrightarrow> \<exists>t. epoll_timeout tvp = Inr t"
  using epoll_timeout_value by (cases tvp) (auto simp: timeval_ok_def, simp add: epoll_timeout_def)

lemma epoll_poll_ok:
  assumes "files_wf l" "timeval_ok tvp" "epoll_sync K os interest (apidata l) (world l) (masks l)"
  shows "\<exists>cnt l'. epoll_aeApiPoll K l tvp = Inr (cnt, l') \<and> poll_frame l l' \<and>
    epoll_sync K os interest (apidata l') (world l') (masks l) \<and> fired_ok l' cnt"
proof -
  obtain t where t: "epoll_timeout tvp = Inr t" using epoll_timeout_valid [OF assms(2)] by blast
  obtain r evs w where wt: "epoll_wait K (epfd (apidata l)) (setsize l) t (world l) = ((r, evs), w)"
    by (metis prod.collapse)
  have laws: "epoll_laws K os interest" and len: "length (ep_events (apidata l)) = length (events l)"
    and wa: "covers (interest (epfd (apidata l)) (world l)) (masks l)" using assms(3) by (auto simp: epoll_sync_def)
  note law = epoll_lawsD(3) [OF laws wt]
  have sz: "length evs \<le> length (events l)" "length (fired l) = length (events l)" "nat r \<le> length (events l)"
    using law assms(1) by (auto simp: files_wf_def)
  define l1 where "l1 = l\<lparr>apidata := (apidata l)\<lparr>ep_events := evs @ drop (length evs) (ep_events (apidata l))\<rparr>, world := w\<rparr>"
  have eq: "epoll_aeApiPoll K l tvp = (if r > 0 then bindE (epoll_collect l1 0 (nat r)) (\<lambda>l. Inr (nat r, l)) else Inr (0, l1))"
    using t wt sz len unfolding epoll_aeApiPoll_def l1_def by (simp add: mem_write_ok Let_def)
  have sy: "epoll_sync K os interest (apidata l1) (world l1) (masks l)"
    using laws len law wa sz by (simp add: epoll_sync_def l1_def)
  have "nat r \<le> length (ep_events (apidata l1))" using sz len by (simp add: l1_def)
  then obtain f where f: "epoll_collect l1 0 (nat r) = Inr (l1\<lparr>fired := f\<rparr>)" "length f = length (fired l1)"
    "\<forall>i < nat r. fired_fd (f ! i) = ee_fd (ep_events (apidata l1) ! i)"
    using epoll_collect_ok [of "nat r" l1 0] sz by (auto simp: l1_def)
  have reg: "0 \<le> fired_fd (f ! i) \<and> nat (fired_fd (f ! i)) < length (events l)" if "i < nat r" for i
  proof -
    have "ep_events (apidata l1) ! i = evs ! i" "evs ! i \<in> set evs" using that law by (auto simp: l1_def nth_append)
    then have "reported (interest (epfd (apidata l)) (world l)) (evs ! i)" "fired_fd (f ! i) = ee_fd (evs ! i)"
      using f(3) that law by simp_all
    then show ?thesis using wa unfolding reported_def covers_def by auto
  qed
  show ?thesis
  proof (cases "r > 0")
    case True
    have "poll_frame l (l1\<lparr>fired := f\<rparr>)" unfolding poll_frame_def using f(2)
      by (intro exI [of _ "apidata l1"] exI [of _ w] exI [of _ f]) (simp add: l1_def)
    moreover have "fired_ok (l1\<lparr>fired := f\<rparr>) (nat r)" using reg f(2) sz by (auto simp: fired_ok_def l1_def)
    ultimately show ?thesis using True eq f(1) sy by (auto simp: l1_def)
  next
    case False
    have "poll_frame l l1" unfolding poll_frame_def
      by (intro exI [of _ "apidata l1"] exI [of _ w] exI [of _ "fired l"]) (simp add: l1_def)
    moreover have "fired_ok l1 0" by (simp add: fired_ok_def)
    ultimately show ?thesis using False eq sy by auto
  qed
qed

text \<open>What registering does, as a function of the result of \<open>epoll_ctl\<close>.\<close>

definition add_op :: "32 word \<Rightarrow> int" where
  "add_op m = (if m = AE_NONE then EPOLL_CTL_ADD else EPOLL_CTL_MOD)"

lemma epoll_add_eq:
  assumes "0 \<le> fd" "nat fd < length (events l)"
    "epoll_ctl K (epfd (apidata l)) (add_op (masks l ! nat fd)) fd
       \<lparr>ee_events = epoll_bits (masks l ! nat fd OR m), ee_fd = fd\<rparr> (world l) = (r, w)"
  shows "epoll_aeApiAddEvent K l fd m = Inr (if r = - 1 then - 1 else 0, l\<lparr>world := w\<rparr>)"
proof -
  have "fe_at l fd = Inr (events l ! nat fd)" using assms(1,2) by (simp add: fe_at_def nat_less_iff)
  then show ?thesis
    using assms(2,3) by (simp add: epoll_aeApiAddEvent_def add_op_def masks_nth or.commute [of m] Let_def)
qed

lemma add_op_not_del: "add_op m \<noteq> EPOLL_CTL_DEL"
  by (simp add: add_op_def EPOLL_CTL_ADD_def EPOLL_CTL_MOD_def EPOLL_CTL_DEL_def)

lemma world_frame: "api_frame l (l\<lparr>world := w\<rparr>)"
  unfolding api_frame_def by (intro exI [of _ "apidata l"] exI [of _ w]) simp

lemma epoll_add_ok:
  assumes "epoll_sync K os interest (apidata l) (world l) (masks l)" "0 \<le> fd" "nat fd < length (events l)"
  shows "\<exists>r l'. epoll_aeApiAddEvent K l fd m = Inr (r, l') \<and> api_frame l l' \<and>
    epoll_sync K os interest (apidata l') (world l') (if r = - 1 then masks l else (masks l)[nat fd := masks l ! nat fd OR m])"
proof -
  have laws: "epoll_laws K os interest" and len: "length (ep_events (apidata l)) = length (events l)"
    and wa: "covers (interest (epfd (apidata l)) (world l)) (masks l)" using assms(1) by (auto simp: epoll_sync_def)
  obtain r w where c: "epoll_ctl K (epfd (apidata l)) (add_op (masks l ! nat fd)) fd
      \<lparr>ee_events = epoll_bits (masks l ! nat fd OR m), ee_fd = fd\<rparr> (world l) = (r, w)" by fastforce
  note eq = epoll_add_eq [OF assms(2,3) c]
  have "covers (interest (epfd (apidata l)) w) (if r = - 1 then masks l else (masks l)[nat fd := masks l ! nat fd OR m])"
    using epoll_lawsD(2) [OF laws c] wa covers_set [OF wa assms(2)] assms(3) add_op_not_del by simp
  then show ?thesis unfolding eq using laws len world_frame by (auto simp: epoll_sync_def)
qed

text \<open>Unregistering, with \<open>epoll_ctl\<close> succeeding or failing.\<close>

lemma epoll_del_ok:
  assumes "epoll_sync K os interest (apidata l) (world l) (masks l)" "0 \<le> fd" "nat fd < length (events l)"
    "masks l ! nat fd \<noteq> AE_NONE"
  shows "\<exists>l'. epoll_aeApiDelEvent K l fd m = Inr l' \<and> api_frame l l' \<and>
    epoll_sync K os interest (apidata l') (world l') ((masks l)[nat fd := masks l ! nat fd AND NOT m])"
proof -
  have laws: "epoll_laws K os interest" and len: "length (ep_events (apidata l)) = length (events l)"
    and wa: "covers (interest (epfd (apidata l)) (world l)) (masks l)" using assms(1) by (auto simp: epoll_sync_def)
  define m' where "m' = masks l ! nat fd AND NOT m"
  define op where "op = (if m' \<noteq> AE_NONE then EPOLL_CTL_MOD else EPOLL_CTL_DEL)"
  obtain r w where c: "epoll_ctl K (epfd (apidata l)) op fd \<lparr>ee_events = epoll_bits m', ee_fd = fd\<rparr> (world l) = (r, w)" by fastforce
  have "fe_at l fd = Inr (events l ! nat fd)" using assms(2,3) by (simp add: fe_at_def nat_less_iff)
  then have eq: "epoll_aeApiDelEvent K l fd m = Inr (l\<lparr>world := w\<rparr>)"
    using c assms(3) by (simp add: epoll_aeApiDelEvent_def op_def m'_def masks_nth)
  have "op = EPOLL_CTL_DEL \<longleftrightarrow> m' = AE_NONE" by (simp add: op_def EPOLL_CTL_MOD_def EPOLL_CTL_DEL_def)
  then have "covers (interest (epfd (apidata l)) w) ((masks l)[nat fd := m'])"
    using epoll_lawsD(2) [OF laws c] covers_set [OF wa assms(2), of m'] covers_unset [OF wa assms(2)]
      covers_less [OF wa assms(2) _ assms(4), of m] assms(3)
    by (cases "m' = AE_NONE") (auto simp: m'_def split: if_splits)
  then show ?thesis unfolding eq using laws len world_frame by (auto simp: epoll_sync_def m'_def)
qed

interpretation epoll: polling_api "epoll_api K raw" os "\<lambda>n. epoll_laws K os interest" "epoll_sync K os interest" for K raw os interest
proof
  fix l l' :: "(epollState, 'a) aeEventLoop" and r sz :: int and fd m
  have f: "api_frame l (l\<lparr>apidata := a, world := w\<rparr>)" "api_frame l (l\<lparr>apidata := a\<rparr>)" for a w
    unfolding api_frame_def by (blast, intro exI [of _ a] exI [of _ "world l"], simp)
  show "aeApiCreate (epoll_api K raw) l = (r, l') \<Longrightarrow> api_frame l l'"
    using f world_frame by (auto simp: epoll_api_def epoll_aeApiCreate_def Let_def split: prod.splits if_splits)
  show "aeApiCreate (epoll_api K raw) l = (r, l') \<Longrightarrow> r \<noteq> - 1 \<Longrightarrow> epoll_laws K os interest \<Longrightarrow>
    epoll_sync K os interest (apidata l') (world l') (replicate (nat (setsize l)) 0)"
    using epoll_lawsD(1) [of K os interest]
    by (auto simp: epoll_api_def epoll_aeApiCreate_def epoll_sync_def Let_def covers_def AE_NONE_def split: prod.splits if_splits)
  show "aeApiResize (epoll_api K raw) l sz = (r, l') \<Longrightarrow> api_frame l l'"
    using f by (auto simp: epoll_api_def epoll_aeApiResize_def)
  show "epoll_sync K os interest (apidata l) (world l) (masks l) \<Longrightarrow> length (events l) \<le> nat sz \<Longrightarrow>
    resizes (epoll_sync K os interest) l sz (aeApiResize (epoll_api K raw) l sz)"
    using covers_grow [of _ "masks l"] by (auto simp: resizes_def epoll_api_def epoll_aeApiResize_def epoll_sync_def)
qed (auto simp: epoll_api_def epoll_add_ok epoll_del_ok epoll_poll_ok, auto simp: epoll_sync_def epoll_lawsD(4,5))

end
