(* ===== verification/Event_Loop.thy ===== *)
theory Event_Loop
  imports Ae_Select Ae_Epoll
begin

unbundle bit_operations_syntax

text \<open>
  The event loop of \<open>ae.c\<close> put together with its polling APIs: the guarantees of the interface, stated for the loop on
  \<open>epoll\<close> and on \<open>select\<close>.
\<close>

section \<open>The loop on epoll\<close>

text \<open>A kernel with one epoll instance, whose world is the interest list, and in which descriptor 0 is always readable
  when it is watched for reading. Adding a descriptor that is watched fails, and so does changing or removing one that is not.\<close>

definition small_epoll :: "interest_list epollCalls" where
  "small_epoll = \<lparr>epoll_create = (\<lambda>w. (3, Map.empty)),
     epoll_ctl = (\<lambda>e op fd ee w. if op = EPOLL_CTL_ADD \<longleftrightarrow> w fd \<noteq> None then (- 1, w)
       else (0, w(fd := if op = EPOLL_CTL_DEL then None else Some ee))),
     epoll_wait = (\<lambda>e n t w. case w 0 of
         None \<Rightarrow> ((0, []), w)
       | Some ee \<Rightarrow> if 0 < n \<and> has (ee_events ee) EPOLLIN then ((1, [\<lparr>ee_events = EPOLLIN, ee_fd = ee_fd ee\<rparr>]), w) else ((0, []), w)),
     epoll_close = (\<lambda>e w. Map.empty)\<rparr>"

lemma small_epoll_wait: "wait_law small_epoll (\<lambda>e w. w)"
proof -
  have "within EPOLLIN (a OR EPOLLERR OR EPOLLHUP)" if "has a EPOLLIN" for a
  proof -
    have "odd a" using that by (auto simp: has_def EPOLLIN_def and_one_eq even_iff_mod_2_eq_zero)
    then have "odd (a OR EPOLLERR OR EPOLLHUP)" by (simp add: even_or_iff)
    then show ?thesis by (simp add: within_def EPOLLIN_def one_and_eq odd_iff_mod_2_eq_one)
  qed
  then show ?thesis
    by (auto simp: wait_law_def small_epoll_def reported_def split: option.splits if_splits)
qed

lemma small_epoll_laws: "epoll_laws small_epoll (clock_at 5 0) (\<lambda>e w. w)"
  using small_epoll_wait
  by (auto simp: epoll_laws_def create_law_def ctl_law_def clock_law_def small_epoll_def clock_at_def split: if_splits)

text \<open>A loop with two slots, the first one registered for reading, and one time event marked as deleted.\<close>

definition epoll_loop :: "(epollState, interest_list) aeEventLoop" where
  "epoll_loop = \<lparr>maxfd = 0, setsize = 2, timeEventNextId = 1, lastTime = 0,
     events = [\<lparr>fe_mask = 1, rfileProc = 0, wfileProc = 0, fe_clientData = 0\<rparr>,
               \<lparr>fe_mask = 0, rfileProc = 0, wfileProc = 0, fe_clientData = 0\<rparr>], events_gen = 0,
     fired = [\<lparr>fired_fd = 0, fired_mask = 0\<rparr>, \<lparr>fired_fd = 0, fired_mask = 0\<rparr>],
     timeEvents = [\<lparr>te_addr = 0, te_id = - 1, when_sec = 0, when_ms = 0, timeProc = 0, finalizerProc = None, te_clientData = 0\<rparr>],
     te_fresh = 1, stop = False,
     apidata = \<lparr>epfd = 3, ep_events = [\<lparr>ee_events = 0, ee_fd = 0\<rparr>, \<lparr>ee_events = 0, ee_fd = 0\<rparr>]\<rparr>,
     beforesleep = None, aftersleep = None, world = [0 \<mapsto> \<lparr>ee_events = EPOLLIN, ee_fd = 0\<rparr>]\<rparr>"

lemma epoll_loop_inv: "ae_inv (epoll_sync small_epoll (clock_at 5 0) (\<lambda>e w. w)) epoll_loop"
proof -
  have "covers [0 \<mapsto> \<lparr>ee_events = EPOLLIN, ee_fd = 0\<rparr>] [1, 0]"
    by (auto simp: covers_def epoll_bits_def has_def ae_consts EPOLLIN_def less_Suc_eq within_def)
  then show ?thesis
    using small_epoll_laws
    by (auto simp: ae_inv_def epoll_sync_def epoll_loop_def files_wf_def timers_wf_def live_ids_def masks_def ae_consts less_Suc_eq)
qed

text \<open>C30: with epoll below it, one round of the event loop returns, does not fault and keeps the invariant: the arrays
  and \<open>maxfd\<close> agree, the kernel watches every registered descriptor for its events and nothing outside the arrays, with the
  descriptor as user data, and the time events are well formed. Time events marked as deleted before the round are gone after it.
  Calls of \<open>epoll_ctl\<close> may fail. The callbacks may use the operations of the loop, except resizing it and processing events;
  the clock and the times of the events are within \<open>2 ^ 52\<close> seconds of the epoch.\<close>

theorem epoll_process_events_safe:
  assumes "ae_inv (epoll_sync K os interest) l" "procs_ok (epoll_sync K os interest) P" "times_fit l" "clock_fits os"
  shows "\<exists>n l'. aeProcessEvents (epoll_api K raw) P os l flags = Some (Inr (n, l')) \<and>
    ae_inv (epoll_sync K os interest) l' \<and> 0 \<le> n \<and>
    (has flags AE_TIME_EVENTS \<longrightarrow> deleted_addrs l \<inter> te_addr ` set (timeEvents l') = {})"
  by (rule epoll.process_events_ok [OF assms(2,1,3,4)])

theorem epoll_process_events_safe_witness:
  "\<exists>n l'. aeProcessEvents (epoll_api small_epoll (\<lambda>i. \<lparr>ee_events = 0, ee_fd = 0\<rparr>))
      (busy_procs (epoll_api small_epoll (\<lambda>i. \<lparr>ee_events = 0, ee_fd = 0\<rparr>)) (clock_at 5 0)) (clock_at 5 0) epoll_loop AE_ALL_EVENTS =
        Some (Inr (n, l')) \<and> 0 \<notin> te_addr ` set (timeEvents l')"
proof -
  have "0 \<in> deleted_addrs epoll_loop" "has AE_ALL_EVENTS AE_TIME_EVENTS"
    by (simp_all add: deleted_addrs_def epoll_loop_def ae_consts has_def image_iff)
  moreover have "times_fit epoll_loop" "clock_fits (clock_at 5 0)"
    by (simp_all add: times_fit_def epoll_loop_def clock_fits_def clock_at_def)
  ultimately show ?thesis
    using epoll_process_events_safe [OF epoll_loop_inv epoll.busy_procs_ok, of "\<lambda>i. \<lparr>ee_events = 0, ee_fd = 0\<rparr>"
      "\<lambda>i. \<lparr>ee_events = 0, ee_fd = 0\<rparr>" AE_ALL_EVENTS] by blast
qed

text \<open>C32: registering events with epoll below the loop. A descriptor outside the loop and a failing \<open>epoll_ctl\<close> give
  \<open>AE_ERR\<close> and leave the registered events and the kernel's interest list as they were. Otherwise the result is \<open>AE_OK\<close>: the
  events are added to the slot, its callbacks for the new events and its data are set, \<open>maxfd\<close> covers the descriptor, and the kernel
  watches the descriptor for exactly the union of the old and the new events, with the descriptor as user data.\<close>

theorem epoll_registration:
  assumes "ae_inv (epoll_sync K os interest) l" "0 \<le> fd" "m \<noteq> AE_NONE"
    "u = masks l ! nat fd OR m" "ee = \<lparr>ee_events = epoll_bits u, ee_fd = fd\<rparr>"
  shows "\<exists>r l'. aeCreateFileEvent (epoll_api K raw) l fd m p c = Inr (r, l') \<and> ae_inv (epoll_sync K os interest) l' \<and>
    (if setsize l \<le> fd \<or> fst (epoll_ctl K (epfd (apidata l)) (add_op (masks l ! nat fd)) fd ee (world l)) = - 1
     then r = AE_ERR \<and> events l' = events l \<and> maxfd l' = maxfd l \<and>
       interest (epfd (apidata l')) (world l') = interest (epfd (apidata l)) (world l)
     else r = AE_OK \<and> maxfd l' = max (maxfd l) fd \<and>
       events l' = (events l)[nat fd := \<lparr>fe_mask = u, rfileProc = (if has m AE_READABLE then p else rfileProc (events l ! nat fd)),
         wfileProc = (if has m AE_WRITABLE then p else wfileProc (events l ! nat fd)), fe_clientData = c\<rparr>] \<and>
       interest (epfd (apidata l')) (world l') = (interest (epfd (apidata l)) (world l))(fd \<mapsto> ee))"
proof -
  obtain r l' where l': "aeCreateFileEvent (epoll_api K raw) l fd m p c = Inr (r, l')" "ae_inv (epoll_sync K os interest) l'"
    using epoll.create_file_inv [OF assms(1-3), of raw p c] by blast
  have laws: "epoll_laws K os interest" using assms(1) by (simp add: ae_inv_def epoll_sync_def)
  show ?thesis
  proof (cases "setsize l \<le> fd")
    case True
    then show ?thesis using l' by (auto simp: aeCreateFileEvent_def)
  next
    case False
    then have r: "nat fd < length (events l)" "fe_at l fd = Inr (events l ! nat fd)"
      using assms(1,2) by (auto simp: ae_inv_def files_wf_def fe_at_def)
    obtain x w where c: "epoll_ctl K (epfd (apidata l)) (add_op (masks l ! nat fd)) fd ee (world l) = (x, w)" by fastforce
    note add = epoll_add_eq [OF assms(2) r(1) c [unfolded assms(4,5)]]
    note law = epoll_lawsD(2) [OF laws c]
    have at: "fe_at (l\<lparr>world := w\<rparr>) fd = Inr (events l ! nat fd)" using r(2) by (simp add: fe_at_def split: if_splits)
    have u: "fe_mask (events l ! nat fd) OR m = u" using assms(4) r(1) by (simp add: masks_nth)
    show ?thesis
    proof (cases "x = - 1")
      case True
      then have "r = AE_ERR" "l' = l\<lparr>world := w\<rparr>"
        using l'(1) False r(2) add by (auto simp: aeCreateFileEvent_def epoll_api_def)
      then show ?thesis using l' True c law by (intro exI [of _ r] exI [of _ l']) simp
    next
      case ok: False
      obtain a rp wp d where fe: "events l ! nat fd = \<lparr>fe_mask = a, rfileProc = rp, wfileProc = wp, fe_clientData = d\<rparr>"
        by (cases "events l ! nat fd") auto
      have "r = AE_OK" "maxfd l' = max (maxfd l) fd" "apidata l' = apidata l" "world l' = w"
        "events l' = (events l)[nat fd := \<lparr>fe_mask = u, rfileProc = (if has m AE_READABLE then p else rp),
           wfileProc = (if has m AE_WRITABLE then p else wp), fe_clientData = c\<rparr>]"
        using l'(1) False ok r(2) add at u unfolding fe
        by (auto simp: aeCreateFileEvent_def epoll_api_def set_fe_def max_def Let_def split: if_splits)
      then show ?thesis using l' False ok c law add_op_not_del unfolding fe by (intro exI [of _ r] exI [of _ l']) simp
    qed
  qed
qed

theorem epoll_registration_witness:
  "\<exists>l'. aeCreateFileEvent (epoll_api small_epoll (\<lambda>i. \<lparr>ee_events = 0, ee_fd = 0\<rparr>)) epoll_loop 0 AE_WRITABLE 7 0 = Inr (AE_OK, l') \<and>
    ae_inv (epoll_sync small_epoll (clock_at 5 0) (\<lambda>e w. w)) l' \<and> world l' 0 = Some \<lparr>ee_events = 5, ee_fd = 0\<rparr> \<and>
    wfileProc (events l' ! 0) = 7 \<and> rfileProc (events l' ! 0) = 0"
proof -
  have m: "(0 :: int) \<le> 0" "AE_WRITABLE \<noteq> AE_NONE" "masks epoll_loop ! nat 0 = 1" "add_op 1 = EPOLL_CTL_MOD" "epoll_bits 3 = 5"
    "(1 :: 32 word) OR AE_WRITABLE = 3" "setsize epoll_loop = 2" "length (events epoll_loop) = 2" "rfileProc (events epoll_loop ! 0) = 0"
    "\<not> has AE_WRITABLE AE_READABLE" "has AE_WRITABLE AE_WRITABLE"
    by (simp_all add: ae_consts epoll_loop_def masks_def add_op_def epoll_bits_def has_def EPOLLIN_def EPOLLOUT_def)
  have "fst (epoll_ctl small_epoll (epfd (apidata epoll_loop)) EPOLL_CTL_MOD 0 ee (world epoll_loop)) = 0" for ee
    by (simp add: small_epoll_def epoll_loop_def EPOLL_CTL_ADD_def EPOLL_CTL_MOD_def EPOLL_CTL_DEL_def)
  then show ?thesis
    using epoll_registration [OF epoll_loop_inv m(1,2) refl refl, of "\<lambda>i. \<lparr>ee_events = 0, ee_fd = 0\<rparr>" 7 0]
    unfolding m(3) m(4) m(6) by (auto simp: m)
qed

text \<open>C36: a sleep of \<open>d\<close> milliseconds that \<open>aeProcessEvents\<close> asks for reaches \<open>epoll_wait\<close> modulo \<open>2 ^ 32\<close>, as a signed number: it is
  \<open>d\<close> exactly if \<open>d\<close> is less than \<open>2 ^ 31\<close> (about 25 days), and for a timer further away it is a shorter timeout or a negative
  one; negative ones are those for which \<open>d\<close> modulo \<open>2 ^ 32\<close> is \<open>2 ^ 31\<close> or more. \<open>aeApiPoll\<close> calls \<open>epoll_wait\<close> with this timeout and
  stores its events.\<close>

theorem epoll_timeout_range:
  assumes "0 \<le> d" "d < 2 ^ 63"
  shows "\<exists>t. epoll_timeout (Some (d div 1000, d mod 1000 * 1000)) = Inr t \<and> t mod 2 ^ 32 = d mod 2 ^ 32 \<and>
    - (2 ^ 31) \<le> t \<and> t < 2 ^ 31 \<and> (t = d \<longleftrightarrow> d < 2 ^ 31) \<and> (t < 0 \<longleftrightarrow> 2 ^ 31 \<le> d mod 2 ^ 32) \<and>
    (\<forall>retval w. epoll_wait K (epfd (apidata l)) (setsize l) t (world l) = ((retval, []), w) \<longrightarrow> retval \<le> 0 \<longrightarrow>
       epoll_aeApiPoll K l (Some (d div 1000, d mod 1000 * 1000)) = Inr (0, l\<lparr>world := w\<rparr>))"
proof -
  have e: "epoll_timeout (Some (d div 1000, d mod 1000 * 1000)) = Inr (to_int d)"
    using epoll_timeout_value [of "d div 1000" "d mod 1000 * 1000"] assms by (simp add: pos_imp_zdiv_nonneg_iff)
  have m: "to_int d mod 2 ^ 32 = d mod 2 ^ 32" unfolding to_int_def mod_diff_left_eq by simp
  have b: "- (2 ^ 31) \<le> to_int d" "to_int d < 2 ^ 31" unfolding to_int_def using pos_mod_bound [of "2 ^ 32" "d + 2 ^ 31"] by simp_all
  have "to_int d = d \<longleftrightarrow> d < 2 ^ 31" using assms(1) b by (auto simp: to_int_def)
  moreover have "to_int d < 0 \<longleftrightarrow> 2 ^ 31 \<le> d mod 2 ^ 32"
  proof (cases "to_int d < 0")
    case True
    have "to_int d mod 2 ^ 32 = to_int d + 2 ^ 32" using True b(1) mod_pos_pos_trivial [of "to_int d + 2 ^ 32" "2 ^ 32"] by simp
    then show ?thesis using True m b(1) by simp
  next
    case False
    then have "to_int d mod 2 ^ 32 = to_int d" using b(2) by (intro mod_pos_pos_trivial) simp_all
    then show ?thesis using False m b(2) by simp
  qed
  ultimately show ?thesis using e m b
    by (intro exI [of _ "to_int d"]) (auto simp: epoll_aeApiPoll_def mem_write_def Let_def)
qed

theorem epoll_timeout_range_witness:
  "(\<exists>t. epoll_timeout (Some (2592000, 0)) = Inr t \<and> t < 0) \<and> (\<exists>t. epoll_timeout (Some (4294967, 300000)) = Inr t \<and> t = 4) \<and>
   epoll_timeout (Some (86400, 500000)) = Inr 86400500"
proof -
  have "\<exists>t. epoll_timeout (Some (2592000, 0)) = Inr t \<and> t < 0"
    using epoll_timeout_range [of 2592000000 small_epoll epoll_loop] by auto
  moreover have "\<exists>t. epoll_timeout (Some (4294967, 300000)) = Inr t \<and> t = 4"
    using epoll_timeout_range [of 4294967300 small_epoll epoll_loop] by (auto simp: mod_pos_pos_trivial)
  moreover have "epoll_timeout (Some (86400, 500000)) = Inr 86400500"
    using epoll_timeout_range [of 86400500 small_epoll epoll_loop] by auto
  ultimately show ?thesis by blast
qed

section \<open>The loop on select\<close>

text \<open>Rounds of the loop: the callback before sleeping, then the file events and the time events.\<close>

definition loop_round ::
  "('a, 'w) aeEventLoop aeApi \<Rightarrow> ('a, 'w) aeEventLoop aeProcs \<Rightarrow> 'w aeOs \<Rightarrow> ('a, 'w) aeEventLoop \<Rightarrow>
   ('a, 'w) aeEventLoop outcome option" where
  "loop_round A P os l =
     bindO (Some (if beforesleep l = None then Inr l else sleep_proc P (the (beforesleep l)) l)) (\<lambda>l.
     bindO (aeProcessEvents A P os l (AE_FILE_EVENTS OR AE_TIME_EVENTS OR AE_CALL_AFTER_SLEEP)) (\<lambda>(n, l). Some (Inr l)))"

fun rounds ::
  "('a, 'w) aeEventLoop aeApi \<Rightarrow> ('a, 'w) aeEventLoop aeProcs \<Rightarrow> 'w aeOs \<Rightarrow> nat \<Rightarrow> ('a, 'w) aeEventLoop \<Rightarrow>
   ('a, 'w) aeEventLoop outcome option" where
  "rounds A P os 0 l = Some (Inr l)"
| "rounds A P os (Suc n) l = bindO (loop_round A P os l) (rounds A P os n)"

text \<open>A result with which the loop goes on, and one with which it ends.\<close>

definition goes_on :: "('a, 'w) aeEventLoop outcome option \<Rightarrow> bool" where
  "goes_on x \<longleftrightarrow> (\<exists>l. x = Some (Inr l) \<and> \<not> stop l)"

definition ends :: "('a, 'w) aeEventLoop outcome \<Rightarrow> bool" where
  "ends r \<longleftrightarrow> (\<forall>l. r = Inr l \<longrightarrow> stop l)"

lemma main_step_round: "main_step A P os l = loop_round A P os l"
proof -
  have "AE_ALL_EVENTS OR AE_CALL_AFTER_SLEEP = AE_FILE_EVENTS OR AE_TIME_EVENTS OR AE_CALL_AFTER_SLEEP" by (simp add: ae_consts)
  then show ?thesis by (simp add: main_step_def loop_round_def split: option.split)
qed

lemma rounds_Suc:
  assumes "loop_round A P os l = Some (Inr l1)" "\<not> stop l"
    "rounds A P os n l1 = Some r" "ends r" "\<forall>k<n. goes_on (rounds A P os k l1)"
  shows "\<exists>n. rounds A P os n l = Some r \<and> ends r \<and> (\<forall>k<n. goes_on (rounds A P os k l))"
proof -
  have "goes_on (rounds A P os k l)" if "k < Suc n" for k
    using assms(1,2,5) that by (cases k) (simp_all add: goes_on_def)
  then show ?thesis using assms(1,3,4) by (intro exI [of _ "Suc n"]) simp
qed

lemma main_loop_returns:
  "main_loop A P os l = Some r \<Longrightarrow> \<exists>n. rounds A P os n l = Some r \<and> ends r \<and> (\<forall>k<n. goes_on (rounds A P os k l))"
proof (rule main_loop.raw_induct [where Pa = "\<lambda>(((A, P), os), l) r.
      \<exists>n. rounds A P os n l = Some r \<and> ends r \<and> (\<forall>k<n. goes_on (rounds A P os k l))", unfolded prod.case],
    goal_cases)
  case (1 main A P os l r)
  show ?case
  proof (cases "stop l")
    case True
    then show ?thesis using 1(3) by (intro exI [of _ 0]) (auto simp: ends_def)
  next
    case False
    then consider e where "loop_round A P os l = Some (Inl e)" "r = Inl e"
      | l1 where "loop_round A P os l = Some (Inr l1)" "main A P os l1 = Some r"
      using 1(3) by (auto simp: main_step_round split: option.splits sum.splits)
    then show ?thesis
    proof cases
      case 1
      then show ?thesis using False by (intro exI [of _ 1]) (simp add: ends_def goes_on_def)
    next
      case 2
      then show ?thesis using 1(2) [OF 2(2)] rounds_Suc [OF 2(1) False] by blast
    qed
  qed
qed assumption

lemma main_loop_reaches:
  "rounds A P os n l = Some r \<Longrightarrow> ends r \<Longrightarrow> \<forall>k<n. goes_on (rounds A P os k l) \<Longrightarrow> main_loop A P os l = Some r"
proof (induction n arbitrary: l)
  case 0
  then show ?case by (subst main_loop.simps) (simp add: ends_def)
next
  case (Suc n)
  have l: "\<not> stop l" using Suc.prems(3) by (auto simp: goes_on_def)
  show ?case
  proof (cases "loop_round A P os l")
    case (Some x)
    have "goes_on (rounds A P os (Suc k) l)" if "k < n" for k using Suc.prems(3) that by blast
    then show ?thesis using Suc.IH Suc.prems(1,2) l Some
      by (subst main_loop.simps) (cases x; auto simp: main_step_round)
  qed (use Suc.prems(1) in simp)
qed

text \<open>C31: for every polling API, \<open>aeMain\<close> runs rounds, each consisting of the callback before sleeping and the processing of file and
  time events (with the callback after sleeping), until the first round after which the loop is stopped: it returns a loop if and only
  if some number of rounds, at least one, ends with this loop stopped and none of the rounds before did stop it, whatever \<open>stop\<close> was
  before the call; and it faults exactly if one of these rounds faults.\<close>

theorem main_runs_rounds:
  "(aeMain A P os l = Some (Inr l') \<longleftrightarrow>
     (\<exists>n>0. rounds A P os n (l\<lparr>stop := False\<rparr>) = Some (Inr l') \<and> stop l' \<and> (\<forall>k<n. goes_on (rounds A P os k (l\<lparr>stop := False\<rparr>))))) \<and>
   (aeMain A P os l = Some (Inl e) \<longleftrightarrow>
     (\<exists>n>0. rounds A P os n (l\<lparr>stop := False\<rparr>) = Some (Inl e) \<and> (\<forall>k<n. goes_on (rounds A P os k (l\<lparr>stop := False\<rparr>)))))"
proof -
  let ?l = "l\<lparr>stop := False\<rparr>"
  have "main_loop A P os ?l = Some r \<longleftrightarrow> (\<exists>n>0. rounds A P os n ?l = Some r \<and> ends r \<and> (\<forall>k<n. goes_on (rounds A P os k ?l)))" for r
  proof
    assume "main_loop A P os ?l = Some r"
    then obtain n where n: "rounds A P os n ?l = Some r" "ends r" "\<forall>k<n. goes_on (rounds A P os k ?l)" using main_loop_returns by blast
    then have "n \<noteq> 0" by (cases n) (auto simp: ends_def)
    with n show "\<exists>n>0. rounds A P os n ?l = Some r \<and> ends r \<and> (\<forall>k<n. goes_on (rounds A P os k ?l))" by blast
  qed (use main_loop_reaches in blast)
  then show ?thesis by (simp add: aeMain_def ends_def)
qed

definition no_events :: "unit select_call" where
  "no_events = (\<lambda>nfds r w tvp wd. ((0, (\<lambda>i. False), (\<lambda>i. False)), wd))"

definition select_loop :: "(selectState, unit) aeEventLoop" where
  "select_loop = \<lparr>maxfd = - 1, setsize = 0, timeEventNextId = 0, lastTime = 0, events = [], events_gen = 0, fired = [],
     timeEvents = [], te_fresh = 0, stop = False,
     apidata = \<lparr>rfds = FD_ZERO, wfds = FD_ZERO, rfds_copy = FD_ZERO, wfds_copy = FD_ZERO\<rparr>,
     beforesleep = Some 0, aftersleep = None, world = ()\<rparr>"

lemma select_loop_inv: "ae_inv select_sync select_loop"
  by (simp add: ae_inv_def select_loop_def files_wf_def timers_wf_def live_ids_def masks_def select_sync_def FD_ZERO_def)

lemma select_loop_round:
  "\<exists>l'. loop_round (select_api no_events) (busy_procs A (clock_at 5 0)) (clock_at 5 0) select_loop = Some (Inr l') \<and> stop l'"
proof -
  have "poll_timeout (clock_at 5 0) l (AE_FILE_EVENTS OR AE_TIME_EVENTS OR AE_CALL_AFTER_SLEEP) = Inr (None, l)" if "timeEvents l = []"
    for l :: "(selectState, unit) aeEventLoop"
    using that by (simp add: poll_timeout_def aeSearchNearestTimer_def has_def ae_consts)
  moreover have "timeEvents (aeStop select_loop) = []" by (simp add: aeStop_def select_loop_def)
  ultimately show ?thesis
    unfolding loop_round_def busy_procs_def
    by (auto simp: aeProcessEvents_def has_def ae_consts process_file_events_def select_api_def
      select_aeApiPoll_def no_events_def file_loop.simps [of _ _ 0 0] processTimeEvents_def begin_time_events_def clock_at_def
      time_loop.simps [of _ _ _ _ None] aeStop_def select_loop_def Let_def te_head_def)
qed

theorem main_runs_rounds_witness:
  "\<exists>l'. aeMain (select_api no_events) (busy_procs (select_api no_events) (clock_at 5 0)) (clock_at 5 0) (select_loop\<lparr>stop := True\<rparr>) =
     Some (Inr l') \<and> stop l' \<and>
     rounds (select_api no_events) (busy_procs (select_api no_events) (clock_at 5 0)) (clock_at 5 0) 1 select_loop = Some (Inr l')"
proof -
  let ?A = "select_api no_events" and ?os = "clock_at 5 0 :: unit aeOs"
  obtain l' where "loop_round ?A (busy_procs ?A ?os) ?os select_loop = Some (Inr l')" "stop l'"
    using select_loop_round by blast
  then have l': "rounds ?A (busy_procs ?A ?os) ?os 1 select_loop = Some (Inr l')" "stop l'" by simp_all
  have "select_loop\<lparr>stop := True, stop := False\<rparr> = select_loop" "goes_on (Some (Inr select_loop))"
    by (simp_all add: select_loop_def goes_on_def)
  then have "\<exists>n>0. rounds ?A (busy_procs ?A ?os) ?os n (select_loop\<lparr>stop := True, stop := False\<rparr>) = Some (Inr l') \<and> stop l' \<and>
      (\<forall>k<n. goes_on (rounds ?A (busy_procs ?A ?os) ?os k (select_loop\<lparr>stop := True, stop := False\<rparr>)))"
    using l' by (intro exI [of _ 1]) simp
  then show ?thesis using l' main_runs_rounds [of ?A "busy_procs ?A ?os" ?os "select_loop\<lparr>stop := True\<rparr>" l'] by blast
qed

text \<open>C35: resizing the loop on select. The new size is refused, with nothing changed, when a registered descriptor
  would fall out or the descriptor sets are too small; otherwise every slot that stays keeps its events and every new slot
  is empty.\<close>

theorem select_resize:
  assumes "ae_inv select_sync l" "n \<noteq> setsize l"
  shows "\<exists>r l'. aeResizeSetSize (select_api sel) raw_fe raw_fired l n = (r, l') \<and> ae_inv select_sync l' \<and>
    (if n \<le> maxfd l \<or> FD_SETSIZE \<le> n then r = AE_ERR \<and> l' = l
     else r = AE_OK \<and> setsize l' = n \<and> length (events l') = nat n \<and>
       (\<forall>i < nat n. masks l' ! i = (if i < length (masks l) then masks l ! i else AE_NONE)))"
proof -
  obtain r l' where l': "aeResizeSetSize (select_api sel) raw_fe raw_fired l n = (r, l')"
    by (cases "aeResizeSetSize (select_api sel) raw_fe raw_fired l n") auto
  note inv = select.resize_inv [OF assms(1) l' assms(1)]
  have "if n \<le> maxfd l \<or> FD_SETSIZE \<le> n then r = AE_ERR \<and> l' = l else r = AE_OK"
    using l' assms(2) by (auto simp: aeResizeSetSize_def select_api_def select_aeApiResize_def split: if_splits)
  moreover have "length (events l') = nat (setsize l')" using inv(1) by (simp add: ae_inv_def files_wf_def)
  ultimately show ?thesis using l' inv(1,4) by (auto split: if_splits)
qed

definition zero_fe :: "nat \<Rightarrow> aeFileEvent" where
  "zero_fe i = \<lparr>fe_mask = 0, rfileProc = 0, wfileProc = 0, fe_clientData = 0\<rparr>"

definition zero_fired :: "nat \<Rightarrow> aeFiredEvent" where
  "zero_fired i = \<lparr>fired_fd = 0, fired_mask = 0\<rparr>"

theorem select_resize_witness:
  "fst (aeResizeSetSize (select_api no_events) zero_fe zero_fired select_loop 2000) = AE_ERR \<and>
   fst (aeResizeSetSize (select_api no_events) zero_fe zero_fired select_loop 10) = AE_OK"
  using select_resize [OF select_loop_inv, of 2000 no_events zero_fe zero_fired]
    select_resize [OF select_loop_inv, of 10 no_events zero_fe zero_fired]
  by (auto simp: select_loop_def FD_SETSIZE_def)

text \<open>Creating a loop does not check the size against \<open>FD_SETSIZE\<close>, and registering a descriptor behind the sets writes
  outside of them.\<close>

lemma select_create_unchecked:
  assumes "FD_SETSIZE \<le> fd" "fd < setsize l" "length (events l) = nat (setsize l)" "length (rfds (apidata l)) = nat FD_SETSIZE"
    and "has m AE_READABLE"
  shows "aeCreateFileEvent (select_api sel) l fd m p c = Inl OutOfBounds"
  using assms by (simp add: aeCreateFileEvent_def fe_at_def select_api_def select_aeApiAddEvent_def mark_fds_def FD_SET_def FD_SETSIZE_def)

end
