(* ===== verification/Rax_Node.thy ===== *)
theory Rax_Node
  imports Prelude
begin

text \<open>
  The memory layout of the nodes of the radix tree (\<open>rax.c\<close>, \<open>rax.h\<close>). A node is its header and its block of
  data bytes: the characters of the edges, padding, the child pointers and, in a key with a value, the
  value pointer. The operations move bytes around with \<open>memmove\<close>; here they are shown to insert, remove
  and replace list elements (\<open>holds\<close> relates a node to its lists).
\<close>

section \<open>Layout\<close>

text \<open>A pointer is eight bytes.\<close>

type_synonym ptr8 = "byte list"

record raxNode =
  iskey :: bool
  isnull :: bool
  iscompr :: bool
  nsize :: nat
  ndata :: "byte list"

definition raxPadding :: "nat \<Rightarrow> nat" where
  "raxPadding n = (8 - (n + 4) mod 8) mod 8"

definition has_value :: "raxNode \<Rightarrow> bool" where
  "has_value n \<longleftrightarrow> iskey n \<and> \<not> isnull n"

text \<open>Offsets are relative to \<open>data\<close>, behind the four bytes of the header.\<close>

definition HDR :: nat where "HDR = 4"

definition raxNodeCurrentLength :: "raxNode \<Rightarrow> nat" where
  "raxNodeCurrentLength n = HDR + nsize n + raxPadding (nsize n) + (if iscompr n then 8 else 8 * nsize n) +
     (if has_value n then 8 else 0)"

definition raxNodeFirstChildPtr :: "raxNode \<Rightarrow> nat" where
  "raxNodeFirstChildPtr n = nsize n + raxPadding (nsize n)"

definition raxNodeLastChildPtr :: "raxNode \<Rightarrow> nat" where
  "raxNodeLastChildPtr n = raxNodeCurrentLength n - 8 - (if has_value n then 8 else 0) - HDR"

text \<open>\<open>realloc\<close> fails or keeps the bytes and adds arbitrary ones; \<open>malloc\<close> gives arbitrary bytes.\<close>

type_synonym garbage = "(nat \<Rightarrow> byte) option"

definition resize_block :: "(nat \<Rightarrow> byte) \<Rightarrow> byte list \<Rightarrow> nat \<Rightarrow> byte list" where
  "resize_block g b n = map (\<lambda>i. if i < length b then b ! i else g i) [0..<n]"

definition memmove :: "byte list \<Rightarrow> nat \<Rightarrow> nat \<Rightarrow> nat \<Rightarrow> byte list outcome" where
  "memmove b dst src n = bindE (mem_read b src n) (mem_write b dst)"

section \<open>Operations\<close>

definition raxNewNode :: "garbage \<Rightarrow> nat \<Rightarrow> bool \<Rightarrow> raxNode option" where
  "raxNewNode m children datafield =
     (case m of None \<Rightarrow> None
      | Some g \<Rightarrow>
          let nodesize = HDR + children + raxPadding children + 8 * children + (if datafield then 8 else 0)
          in Some \<lparr>iskey = False, isnull = False, iscompr = False, nsize = children, ndata = map g [0..<nodesize - HDR]\<rparr>)"

definition raxReallocForData :: "garbage \<Rightarrow> raxNode \<Rightarrow> ptr8 option \<Rightarrow> raxNode option" where
  "raxReallocForData m n data =
     (if data = None then Some n
      else case m of None \<Rightarrow> None
           | Some g \<Rightarrow> Some (n\<lparr>ndata := resize_block g (ndata n) (raxNodeCurrentLength n + 8 - HDR)\<rparr>))"

definition raxSetData :: "raxNode \<Rightarrow> ptr8 option \<Rightarrow> raxNode outcome" where
  "raxSetData n data =
     (let n = n\<lparr>iskey := True\<rparr>
      in case data of
           Some p \<Rightarrow>
             let n = n\<lparr>isnull := False\<rparr>
             in bindE (mem_write (ndata n) (raxNodeCurrentLength n - 8 - HDR) p) (\<lambda>b. Inr (n\<lparr>ndata := b\<rparr>))
         | None \<Rightarrow> Inr (n\<lparr>isnull := True\<rparr>))"

definition raxGetData :: "raxNode \<Rightarrow> ptr8 option outcome" where
  "raxGetData n =
     (if isnull n then Inr None
      else bindE (mem_read (ndata n) (raxNodeCurrentLength n - 8 - HDR) 8) (\<lambda>p. Inr (Some p)))"

text \<open>\<open>for (pos = 0; pos < n->size; pos++) if (n->data[pos] > c) break;\<close>\<close>

fun insert_pos :: "byte \<Rightarrow> byte list \<Rightarrow> nat" where
  "insert_pos c [] = 0"
| "insert_pos c (x # xs) = (if x > c then 0 else Suc (insert_pos c xs))"

text \<open>\<open>child\<close> is the pointer \<open>raxNewNode\<close> returned. The result is the node and the offset of the new child pointer.\<close>

definition raxAddChild :: "garbage \<Rightarrow> raxNode \<Rightarrow> byte \<Rightarrow> ptr8 option \<Rightarrow> (raxNode \<times> nat) option outcome" where
  "raxAddChild m n c child =
     (if iscompr n then Inl AssertFailed
      else
        let curlen = raxNodeCurrentLength n;
            newlen = raxNodeCurrentLength (n\<lparr>nsize := Suc (nsize n)\<rparr>)
        in case (child, m) of
             (Some ch, Some g) \<Rightarrow>
               let b = resize_block g (ndata n) (newlen - HDR) in
               bindE (mem_read b 0 (nsize n)) (\<lambda>cs.
               let pos = insert_pos c cs in
               bindE (if has_value n then memmove b (newlen - 8 - HDR) (curlen - 8 - HDR) 8 else Inr b) (\<lambda>b.
               let shift = newlen - curlen - 8;
                   src = nsize n + raxPadding (nsize n) + 8 * pos in
               bindE (memmove b (src + shift + 8) src (8 * (nsize n - pos))) (\<lambda>b.
               bindE (if shift \<noteq> 0 then memmove b (raxNodeFirstChildPtr n + shift) (raxNodeFirstChildPtr n) (8 * pos) else Inr b) (\<lambda>b.
               bindE (memmove b (pos + 1) pos (nsize n - pos)) (\<lambda>b.
               bindE (mem_write b pos [c]) (\<lambda>b.
               let n = n\<lparr>nsize := Suc (nsize n)\<rparr>;
                   childfield = raxNodeFirstChildPtr n + 8 * pos in
               bindE (mem_write b childfield ch) (\<lambda>b.
               Inr (Some (n\<lparr>ndata := b\<rparr>, childfield)))))))))
           | _ \<Rightarrow> Inr None)"

definition raxCompressNode :: "garbage \<Rightarrow> raxNode \<Rightarrow> byte list \<Rightarrow> ptr8 option \<Rightarrow> raxNode option outcome" where
  "raxCompressNode m n s child =
     (if \<not> (nsize n = 0 \<and> \<not> iscompr n) then Inl AssertFailed
      else case child of None \<Rightarrow> Inr None
        | Some ch \<Rightarrow>
            let newsize = HDR + length s + raxPadding (length s) + 8 + (if has_value n then 8 else 0) in
            bindE (if iskey n then raxGetData n else Inr None) (\<lambda>data.
            case m of None \<Rightarrow> Inr None
            | Some g \<Rightarrow>
                let n = n\<lparr>ndata := resize_block g (ndata n) (newsize - HDR), iscompr := True, nsize := length s\<rparr> in
                bindE (mem_write (ndata n) 0 s) (\<lambda>b.
                let n = n\<lparr>ndata := b\<rparr> in
                bindE (if iskey n then raxSetData n data else Inr n) (\<lambda>n.
                bindE (mem_write (ndata n) (raxNodeLastChildPtr n) ch) (\<lambda>b.
                Inr (Some (n\<lparr>ndata := b\<rparr>)))))))"

text \<open>\<open>raxFindParentLink\<close> and the search in \<open>raxRemoveChild\<close>: the child pointers are compared one after the other
  without a bound.\<close>

function find_child :: "byte list \<Rightarrow> nat \<Rightarrow> ptr8 \<Rightarrow> nat outcome" where
  "find_child b off ch = bindE (mem_read b off 8) (\<lambda>p. if p = ch then Inr off else find_child b (off + 8) ch)"
  by auto
termination
  by (relation "measure (\<lambda>(b, off, ch). length b - off)") (auto simp: mem_read_def split: if_splits)

declare find_child.simps [simp del]

definition raxFindParentLink :: "raxNode \<Rightarrow> ptr8 \<Rightarrow> nat outcome" where
  "raxFindParentLink parent ch = find_child (ndata parent) (raxNodeFirstChildPtr parent) ch"

definition raxRemoveChild :: "garbage \<Rightarrow> raxNode \<Rightarrow> ptr8 \<Rightarrow> raxNode outcome" where
  "raxRemoveChild m parent ch =
     (if iscompr parent
      then bindE (if iskey parent then raxGetData parent else Inr None) (\<lambda>data.
           let parent = parent\<lparr>isnull := False, iscompr := False, nsize := 0\<rparr>
           in if iskey parent then raxSetData parent data else Inr parent)
      else
        let cp = raxNodeFirstChildPtr parent in
        bindE (find_child (ndata parent) cp ch) (\<lambda>c.
        let e = (c - cp) div 8;
            taillen = nsize parent - e - 1 in
        bindE (memmove (ndata parent) e (e + 1) taillen) (\<lambda>b.
        let shift = (if (nsize parent + 4) mod 8 = 1 then 8 else 0) in
        bindE (if shift \<noteq> 0 then memmove b (cp - shift) cp ((nsize parent - taillen - 1) * 8) else Inr b) (\<lambda>b.
        let valuelen = (if has_value parent then 8 else 0) in
        bindE (memmove b (c - shift) (c + 8) (taillen * 8 + valuelen)) (\<lambda>b.
        let parent = parent\<lparr>nsize := nsize parent - 1, ndata := b\<rparr>
        in Inr (case m of None \<Rightarrow> parent
                | Some g \<Rightarrow> parent\<lparr>ndata := resize_block g b (raxNodeCurrentLength parent - HDR)\<rparr>))))))"

section \<open>What a node holds\<close>

definition bytes_at :: "byte list \<Rightarrow> nat \<Rightarrow> nat \<Rightarrow> byte list" where
  "bytes_at b i n = take n (drop i b)"

text \<open>A node holds its edge characters and child pointers, and its block has room for them and for the value.\<close>

definition holds :: "raxNode \<Rightarrow> byte list \<Rightarrow> ptr8 list \<Rightarrow> bool" where
  "holds n cs kids \<longleftrightarrow> nsize n = length cs \<and> length kids = (if iscompr n then 1 else length cs) \<and>
     (\<forall>p \<in> set kids. length p = 8) \<and> raxNodeCurrentLength n \<le> HDR + length (ndata n) \<and>
     bytes_at (ndata n) 0 (length cs) = cs \<and> (\<forall>j < length kids. bytes_at (ndata n) (raxNodeFirstChildPtr n + 8 * j) 8 = kids ! j)"

definition val_of :: "raxNode \<Rightarrow> ptr8 option" where
  "val_of n = (if has_value n then Some (bytes_at (ndata n) (raxNodeCurrentLength n - 8 - HDR) 8) else None)"

lemma length_slice: "i + n \<le> length b \<Longrightarrow> length (bytes_at b i n) = n"
  by (simp add: bytes_at_def)

lemma slice_slice: "k + m \<le> n \<Longrightarrow> bytes_at (bytes_at b i n) k m = bytes_at b (i + k) m"
  by (simp add: bytes_at_def drop_take min_def add.commute)

lemma slice_empty [simp]: "bytes_at b i 0 = []"
  by (simp add: bytes_at_def)

lemma mem_write_slice:
  assumes "mem_write b d xs = Inr b'"
  shows "length b' = length b" "bytes_at b' d (length xs) = xs" "i + n \<le> d \<or> d + length xs \<le> i \<Longrightarrow> bytes_at b' i n = bytes_at b i n"
proof -
  have d: "d + length xs \<le> length b" "b' = take d b @ xs @ drop (d + length xs) b"
    using assms by (auto simp: mem_write_def split: if_splits)
  then show "length b' = length b" "bytes_at b' d (length xs) = xs" by (simp_all add: bytes_at_def)
  assume "i + n \<le> d \<or> d + length xs \<le> i"
  then show "bytes_at b' i n = bytes_at b i n"
  proof
    assume "i + n \<le> d"
    then have "take (i + n) b' = take (i + n) b" using d by simp
    then show ?thesis by (simp add: bytes_at_def take_drop add.commute)
  next
    assume *: "d + length xs \<le> i"
    then have "drop i b' = drop (i - (d + length xs)) (drop (d + length xs) b)" using d by simp
    also have "\<dots> = drop i b" using * by simp
    finally show ?thesis by (simp add: bytes_at_def)
  qed
qed

lemma mem_write_in: "d + length xs \<le> length b \<Longrightarrow> \<exists>b'. mem_write b d xs = Inr b'"
  by (simp add: mem_write_def)

lemma memmove_in: "s + n \<le> length b \<Longrightarrow> d + n \<le> length b \<Longrightarrow> \<exists>b'. memmove b d s n = Inr b'"
  by (simp add: memmove_def mem_read_def mem_write_def)

lemma memmove_slice:
  assumes "memmove b d s n = Inr b'"
  shows "length b' = length b" "k + m \<le> n \<Longrightarrow> bytes_at b' (d + k) m = bytes_at b (s + k) m"
    "i + m \<le> d \<or> d + n \<le> i \<Longrightarrow> bytes_at b' i m = bytes_at b i m"
proof -
  have n: "s + n \<le> length b" and w: "mem_write b d (bytes_at b s n) = Inr b'"
    using assms by (auto simp: memmove_def mem_read_def bytes_at_def split: if_splits)
  note l = length_slice [OF n]
  show "length b' = length b" using mem_write_slice(1) [OF w] .
  show "i + m \<le> d \<or> d + n \<le> i \<Longrightarrow> bytes_at b' i m = bytes_at b i m" using mem_write_slice(3) [OF w] l by simp
  assume k: "k + m \<le> n"
  have "bytes_at b' (d + k) m = bytes_at (bytes_at b' d n) k m" using slice_slice [OF k] by simp
  also have "bytes_at b' d n = bytes_at b s n" using mem_write_slice(2) [OF w] l by simp
  finally show "bytes_at b' (d + k) m = bytes_at b (s + k) m" using slice_slice [OF k] by simp
qed

lemma resize_block_slice:
  assumes "i + m \<le> length b" "i + m \<le> n"
  shows "bytes_at (resize_block g b n) i m = bytes_at b i m"
  using assms by (intro nth_equalityI) (auto simp: bytes_at_def resize_block_def)

lemma length_resize_block [simp]: "length (resize_block g b n) = n"
  by (simp add: resize_block_def)

text \<open>The end of the padding is aligned, so one more character moves it by nothing or by a whole pointer.\<close>

lemma padding_cases: "raxPadding n = (if (n + 4) mod 8 = 0 then 0 else 8 - (n + 4) mod 8)"
  by (auto simp: raxPadding_def)

lemma padding_less: "raxPadding n < 8"
  by (simp add: padding_cases)

lemma padding_step:
  "Suc n + raxPadding (Suc n) = n + raxPadding n + (if (Suc n + 4) mod 8 = 1 then 8 else 0)"
proof -
  have "(Suc n + 4) mod 8 = (if Suc ((n + 4) mod 8) = 8 then 0 else Suc ((n + 4) mod 8))"
    using mod_Suc [of "n + 4" 8] by simp
  moreover have "(n + 4) mod 8 < 8" by simp
  ultimately show ?thesis unfolding padding_cases by (auto split: if_splits)
qed

lemma insert_pos_le: "insert_pos c cs \<le> length cs"
  by (induction cs) auto

lemma bytes_at_split: "bytes_at b i (m + n) = bytes_at b i m @ bytes_at b (i + m) n"
  by (simp add: bytes_at_def take_add add.commute)

lemma bytes_at_take: "m \<le> n \<Longrightarrow> bytes_at b i m = take m (bytes_at b i n)"
  by (simp add: bytes_at_def min_def)

lemma bytes_at_drop: "m \<le> n \<Longrightarrow> bytes_at b (i + m) (n - m) = drop m (bytes_at b i n)"
  by (simp add: bytes_at_def drop_take add.commute)

text \<open>The end of the characters and padding in terms of the number of characters.\<close>

definition kids_off :: "nat \<Rightarrow> nat" where
  "kids_off n = n + raxPadding n"

lemma kids_off_ge: "n \<le> kids_off n"
  by (simp add: kids_off_def)

lemma kids_off_Suc: "kids_off (Suc n) = kids_off n + (if (Suc n + 4) mod 8 = 1 then 8 else 0)"
  using padding_step [of n] by (simp add: kids_off_def)

lemma layout_simps:
  "raxNodeFirstChildPtr n = kids_off (nsize n)"
  "raxNodeCurrentLength n = HDR + kids_off (nsize n) + (if iscompr n then 8 else 8 * nsize n) + (if has_value n then 8 else 0)"
  "raxNodeLastChildPtr n = kids_off (nsize n) + (if iscompr n then 8 else 8 * nsize n) - 8"
  by (simp_all add: raxNodeFirstChildPtr_def raxNodeCurrentLength_def raxNodeLastChildPtr_def kids_off_def)

lemma ndata_simps [simp]:
  "has_value (n\<lparr>ndata := b\<rparr>) = has_value n" "raxNodeCurrentLength (n\<lparr>ndata := b\<rparr>) = raxNodeCurrentLength n"
  by (simp_all add: has_value_def raxNodeCurrentLength_def)

lemma holdsI:
  assumes "nsize n = length cs" "length kids = (if iscompr n then 1 else length cs)" "\<And>p. p \<in> set kids \<Longrightarrow> length p = 8"
    and "raxNodeCurrentLength n \<le> HDR + length (ndata n)" "bytes_at (ndata n) 0 (length cs) = cs"
    and "\<And>j. j < length kids \<Longrightarrow> bytes_at (ndata n) (kids_off (nsize n) + 8 * j) 8 = kids ! j"
  shows "holds n cs kids"
  using assms by (simp add: holds_def layout_simps(1))

lemma holdsD:
  assumes "holds n cs kids"
  shows "nsize n = length cs" "length kids = (if iscompr n then 1 else length cs)" "p \<in> set kids \<Longrightarrow> length p = 8"
    "raxNodeCurrentLength n \<le> HDR + length (ndata n)" "bytes_at (ndata n) 0 (length cs) = cs"
    "j < length kids \<Longrightarrow> bytes_at (ndata n) (kids_off (nsize n) + 8 * j) 8 = kids ! j"
  using assms by (auto simp: holds_def layout_simps(1))

text \<open>Inserting at a position: what the moves leave where.\<close>

lemma nth_insert_at:
  "pos \<le> length xs \<Longrightarrow> j < Suc (length xs) \<Longrightarrow>
   (take pos xs @ x # drop pos xs) ! j = (if j < pos then xs ! j else if j = pos then x else xs ! (j - 1))"
  by (auto simp: nth_append nth_Cons' min_def)

lemma raxAddChild_holds:
  assumes h: "holds n cs kids" and nc: "\<not> iscompr n" and ch: "length ch = 8" and pos_def: "pos = insert_pos c cs"
  shows "\<exists>n'. raxAddChild (Some g) n c (Some ch) = Inr (Some (n', kids_off (Suc (length cs)) + 8 * pos)) \<and>
    holds n' (take pos cs @ c # drop pos cs) (take pos kids @ ch # drop pos kids) \<and>
    iskey n' = iskey n \<and> isnull n' = isnull n \<and> \<not> iscompr n' \<and> val_of n' = val_of n"
proof -
  let ?s = "length cs" and ?A = "kids_off (length cs)" and ?B = "kids_off (Suc (length cs))"
  note hd = holdsD [OF h]
  define v where "v = (if has_value n then 8 else 0 :: nat)"
  define n1 where "n1 = n\<lparr>nsize := Suc ?s\<rparr>"
  have sz: "nsize n = ?s" "length kids = ?s" using hd(1,2) nc by auto
  have cur: "raxNodeCurrentLength n = HDR + ?A + 8 * ?s + v" using sz nc by (simp add: layout_simps v_def)
  have new: "raxNodeCurrentLength n1 = HDR + ?B + 8 * Suc ?s + v"
    using sz nc by (simp add: layout_simps n1_def v_def has_value_def)
  define shift where "shift = (if (Suc ?s + 4) mod 8 = 1 then 8 else 0 :: nat)"
  have B: "?B = ?A + shift" using kids_off_Suc [of ?s] by (simp add: shift_def)
  have pos: "pos \<le> ?s" by (simp add: pos_def insert_pos_le)
  have A: "?s \<le> ?A" "Suc ?s \<le> ?B" using kids_off_ge by auto
  define b0 where "b0 = resize_block g (ndata n) (?B + 8 * Suc ?s + v)"
  have len0: "length b0 = ?B + 8 * Suc ?s + v" by (simp add: b0_def)
  have old: "?A + 8 * ?s + v \<le> length (ndata n)" using hd(4) cur by simp
  have s0: "bytes_at b0 i m = bytes_at (ndata n) i m" if "i + m \<le> ?A + 8 * ?s + v" for i m
    unfolding b0_def using that old B by (intro resize_block_slice) auto
  have cs0: "mem_read b0 0 ?s = Inr cs"
    using s0 [of 0 ?s] hd(5) len0 A sz by (simp add: mem_read_def bytes_at_def)
  have voff: "has_value n \<Longrightarrow> raxNodeCurrentLength n1 - 8 - HDR = ?B + 8 * Suc ?s"
    "has_value n \<Longrightarrow> raxNodeCurrentLength n - 8 - HDR = ?A + 8 * ?s" using cur new by (simp_all add: v_def)
  obtain b1 where b1: "(if has_value n then memmove b0 (?B + 8 * Suc ?s) (?A + 8 * ?s) 8 else Inr b0) = Inr b1"
    using memmove_in [of "?A + 8 * ?s" 8 b0 "?B + 8 * Suc ?s"] len0 B by (cases "has_value n") (auto simp: v_def)
  have len1: "length b1 = length b0" using b1 memmove_slice(1) by (auto split: if_splits)
  have s1: "bytes_at b1 i m = bytes_at b0 i m" if "i + m \<le> ?B + 8 * Suc ?s" for i m
    using b1 that memmove_slice(3) [of b0 _ _ _ b1 i m] by (cases "has_value n") auto
  have v1: "has_value n \<Longrightarrow> bytes_at b1 (?B + 8 * Suc ?s) 8 = bytes_at b0 (?A + 8 * ?s) 8"
    using b1 memmove_slice(2) [of b0 "?B + 8 * Suc ?s" "?A + 8 * ?s" 8 b1 0 8] by simp
  have t: "8 * pos + 8 * (?s - pos) = 8 * ?s" using pos by simp
  let ?src = "?A + 8 * pos"
  obtain b2 where b2: "memmove b1 (?src + shift + 8) ?src (8 * (?s - pos)) = Inr b2"
    using memmove_in [of ?src "8 * (?s - pos)" b1 "?src + shift + 8"] len0 len1 B t by auto
  obtain b3 where b3: "(if shift \<noteq> 0 then memmove b2 (?A + shift) ?A (8 * pos) else Inr b2) = Inr b3"
    using memmove_in [of ?A "8 * pos" b2 "?A + shift"] memmove_slice(1) [OF b2] len0 len1 B pos by (cases "shift = 0") auto
  have len3: "length b3 = length b0" using b3 memmove_slice(1) [OF b2] memmove_slice(1) [of b2 _ _ _ b3] len1 by (auto split: if_splits)
  obtain b4 where b4: "memmove b3 (pos + 1) pos (?s - pos) = Inr b4"
    using memmove_in [of pos "?s - pos" b3 "pos + 1"] len0 len3 A pos by auto
  have len4: "length b4 = length b0" using memmove_slice(1) [OF b4] len3 by simp
  obtain b5 where b5: "mem_write b4 pos [c] = Inr b5" using mem_write_in [of pos "[c]" b4] len0 len4 A pos by auto
  have len5: "length b5 = length b0" using mem_write_slice(1) [OF b5] len4 by simp
  obtain b6 where b6: "mem_write b5 (?B + 8 * pos) ch = Inr b6" using mem_write_in [of "?B + 8 * pos" ch b5] len0 len5 ch pos by auto
  have len6: "length b6 = length b0" using mem_write_slice(1) [OF b6] len5 by simp
  define n' where "n' = n1\<lparr>ndata := b6\<rparr>"
  have sh: "raxNodeCurrentLength n1 - raxNodeCurrentLength n - 8 = shift" using cur new B by simp
  have ff: "raxNodeFirstChildPtr n = ?A" "?s + raxPadding ?s = ?A" "raxNodeFirstChildPtr n1 = ?B"
    by (simp_all add: layout_simps n1_def sz) (simp add: kids_off_def)
  have c1: "(if has_value n then memmove b0 (raxNodeCurrentLength n1 - 8 - HDR) (raxNodeCurrentLength n - 8 - HDR) 8 else Inr b0) = Inr b1"
    using b1 voff by (cases "has_value n") simp_all
  have c0: "resize_block g (ndata n) (raxNodeCurrentLength n1 - HDR) = b0" using new by (simp add: b0_def add_ac)
  have c3: "(if shift \<noteq> 0 then memmove b2 (raxNodeFirstChildPtr n + shift) (raxNodeFirstChildPtr n) (8 * pos) else Inr b2) = Inr b3"
    unfolding ff(1) by (rule b3)
  have res: "raxAddChild (Some g) n c (Some ch) = Inr (Some (n', ?B + 8 * pos))"
    unfolding raxAddChild_def Let_def if_not_P [OF nc] n1_def [symmetric] prod.case option.case c0 cs0 bindE_Inr
      pos_def [symmetric] c1 sh c3 ff(2,3) sz(1) b2 b4 b5 b6 n'_def ..
  have low: "bytes_at b3 i m = bytes_at (ndata n) i m" if "i + m \<le> ?s" for i m
  proof -
    have "bytes_at b3 i m = bytes_at b2 i m" using b3 memmove_slice(3) [of b2 _ _ _ b3 i m] that A by (auto split: if_splits)
    also have "\<dots> = bytes_at b1 i m" using that A by (intro memmove_slice(3) [OF b2]) auto
    also have "\<dots> = bytes_at (ndata n) i m" using that A s1 [of i m] s0 [of i m] by simp
    finally show ?thesis .
  qed
  have high: "bytes_at b6 i m = bytes_at b3 i m" if "?B \<le> i" "i + m \<le> ?B + 8 * pos \<or> ?B + 8 * pos + 8 \<le> i" for i m
  proof -
    have "bytes_at b6 i m = bytes_at b5 i m" using that(2) ch by (intro mem_write_slice(3) [OF b6]) auto
    also have "\<dots> = bytes_at b4 i m" using that(1) A pos by (intro mem_write_slice(3) [OF b5]) auto
    also have "\<dots> = bytes_at b3 i m" using that(1) A pos by (intro memmove_slice(3) [OF b4]) auto
    finally show ?thesis .
  qed
  have chars: "bytes_at b6 0 (Suc ?s) = take pos cs @ c # drop pos cs"
  proof -
    have six: "bytes_at b6 i m = bytes_at b5 i m" if "i + m \<le> Suc ?s" for i m using that A by (intro mem_write_slice(3) [OF b6]) auto
    have "bytes_at b5 0 pos = bytes_at b4 0 pos" by (intro mem_write_slice(3) [OF b5]) auto
    also have "\<dots> = bytes_at b3 0 pos" by (intro memmove_slice(3) [OF b4]) auto
    also have "\<dots> = take pos cs" using low [of 0 pos] pos bytes_at_take [OF pos, of "ndata n" 0] hd(5) by simp
    finally have 1: "bytes_at b5 0 pos = take pos cs" .
    have 2: "bytes_at b5 pos 1 = [c]" using mem_write_slice(2) [OF b5] by simp
    have "bytes_at b5 (pos + 1) (?s - pos) = bytes_at b4 (pos + 1) (?s - pos)" by (intro mem_write_slice(3) [OF b5]) auto
    also have "\<dots> = bytes_at b3 pos (?s - pos)" using memmove_slice(2) [OF b4, of 0 "?s - pos"] by simp
    also have "\<dots> = drop pos cs" using low [of pos "?s - pos"] pos bytes_at_drop [OF pos, of "ndata n" 0] hd(5) by simp
    finally have 3: "bytes_at b5 (pos + 1) (?s - pos) = drop pos cs" .
    have "bytes_at b6 0 (Suc ?s) = bytes_at b5 0 (pos + (1 + (?s - pos)))" using six [of 0 "Suc ?s"] pos by simp
    then show ?thesis using 1 2 3 by (simp only: bytes_at_split) simp
  qed
  have kid: "bytes_at b6 (?B + 8 * j) 8 = (take pos kids @ ch # drop pos kids) ! j" if j: "j < Suc ?s" for j
  proof -
    consider "j < pos" | "j = pos" | "pos < j" by linarith
    then show ?thesis
    proof cases
      case 1
      have "bytes_at b6 (?B + 8 * j) 8 = bytes_at b3 (?B + 8 * j) 8" using 1 by (intro high) auto
      also have "\<dots> = bytes_at b2 (?A + 8 * j) 8"
        using b3 memmove_slice(2) [of b2 "?A + shift" ?A "8 * pos" b3 "8 * j" 8] 1 B by (auto split: if_splits)
      also have "\<dots> = bytes_at b1 (?A + 8 * j) 8" using 1 by (intro memmove_slice(3) [OF b2]) auto
      also have "\<dots> = kids ! j" using 1 pos B s1 [of "?A + 8 * j" 8] s0 [of "?A + 8 * j" 8] hd(6) [of j] sz by simp
      finally show ?thesis using 1 pos sz j by (simp add: nth_insert_at)
    next
      case 2
      then show ?thesis using mem_write_slice(2) [OF b6] ch pos sz j by (simp add: nth_insert_at)
    next
      case 3
      then obtain i where i: "j = Suc i" "pos \<le> i" "i < ?s" using j by (cases j) auto
      have "bytes_at b6 (?B + 8 * j) 8 = bytes_at b3 (?B + 8 * j) 8" using 3 by (intro high) auto
      also have "\<dots> = bytes_at b2 (?B + 8 * j) 8"
        using b3 memmove_slice(3) [of b2 _ _ _ b3 "?B + 8 * j" 8] 3 B by (auto split: if_splits)
      also have "\<dots> = bytes_at b1 (?A + 8 * i) 8"
      proof -
        have o: "?B + 8 * j = ?src + shift + 8 + 8 * (i - pos)" "?A + 8 * i = ?src + 8 * (i - pos)" using i B by (simp_all add: algebra_simps)
        have "8 * (i - pos) + 8 \<le> 8 * (?s - pos)" using i by linarith
        then show ?thesis unfolding o by (rule memmove_slice(2) [OF b2])
      qed
      also have "\<dots> = kids ! i"
        using i B s1 [of "?A + 8 * i" 8] s0 [of "?A + 8 * i" 8] hd(6) [of i] sz by simp
      finally show ?thesis using i pos sz j by (simp add: nth_insert_at)
    qed
  qed
  have value_kept: "bytes_at b6 (?B + 8 * Suc ?s) 8 = bytes_at (ndata n) (?A + 8 * ?s) 8" if "has_value n"
  proof -
    have "bytes_at b6 (?B + 8 * Suc ?s) 8 = bytes_at b3 (?B + 8 * Suc ?s) 8" using pos by (intro high) auto
    also have "\<dots> = bytes_at b2 (?B + 8 * Suc ?s) 8"
      using b3 memmove_slice(3) [of b2 _ _ _ b3 "?B + 8 * Suc ?s" 8] pos B by (auto split: if_splits)
    also have "\<dots> = bytes_at b1 (?B + 8 * Suc ?s) 8" using B t by (intro memmove_slice(3) [OF b2]) auto
    also have "\<dots> = bytes_at (ndata n) (?A + 8 * ?s) 8" using v1 [OF that] s0 [of "?A + 8 * ?s" 8] that by (simp add: v_def)
    finally show ?thesis .
  qed
  have hv: "has_value n' = has_value n" "nsize n' = Suc ?s" by (simp_all add: n'_def n1_def has_value_def sz)
  have "raxNodeCurrentLength n' = HDR + ?B + 8 * Suc ?s + v" using new by (simp add: n'_def)
  then have "holds n' (take pos cs @ c # drop pos cs) (take pos kids @ ch # drop pos kids)"
    using chars kid ch hd(3) pos sz nc len0 len6
    by (intro holdsI) (auto simp: n'_def n1_def dest: in_set_takeD in_set_dropD)
  moreover have "val_of n' = val_of n"
    using value_kept hv voff by (simp add: val_of_def n'_def)
  ultimately show ?thesis using res nc by (intro exI [of _ n']) (simp add: n'_def n1_def)
qed

text \<open>Setting and reading the value.\<close>

lemma raxSetData_holds:
  assumes "holds n cs kids" "raxNodeCurrentLength (n\<lparr>iskey := True, isnull := False\<rparr>) \<le> HDR + length (ndata n)" "length p = 8"
  shows "\<exists>n'. raxSetData n (Some p) = Inr n' \<and> holds n' cs kids \<and> iskey n' \<and> \<not> isnull n' \<and> iscompr n' = iscompr n \<and> val_of n' = Some p"
proof -
  define n1 where "n1 = n\<lparr>iskey := True, isnull := False\<rparr>"
  define off where "off = raxNodeCurrentLength n1 - 8 - HDR"
  note hd = holdsD [OF assms(1)]
  have hv: "has_value n1" "nsize n1 = nsize n" "iscompr n1 = iscompr n" "ndata n1 = ndata n" by (simp_all add: n1_def has_value_def)
  have off: "off = kids_off (nsize n) + 8 * length kids" "off + 8 = raxNodeCurrentLength n1 - HDR"
    using hd(1,2) hv by (simp_all add: off_def layout_simps)
  have "off + 8 \<le> length (ndata n)" using assms(2) unfolding off(2) n1_def by linarith
  then obtain b where b: "mem_write (ndata n) off p = Inr b" using mem_write_in [of off p "ndata n"] assms(3) by auto
  have keep: "bytes_at b i m = bytes_at (ndata n) i m" if "i + m \<le> off" for i m
    using that by (intro mem_write_slice(3) [OF b]) auto
  have eq: "raxSetData n (Some p) = Inr (n1\<lparr>ndata := b\<rparr>)"
    using b by (simp add: raxSetData_def Let_def off_def n1_def)
  have "holds (n1\<lparr>ndata := b\<rparr>) cs kids"
  proof (rule holdsI)
    show "bytes_at (ndata (n1\<lparr>ndata := b\<rparr>)) 0 (length cs) = cs"
      using keep [of 0 "length cs"] hd(1,5) off(1) kids_off_ge [of "length cs"] by simp
    show "bytes_at (ndata (n1\<lparr>ndata := b\<rparr>)) (kids_off (nsize (n1\<lparr>ndata := b\<rparr>)) + 8 * j) 8 = kids ! j" if "j < length kids" for j
      using keep [of "kids_off (nsize n) + 8 * j" 8] hd(6) [OF that] off(1) that hv by simp
  qed (use hd assms(2) hv mem_write_slice(1) [OF b] n1_def in auto)
  moreover have "val_of (n1\<lparr>ndata := b\<rparr>) = Some p"
    using mem_write_slice(2) [OF b] assms(3) hv(1) by (simp add: val_of_def off_def)
  ultimately show ?thesis using eq by (simp add: n1_def)
qed

lemma raxSetData_null:
  assumes "holds n cs kids"
  shows "\<exists>n'. raxSetData n None = Inr n' \<and> holds n' cs kids \<and> iskey n' \<and> isnull n' \<and> iscompr n' = iscompr n \<and> val_of n' = None"
proof -
  let ?n = "n\<lparr>iskey := True, isnull := True\<rparr>"
  have "raxNodeCurrentLength ?n \<le> raxNodeCurrentLength n" by (simp add: layout_simps has_value_def)
  then have "holds ?n cs kids" using assms unfolding holds_def by (auto simp: raxNodeFirstChildPtr_def)
  then show ?thesis by (simp add: raxSetData_def Let_def val_of_def has_value_def)
qed

lemma raxGetData_val:
  assumes "holds n cs kids" "iskey n"
  shows "raxGetData n = Inr (val_of n)"
proof (cases "isnull n")
  case False
  then have "8 + HDR \<le> raxNodeCurrentLength n" using assms(2) by (simp add: layout_simps has_value_def)
  then have "raxNodeCurrentLength n - 8 - HDR + 8 \<le> length (ndata n)" using holdsD(4) [OF assms(1)] by linarith
  then show ?thesis using False assms(2) by (simp add: raxGetData_def val_of_def has_value_def mem_read_def bytes_at_def)
qed (simp add: raxGetData_def val_of_def has_value_def)

text \<open>Searching the child pointers.\<close>

lemma find_child_first:
  assumes "\<And>j. j < idx \<Longrightarrow> bytes_at b (off + 8 * j) 8 \<noteq> ch" "bytes_at b (off + 8 * idx) 8 = ch" "off + 8 * idx + 8 \<le> length b"
  shows "find_child b off ch = Inr (off + 8 * idx)"
  using assms
proof (induction idx arbitrary: off)
  case 0
  then show ?case by (simp add: find_child.simps [of b off ch] mem_read_def bytes_at_def)
next
  case (Suc idx)
  have "bytes_at b off 8 \<noteq> ch" using Suc(2) [of 0] by simp
  moreover have "find_child b (off + 8) ch = Inr (off + 8 + 8 * idx)"
    using Suc(3,4) Suc(2) [of "Suc j" for j] by (intro Suc(1)) (auto simp: algebra_simps)
  ultimately show ?case using Suc(4) by (simp add: find_child.simps [of b off ch] mem_read_def bytes_at_def)
qed

lemma raxFindParentLink_finds:
  assumes "holds n cs kids" "idx < length kids" "\<And>j. j < idx \<Longrightarrow> kids ! j \<noteq> kids ! idx"
  shows "raxFindParentLink n (kids ! idx) = Inr (kids_off (length cs) + 8 * idx)"
proof -
  note hd = holdsD [OF assms(1)]
  have "kids_off (nsize n) + 8 * length kids \<le> length (ndata n)" using hd(1,2,4) by (auto simp: layout_simps split: if_splits)
  then show ?thesis
    unfolding raxFindParentLink_def layout_simps(1) hd(1) using assms(2,3) hd(1,6)
    by (intro find_child_first) auto
qed

text \<open>Removing an element: what the moves leave where.\<close>

lemma nth_remove_at:
  "j < length xs - 1 \<Longrightarrow> idx < length xs \<Longrightarrow> (take idx xs @ drop (Suc idx) xs) ! j = (if j < idx then xs ! j else xs ! Suc j)"
  by (auto simp: nth_append min_def)

lemma holds_resize:
  assumes "holds n cs kids" "raxNodeCurrentLength n \<le> HDR + k"
  shows "holds (n\<lparr>ndata := resize_block g (ndata n) k\<rparr>) cs kids" "val_of (n\<lparr>ndata := resize_block g (ndata n) k\<rparr>) = val_of n"
proof -
  note hd = holdsD [OF assms(1)]
  have len: "kids_off (nsize n) + 8 * length kids + (if has_value n then 8 else 0) = raxNodeCurrentLength n - HDR"
    using hd(1,2) by (simp add: layout_simps)
  have keep: "bytes_at (resize_block g (ndata n) k) i m = bytes_at (ndata n) i m"
    if "i + m \<le> kids_off (nsize n) + 8 * length kids + (if has_value n then 8 else 0)" for i m
    using that assms(2) hd(4) len by (intro resize_block_slice) auto
  show "holds (n\<lparr>ndata := resize_block g (ndata n) k\<rparr>) cs kids"
    using hd assms(2) keep [of 0 "length cs"] keep [of "kids_off (nsize n) + 8 * j" 8 for j] kids_off_ge [of "length cs"]
    by (intro holdsI) auto
  show "val_of (n\<lparr>ndata := resize_block g (ndata n) k\<rparr>) = val_of n"
    using keep [of "raxNodeCurrentLength n - 8 - HDR" 8] len by (auto simp: val_of_def)
qed

lemma raxRemoveChild_holds:
  assumes h: "holds n cs kids" and nc: "\<not> iscompr n" and idx: "idx < length kids" "\<And>j. j < idx \<Longrightarrow> kids ! j \<noteq> kids ! idx"
  shows "\<exists>n'. raxRemoveChild m n (kids ! idx) = Inr n' \<and>
    holds n' (take idx cs @ drop (Suc idx) cs) (take idx kids @ drop (Suc idx) kids) \<and>
    iskey n' = iskey n \<and> isnull n' = isnull n \<and> \<not> iscompr n' \<and> val_of n' = val_of n"
proof -
  note hd = holdsD [OF h]
  have sz: "nsize n = length cs" "length kids = length cs" using hd(1,2) nc by auto
  define s where "s = length cs - 1"
  have s: "length cs = Suc s" "idx \<le> s" using idx(1) sz by (auto simp: s_def)
  let ?A = "kids_off (Suc s)" and ?B = "kids_off s"
  define shift where "shift = (if (Suc s + 4) mod 8 = 1 then 8 else 0 :: nat)"
  define v where "v = (if has_value n then 8 else 0 :: nat)"
  have A: "?A = ?B + shift" "s \<le> ?B" using kids_off_Suc [of s] kids_off_ge [of s] by (auto simp: shift_def)
  have len: "?A + 8 * Suc s + v \<le> length (ndata n)" using hd(4) sz nc s by (simp add: layout_simps v_def)
  have t: "8 * idx + 8 * (s - idx) = 8 * s" using s by simp
  have found: "find_child (ndata n) ?A (kids ! idx) = Inr (?A + 8 * idx)"
    using raxFindParentLink_finds [OF h idx] sz s by (simp add: raxFindParentLink_def layout_simps)
  obtain b1 where b1: "memmove (ndata n) idx (idx + 1) (s - idx) = Inr b1"
    using memmove_in [of "idx + 1" "s - idx" "ndata n" idx] len A s by auto
  obtain b2 where b2: "(if shift \<noteq> 0 then memmove b1 (?A - shift) ?A (idx * 8) else Inr b1) = Inr b2"
    using memmove_in [of ?A "idx * 8" b1 "?A - shift"] memmove_slice(1) [OF b1] len s A by (cases "shift = 0") auto
  have len2: "length b2 = length (ndata n)"
    using b2 memmove_slice(1) [OF b1] memmove_slice(1) [of b1 _ _ _ b2] by (auto split: if_splits)
  obtain b3 where b3: "memmove b2 (?A + 8 * idx - shift) (?A + 8 * idx + 8) ((s - idx) * 8 + v) = Inr b3"
    using memmove_in [of "?A + 8 * idx + 8" "(s - idx) * 8 + v" b2 "?A + 8 * idx - shift"] len len2 t A by auto
  have len3: "length b3 = length (ndata n)" using memmove_slice(1) [OF b3] len2 by simp
  define n1 where "n1 = n\<lparr>nsize := s, ndata := b3\<rparr>"
  define n' where "n' = (case m of None \<Rightarrow> n1 | Some g \<Rightarrow> n1\<lparr>ndata := resize_block g b3 (raxNodeCurrentLength n1 - HDR)\<rparr>)"
  have arith: "(?A + 8 * idx - ?A) div 8 = idx" "Suc s - idx - 1 = s - idx" "Suc s - (s - idx) - 1 = idx" "Suc s - 1 = s"
    using s by auto
  have res: "raxRemoveChild m n (kids ! idx) = Inr n'"
    unfolding raxRemoveChild_def Let_def if_not_P [OF nc] layout_simps(1) sz(1) s(1) found bindE_Inr arith b1 shift_def [symmetric] b2
      v_def [symmetric] b3 n'_def n1_def ..
  have low: "bytes_at b2 i l = bytes_at b1 i l" if "?A \<le> i \<and> ?A + 8 * idx \<le> i \<or> i + l \<le> ?B" for i l
    using b2 memmove_slice(3) [of b1 _ _ _ b2 i l] that A by (auto split: if_splits)
  have b1_keep: "bytes_at b1 i l = bytes_at (ndata n) i l" if "i + l \<le> idx \<or> s \<le> i" for i l
    using that s by (intro memmove_slice(3) [OF b1]) auto
  have hi: "bytes_at b3 i l = bytes_at b2 i l" if "i + l \<le> ?B + 8 * idx" for i l
    using that A by (intro memmove_slice(3) [OF b3]) auto
  have chars: "bytes_at b3 0 s = take idx cs @ drop (Suc idx) cs"
  proof -
    have "bytes_at b3 0 s = bytes_at b1 0 s" using hi [of 0 s] low [of 0 s] A by simp
    also have "\<dots> = bytes_at b1 0 idx @ bytes_at b1 idx (s - idx)" using bytes_at_split [of b1 0 idx "s - idx"] s by simp
    also have "bytes_at b1 0 idx = take idx cs" using b1_keep [of 0 idx] bytes_at_take [of idx "Suc s" "ndata n" 0] hd(5) s by simp
    also have "bytes_at b1 idx (s - idx) = bytes_at (ndata n) (Suc idx) (s - idx)" using memmove_slice(2) [OF b1, of 0 "s - idx"] by simp
    also have "\<dots> = drop (Suc idx) cs" using bytes_at_drop [of "Suc idx" "Suc s" "ndata n" 0] hd(5) s by simp
    finally show ?thesis .
  qed
  have moved: "bytes_at b3 (?B + 8 * idx + k) l = bytes_at (ndata n) (?A + 8 * idx + 8 + k) l" if "k + l \<le> (s - idx) * 8 + v" for k l
  proof -
    have "?A + 8 * idx - shift = ?B + 8 * idx" using A by simp
    then have "bytes_at b3 (?B + 8 * idx + k) l = bytes_at b2 (?A + 8 * idx + 8 + k) l" using memmove_slice(2) [OF b3 that] by simp
    also have "\<dots> = bytes_at (ndata n) (?A + 8 * idx + 8 + k) l" using low [of "?A + 8 * idx + 8 + k" l] b1_keep [of "?A + 8 * idx + 8 + k" l] A by simp
    finally show ?thesis .
  qed
  have kid: "bytes_at b3 (?B + 8 * j) 8 = (take idx kids @ drop (Suc idx) kids) ! j" if j: "j < s" for j
  proof (cases "j < idx")
    case True
    have "bytes_at b3 (?B + 8 * j) 8 = bytes_at b2 (?B + 8 * j) 8" using True by (intro hi) auto
    also have "\<dots> = bytes_at b1 (?A + 8 * j) 8"
      using b2 memmove_slice(2) [of b1 "?A - shift" ?A "idx * 8" b2 "8 * j" 8] True A by (auto split: if_splits)
    also have "\<dots> = kids ! j" using b1_keep [of "?A + 8 * j" 8] A hd(6) [of j] j sz s by simp
    finally show ?thesis using True j sz s idx(1) by (simp add: nth_remove_at)
  next
    case False
    have k: "?B + 8 * j = ?B + 8 * idx + 8 * (j - idx)" "?A + 8 * idx + 8 + 8 * (j - idx) = ?A + 8 * Suc j" using False by simp_all
    have "8 * (j - idx) + 8 \<le> (s - idx) * 8 + v" using False j by simp
    from moved [OF this] have "bytes_at b3 (?B + 8 * j) 8 = kids ! Suc j" unfolding k using hd(6) [of "Suc j"] j sz s by simp
    then show ?thesis using False j sz s idx(1) by (simp add: nth_remove_at)
  qed
  have hv: "has_value n1 = has_value n" "raxNodeCurrentLength n1 = HDR + ?B + 8 * s + v" using nc
    by (simp_all add: n1_def has_value_def layout_simps v_def)
  have "holds n1 (take idx cs @ drop (Suc idx) cs) (take idx kids @ drop (Suc idx) kids)"
    using chars kid hd(3) sz s nc len len3 hv(2) A
    by (intro holdsI) (auto simp: n1_def dest: in_set_takeD in_set_dropD)
  moreover have "val_of n1 = val_of n"
  proof (cases "has_value n")
    case True
    have "bytes_at b3 (?B + 8 * s) 8 = bytes_at (ndata n) (?A + 8 * Suc s) 8"
      using moved [of "8 * (s - idx)" 8] True t by (simp add: v_def algebra_simps)
    then show ?thesis using True hv sz s nc by (simp add: val_of_def layout_simps v_def n1_def add_ac)
  qed (simp add: val_of_def hv)
  ultimately have "holds n' (take idx cs @ drop (Suc idx) cs) (take idx kids @ drop (Suc idx) kids)" "val_of n' = val_of n"
    using holds_resize [of n1 _ _ "raxNodeCurrentLength n1 - HDR"] by (auto simp: n'_def n1_def split: option.split)
  then show ?thesis using res nc by (intro exI [of _ n']) (auto simp: n'_def n1_def split: option.split)
qed

lemma raxRemoveChild_compressed:
  assumes h: "holds n cs [ch]" and c: "iscompr n"
  shows "\<exists>n'. raxRemoveChild m n ch' = Inr n' \<and> holds n' [] [] \<and> iskey n' = iskey n \<and> \<not> iscompr n' \<and>
    (iskey n \<longrightarrow> val_of n' = val_of n)"
proof -
  note hd = holdsD [OF h]
  define n1 where "n1 = n\<lparr>isnull := False, iscompr := False, nsize := 0\<rparr>"
  have len: "kids_off (nsize n) + 8 + (if has_value n then 8 else 0) \<le> length (ndata n)" using hd(4) c by (simp add: layout_simps)
  have zero: "kids_off 0 = 4" by (simp add: kids_off_def raxPadding_def)
  have four: "4 \<le> kids_off (nsize n)" using padding_cases [of "nsize n"] by (cases "nsize n < 4") (auto simp: kids_off_def)
  have h1: "holds n1 [] []" if "iskey n \<longrightarrow> has_value n"
    using that len zero four by (intro holdsI) (auto simp: n1_def layout_simps has_value_def split: if_splits)
  have base: "holds (n\<lparr>isnull := x, iscompr := False, nsize := 0\<rparr>) [] []" if "\<not> (iskey n \<and> \<not> x)" for x
    using that len zero four by (intro holdsI) (auto simp: layout_simps has_value_def split: if_splits)
  consider "\<not> iskey n" | "iskey n" "isnull n" | "iskey n" "\<not> isnull n" by blast
  then show ?thesis
  proof cases
    case 1
    then have "raxRemoveChild m n ch' = Inr n1" using c by (simp add: raxRemoveChild_def n1_def Let_def)
    then show ?thesis using 1 base [of False] by (auto simp: n1_def)
  next
    case 2
    then have "raxRemoveChild m n ch' = Inr (n1\<lparr>iskey := True, isnull := True\<rparr>)"
      using c by (simp add: raxRemoveChild_def raxGetData_def raxSetData_def n1_def Let_def)
    moreover have "n1\<lparr>iskey := True, isnull := True\<rparr> = n\<lparr>isnull := True, iscompr := False, nsize := 0\<rparr>" using 2 by (simp add: n1_def)
    ultimately show ?thesis using 2 base [of True] by (auto simp: val_of_def has_value_def)
  next
    case 3
    then have v: "has_value n" by (simp add: has_value_def)
    obtain p where p: "val_of n = Some p" "length p = 8"
      using v len c by (simp add: val_of_def layout_simps length_slice)
    have eq: "raxRemoveChild m n ch' = raxSetData n1 (Some p)"
      using 3 c raxGetData_val [OF h 3(1)] p by (simp add: raxRemoveChild_def n1_def Let_def)
    have "raxNodeCurrentLength (n1\<lparr>iskey := True, isnull := False\<rparr>) \<le> HDR + length (ndata n1)"
      using len zero four v by (simp add: n1_def layout_simps has_value_def)
    from raxSetData_holds [OF h1 this p(2)] v show ?thesis unfolding eq using p 3 by (auto simp: n1_def)
  qed
qed

lemma raxCompressNode_holds:
  assumes h: "holds n [] []" "\<not> iscompr n" and ch: "length ch = 8"
  shows "\<exists>n'. raxCompressNode (Some g) n s (Some ch) = Inr (Some n') \<and> holds n' s [ch] \<and> iscompr n' \<and> iskey n' = iskey n \<and>
    (iskey n \<longrightarrow> isnull n' = isnull n \<and> val_of n' = val_of n)"
proof -
  note hd = holdsD [OF h(1)]
  let ?v = "if has_value n then 8 else 0 :: nat"
  define k where "k = kids_off (length s) + 8 + ?v"
  define n1 where "n1 = n\<lparr>ndata := resize_block g (ndata n) k, iscompr := True, nsize := length s\<rparr>"
  obtain b where b: "mem_write (ndata n1) 0 s = Inr b"
    using mem_write_in [of 0 s "ndata n1"] kids_off_ge [of "length s"] by (auto simp: n1_def k_def)
  define n2 where "n2 = n1\<lparr>ndata := b\<rparr>"
  have len: "length b = k" using mem_write_slice(1) [OF b] by (simp add: n1_def)
  define kid where "kid = bytes_at b (kids_off (length s)) 8"
  have lk: "length kid = 8" unfolding kid_def using len by (intro length_slice) (simp add: k_def)
  have sizes: "nsize n2 = length s" "iscompr n2" "iskey n2 = iskey n" "isnull n2 = isnull n" "has_value n2 = has_value n" "ndata n2 = b"
    by (simp_all add: n2_def n1_def has_value_def)
  have h2: "holds n2 s [kid]"
    using sizes len lk mem_write_slice(2) [OF b] by (intro holdsI) (auto simp: layout_simps k_def kid_def)
  have newsize: "HDR + length s + raxPadding (length s) + 8 + ?v - HDR = k" by (simp add: k_def kids_off_def)
  obtain data where data: "(if iskey n then raxGetData n else Inr None) = Inr data" "iskey n \<Longrightarrow> data = val_of n"
    using raxGetData_val [OF h(1)] by (cases "iskey n") auto
  obtain n3 where n3: "(if iskey n2 then raxSetData n2 data else Inr n2) = Inr n3" "holds n3 s [kid]" "iscompr n3" "iskey n3 = iskey n"
    "iskey n \<Longrightarrow> isnull n3 = isnull n \<and> val_of n3 = val_of n" "has_value n3 = has_value n"
  proof (cases "iskey n")
    case False
    then show ?thesis using that [of n2] h2 sizes by (simp add: has_value_def)
  next
    case True
    show ?thesis
    proof (cases "isnull n")
      case True
      then have "data = None" using data(2) \<open>iskey n\<close> by (simp add: val_of_def has_value_def)
      then show ?thesis using that raxSetData_null [OF h2] True \<open>iskey n\<close> sizes by (auto simp: val_of_def has_value_def)
    next
      case False
      then have hv: "has_value n" using True by (simp add: has_value_def)
      then obtain p where p: "data = Some p" "length p = 8"
        using data(2) True hd(1,4) h(2) by (simp add: val_of_def layout_simps length_slice)
      have "raxNodeCurrentLength (n2\<lparr>iskey := True, isnull := False\<rparr>) \<le> HDR + length (ndata n2)"
        using sizes len hv by (simp add: layout_simps has_value_def k_def)
      from raxSetData_holds [OF h2 this p(2)] show ?thesis
        using that p data(2) True False sizes by (auto simp: has_value_def)
    qed
  qed
  have off: "raxNodeLastChildPtr n3 = kids_off (length s)" using holdsD(1) [OF n3(2)] n3(3) by (simp add: layout_simps)
  note h3 = holdsD [OF n3(2)]
  have len3: "kids_off (length s) + 8 + ?v \<le> length (ndata n3)" using h3(1,4) n3(3,6) by (simp add: layout_simps)
  then obtain b4 where b4: "mem_write (ndata n3) (kids_off (length s)) ch = Inr b4"
    using mem_write_in [of "kids_off (length s)" ch "ndata n3"] ch by auto
  have "raxCompressNode (Some g) n s (Some ch) = Inr (Some (n3\<lparr>ndata := b4\<rparr>))"
  proof -
    have c: "\<not> \<not> (nsize n = 0 \<and> \<not> iscompr n)" using h(2) hd(1) by simp
    show ?thesis
      unfolding raxCompressNode_def Let_def if_not_P [OF c] option.case newsize data(1) bindE_Inr n1_def [symmetric] b n2_def [symmetric]
        n3(1) off b4 ..
  qed
  moreover have "holds (n3\<lparr>ndata := b4\<rparr>) s [ch]"
  proof (rule holdsI)
    show "bytes_at (ndata (n3\<lparr>ndata := b4\<rparr>)) 0 (length s) = s"
      using mem_write_slice(3) [OF b4, of 0 "length s"] h3(5) kids_off_ge [of "length s"] by simp
  qed (use h3 n3(3) ch len3 mem_write_slice(1,2) [OF b4] in auto)
  moreover have "val_of (n3\<lparr>ndata := b4\<rparr>) = val_of n3"
    using mem_write_slice(3) [OF b4, of "kids_off (length s) + 8" 8] h3(1) n3(3) ch
    by (simp add: val_of_def layout_simps add_ac)
  ultimately show ?thesis using n3 by auto
qed

section \<open>Properties\<close>

lemma insert_pos_sorted:
  "sorted_wrt (<) cs \<Longrightarrow> c \<notin> set cs \<Longrightarrow> sorted_wrt (<) (take (insert_pos c cs) cs @ c # drop (insert_pos c cs) cs)"
proof (induction cs)
  case (Cons x cs)
  show ?case
  proof (cases "x > c")
    case False
    then have "x < c" using Cons(3) by auto
    moreover have "set (take (insert_pos c cs) cs) \<subseteq> set cs" "set (drop (insert_pos c cs) cs) \<subseteq> set cs"
      by (auto dest: in_set_takeD in_set_dropD)
    ultimately show ?thesis using Cons False by auto
  qed (use Cons in auto)
qed simp

text \<open>C37: \<open>raxAddChild\<close> moves the bytes of the node such that the new edge and its child pointer are inserted, in order of
  the edge characters, and the other children and the value stay; it returns where the new child pointer is.\<close>

theorem raxAddChild_inserts:
  assumes "holds n cs kids" "\<not> iscompr n" "length ch = 8" "sorted_wrt (<) cs" "c \<notin> set cs"
  shows "\<exists>n' pos. raxAddChild (Some g) n c (Some ch) = Inr (Some (n', raxNodeFirstChildPtr n' + 8 * pos)) \<and> pos \<le> length cs \<and>
    holds n' (take pos cs @ c # drop pos cs) (take pos kids @ ch # drop pos kids) \<and>
    sorted_wrt (<) (take pos cs @ c # drop pos cs) \<and>
    iskey n' = iskey n \<and> isnull n' = isnull n \<and> \<not> iscompr n' \<and> val_of n' = val_of n"
proof -
  obtain n' where n': "raxAddChild (Some g) n c (Some ch) = Inr (Some (n', kids_off (Suc (length cs)) + 8 * insert_pos c cs))"
    "holds n' (take (insert_pos c cs) cs @ c # drop (insert_pos c cs) cs) (take (insert_pos c cs) kids @ ch # drop (insert_pos c cs) kids)"
    "iskey n' = iskey n \<and> isnull n' = isnull n \<and> \<not> iscompr n' \<and> val_of n' = val_of n"
    using raxAddChild_holds [OF assms(1-3) refl, of g c] by blast
  have "raxNodeFirstChildPtr n' = kids_off (Suc (length cs))"
    using holdsD(1) [OF n'(2)] insert_pos_le [of c cs] by (simp add: layout_simps min_def)
  then show ?thesis using n' insert_pos_sorted [OF assms(4,5)] insert_pos_le [of c cs] by (intro exI [of _ n'] exI [of _ "insert_pos c cs"]) auto
qed

text \<open>A node with the edge \<open>b\<close> and a value.\<close>

definition b_node :: raxNode where
  "b_node = \<lparr>iskey = True, isnull = False, iscompr = False, nsize = 1,
     ndata = [98, 0, 0, 0] @ [1, 1, 1, 1, 1, 1, 1, 1] @ [9, 9, 9, 9, 9, 9, 9, 9]\<rparr>"

lemma b_node_holds: "holds b_node [98] [[1, 1, 1, 1, 1, 1, 1, 1]]" "val_of b_node = Some [9, 9, 9, 9, 9, 9, 9, 9]"
  by (simp_all add: holds_def val_of_def b_node_def raxNodeCurrentLength_def raxNodeFirstChildPtr_def raxPadding_def has_value_def
      bytes_at_def HDR_def)

theorem raxAddChild_inserts_witness:
  "\<exists>n' pos. raxAddChild (Some (\<lambda>i. 0)) b_node 97 (Some [2, 2, 2, 2, 2, 2, 2, 2]) = Inr (Some (n', raxNodeFirstChildPtr n' + 8 * pos)) \<and>
     val_of n' = Some [9, 9, 9, 9, 9, 9, 9, 9]"
proof -
  have "\<not> iscompr b_node" "length [2, 2, 2, 2, 2, 2, 2, 2 :: byte] = 8" "sorted_wrt (<) [98 :: byte]" "97 \<notin> set [98 :: byte]"
    by (simp_all add: b_node_def)
  from raxAddChild_inserts [OF b_node_holds(1) this, of "\<lambda>i. 0"] show ?thesis using b_node_holds(2) by force
qed

text \<open>C38: removing the child that was just added gives back a node that holds what the original node held.\<close>

theorem add_remove_child:
  assumes "holds n cs kids" "\<not> iscompr n" "length ch = 8" "ch \<notin> set kids"
  shows "\<exists>n1 off n2. raxAddChild (Some g) n c (Some ch) = Inr (Some (n1, off)) \<and> raxRemoveChild m n1 ch = Inr n2 \<and>
    holds n2 cs kids \<and> iskey n2 = iskey n \<and> isnull n2 = isnull n \<and> val_of n2 = val_of n"
proof -
  let ?pos = "insert_pos c cs"
  let ?cs = "take ?pos cs @ c # drop ?pos cs" and ?kids = "take ?pos kids @ ch # drop ?pos kids"
  have pos: "?pos \<le> length kids" "?pos \<le> length cs" using insert_pos_le [of c cs] holdsD(2) [OF assms(1)] assms(2) by auto
  obtain n1 where n1: "raxAddChild (Some g) n c (Some ch) = Inr (Some (n1, kids_off (Suc (length cs)) + 8 * ?pos))"
    "holds n1 ?cs ?kids" "iskey n1 = iskey n \<and> isnull n1 = isnull n \<and> \<not> iscompr n1 \<and> val_of n1 = val_of n"
    using raxAddChild_holds [OF assms(1-3) refl, of g c] by blast
  have at: "?kids ! ?pos = ch" "?pos < length ?kids" using pos(1) by (simp_all add: nth_append min_def)
  have before: "?kids ! j \<noteq> ?kids ! ?pos" if "j < ?pos" for j
  proof -
    have "kids ! j \<in> set kids" using that pos(1) by simp
    then show ?thesis using at(1) that pos(1) assms(4) by (auto simp: nth_append min_def)
  qed
  obtain n2 where "raxRemoveChild m n1 ch = Inr n2"
    "holds n2 (take ?pos ?cs @ drop (Suc ?pos) ?cs) (take ?pos ?kids @ drop (Suc ?pos) ?kids)"
    "iskey n2 = iskey n1 \<and> isnull n2 = isnull n1 \<and> \<not> iscompr n2 \<and> val_of n2 = val_of n1"
    using raxRemoveChild_holds [OF n1(2) _ at(2) before, of m] n1(3) at(1) by metis
  moreover have "take ?pos ?cs @ drop (Suc ?pos) ?cs = cs" "take ?pos ?kids @ drop (Suc ?pos) ?kids = kids"
    using pos by (simp_all add: min_def)
  ultimately show ?thesis using n1 by auto
qed

theorem add_remove_child_witness:
  "\<exists>n1 off n2. raxAddChild (Some (\<lambda>i. 0)) b_node 97 (Some [2, 2, 2, 2, 2, 2, 2, 2]) = Inr (Some (n1, off)) \<and>
     raxRemoveChild None n1 [2, 2, 2, 2, 2, 2, 2, 2] = Inr n2 \<and> holds n2 [98] [[1, 1, 1, 1, 1, 1, 1, 1]]"
proof -
  have "\<not> iscompr b_node" "length [2, 2, 2, 2, 2, 2, 2, 2 :: byte] = 8" "[2, 2, 2, 2, 2, 2, 2, 2 :: byte] \<notin> set [[1, 1, 1, 1, 1, 1, 1, 1]]"
    by (simp_all add: b_node_def)
  from add_remove_child [OF b_node_holds(1) this, of "\<lambda>i. 0" 97 None] show ?thesis by blast
qed

end
