(* ===== verification/Rax.thy ===== *)
theory Rax
  imports Rax_Node
begin

text \<open>
  The radix tree of \<open>rax.c\<close>. A node with its list of children stands for the block of memory that \<open>Rax_Node\<close>
  lays out; every node has one parent, so a pointer to a node is the path to it from the head, and
  overwriting a parent link replaces the subtree at a path. \<open>mal k\<close> tells whether the \<open>k\<close>-th allocation or
  reallocation succeeds; the operations thread the count. A value is a pointer, \<open>None\<close> is \<open>NULL\<close>.
\<close>

section \<open>Nodes\<close>

datatype 'v rnode = RNode (rkey: bool) (rnull: bool) (rcompr: bool) (rdata: "byte list") (rval: "'v option") (rkids: "'v rnode list")

record 'v rax =
  head :: "'v rnode"
  numele :: nat
  numnodes :: nat

text \<open>The counts are of type \<open>uint64_t\<close>: a decrement of 0 wraps around. (An increment cannot, since every node and every key
  takes up memory.)\<close>

definition dec64 :: "nat \<Rightarrow> nat" where
  "dec64 n = (if n = 0 then 2 ^ 64 - 1 else n - 1)"

lemma dec64_Suc [simp]: "dec64 (Suc n) = n"
  by (simp add: dec64_def)

lemma dec64_eq: "Suc m = n \<Longrightarrow> dec64 n = m"
  by auto

lemma dec64_times: "(dec64 ^^ n) (m + n) = m"
  by (induction n) (simp_all add: funpow_swap1)

definition RAX_NODE_MAX_SIZE :: nat where "RAX_NODE_MAX_SIZE = 2 ^ 29 - 1"

definition new_node :: "'v rnode" where
  "new_node = RNode False False False [] None []"

definition set_data :: "'v rnode \<Rightarrow> 'v option \<Rightarrow> 'v rnode" where
  "set_data n d = RNode True (d = None) (rcompr n) (rdata n) d (rkids n)"

definition get_data :: "'v rnode \<Rightarrow> 'v option" where
  "get_data n = (if rnull n then None else rval n)"

definition set_kids :: "'v rnode \<Rightarrow> 'v rnode list \<Rightarrow> 'v rnode" where
  "set_kids n ks = RNode (rkey n) (rnull n) (rcompr n) (rdata n) (rval n) ks"

definition raxNew :: "(nat \<Rightarrow> bool) \<Rightarrow> nat \<Rightarrow> 'v rax option \<times> nat" where
  "raxNew mal k =
     (if \<not> mal k then (None, k + 1)
      else if \<not> mal (k + 1) then (None, k + 2)
      else (Some \<lparr>head = new_node, numele = 0, numnodes = 1\<rparr>, k + 2))"

text \<open>What \<open>raxAddChild\<close>, \<open>raxCompressNode\<close> and \<open>raxRemoveChild\<close> do to the lists of a node.\<close>

definition add_child :: "(nat \<Rightarrow> bool) \<Rightarrow> nat \<Rightarrow> 'v rnode \<Rightarrow> byte \<Rightarrow> (('v rnode \<times> nat) option \<times> nat) outcome" where
  "add_child mal k n c =
     (if rcompr n then Inl AssertFailed
      else if \<not> mal k then Inr (None, k + 1)
      else if \<not> mal (k + 1) then Inr (None, k + 2)
      else let pos = insert_pos c (rdata n)
           in Inr (Some (RNode (rkey n) (rnull n) False (take pos (rdata n) @ c # drop pos (rdata n)) (rval n)
                           (take pos (rkids n) @ new_node # drop pos (rkids n)), pos), k + 2))"

definition compress_node :: "(nat \<Rightarrow> bool) \<Rightarrow> nat \<Rightarrow> 'v rnode \<Rightarrow> byte list \<Rightarrow> ('v rnode option \<times> nat) outcome" where
  "compress_node mal k n s =
     (if \<not> (rdata n = [] \<and> \<not> rcompr n) then Inl AssertFailed
      else if \<not> mal k then Inr (None, k + 1)
      else if \<not> mal (k + 1) then Inr (None, k + 2)
      else let n' = RNode (rkey n) (rnull n) True s (rval n) [new_node]
           in Inr (Some (if rkey n then set_data n' (get_data n) else n'), k + 2))"

definition remove_child :: "'v rnode \<Rightarrow> nat \<Rightarrow> 'v rnode" where
  "remove_child n idx =
     (if rcompr n
      then let n' = RNode (rkey n) False False [] (rval n) [] in if rkey n then set_data n' (get_data n) else n'
      else RNode (rkey n) (rnull n) False (take idx (rdata n) @ drop (Suc idx) (rdata n)) (rval n)
             (take idx (rkids n) @ drop (Suc idx) (rkids n)))"

text \<open>The node at a path, and the tree with another node there.\<close>

fun node_at :: "'v rnode \<Rightarrow> nat list \<Rightarrow> 'v rnode outcome" where
  "node_at n [] = Inr n"
| "node_at n (j # p) = bindE (rd (rkids n) j) (\<lambda>c. node_at c p)"

fun put_node :: "'v rnode \<Rightarrow> nat list \<Rightarrow> 'v rnode \<Rightarrow> 'v rnode" where
  "put_node n [] x = x"
| "put_node n (j # p) x = set_kids n ((rkids n)[j := put_node (rkids n ! j) p x])"

section \<open>Walking\<close>

text \<open>The two loops of \<open>raxLowWalk\<close> inside a node: how many characters match, and which child has the character.\<close>

fun match_len :: "byte list \<Rightarrow> byte list \<Rightarrow> nat" where
  "match_len (v # vs) (c # s) = (if v \<noteq> c then 0 else Suc (match_len vs s))"
| "match_len _ _ = 0"

fun child_index :: "byte \<Rightarrow> byte list \<Rightarrow> nat" where
  "child_index c [] = 0"
| "child_index c (v # vs) = (if v = c then 0 else Suc (child_index c vs))"

text \<open>\<open>raxLowWalk\<close> from a node on: the number of characters matched, the path to the node where the walk stopped, that
  node, and the split position if it is compressed.\<close>

function walk :: "'v rnode \<Rightarrow> byte list \<Rightarrow> (nat \<times> nat list \<times> 'v rnode \<times> nat) outcome" where
  "walk n s =
     (if rdata n = [] \<or> s = [] then Inr (0, [], n, 0)
      else if rcompr n
      then let j = match_len (rdata n) s
           in if j \<noteq> length (rdata n) then Inr (j, [], n, j)
              else bindE (rd (rkids n) 0) (\<lambda>c. bindE (walk c (drop j s)) (\<lambda>(i, p, h, j'). Inr (j + i, 0 # p, h, j')))
      else let j = child_index (hd s) (rdata n)
           in if j = length (rdata n) then Inr (0, [], n, 0)
              else bindE (rd (rkids n) j) (\<lambda>c. bindE (walk c (tl s)) (\<lambda>(i, p, h, j'). Inr (Suc i, j # p, h, j'))))"
  by auto

lemma rnode_kid_size: "c \<in> set (rkids n) \<Longrightarrow> size c < size n"
  by (cases n) (auto dest: size_list_estimation' [where f = size, OF _ order_refl])

lemma rd_in_set: "rd xs j = Inr c \<Longrightarrow> c \<in> set xs"
  by (auto simp: rd_def split: if_splits)

termination walk
  by (relation "measure (\<lambda>(n, s). size n)") (auto dest!: rd_in_set rnode_kid_size)

declare walk.simps [simp del]

definition raxFind :: "'v rax \<Rightarrow> byte list \<Rightarrow> 'v option option outcome" where
  "raxFind t s =
     bindE (walk (head t) s) (\<lambda>(i, p, h, j).
     if i \<noteq> length s \<or> (rcompr h \<and> j \<noteq> 0) \<or> \<not> rkey h then Inr None else Inr (Some (get_data h)))"

text \<open>The stack of ancestors, as paths: the items, and what the array still holds above them. The walk pushes every node it
  leaves; a push that needs memory and gets none is only noted.\<close>

record raxStack =
  st_items :: "nat list list"
  st_above :: "nat list list"
  st_max :: nat
  st_oom :: bool

definition RAX_STACK_STATIC_ITEMS :: nat where "RAX_STACK_STATIC_ITEMS = 32"

definition raxStackInit :: raxStack where
  "raxStackInit = \<lparr>st_items = [], st_above = [], st_max = RAX_STACK_STATIC_ITEMS, st_oom = False\<rparr>"

definition raxStackPush :: "(nat \<Rightarrow> bool) \<Rightarrow> nat \<Rightarrow> raxStack \<Rightarrow> nat list \<Rightarrow> bool \<times> raxStack \<times> nat" where
  "raxStackPush mal k ts x =
     (if length (st_items ts) = st_max ts
      then if mal k then (True, ts\<lparr>st_items := st_items ts @ [x], st_above := tl (st_above ts), st_max := 2 * st_max ts\<rparr>, k + 1)
           else (False, ts\<lparr>st_oom := True\<rparr>, k + 1)
      else (True, ts\<lparr>st_items := st_items ts @ [x], st_above := tl (st_above ts)\<rparr>, k))"

definition raxStackPop :: "raxStack \<Rightarrow> nat list option \<times> raxStack" where
  "raxStackPop ts =
     (if st_items ts = [] then (None, ts)
      else (Some (last (st_items ts)), ts\<lparr>st_items := butlast (st_items ts), st_above := last (st_items ts) # st_above ts\<rparr>))"

definition raxStackPeek :: "raxStack \<Rightarrow> nat list option" where
  "raxStackPeek ts = (if st_items ts = [] then None else Some (last (st_items ts)))"

fun push_path :: "(nat \<Rightarrow> bool) \<Rightarrow> nat \<Rightarrow> raxStack \<Rightarrow> nat list \<Rightarrow> nat list \<Rightarrow> raxStack \<times> nat" where
  "push_path mal k ts q [] = (ts, k)"
| "push_path mal k ts q (j # p) = (let (ok, ts, k) = raxStackPush mal k ts q in push_path mal k ts (q @ [j]) p)"

section \<open>Removal\<close>

text \<open>A node that is not a key and has one child can be part of a compressed chain; so cleaning up and compressing stop at
  the others.\<close>

definition stops :: "'v rnode \<Rightarrow> bool" where
  "stops n \<longleftrightarrow> rkey n \<or> (\<not> rcompr n \<and> length (rdata n) \<noteq> 1)"

text \<open>\<open>while(h != rax->head)\<close>: free nodes upwards. The result is the last ancestor reached, the last node freed, the rest of
  the stack and the count of nodes.\<close>

function cleanup ::
  "'v rnode \<Rightarrow> nat list \<Rightarrow> nat list option \<Rightarrow> raxStack \<Rightarrow> nat \<Rightarrow> (nat list \<times> nat list option \<times> raxStack \<times> nat) outcome" where
  "cleanup t h child ts nn =
     (if h = [] then Inr (h, child, ts, nn)
      else case raxStackPop ts of
             (None, ts) \<Rightarrow> Inl NullDeref
           | (Some q, ts) \<Rightarrow>
               bindE (node_at t q) (\<lambda>n.
               if stops n then Inr (q, Some h, ts, dec64 nn) else cleanup t q (Some h) ts (dec64 nn)))"
  by auto
termination
  by (relation "measure (\<lambda>(t, h, child, ts, nn). length (st_items ts))") (auto simp: raxStackPop_def split: if_splits)

declare cleanup.simps [simp del]

text \<open>\<open>raxRemoveChild\<close> searches the pointers of a node that is not compressed for the child, and such a node may be moved, so
  that its own parent's link has to be found.\<close>

definition index_in :: "nat list \<Rightarrow> nat list \<Rightarrow> nat outcome" where
  "index_in q c = (if c \<noteq> [] \<and> butlast c = q then Inr (last c) else Inl OutOfBounds)"

definition parent_link :: "nat list \<Rightarrow> raxStack \<Rightarrow> unit outcome" where
  "parent_link q ts =
     (case raxStackPeek ts of
        None \<Rightarrow> if q = [] then Inr () else Inl InvalidPointer
      | Some r \<Rightarrow> bindE (index_in r q) (\<lambda>_. Inr ()))"

definition unlink_child :: "nat \<Rightarrow> 'v rnode \<Rightarrow> nat list \<Rightarrow> nat list \<Rightarrow> raxStack \<Rightarrow> ('v rnode \<times> nat) outcome" where
  "unlink_child k t q c ts =
     bindE (node_at t q) (\<lambda>n.
     if rcompr n then Inr (put_node t q (remove_child n 0), k)
     else bindE (index_in q c) (\<lambda>idx. bindE (parent_link q ts) (\<lambda>_. Inr (put_node t q (remove_child n idx), k + 1))))"

text \<open>Recompression: go up to the start of the chain, measure the chain, copy it into a new node.\<close>

function go_up :: "'v rnode \<Rightarrow> nat list \<Rightarrow> raxStack \<Rightarrow> (nat list \<times> raxStack) outcome" where
  "go_up t h ts =
     (case raxStackPop ts of
        (None, ts) \<Rightarrow> Inr (h, ts)
      | (Some q, ts) \<Rightarrow> bindE (node_at t q) (\<lambda>n. if stops n then Inr (h, ts) else go_up t q ts))"
  by auto
termination
  by (relation "measure (\<lambda>(t, h, ts). length (st_items ts))") (auto simp: raxStackPop_def split: if_splits)

declare go_up.simps [simp del]

definition last_kid :: "'v rnode \<Rightarrow> 'v rnode outcome" where
  "last_kid n = (if rkids n = [] then Inl OutOfBounds else Inr (last (rkids n)))"

lemma last_kid_size [termination_simp]: "last_kid n = Inr c \<Longrightarrow> size c < size n"
  using rnode_kid_size [of c n] by (auto simp: last_kid_def split: if_splits)

function scan_chain :: "'v rnode \<Rightarrow> nat \<Rightarrow> nat \<Rightarrow> (nat \<times> nat) outcome" where
  "scan_chain n comprsize nodes =
     (if rdata n = [] then Inr (comprsize, nodes)
      else bindE (last_kid n) (\<lambda>h.
           if stops h then Inr (comprsize, nodes)
           else if comprsize + length (rdata h) > RAX_NODE_MAX_SIZE then Inr (comprsize, nodes)
           else scan_chain h (comprsize + length (rdata h)) (nodes + 1)))"
  by auto
termination by (relation "measure (\<lambda>(n, a, b). size n)") (auto simp: last_kid_size)

declare scan_chain.simps [simp del]

function copy_chain :: "'v rnode \<Rightarrow> (byte list \<times> 'v rnode \<times> nat) outcome" where
  "copy_chain n =
     (if rdata n = [] then Inr ([], n, 0)
      else bindE (last_kid n) (\<lambda>h.
           if stops h then Inr (rdata n, h, 1)
           else bindE (copy_chain h) (\<lambda>(d, e, f). Inr (rdata n @ d, e, f + 1))))"
  by auto
termination by (relation "measure size") (auto simp: last_kid_size)

declare copy_chain.simps [simp del]

definition recompress ::
  "(nat \<Rightarrow> bool) \<Rightarrow> nat \<Rightarrow> 'v rnode \<Rightarrow> nat list \<Rightarrow> raxStack \<Rightarrow> nat \<Rightarrow> ('v rnode \<times> nat \<times> nat) outcome" where
  "recompress mal k t h ts nn =
     bindE (go_up t h ts) (\<lambda>(start, ts).
     bindE (node_at t start) (\<lambda>n.
     bindE (scan_chain n (length (rdata n)) 1) (\<lambda>(comprsize, nodes).
     if nodes \<le> 1 then Inr (t, nn, k)
     else if \<not> mal k then Inr (t, nn, k + 1)
     else
       bindE (copy_chain n) (\<lambda>(d, e, f).
       if comprsize < length d then Inl OutOfBounds
       else Inr (put_node t start (RNode False False True d None [e]), (dec64 ^^ f) (nn + 1), k + 1)))))"

definition raxRemove :: "(nat \<Rightarrow> bool) \<Rightarrow> nat \<Rightarrow> 'v rax \<Rightarrow> byte list \<Rightarrow> (bool \<times> 'v option option \<times> 'v rax \<times> nat) outcome" where
  "raxRemove mal k t s =
     bindE (walk (head t) s) (\<lambda>(i, p, h, j).
     let (ts, k) = push_path mal k raxStackInit [] p in
     if i \<noteq> length s \<or> (rcompr h \<and> j \<noteq> 0) \<or> \<not> rkey h then Inr (False, None, t, k)
     else
       let old = get_data h;
           r = put_node (head t) p (RNode False (rnull h) (rcompr h) (rdata h) (rval h) (rkids h));
           ne = dec64 (numele t)
       in bindE (if rdata h = []
                 then bindE (cleanup r p None ts (numnodes t)) (\<lambda>(q, child, ts, nn).
                      case child of None \<Rightarrow> Inr (r, q, ts, nn, False, k)
                      | Some c \<Rightarrow>
                          bindE (unlink_child k r q c ts) (\<lambda>(r, k).
                          bindE (node_at r q) (\<lambda>n.
                          Inr (r, q, ts, nn, length (rdata n) = 1 \<and> \<not> rkey n, k))))
                 else Inr (r, p, ts, numnodes t, length (rdata h) = 1, k)) (\<lambda>(r, q, ts, nn, trycompress, k).
          if trycompress \<and> \<not> st_oom ts
          then bindE (recompress mal k r q ts nn) (\<lambda>(r, nn, k).
               Inr (True, Some old, \<lparr>head = r, numele = ne, numnodes = nn\<rparr>, k))
          else Inr (True, Some old, \<lparr>head = r, numele = ne, numnodes = nn\<rparr>, k)))"

section \<open>Insertion\<close>

text \<open>Results of an insertion: the return value, what was stored in \<open>*old\<close>, whether \<open>errno\<close> is \<open>ENOMEM\<close>, the tree, and
  the number of allocations.\<close>

type_synonym 'v insert_result = "bool \<times> 'v option option \<times> bool \<times> 'v rax \<times> nat"

text \<open>The node of the key exists.\<close>

definition insert_here ::
  "(nat \<Rightarrow> bool) \<Rightarrow> nat \<Rightarrow> 'v rax \<Rightarrow> nat list \<Rightarrow> 'v rnode \<Rightarrow> 'v option \<Rightarrow> bool \<Rightarrow> 'v insert_result" where
  "insert_here mal k t p h d overwrite =
     (let need = (\<not> rkey h \<or> (rnull h \<and> overwrite)) \<and> d \<noteq> None;
          k' = (if need then k + 1 else k)
      in if need \<and> \<not> mal k then (False, None, True, t, k')
         else if rkey h
         then (False, Some (get_data h), False,
               if overwrite then t\<lparr>head := put_node (head t) p (set_data h d)\<rparr> else t, k')
         else (True, None, False, t\<lparr>head := put_node (head t) p (set_data h d), numele := numele t + 1\<rparr>, k'))"

text \<open>Algorithm 1: the walk stopped at a mismatch inside the compressed node \<open>h\<close>. The result is the replacement for
  \<open>h\<close>, the path to the split node below it, and how many nodes were added; \<open>None\<close> is out of memory.\<close>

definition split_node ::
  "(nat \<Rightarrow> bool) \<Rightarrow> nat \<Rightarrow> 'v rnode \<Rightarrow> nat \<Rightarrow> (('v rnode \<times> nat list \<times> nat) option \<times> nat) outcome" where
  "split_node mal k h j =
     bindE (last_kid h) (\<lambda>next.
     bindE (rd (rdata h) j) (\<lambda>c.
     let postfixlen = length (rdata h) - j - 1;
         split_ok = mal k;
         k = k + 1;
         trim_ok = (j = 0 \<or> mal k);
         k = (if j \<noteq> 0 then k + 1 else k);
         post_ok = (postfixlen = 0 \<or> mal k);
         k = (if postfixlen \<noteq> 0 then k + 1 else k)
     in if \<not> split_ok \<or> \<not> trim_ok \<or> \<not> post_ok then Inr (None, k)
        else
          let postfix = (if postfixlen \<noteq> 0
                         then RNode False False (postfixlen > 1) (drop (j + 1) (rdata h)) None [next] else next);
              splitnode = RNode False False False [c] None [postfix];
              added = (if postfixlen \<noteq> 0 then 1 else 0)
          in if j = 0
             then Inr (Some (if rkey h then set_data splitnode (get_data h) else splitnode, [], added), k)
             else
               let trimmed = RNode (rkey h) (rnull h) (j > 1) (take j (rdata h)) None [splitnode];
                   trimmed = (if rkey h \<and> \<not> rnull h then set_data trimmed (get_data h) else trimmed)
               in Inr (Some (trimmed, [0], added + 1), k)))"

text \<open>Algorithm 2: the key ends inside the compressed node \<open>h\<close>.\<close>

definition split_at_end ::
  "(nat \<Rightarrow> bool) \<Rightarrow> nat \<Rightarrow> 'v rnode \<Rightarrow> nat \<Rightarrow> 'v option \<Rightarrow> ('v rnode option \<times> nat) outcome" where
  "split_at_end mal k h j d =
     (if \<not> mal k \<or> \<not> mal (k + 1) then Inr (None, k + 2)
      else
        bindE (last_kid h) (\<lambda>next.
        let postfixlen = length (rdata h) - j;
            postfix = set_data (RNode True False (postfixlen > 1) (drop j (rdata h)) None [next]) d;
            trimmed = RNode False False (j > 1) (take j (rdata h)) None [postfix];
            trimmed = (if rkey h then set_data trimmed (get_data h) else trimmed)
        in Inr (Some trimmed, k + 2)))"

text \<open>The loop that inserts the missing nodes below the node at \<open>p\<close>. The result is whether memory sufficed, the tree, the
  path to the node reached, how many characters were inserted, and the count of nodes.\<close>

function grow ::
  "(nat \<Rightarrow> bool) \<Rightarrow> nat \<Rightarrow> 'v rnode \<Rightarrow> nat list \<Rightarrow> byte list \<Rightarrow> nat \<Rightarrow> nat \<Rightarrow>
   (bool \<times> 'v rnode \<times> nat list \<times> nat \<times> nat \<times> nat) outcome" where
  "grow mal k t p s i nn =
     (if s = [] then Inr (True, t, p, i, nn, k)
      else
        bindE (node_at t p) (\<lambda>h.
        if rdata h = [] \<and> length s > 1
        then let comprsize = min (length s) RAX_NODE_MAX_SIZE
             in bindE (compress_node mal k h (take comprsize s)) (\<lambda>(r, k).
                case r of None \<Rightarrow> Inr (False, t, p, i, nn, k)
                | Some h \<Rightarrow> grow mal k (put_node t p h) (p @ [0]) (drop comprsize s) (i + comprsize) (nn + 1))
        else bindE (add_child mal k h (hd s)) (\<lambda>(r, k).
             case r of None \<Rightarrow> Inr (False, t, p, i, nn, k)
             | Some (h, pos) \<Rightarrow> grow mal k (put_node t p h) (p @ [pos]) (tl s) (i + 1) (nn + 1))))"
  by auto
termination
  by (relation "measure (\<lambda>(mal, k, t, p, s, i, nn). length s)") (auto simp: RAX_NODE_MAX_SIZE_def min_def)

declare grow.simps [simp del]

text \<open>The label \<open>oom\<close>: a node without children is made a key and removed again.\<close>

definition insert_oom ::
  "(nat \<Rightarrow> bool) \<Rightarrow> nat \<Rightarrow> 'v rax \<Rightarrow> nat list \<Rightarrow> byte list \<Rightarrow> 'v insert_result outcome" where
  "insert_oom mal k t p s =
     bindE (node_at (head t) p) (\<lambda>h.
     if rdata h = []
     then bindE (raxRemove mal k (t\<lparr>head := put_node (head t) p (RNode True True (rcompr h) (rdata h) (rval h) (rkids h)),
                                    numele := numele t + 1\<rparr>) s) (\<lambda>(r, old, t, k).
          if r then Inr (False, None, True, t, k) else Inl AssertFailed)
     else Inr (False, None, True, t, k))"

text \<open>The end of the insertion, from the node at \<open>p\<close> with the characters from \<open>i\<close> on still to be inserted.\<close>

definition insert_below ::
  "(nat \<Rightarrow> bool) \<Rightarrow> nat \<Rightarrow> 'v rax \<Rightarrow> nat list \<Rightarrow> byte list \<Rightarrow> nat \<Rightarrow> 'v option \<Rightarrow> 'v insert_result outcome" where
  "insert_below mal k t p s i d =
     bindE (grow mal k (head t) p (drop i s) i (numnodes t)) (\<lambda>(ok, r, p, i, nn, k).
     let t = t\<lparr>head := r, numnodes := nn\<rparr>;
         k' = (if d \<noteq> None then k + 1 else k)
     in if \<not> ok then insert_oom mal k t p (take i s)
        else if d \<noteq> None \<and> \<not> mal k then insert_oom mal k' t p (take i s)
        else bindE (node_at r p) (\<lambda>h.
             Inr (True, None, False, t\<lparr>head := put_node r p (set_data h d),
                                       numele := if rkey h then numele t else numele t + 1\<rparr>, k')))"

definition raxGenericInsert ::
  "(nat \<Rightarrow> bool) \<Rightarrow> nat \<Rightarrow> 'v rax \<Rightarrow> byte list \<Rightarrow> 'v option \<Rightarrow> bool \<Rightarrow> 'v insert_result outcome" where
  "raxGenericInsert mal k t s d overwrite =
     bindE (walk (head t) s) (\<lambda>(i, p, h, j).
     if i = length s \<and> (\<not> rcompr h \<or> j = 0) then Inr (insert_here mal k t p h d overwrite)
     else if rcompr h \<and> i \<noteq> length s
     then bindE (split_node mal k h j) (\<lambda>(r, k).
          case r of None \<Rightarrow> Inr (False, None, True, t, k)
          | Some (h', q, added) \<Rightarrow>
              insert_below mal k (t\<lparr>head := put_node (head t) p h', numnodes := numnodes t + added\<rparr>) (p @ q) s i d)
     else if rcompr h
     then bindE (split_at_end mal k h j d) (\<lambda>(r, k).
          case r of None \<Rightarrow> Inr (False, None, True, t, k)
          | Some h' \<Rightarrow> Inr (True, None, False, \<lparr>head = put_node (head t) p h', numele = numele t + 1, numnodes = numnodes t + 1\<rparr>, k))
     else insert_below mal k t p s i d)"

definition raxInsert where "raxInsert mal k t s d = raxGenericInsert mal k t s d True"

definition raxTryInsert where "raxTryInsert mal k t s d = raxGenericInsert mal k t s d False"

section \<open>Freeing\<close>

text \<open>\<open>raxRecursiveFree\<close>: the children from the last to the first, then the node. The result is the values handed to the
  callback and the count of nodes left.\<close>

fun raxRecursiveFree :: "'v rnode \<Rightarrow> nat \<Rightarrow> 'v option list \<times> nat" where
  "raxRecursiveFree (RNode key null compr ds v ks) nn =
     (let (freed, nn) = fold (\<lambda>c (fs, nn). let (f, nn) = raxRecursiveFree c nn in (fs @ f, nn)) (rev ks) ([], nn)
      in (freed @ (if key \<and> \<not> null then [v] else []), dec64 nn))"

definition raxFreeWithCallback :: "'v rax \<Rightarrow> 'v option list outcome" where
  "raxFreeWithCallback t =
     (let (freed, nn) = raxRecursiveFree (head t) (numnodes t) in if nn = 0 then Inr freed else Inl AssertFailed)"

definition raxSize :: "'v rax \<Rightarrow> nat" where
  "raxSize t = numele t"

end
