(* ===== verification/Rax_Iter.thy ===== *)
theory Rax_Iter
  imports Rax
begin

text \<open>
  The iterator of \<open>rax.c\<close>. The current node and the nodes on its stack are paths in the tree that \<open>it->rt\<close> points to, which
  the operations take as an argument; the key buffer keeps the bytes above the current length, as the code restores lengths
  without copying. \<open>node_cb\<close> is \<open>NULL\<close>, as \<open>raxStart\<close> sets it and nothing in the program changes it.
\<close>

record 'v raxIterator =
  it_eof :: bool
  it_seeked :: bool
  it_buf :: "byte list"
  it_len :: nat
  it_max :: nat
  it_data :: "'v option"
  it_node :: "nat list option"
  it_stack :: raxStack

definition RAX_ITER_STATIC_LEN :: nat where "RAX_ITER_STATIC_LEN = 128"

definition raxStart :: "'v raxIterator" where
  "raxStart = \<lparr>it_eof = True, it_seeked = False, it_buf = [], it_len = 0, it_max = RAX_ITER_STATIC_LEN, it_data = None,
               it_node = None, it_stack = raxStackInit\<rparr>"

definition it_key :: "'v raxIterator \<Rightarrow> byte list" where
  "it_key it = take (it_len it) (it_buf it)"

definition raxIteratorAddChars :: "(nat \<Rightarrow> bool) \<Rightarrow> nat \<Rightarrow> 'v raxIterator \<Rightarrow> byte list \<Rightarrow> bool \<times> 'v raxIterator \<times> nat" where
  "raxIteratorAddChars mal k it s =
     (let grow = it_max it < it_len it + length s;
          k' = (if grow then k + 1 else k)
      in if grow \<and> \<not> mal k then (False, it, k')
         else (True, it\<lparr>it_buf := take (it_len it) (it_buf it) @ s @ drop (it_len it + length s) (it_buf it),
                        it_len := it_len it + length s,
                        it_max := if grow then (it_len it + length s) * 2 else it_max it\<rparr>, k'))"

definition raxIteratorDelChars :: "'v raxIterator \<Rightarrow> nat \<Rightarrow> 'v raxIterator outcome" where
  "raxIteratorDelChars it count = (if count \<le> it_len it then Inr (it\<lparr>it_len := it_len it - count\<rparr>) else Inl OutOfBounds)"

text \<open>The node the iterator is at, and the last character of its key.\<close>

definition cur_node :: "'v rax \<Rightarrow> 'v raxIterator \<Rightarrow> (nat list \<times> 'v rnode) outcome" where
  "cur_node t it = (case it_node it of None \<Rightarrow> Inl NullDeref | Some p \<Rightarrow> bindE (node_at (head t) p) (\<lambda>n. Inr (p, n)))"

definition prevchild :: "'v raxIterator \<Rightarrow> byte outcome" where
  "prevchild it = (if it_len it = 0 then Inl OutOfBounds else rd (it_buf it) (it_len it - 1))"

definition it_push :: "(nat \<Rightarrow> bool) \<Rightarrow> nat \<Rightarrow> 'v raxIterator \<Rightarrow> nat list \<Rightarrow> bool \<times> 'v raxIterator \<times> nat" where
  "it_push mal k it p = (let (ok, ts, k) = raxStackPush mal k (it_stack it) p in (ok, it\<lparr>it_stack := ts\<rparr>, k))"

text \<open>The scans over the characters of a node, forward and backward.\<close>

fun first_greater :: "byte \<Rightarrow> byte list \<Rightarrow> nat" where
  "first_greater c [] = 0"
| "first_greater c (v # vs) = (if v > c then 0 else Suc (first_greater c vs))"

fun last_less :: "byte \<Rightarrow> byte list \<Rightarrow> nat \<Rightarrow> nat option" where
  "last_less c vs 0 = None"
| "last_less c vs (Suc i) = (if vs ! i < c then Some i else last_less c vs i)"

text \<open>The state saved at the start of a step, restored at the end of the iteration: key length, stack items, node.\<close>

type_synonym saved = "nat \<times> nat \<times> nat list option"

definition save :: "'v raxIterator \<Rightarrow> saved" where
  "save it = (it_len it, length (st_items (it_stack it)), it_node it)"

definition set_items :: "nat \<Rightarrow> raxStack \<Rightarrow> raxStack" where
  "set_items n ts = ts\<lparr>st_items := take n (st_items ts @ st_above ts), st_above := drop n (st_items ts @ st_above ts)\<rparr>"

definition at_end :: "saved \<Rightarrow> 'v raxIterator \<Rightarrow> 'v raxIterator" where
  "at_end sv it = (case sv of (len, items, node) \<Rightarrow>
     it\<lparr>it_eof := True, it_stack := set_items items (it_stack it), it_len := len, it_node := node\<rparr>)"

definition enter :: "nat list \<Rightarrow> 'v rnode \<Rightarrow> 'v raxIterator \<Rightarrow> 'v raxIterator" where
  "enter p n it = (if rkey n then it\<lparr>it_node := Some p, it_data := get_data n\<rparr> else it\<lparr>it_node := Some p\<rparr>)"

text \<open>The inner loop of \<open>raxIteratorNextStep\<close>: go up until there is a next child. It ends the iteration, finds a key, finds a
  node that is not a key, or runs out of memory.\<close>

datatype up_result = UpEof | UpKey | UpNode | UpOom

function next_up :: "(nat \<Rightarrow> bool) \<Rightarrow> nat \<Rightarrow> 'v rax \<Rightarrow> 'v raxIterator \<Rightarrow> bool \<Rightarrow> saved \<Rightarrow> (up_result \<times> 'v raxIterator \<times> nat) outcome" where
  "next_up mal k t it noup sv =
     (if \<not> noup \<and> it_node it = Some [] then Inr (UpEof, at_end sv it, k)
      else bindE (prevchild it) (\<lambda>c.
        case (if noup then (it_node it, it_stack it) else raxStackPop (it_stack it)) of
          (None, ts) \<Rightarrow> Inl NullDeref
        | (Some p, ts) \<Rightarrow>
            bindE (node_at (head t) p) (\<lambda>n.
            bindE (raxIteratorDelChars (it\<lparr>it_node := Some p, it_stack := ts\<rparr>) (if rcompr n then length (rdata n) else 1)) (\<lambda>it.
            let i = first_greater c (rdata n)
            in if \<not> rcompr n \<and> (if noup then 0 else 1) < length (rdata n) \<and> i \<noteq> length (rdata n)
               then let (_, it, k) = raxIteratorAddChars mal k it [rdata n ! i];
                        (ok, it, k) = it_push mal k it p
                    in if \<not> ok then Inr (UpOom, it, k)
                       else bindE (rd (rkids n) i) (\<lambda>c. Inr (if rkey c then UpKey else UpNode, enter (p @ [i]) c it, k))
               else next_up mal k t it False sv))))"
  by auto
termination
  by (relation "measure (\<lambda>(mal, k, t, it, noup, sv). length (st_items (it_stack it)) + (if noup then 1 else 0))")
     (auto simp: raxStackPop_def raxIteratorDelChars_def split: if_splits)

declare next_up.simps [simp del]

text \<open>The outer loop: go deeper, towards the first key below the node, or up.\<close>

partial_function (option) next_loop ::
  "(nat \<Rightarrow> bool) \<Rightarrow> nat \<Rightarrow> 'v rax \<Rightarrow> 'v raxIterator \<Rightarrow> bool \<Rightarrow> saved \<Rightarrow> (bool \<times> 'v raxIterator \<times> nat) outcome option" where
  "next_loop mal k t it noup sv =
     (case cur_node t it of Inl e \<Rightarrow> Some (Inl e)
      | Inr (p, n) \<Rightarrow>
          if \<not> noup \<and> (if rcompr n then 1 else length (rdata n)) \<noteq> 0
          then case it_push mal k it p of (ok, it, k) \<Rightarrow>
               if \<not> ok then Some (Inr (False, it, k))
               else case raxIteratorAddChars mal k it (if rcompr n then rdata n else [rdata n ! 0]) of (ok, it, k) \<Rightarrow>
               if \<not> ok then Some (Inr (False, it, k))
               else case rd (rkids n) 0 of Inl e \<Rightarrow> Some (Inl e)
               | Inr c \<Rightarrow> if rkey c then Some (Inr (True, enter (p @ [0]) c it, k))
                         else next_loop mal k t (enter (p @ [0]) c it) noup sv
          else case next_up mal k t it noup sv of Inl e \<Rightarrow> Some (Inl e)
               | Inr (r, it, k) \<Rightarrow>
                   if r = UpNode then next_loop mal k t it False sv else Some (Inr (r \<noteq> UpOom, it, k)))"

definition raxIteratorNextStep ::
  "(nat \<Rightarrow> bool) \<Rightarrow> nat \<Rightarrow> 'v rax \<Rightarrow> 'v raxIterator \<Rightarrow> bool \<Rightarrow> (bool \<times> 'v raxIterator \<times> nat) outcome option" where
  "raxIteratorNextStep mal k t it noup =
     (if it_eof it then Some (Inr (True, it, k))
      else if it_seeked it then Some (Inr (True, it\<lparr>it_seeked := False\<rparr>, k))
      else next_loop mal k t it noup (save it))"

text \<open>\<open>raxSeekGreatest\<close> from the node \<open>n\<close> at \<open>p\<close>.\<close>

function greatest_loop :: "(nat \<Rightarrow> bool) \<Rightarrow> nat \<Rightarrow> 'v raxIterator \<Rightarrow> nat list \<Rightarrow> 'v rnode \<Rightarrow> (bool \<times> 'v raxIterator \<times> nat) outcome" where
  "greatest_loop mal k it p n =
     (if rdata n = [] then Inr (True, it, k)
      else let (ok, it, k) = raxIteratorAddChars mal k it (if rcompr n then rdata n else [last (rdata n)])
           in if \<not> ok then Inr (False, it, k)
              else let (ok, it, k) = it_push mal k it p
                   in if \<not> ok then Inr (False, it, k)
                      else let i = (if rcompr n then 0 else length (rdata n) - 1)
                           in bindE (rd (rkids n) i) (\<lambda>c. greatest_loop mal k (it\<lparr>it_node := Some (p @ [i])\<rparr>) (p @ [i]) c))"
  by auto
termination
  by (relation "measure (\<lambda>(mal, k, it, p, n). size n)") (auto dest!: rd_in_set rnode_kid_size)

declare greatest_loop.simps [simp del]

definition raxSeekGreatest :: "(nat \<Rightarrow> bool) \<Rightarrow> nat \<Rightarrow> 'v rax \<Rightarrow> 'v raxIterator \<Rightarrow> (bool \<times> 'v raxIterator \<times> nat) outcome" where
  "raxSeekGreatest mal k t it = bindE (cur_node t it) (\<lambda>(p, n). greatest_loop mal k it p n)"

text \<open>One round of \<open>raxIteratorPrevStep\<close> after the test for the head: go up, or stay with \<open>noup\<close>, and enter the greatest
  key of the previous child if there is one. The result tells whether memory sufficed.\<close>

definition prev_step ::
  "(nat \<Rightarrow> bool) \<Rightarrow> nat \<Rightarrow> 'v rax \<Rightarrow> 'v raxIterator \<Rightarrow> bool \<Rightarrow> (bool \<times> 'v raxIterator \<times> nat) outcome" where
  "prev_step mal k t it noup =
     bindE (prevchild it) (\<lambda>c.
     case (if noup then (it_node it, it_stack it) else raxStackPop (it_stack it)) of
       (None, ts) \<Rightarrow> Inl NullDeref
     | (Some p, ts) \<Rightarrow>
         bindE (node_at (head t) p) (\<lambda>n.
         bindE (raxIteratorDelChars (it\<lparr>it_node := Some p, it_stack := ts\<rparr>) (if rcompr n then length (rdata n) else 1)) (\<lambda>it.
         if \<not> rcompr n \<and> (if noup then 0 else 1) < length (rdata n)
         then case last_less c (rdata n) (length (rdata n)) of
                None \<Rightarrow> Inr (True, it, k)
              | Some i \<Rightarrow>
                  let (ok, it, k) = raxIteratorAddChars mal k it [rdata n ! i]
                  in if \<not> ok then Inr (False, it, k)
                     else let (ok, it, k) = it_push mal k it p
                          in if \<not> ok then Inr (False, it, k)
                             else raxSeekGreatest mal k t (it\<lparr>it_node := Some (p @ [i])\<rparr>)
         else Inr (True, it, k))))"

partial_function (option) prev_loop ::
  "(nat \<Rightarrow> bool) \<Rightarrow> nat \<Rightarrow> 'v rax \<Rightarrow> 'v raxIterator \<Rightarrow> bool \<Rightarrow> saved \<Rightarrow> (bool \<times> 'v raxIterator \<times> nat) outcome option" where
  "prev_loop mal k t it noup sv =
     (if \<not> noup \<and> it_node it = Some [] then Some (Inr (True, at_end sv it, k))
      else case prev_step mal k t it noup of Inl e \<Rightarrow> Some (Inl e)
           | Inr (ok, it, k) \<Rightarrow>
               if \<not> ok then Some (Inr (False, it, k))
               else case cur_node t it of Inl e \<Rightarrow> Some (Inl e)
                    | Inr (p, n) \<Rightarrow> if rkey n then Some (Inr (True, it\<lparr>it_data := get_data n\<rparr>, k))
                                  else prev_loop mal k t it False sv)"

definition raxIteratorPrevStep ::
  "(nat \<Rightarrow> bool) \<Rightarrow> nat \<Rightarrow> 'v rax \<Rightarrow> 'v raxIterator \<Rightarrow> bool \<Rightarrow> (bool \<times> 'v raxIterator \<times> nat) outcome option" where
  "raxIteratorPrevStep mal k t it noup =
     (if it_eof it then Some (Inr (True, it, k))
      else if it_seeked it then Some (Inr (True, it\<lparr>it_seeked := False\<rparr>, k))
      else prev_loop mal k t it noup (save it))"

section \<open>Seeking\<close>

text \<open>The operator is a C string: a character beyond its end is the terminator.\<close>

definition op_char :: "string \<Rightarrow> nat \<Rightarrow> char" where
  "op_char opr i = (if i < length opr then opr ! i else CHR 0x00)"

text \<open>The key at the node, from the characters on the stacked path.\<close>

fun add_path :: "(nat \<Rightarrow> bool) \<Rightarrow> nat \<Rightarrow> 'v rax \<Rightarrow> 'v raxIterator \<Rightarrow> nat list list \<Rightarrow> (bool \<times> 'v raxIterator \<times> nat) outcome" where
  "add_path mal k t it (parent # child # rest) =
     bindE (node_at (head t) parent) (\<lambda>n.
     bindE (if rcompr n then Inr (rdata n) else bindE (index_in parent child) (\<lambda>j. bindE (rd (rdata n) j) (\<lambda>c. Inr [c]))) (\<lambda>s.
     let (ok, it, k) = raxIteratorAddChars mal k it s
     in if \<not> ok then Inr (False, it, k) else add_path mal k t it (child # rest)))"
| "add_path mal k t it _ = Inr (True, it, k)"

text \<open>A step of the iteration inside \<open>raxSeek\<close>; then the iterator is marked as just seeked.\<close>

definition then_seeked :: "(bool \<times> 'v raxIterator \<times> nat) outcome option \<Rightarrow> (bool \<times> 'v raxIterator \<times> nat) outcome option" where
  "then_seeked r = (case r of Some (Inr (True, it, k)) \<Rightarrow> Some (Inr (True, it\<lparr>it_seeked := True\<rparr>, k)) | _ \<Rightarrow> r)"

definition seek_step ::
  "(nat \<Rightarrow> bool) \<Rightarrow> nat \<Rightarrow> 'v rax \<Rightarrow> 'v raxIterator \<Rightarrow> bool \<Rightarrow> bool \<Rightarrow> (bool \<times> 'v raxIterator \<times> nat) outcome option" where
  "seek_step mal k t it gt noup = (if gt then raxIteratorNextStep mal k t it noup else raxIteratorPrevStep mal k t it noup)"

text \<open>The walk stopped at a compressed node, where the characters differ.\<close>

definition seek_mismatch ::
  "(nat \<Rightarrow> bool) \<Rightarrow> nat \<Rightarrow> 'v rax \<Rightarrow> 'v raxIterator \<Rightarrow> bool \<Rightarrow> nat list \<Rightarrow> 'v rnode \<Rightarrow> byte \<Rightarrow> byte \<Rightarrow>
   (bool \<times> 'v raxIterator \<times> nat) outcome option" where
  "seek_mismatch mal k t it gt p n nodechar keychar =
     (if gt \<and> nodechar > keychar then raxIteratorNextStep mal k t it False
      else if \<not> gt \<and> nodechar < keychar
      then (case raxSeekGreatest mal k t it of Inl e \<Rightarrow> Some (Inl e)
            | Inr (ok, it, k) \<Rightarrow>
                if \<not> ok then Some (Inr (False, it, k))
                else case cur_node t it of Inl e \<Rightarrow> Some (Inl e) | Inr (q, m) \<Rightarrow> Some (Inr (True, it\<lparr>it_data := get_data m\<rparr>, k)))
      else case raxIteratorAddChars mal k it (rdata n) of (ok, it, k) \<Rightarrow>
           if \<not> ok then Some (Inr (False, it, k)) else seek_step mal k t it gt True)"

text \<open>Seeking the next or the previous key from the node where the walk stopped.\<close>

definition seek_near ::
  "(nat \<Rightarrow> bool) \<Rightarrow> nat \<Rightarrow> 'v rax \<Rightarrow> 'v raxIterator \<Rightarrow> bool \<Rightarrow> byte list \<Rightarrow> nat \<Rightarrow> nat list \<Rightarrow> 'v rnode \<Rightarrow> nat \<Rightarrow>
   (bool \<times> 'v raxIterator \<times> nat) outcome option" where
  "seek_near mal k t it gt ele i p h splitpos =
     (case it_push mal k it p of (ok, it, k) \<Rightarrow>
      if \<not> ok then Some (Inr (False, it, k))
      else case add_path mal k t it (st_items (it_stack it)) of Inl e \<Rightarrow> Some (Inl e)
      | Inr (ok, it, k) \<Rightarrow>
          if \<not> ok then Some (Inr (False, it, k))
          else let it = it\<lparr>it_stack := snd (raxStackPop (it_stack it))\<rparr>
               in if i \<noteq> length ele \<and> \<not> rcompr h
                  then case raxIteratorAddChars mal k it [ele ! i] of (ok, it, k) \<Rightarrow>
                       if \<not> ok then Some (Inr (False, it, k))
                       else then_seeked (seek_step mal k t (it\<lparr>it_seeked := False\<rparr>) gt True)
                  else if i \<noteq> length ele
                  then then_seeked (seek_mismatch mal k t (it\<lparr>it_seeked := False\<rparr>) gt p h (rdata h ! splitpos) (ele ! i))
                  else if rcompr h \<and> rkey h \<and> splitpos \<noteq> 0 \<and> \<not> gt then then_seeked (Some (Inr (True, it\<lparr>it_seeked := False\<rparr>, k)))
                  else then_seeked (seek_step mal k t (it\<lparr>it_seeked := False\<rparr>) gt False))"

definition seek_key ::
  "(nat \<Rightarrow> bool) \<Rightarrow> nat \<Rightarrow> 'v rax \<Rightarrow> 'v raxIterator \<Rightarrow> bool \<Rightarrow> bool \<Rightarrow> bool \<Rightarrow> byte list \<Rightarrow> (bool \<times> 'v raxIterator \<times> nat) outcome option" where
  "seek_key mal k t it eq lt gt ele =
     (case walk (head t) ele of Inl e \<Rightarrow> Some (Inl e)
      | Inr (i, p, h, splitpos) \<Rightarrow>
          let (ts, k) = push_path mal k (it_stack it) [] p;
              it = it\<lparr>it_node := Some p, it_stack := ts\<rparr>
          in if st_oom ts then Some (Inr (False, it, k))
             else if eq \<and> i = length ele \<and> (\<not> rcompr h \<or> splitpos = 0) \<and> rkey h
             then case raxIteratorAddChars mal k it ele of (ok, it, k) \<Rightarrow>
                  if \<not> ok then Some (Inr (False, it, k)) else Some (Inr (True, it\<lparr>it_data := get_data h\<rparr>, k))
             else if lt \<or> gt then seek_near mal k t it gt ele i p h splitpos
             else Some (Inr (True, it\<lparr>it_eof := True\<rparr>, k)))"

definition seek_reset :: "'v raxIterator \<Rightarrow> 'v raxIterator" where
  "seek_reset it = it\<lparr>it_stack := set_items 0 (it_stack it), it_seeked := True, it_eof := False, it_len := 0, it_node := None\<rparr>"

definition seek_last :: "(nat \<Rightarrow> bool) \<Rightarrow> nat \<Rightarrow> 'v rax \<Rightarrow> 'v raxIterator \<Rightarrow> (bool \<times> 'v raxIterator \<times> nat) outcome" where
  "seek_last mal k t it =
     bindE (raxSeekGreatest mal k t (it\<lparr>it_node := Some []\<rparr>)) (\<lambda>(ok, it, k).
     if \<not> ok then Inr (False, it, k)
     else bindE (cur_node t it) (\<lambda>(p, n). if \<not> rkey n then Inl AssertFailed else Inr (True, it\<lparr>it_data := get_data n\<rparr>, k)))"

definition raxSeek ::
  "(nat \<Rightarrow> bool) \<Rightarrow> nat \<Rightarrow> 'v rax \<Rightarrow> 'v raxIterator \<Rightarrow> string \<Rightarrow> byte list \<Rightarrow> (bool \<times> 'v raxIterator \<times> nat) outcome option" where
  "raxSeek mal k t it opr ele =
     (let it = seek_reset it; c = op_char opr 0; eq = (op_char opr 1 = CHR ''='')
      in if c \<notin> {CHR ''>'', CHR ''<'', CHR ''='', CHR ''^'', CHR ''$''} then Some (Inr (False, it, k))
         else if numele t = 0 then Some (Inr (True, it\<lparr>it_eof := True\<rparr>, k))
         else if c = CHR ''^'' then seek_key mal k t (seek_reset it) True False True []
         else if c = CHR ''$'' then Some (seek_last mal k t it)
         else if c = CHR ''>'' then seek_key mal k t it eq False True ele
         else if c = CHR ''<'' then seek_key mal k t it eq True False ele
         else seek_key mal k t it True False False ele)"

section \<open>Iterating\<close>

text \<open>The results of \<open>raxNext\<close> and \<open>raxPrev\<close>: the return value, whether \<open>errno\<close> is \<open>ENOMEM\<close>, the iterator.\<close>

definition step_result :: "(bool \<times> 'v raxIterator \<times> nat) outcome option \<Rightarrow> (bool \<times> bool \<times> 'v raxIterator \<times> nat) outcome option" where
  "step_result r = (case r of None \<Rightarrow> None | Some (Inl e) \<Rightarrow> Some (Inl e)
     | Some (Inr (ok, it, k)) \<Rightarrow> Some (Inr (ok \<and> \<not> it_eof it, \<not> ok, it, k)))"

definition raxNext :: "(nat \<Rightarrow> bool) \<Rightarrow> nat \<Rightarrow> 'v rax \<Rightarrow> 'v raxIterator \<Rightarrow> (bool \<times> bool \<times> 'v raxIterator \<times> nat) outcome option" where
  "raxNext mal k t it = step_result (raxIteratorNextStep mal k t it False)"

definition raxPrev :: "(nat \<Rightarrow> bool) \<Rightarrow> nat \<Rightarrow> 'v rax \<Rightarrow> 'v raxIterator \<Rightarrow> (bool \<times> bool \<times> 'v raxIterator \<times> nat) outcome option" where
  "raxPrev mal k t it = step_result (raxIteratorPrevStep mal k t it False)"

definition raxEOF :: "'v raxIterator \<Rightarrow> bool" where
  "raxEOF it = it_eof it"

text \<open>\<open>raxCompare\<close>: the key of the iterator against another one.\<close>

definition raxCompare :: "'v raxIterator \<Rightarrow> string \<Rightarrow> byte list \<Rightarrow> bool" where
  "raxCompare it opr key =
     (let c0 = op_char opr 0; c1 = op_char opr 1;
          eq = (c0 = CHR ''='' \<or> c1 = CHR ''='');
          gt = (c0 = CHR ''>'');
          lt = (\<not> gt \<and> c0 = CHR ''<'')
      in if \<not> gt \<and> \<not> lt \<and> c1 \<noteq> CHR ''='' then False
         else let minlen = min (length key) (it_len it);
                  cmp = memcmp (take minlen (it_key it)) (take minlen key)
              in if \<not> lt \<and> \<not> gt then cmp = 0 \<and> length key = it_len it
                 else if cmp = 0
                 then if eq \<and> length key = it_len it then True
                      else if lt then it_len it < length key else it_len it > length key
                 else if cmp > 0 then gt else lt)"

section \<open>Random walks\<close>

text \<open>\<open>rnd\<close> gives the results of \<open>rand\<close>, \<open>flog\<close> is the floor of the natural logarithm of the math library. The number of steps left is a
  \<open>size_t\<close>.\<close>

definition walk_steps :: "64 word \<Rightarrow> 'v rnode \<Rightarrow> 64 word" where
  "walk_steps steps n = (if rkey n then steps - 1 else steps)"

partial_function (option) random_loop ::
  "(nat \<Rightarrow> nat) \<Rightarrow> nat \<Rightarrow> (nat \<Rightarrow> bool) \<Rightarrow> nat \<Rightarrow> 'v rax \<Rightarrow> 'v raxIterator \<Rightarrow> nat list \<Rightarrow> 64 word \<Rightarrow> (bool \<times> 'v raxIterator \<times> nat) outcome option" where
  "random_loop rnd r mal k t it p steps =
     (case node_at (head t) p of Inl e \<Rightarrow> Some (Inl e)
      | Inr n \<Rightarrow>
          let kids = (if rcompr n then 1 else length (rdata n));
              choices = kids + (if p \<noteq> [] then 1 else 0);
              i = rnd r mod choices
          in if \<not> (0 < steps \<or> \<not> rkey n) then Some (Inr (True, it\<lparr>it_node := Some p\<rparr>, k))
             else if choices = 0 then Some (Inl DivByZero)
             else if i = kids
             then case raxStackPop (it_stack it) of (None, ts) \<Rightarrow> Some (Inl NullDeref)
                  | (Some q, ts) \<Rightarrow>
                      (case bindE (node_at (head t) q) (\<lambda>m.
                              bindE (raxIteratorDelChars (it\<lparr>it_stack := ts\<rparr>) (if rcompr m then length (rdata m) else 1)) (\<lambda>it. Inr (m, it))) of
                         Inl e \<Rightarrow> Some (Inl e)
                       | Inr (m, it) \<Rightarrow> random_loop rnd (Suc r) mal k t it q (walk_steps steps m))
             else case raxIteratorAddChars mal k it (if rcompr n then rdata n else [rdata n ! i]) of (ok, it, k) \<Rightarrow>
                  if \<not> ok then Some (Inr (False, it, k))
                  else case it_push mal k it p of (ok, it, k) \<Rightarrow>
                  if \<not> ok then Some (Inr (False, it, k))
                  else case rd (rkids n) i of Inl e \<Rightarrow> Some (Inl e)
                  | Inr c \<Rightarrow> random_loop rnd (Suc r) mal k t it (p @ [i]) (walk_steps steps c))"

definition raxRandomWalk ::
  "(nat \<Rightarrow> nat) \<Rightarrow> (nat \<Rightarrow> nat) \<Rightarrow> (nat \<Rightarrow> bool) \<Rightarrow> nat \<Rightarrow> 'v rax \<Rightarrow> 'v raxIterator \<Rightarrow> 64 word \<Rightarrow> (bool \<times> 'v raxIterator \<times> nat) outcome option" where
  "raxRandomWalk rnd flog mal k t it steps =
     (if numele t = 0 then Some (Inr (False, it\<lparr>it_eof := True\<rparr>, k))
      else let fle = flog (numele t) * 2
           in if steps = 0 \<and> fle = 0 then Some (Inl DivByZero)
              else let (steps, r) = (if steps = 0 then (1 + of_nat (rnd 0 mod fle), 1) else (steps, 0))
                   in case it_node it of None \<Rightarrow> Some (Inl NullDeref)
                      | Some p \<Rightarrow> random_loop rnd r mal k t it p steps)"

end
