(* ===== verification/Rax_Map.thy ===== *)
theory Rax_Map
  imports Rax
begin

text \<open>
  The radix tree as a map. \<open>rlookup\<close> reads a subtree as a map from strings to values; the operations of \<open>Rax\<close> are shown
  to look up, update and delete in it, and to keep the counts of elements and nodes.
\<close>

section \<open>Well-formed trees as maps\<close>

text \<open>A compressed node has at least two characters and one child, another node has a child for each of its
  characters, which are in ascending order.\<close>

fun rwf :: "'v rnode \<Rightarrow> bool" where
  "rwf (RNode key null compr ds v ks) \<longleftrightarrow>
     (if compr then 2 \<le> length ds \<and> length ds \<le> RAX_NODE_MAX_SIZE \<and> length ks = 1 else length ks = length ds \<and> sorted_wrt (<) ds) \<and>
     (\<forall>c \<in> set ks. rwf c)"

function rlookup :: "'v rnode \<Rightarrow> byte list \<Rightarrow> 'v option option" where
  "rlookup n s =
     (if s = [] then (if rkey n then Some (get_data n) else None)
      else if rkids n = [] then None
      else if rcompr n then (if prefix (rdata n) s then rlookup (hd (rkids n)) (drop (length (rdata n)) s) else None)
      else let j = child_index (hd s) (rdata n) in if j < length (rkids n) then rlookup (rkids n ! j) (tl s) else None)"
  by auto
termination by (relation "measure (\<lambda>(n, s). size n)") (auto simp: rnode_kid_size)

declare rlookup.simps [simp del]

fun nkeys :: "'v rnode \<Rightarrow> nat" where
  "nkeys (RNode key null compr ds v ks) = (if key then 1 else 0) + sum_list (map nkeys ks)"

fun nnodes :: "'v rnode \<Rightarrow> nat" where
  "nnodes (RNode key null compr ds v ks) = 1 + sum_list (map nnodes ks)"

text \<open>The number of characters on the longest path.\<close>

fun rdepth :: "'v rnode \<Rightarrow> nat" where
  "rdepth (RNode key null compr ds v ks) = foldr max (map (\<lambda>c. (if compr then length ds else 1) + rdepth c) ks) 0"

text \<open>Paths: valid ones, the node they lead to, the characters on the way.\<close>

fun vpath :: "'v rnode \<Rightarrow> nat list \<Rightarrow> bool" where
  "vpath n [] = True"
| "vpath n (j # p) = (j < length (rkids n) \<and> vpath (rkids n ! j) p)"

fun sub :: "'v rnode \<Rightarrow> nat list \<Rightarrow> 'v rnode" where
  "sub n [] = n"
| "sub n (j # p) = sub (rkids n ! j) p"

definition edge :: "'v rnode \<Rightarrow> nat \<Rightarrow> byte list" where
  "edge n j = (if rcompr n then rdata n else [rdata n ! j])"

fun label :: "'v rnode \<Rightarrow> nat list \<Rightarrow> byte list" where
  "label n [] = []"
| "label n (j # p) = edge n j @ label (rkids n ! j) p"

lemma rwfD:
  assumes "rwf n"
  shows "rcompr n \<Longrightarrow> 2 \<le> length (rdata n) \<and> length (rdata n) \<le> RAX_NODE_MAX_SIZE \<and> length (rkids n) = 1"
    "\<not> rcompr n \<Longrightarrow> length (rkids n) = length (rdata n) \<and> sorted_wrt (<) (rdata n)"
    "c \<in> set (rkids n) \<Longrightarrow> rwf c"
  using assms by (cases n; auto)+

lemma rwf_kid: "rwf n \<Longrightarrow> j < length (rkids n) \<Longrightarrow> rwf (rkids n ! j)"
  using rwfD(3) [of n] by simp

lemma rwf_compr: "rwf n \<Longrightarrow> rcompr n \<Longrightarrow> \<exists>c. rkids n = [c]"
  using rwfD(1) [of n] by (auto simp: length_Suc_conv)

lemma rwf_empty: "rwf n \<Longrightarrow> rdata n = [] \<longleftrightarrow> rkids n = []"
  using rwfD(1,2) [of n] by (cases "rcompr n") auto

lemma node_at_sub: "vpath n p \<Longrightarrow> node_at n p = Inr (sub n p)"
  by (induction n p rule: vpath.induct) (auto simp: rd_ok)

lemma rwf_sub: "rwf n \<Longrightarrow> vpath n p \<Longrightarrow> rwf (sub n p)"
  by (induction n p rule: vpath.induct) (auto simp: rwf_kid)

lemma vpath_append: "vpath n (p @ q) \<longleftrightarrow> vpath n p \<and> vpath (sub n p) q"
  by (induction n p rule: vpath.induct) auto

lemma sub_append: "sub n (p @ q) = sub (sub n p) q"
  by (induction n p rule: vpath.induct) auto

lemma label_append: "label n (p @ q) = label n p @ label (sub n p) q"
  by (induction n p rule: vpath.induct) auto

text \<open>Searching the characters of a node.\<close>

lemma child_index_le: "child_index c vs \<le> length vs"
  by (induction vs) auto

lemma child_index_found: "child_index c vs < length vs \<longleftrightarrow> c \<in> set vs"
  using child_index_le by (induction vs) auto

lemma child_index_nth: "c \<in> set vs \<Longrightarrow> vs ! child_index c vs = c"
  by (induction vs) auto

lemma child_index_unique: "distinct vs \<Longrightarrow> j < length vs \<Longrightarrow> child_index (vs ! j) vs = j"
  using child_index_nth [of "vs ! j" vs] child_index_found [of "vs ! j" vs] nth_eq_iff_index_eq nth_mem by metis

lemma match_len_le: "match_len v s \<le> length v" "match_len v s \<le> length s"
  by (induction v s rule: match_len.induct) auto

lemma match_len_take: "take (match_len v s) s = take (match_len v s) v"
  by (induction v s rule: match_len.induct) auto

lemma match_len_stop: "match_len v s < length v \<Longrightarrow> match_len v s < length s \<Longrightarrow> v ! match_len v s \<noteq> s ! match_len v s"
  by (induction v s rule: match_len.induct) auto

lemma match_len_prefix: "match_len v s = length v \<longleftrightarrow> prefix v s"
  by (induction v s rule: match_len.induct) auto

text \<open>Lookup below a node of each kind.\<close>

lemma rlookup_Nil: "rlookup n [] = (if rkey n then Some (get_data n) else None)"
  by (simp add: rlookup.simps [of n "[]"])

lemma rlookup_compr:
  "rcompr n \<Longrightarrow> rkids n = [c] \<Longrightarrow> s \<noteq> [] \<Longrightarrow>
   rlookup n s = (if prefix (rdata n) s then rlookup c (drop (length (rdata n)) s) else None)"
  by (simp add: rlookup.simps [of n s])

lemma rlookup_branch:
  "\<not> rcompr n \<Longrightarrow> length (rkids n) = length (rdata n) \<Longrightarrow>
   rlookup n (c # s) = (if c \<in> set (rdata n) then rlookup (rkids n ! child_index c (rdata n)) s else None)"
  by (auto simp: rlookup.simps [of n "c # s"] Let_def child_index_found)

lemma rlookup_leaf: "rkids n = [] \<Longrightarrow> s \<noteq> [] \<Longrightarrow> rlookup n s = None"
  by (simp add: rlookup.simps [of n s])

lemma rlookup_edge:
  assumes "rwf n" "j < length (rkids n)"
  shows "rlookup n (edge n j @ s) = rlookup (rkids n ! j) s" "edge n j \<noteq> []"
proof -
  show "edge n j \<noteq> []" using rwfD(1) [OF assms(1)] by (auto simp: edge_def)
  show "rlookup n (edge n j @ s) = rlookup (rkids n ! j) s"
  proof (cases "rcompr n")
    case True
    obtain c where "rkids n = [c]" using rwf_compr [OF assms(1) True] by blast
    moreover have "rdata n @ s \<noteq> []" using rwfD(1) [OF assms(1) True] by auto
    ultimately show ?thesis using True assms(2) by (simp add: rlookup_compr edge_def)
  next
    case False
    note w = rwfD(2) [OF assms(1) False]
    then have "distinct (rdata n)" using strict_sorted_iff by blast
    then show ?thesis using False w assms(2) by (simp add: rlookup_branch edge_def child_index_unique)
  qed
qed

lemma rlookup_label: "rwf n \<Longrightarrow> vpath n p \<Longrightarrow> rlookup n (label n p @ s) = rlookup (sub n p) s"
  by (induction n p rule: vpath.induct) (auto simp: rlookup_edge rwf_kid)

section \<open>Replacing a subtree\<close>

lemma set_kids_sel [simp]:
  "rkey (set_kids n ks) = rkey n" "rcompr (set_kids n ks) = rcompr n" "rdata (set_kids n ks) = rdata n"
  "rkids (set_kids n ks) = ks" "get_data (set_kids n ks) = get_data n" "edge (set_kids n ks) j = edge n j"
  by (auto simp: set_kids_def get_data_def edge_def)

lemma rlookup_other_kid:
  assumes "rwf n" "j < length (rkids n)" "\<not> prefix (edge n j) s" "rwf (set_kids n ((rkids n)[j := x]))"
  shows "rlookup (set_kids n ((rkids n)[j := x])) s = rlookup n s"
proof (cases "s = []")
  case False
  let ?m = "set_kids n ((rkids n)[j := x])"
  show ?thesis
  proof (cases "rcompr n")
    case True
    obtain c where c: "rkids n = [c]" using rwf_compr [OF assms(1) True] by blast
    have "rlookup ?m s = None" using rlookup_compr [of ?m x s] c False True assms(2,3) by (simp add: edge_def)
    then show ?thesis using c False True assms(3) by (simp add: rlookup_compr [of n c] edge_def)
  next
    case br: False
    obtain a r where s: "s = a # r" using False by (cases s) auto
    note w = rwfD(2) [OF assms(1) br]
    have "child_index a (rdata n) \<noteq> j" if "a \<in> set (rdata n)"
      using child_index_nth [OF that] assms(3) br s by (auto simp: edge_def)
    then show ?thesis using w br s by (auto simp: rlookup_branch)
  qed
qed (simp add: rlookup_Nil)

lemma rwf_set_kid: "rwf n \<Longrightarrow> rwf x \<Longrightarrow> rwf (set_kids n ((rkids n)[j := x]))"
  by (cases n) (auto simp: set_kids_def dest: set_update_subset_insert [THEN subsetD])

lemma put_node_wf: "rwf n \<Longrightarrow> vpath n p \<Longrightarrow> rwf x \<Longrightarrow> rwf (put_node n p x)"
  by (induction n p rule: vpath.induct) (auto simp: rwf_set_kid rwf_kid)

lemma put_node_path: "vpath n p \<Longrightarrow> vpath (put_node n p x) p" "vpath n p \<Longrightarrow> sub (put_node n p x) p = x"
  "vpath n p \<Longrightarrow> label (put_node n p x) p = label n p"
  by (induction n p rule: vpath.induct) auto

lemma put_node_put: "vpath n p \<Longrightarrow> put_node (put_node n p x) (p @ q) y = put_node n p (put_node x q y)"
  by (induction n p rule: vpath.induct) (auto simp: set_kids_def)

lemma put_node_lookup:
  "rwf n \<Longrightarrow> vpath n p \<Longrightarrow> rwf x \<Longrightarrow>
   rlookup (put_node n p x) s = (if prefix (label n p) s then rlookup x (drop (length (label n p)) s) else rlookup n s)"
proof (induction n p arbitrary: s rule: vpath.induct)
  case (2 n j p)
  let ?c = "rkids n ! j" and ?m = "put_node n (j # p) x"
  have j: "j < length (rkids n)" and p: "vpath ?c p" using 2(3) by auto
  note wc = rwf_kid [OF 2(2) j]
  have wm: "rwf ?m" using 2 by (simp add: rwf_set_kid put_node_wf wc)
  show ?case
  proof (cases "prefix (edge n j) s")
    case True
    then obtain r where r: "s = edge n j @ r" by (auto simp: prefix_def)
    have "rlookup ?m (edge ?m j @ r) = rlookup (put_node ?c p x) r"
      using rlookup_edge(1) [OF wm, of j r] j by simp
    then show ?thesis using 2(1) [OF wc p 2(4)] r rlookup_edge(1) [OF 2(2) j, of r] by (simp add: add.commute)
  next
    case False
    then have "\<not> prefix (label n (j # p)) s" by (auto dest: append_prefixD)
    then show ?thesis using rlookup_other_kid [OF 2(2) j False] wm by simp
  qed
qed simp

text \<open>A change of the subtree is a change of the map below the label of its path.\<close>

lemma put_node_same:
  assumes "rwf n" "vpath n p" "rwf x" "rlookup x = rlookup (sub n p)"
  shows "rlookup (put_node n p x) = rlookup n"
proof
  fix s show "rlookup (put_node n p x) s = rlookup n s"
    using assms rlookup_label [OF assms(1,2)] by (auto simp: put_node_lookup prefix_def)
qed

lemma put_node_upd:
  assumes "rwf n" "vpath n p" "rwf x" "rlookup x = (rlookup (sub n p))(r := v)"
  shows "rlookup (put_node n p x) = (rlookup n)(label n p @ r := v)"
proof
  fix s show "rlookup (put_node n p x) s = ((rlookup n)(label n p @ r := v)) s"
    using assms rlookup_label [OF assms(1,2)] by (auto simp: put_node_lookup prefix_def fun_upd_def)
qed

text \<open>Counts.\<close>

lemma nkeys_node: "nkeys n = (if rkey n then 1 else 0) + sum_list (map nkeys (rkids n))"
  by (cases n) simp

lemma nnodes_node: "nnodes n = 1 + sum_list (map nnodes (rkids n))"
  by (cases n) simp

lemma sum_list_upd: "j < length xs \<Longrightarrow> sum_list (map f (xs[j := y])) + f (xs ! j) = sum_list (map f xs) + (f y :: nat)"
  by (induction xs arbitrary: j) (auto simp: nth_Cons split: nat.splits)

lemma put_node_nkeys: "vpath n p \<Longrightarrow> nkeys (put_node n p x) + nkeys (sub n p) = nkeys n + nkeys x"
proof (induction n p rule: vpath.induct)
  case (2 n j p)
  then show ?case
    using sum_list_upd [of j "rkids n" nkeys "put_node (rkids n ! j) p x"] by (simp add: nkeys_node [of n] nkeys_node [of "set_kids _ _"])
qed simp

lemma put_node_nnodes: "vpath n p \<Longrightarrow> nnodes (put_node n p x) + nnodes (sub n p) = nnodes n + nnodes x"
proof (induction n p rule: vpath.induct)
  case (2 n j p)
  then show ?case
    using sum_list_upd [of j "rkids n" nnodes "put_node (rkids n ! j) p x"] by (simp add: nnodes_node [of n] nnodes_node [of "set_kids _ _"])
qed simp

text \<open>Depth.\<close>

lemma foldr_max_le: "foldr max xs 0 \<le> (m :: nat) \<longleftrightarrow> (\<forall>x \<in> set xs. x \<le> m)"
  by (induction xs) auto

lemma rdepth_le: "rdepth n \<le> m \<longleftrightarrow> (\<forall>j < length (rkids n). length (edge n j) + rdepth (rkids n ! j) \<le> m)"
  by (cases n) (auto simp: foldr_max_le all_set_conv_all_nth edge_def)

lemma rdepth_kid: "j < length (rkids n) \<Longrightarrow> length (edge n j) + rdepth (rkids n ! j) \<le> rdepth n"
  using rdepth_le [of n "rdepth n"] by simp

lemma rdepth_sub: "vpath n p \<Longrightarrow> length (label n p) + rdepth (sub n p) \<le> rdepth n"
proof (induction n p rule: vpath.induct)
  case (2 n j p)
  then show ?case using rdepth_kid [of j n] by simp
qed simp

lemma rdepth_put: "vpath n p \<Longrightarrow> rdepth (put_node n p x) \<le> max (rdepth n) (length (label n p) + rdepth x)"
proof (induction n p rule: vpath.induct)
  case (2 n j p)
  let ?x = "put_node (rkids n ! j) p x"
  have "length (edge n i) + rdepth ((rkids n)[j := ?x] ! i) \<le> max (rdepth n) (length (label n (j # p)) + rdepth x)"
    if "i < length (rkids n)" for i
    using 2 that rdepth_kid [of i n] rdepth_kid [of j n] by (cases "i = j") auto
  then show ?case by (simp add: rdepth_le)
qed simp

lemma put_node_sub: "vpath n p \<Longrightarrow> put_node (put_node n p x) p (sub n p) = n"
  by (induction n p rule: vpath.induct) (auto simp: set_kids_def)

lemma put_node_depth:
  assumes "vpath n p" "rdepth x = rdepth (sub n p)"
  shows "rdepth (put_node n p x) = rdepth n"
proof (rule antisym)
  show "rdepth (put_node n p x) \<le> rdepth n" using rdepth_put [OF assms(1), of x] rdepth_sub [OF assms(1)] assms(2) by simp
  show "rdepth n \<le> rdepth (put_node n p x)"
    using rdepth_put [OF put_node_path(1) [OF assms(1)], of x "sub n p"] rdepth_sub [OF put_node_path(1) [OF assms(1)], of x] assms
    by (simp add: put_node_sub put_node_path)
qed

section \<open>Walking finds the longest stored prefix\<close>

definition stopped :: "'v rnode \<Rightarrow> byte list \<Rightarrow> nat \<Rightarrow> nat list \<Rightarrow> 'v rnode \<Rightarrow> nat \<Rightarrow> byte list \<Rightarrow> bool" where
  "stopped n s i p h j r \<longleftrightarrow>
     vpath n p \<and> h = sub n p \<and> s = label n p @ r \<and> i = length (label n p) + j \<and>
     (if rcompr h then j = match_len (rdata h) r \<and> j < length (rdata h)
      else j = 0 \<and> (r = [] \<or> hd r \<notin> set (rdata h)))"

lemma walk_stopped: "rwf n \<Longrightarrow> \<exists>i p h j r. walk n s = Inr (i, p, h, j) \<and> stopped n s i p h j r"
proof (induction n s rule: walk.induct)
  case (1 n s)
  show ?case
  proof (cases "rdata n = [] \<or> s = []")
    case True
    have "match_len (rdata n) s = 0" using True by auto
    then show ?thesis using True rwfD(1) [OF 1(3)]
      by (intro exI [of _ 0] exI [of _ "[]"] exI [of _ n] exI [of _ s]) (auto simp: walk.simps [of n s] stopped_def)
  next
    case go: False
    show ?thesis
    proof (cases "rcompr n")
      case True
      let ?j = "match_len (rdata n) s"
      obtain c where c: "rkids n = [c]" using rwf_compr [OF 1(3) True] by blast
      show ?thesis
      proof (cases "?j = length (rdata n)")
        case all: True
        then obtain r0 where r0: "s = rdata n @ r0" by (auto simp: match_len_prefix prefix_def)
        have "rd (rkids n) 0 = Inr c" using c by (simp add: rd_ok)
        moreover have "rwf c" using rwfD(3) [OF 1(3)] c by simp
        ultimately obtain i p h j r where ih: "walk c (drop ?j s) = Inr (i, p, h, j)" "stopped c (drop ?j s) i p h j r"
          using 1(1) [OF go True refl] all by blast
        have "walk n s = Inr (?j + i, 0 # p, h, j)"
          using go True all c ih(1) by (simp add: walk.simps [of n s] rd_ok)
        moreover have "stopped n s (?j + i) (0 # p) h j r" using ih(2) all True c r0 by (auto simp: stopped_def edge_def)
        ultimately show ?thesis by blast
      next
        case False
        then show ?thesis using go True match_len_le(1) [of "rdata n" s]
          by (intro exI [of _ ?j] exI [of _ "[]"] exI [of _ n] exI [of _ s]) (simp add: walk.simps [of n s] stopped_def Let_def)
      qed
    next
      case br: False
      let ?j = "child_index (hd s) (rdata n)"
      note w = rwfD(2) [OF 1(3) br]
      show ?thesis
      proof (cases "?j = length (rdata n)")
        case True
        then have "hd s \<notin> set (rdata n)" using child_index_found [of "hd s" "rdata n"] by simp
        then show ?thesis using go br True
          by (intro exI [of _ 0] exI [of _ "[]"] exI [of _ n] exI [of _ s]) (simp add: walk.simps [of n s] stopped_def Let_def)
      next
        case False
        then have lt: "?j < length (rdata n)" using child_index_le [of "hd s" "rdata n"] by simp
        have j: "?j < length (rkids n)" using lt w by simp
        have a: "rdata n ! ?j = hd s" using lt child_index_found [of "hd s" "rdata n"] by (simp add: child_index_nth)
        have rd: "rd (rkids n) ?j = Inr (rkids n ! ?j)" using j by (simp add: rd_ok)
        obtain i p h j' r
          where ih: "walk (rkids n ! ?j) (tl s) = Inr (i, p, h, j')" "stopped (rkids n ! ?j) (tl s) i p h j' r"
          using 1(2) [OF go br refl False rd rwf_kid [OF 1(3) j]] by blast
        have "walk n s = Inr (Suc i, ?j # p, h, j')" using go br False rd ih(1) by (simp add: walk.simps [of n s])
        moreover have "s = hd s # tl s" using go by simp
        then have "stopped n s (Suc i) (?j # p) h j' r" using ih(2) br j a by (auto simp: stopped_def edge_def)
        ultimately show ?thesis by blast
      qed
    qed
  qed
qed

lemma stopped_lookup:
  assumes "rwf n" "stopped n s i p h j r"
  shows "rlookup n s = (if r = [] \<and> rkey h then Some (get_data h) else None)"
    "i = length s \<and> (\<not> rcompr h \<or> j = 0) \<longleftrightarrow> r = []" "rwf h"
proof -
  have p: "vpath n p" "h = sub n p" "s = label n p @ r" using assms(2) by (auto simp: stopped_def)
  show h: "rwf h" using rwf_sub [OF assms(1) p(1)] p(2) by simp
  have "rlookup h r = None" if "r \<noteq> []"
  proof (cases "rcompr h")
    case True
    obtain c where "rkids h = [c]" using rwf_compr [OF h True] by blast
    moreover have "match_len (rdata h) r < length (rdata h)" using assms(2) True by (auto simp: stopped_def)
    then have "\<not> prefix (rdata h) r" using match_len_prefix [of "rdata h" r] by simp
    ultimately show ?thesis using True that by (simp add: rlookup_compr)
  next
    case False
    then show ?thesis using that assms(2) rwfD(2) [OF h] by (cases r) (auto simp: rlookup_branch stopped_def)
  qed
  then show "rlookup n s = (if r = [] \<and> rkey h then Some (get_data h) else None)"
    using rlookup_label [OF assms(1) p(1), of r] p by (cases "r = []") (simp_all add: rlookup_Nil)
  show "i = length s \<and> (\<not> rcompr h \<or> j = 0) \<longleftrightarrow> r = []"
    using assms(2) match_len_le(2) [of "rdata h" r] by (auto simp: stopped_def split: if_splits)
qed

lemma raxFind_ok: "rwf (head t) \<Longrightarrow> raxFind t s = Inr (rlookup (head t) s)"
  using walk_stopped [of "head t" s] stopped_lookup [of "head t" s] by (fastforce simp: raxFind_def)

end
