(* ===== verification/Rax_Insert.thy ===== *)
theory Rax_Insert
  imports Rax_Map
begin

text \<open>
  Insertion into the radix tree updates the map, and keeps the counts; when memory runs out the map is as before.
\<close>

section \<open>Chain links\<close>

text \<open>A node with one child, compressed when it has more than one character.\<close>

definition link :: "'v rnode \<Rightarrow> byte list \<Rightarrow> 'v rnode \<Rightarrow> bool" where
  "link n v c \<longleftrightarrow> rdata n = v \<and> rkids n = [c] \<and> rcompr n = (1 < length v) \<and> v \<noteq> [] \<and> length v \<le> RAX_NODE_MAX_SIZE"

lemma link_wf: "link n v c \<Longrightarrow> rwf n \<longleftrightarrow> rwf c"
  by (cases n) (auto simp: link_def length_Suc_conv le_Suc_eq not_less)

lemma link_count:
  assumes "link n v c"
  shows "nkeys n = (if rkey n then 1 else 0) + nkeys c" "nnodes n = Suc (nnodes c)"
  using assms nkeys_node [of n] nnodes_node [of n] by (auto simp: link_def)

lemma link_depth: "link n v c \<Longrightarrow> rdepth n = length v + rdepth c"
  by (cases n; cases v) (auto simp: link_def)

lemma link_edge: "link n v c \<Longrightarrow> edge n 0 = v"
  by (cases v) (auto simp: link_def edge_def)

lemma link_lookup:
  assumes "link n v c" "rwf c" "s \<noteq> []"
  shows "rlookup n s = (if prefix v s then rlookup c (drop (length v) s) else None)"
proof (cases "1 < length v")
  case True
  then show ?thesis using assms by (auto simp: link_def rlookup_compr)
next
  case False
  then obtain a where v: "v = [a]" using assms(1) by (cases v) (auto simp: link_def)
  obtain b r where s: "s = b # r" using assms(3) by (cases s) auto
  have n: "\<not> rcompr n" "rdata n = [a]" "rkids n = [c]" using assms(1) v by (auto simp: link_def)
  then show ?thesis using v s by (simp add: rlookup_branch)
qed

lemma rwf_link: "rwf n \<Longrightarrow> rcompr n \<Longrightarrow> \<exists>c. link n (rdata n) c \<and> rwf c"
proof -
  assume n: "rwf n" "rcompr n"
  obtain c where c: "rkids n = [c]" using rwf_compr [OF n] by blast
  have "rwf c" using rwfD(3) [OF n(1)] c by simp
  then show ?thesis using rwfD(1) [OF n] n(2) c by (auto simp: link_def)
qed

lemma drop_link: "link n v c \<Longrightarrow> last_kid n = Inr c"
  by (simp add: link_def last_kid_def)

text \<open>A chain of links spells a string; no key ends inside it.\<close>

definition below :: "'v rnode \<Rightarrow> byte list \<Rightarrow> 'v rnode \<Rightarrow> bool" where
  "below n v c \<longleftrightarrow> (\<forall>s. s \<noteq> [] \<longrightarrow> rlookup n s = (if prefix v s then rlookup c (drop (length v) s) else None))"

lemma below_link: "link n v c \<Longrightarrow> rwf c \<Longrightarrow> below n v c"
  by (simp add: below_def link_lookup)

lemma below_trans:
  assumes "below a u b" "below b w c" "\<not> rkey b" "w \<noteq> []"
  shows "below a (u @ w) c"
proof -
  have "rlookup a s = (if prefix (u @ w) s then rlookup c (drop (length (u @ w)) s) else None)" if s: "s \<noteq> []" for s
  proof (cases "prefix u s")
    case True
    then obtain r where r: "s = u @ r" by (auto simp: prefix_def)
    then show ?thesis using assms s by (cases "r = []") (simp_all add: below_def rlookup_Nil add.commute)
  next
    case False
    then show ?thesis using assms(1) s append_prefixD by (auto simp: below_def)
  qed
  then show ?thesis by (simp add: below_def)
qed

lemma below_same: "below m v c \<Longrightarrow> below n v c \<Longrightarrow> rkey m = rkey n \<Longrightarrow> (rkey n \<Longrightarrow> get_data m = get_data n) \<Longrightarrow> rlookup m = rlookup n"
  by (rule ext, case_tac "x = []") (simp_all add: below_def rlookup_Nil)

section \<open>Changes of one node\<close>

lemma rwf_cong: "rcompr m = rcompr n \<Longrightarrow> rdata m = rdata n \<Longrightarrow> rkids m = rkids n \<Longrightarrow> rwf m = rwf n"
  by (cases m; cases n) simp

lemma rlookup_cong:
  "rcompr m = rcompr n \<Longrightarrow> rdata m = rdata n \<Longrightarrow> rkids m = rkids n \<Longrightarrow> s \<noteq> [] \<Longrightarrow> rlookup m s = rlookup n s"
  by (simp add: rlookup.simps [of m s] rlookup.simps [of n s] Let_def)

lemma new_node_facts [simp]:
  "rwf new_node" "rlookup new_node s = None" "nkeys new_node = 0" "nnodes new_node = 1" "rdepth new_node = 0"
  "rdata new_node = []" "rkids new_node = []" "\<not> rcompr new_node" "\<not> rkey new_node"
  by (simp_all add: new_node_def rlookup.simps [of _ s])

lemma set_data_sel [simp]:
  "rkey (set_data n d)" "rcompr (set_data n d) = rcompr n" "rdata (set_data n d) = rdata n"
  "rkids (set_data n d) = rkids n" "get_data (set_data n d) = d"
  by (auto simp: set_data_def get_data_def)

lemma set_data_facts:
  "rwf (set_data n d) = rwf n" "rlookup (set_data n d) = (rlookup n)([] \<mapsto> d)"
  "nkeys (set_data n d) + (if rkey n then 1 else 0) = nkeys n + 1" "nnodes (set_data n d) = nnodes n" "rdepth (set_data n d) = rdepth n"
proof -
  show "rlookup (set_data n d) = (rlookup n)([] \<mapsto> d)"
  proof
    fix s show "rlookup (set_data n d) s = ((rlookup n)([] \<mapsto> d)) s"
      by (cases "s = []") (auto simp: rlookup_Nil rlookup_cong [of "set_data n d" n])
  qed
  show "rwf (set_data n d) = rwf n" by (rule rwf_cong) simp_all
  show "rdepth (set_data n d) = rdepth n" by (cases n) (simp add: set_data_def)
qed (simp_all add: nkeys_node [of n] nnodes_node [of n] nkeys_node [of "set_data n d"] nnodes_node [of "set_data n d"])

lemma link_set_data [simp]: "link (set_data n d) v c = link n v c"
  by (simp add: link_def)

lemma sum_list_insert: "sum_list (map f (take j xs @ y # drop j xs)) = f y + (sum_list (map f xs) :: nat)"
  using arg_cong [OF append_take_drop_id [of j xs], of "\<lambda>ys. sum_list (map f ys)"] by (simp del: append_take_drop_id)

lemma add_child_ok:
  assumes "rwf n" "\<not> rcompr n" "c \<notin> set (rdata n)"
  shows "\<exists>r k'. add_child mal k n c = Inr (r, k') \<and> ((\<forall>k. mal k) \<longrightarrow> r \<noteq> None) \<and>
    (\<forall>m j. r = Some (m, j) \<longrightarrow> rwf m \<and> rlookup m = rlookup n \<and> nkeys m = nkeys n \<and> nnodes m = Suc (nnodes n) \<and>
       rdepth m \<le> max (rdepth n) 1 \<and> j < length (rkids m) \<and> rkids m ! j = new_node \<and> edge m j = [c])"
proof -
  let ?pos = "insert_pos c (rdata n)"
  define m where "m = RNode (rkey n) (rnull n) False (take ?pos (rdata n) @ c # drop ?pos (rdata n)) (rval n)
              (take ?pos (rkids n) @ new_node # drop ?pos (rkids n))"
  note w = rwfD(2) [OF assms(1,2)]
  have pos: "?pos \<le> length (rdata n)" by (rule insert_pos_le)
  have wm: "rwf m" using w pos insert_pos_sorted [OF _ assms(3)] rwfD(3) [OF assms(1)]
    by (auto simp: m_def dest: in_set_takeD in_set_dropD)
  have at: "?pos < length (rkids m)" "rkids m ! ?pos = new_node" "edge m ?pos = [c]"
    using w pos by (auto simp: m_def edge_def nth_append min_def)
  have "rlookup m s = rlookup n s" for s
  proof (cases s)
    case Nil
    then show ?thesis by (simp add: rlookup_Nil get_data_def m_def)
  next
    case (Cons a r)
    show ?thesis
    proof (cases "a \<in> set (rdata n)")
      case True
      then obtain j where j: "j < length (rdata n)" "a = rdata n ! j" by (auto simp: in_set_conv_nth)
      let ?j = "if j < ?pos then j else Suc j"
      have "?j < length (rkids m)" "edge m ?j = [a]" "rkids m ! ?j = rkids n ! j"
        using w j pos by (auto simp: m_def edge_def nth_append min_def Suc_diff_le)
      then have "rlookup m (a # r) = rlookup (rkids n ! j) r" using rlookup_edge(1) [OF wm, of ?j r] by simp
      moreover have "edge n j = [a]" using assms(2) j by (simp add: edge_def)
      then have "rlookup n (a # r) = rlookup (rkids n ! j) r" using rlookup_edge(1) [OF assms(1), of j r] j w by simp
      ultimately show ?thesis using Cons by simp
    next
      case False
      have "rlookup m (a # r) = None" if "a = c"
        using rlookup_edge(1) [OF wm at(1), of r] that at(2,3) by simp
      moreover have "rlookup m (a # r) = None" if "a \<noteq> c"
        using that False w pos by (auto simp: m_def rlookup_branch dest: in_set_takeD in_set_dropD)
      ultimately show ?thesis using False Cons w assms(2) by (cases "a = c") (simp_all add: rlookup_branch)
    qed
  qed
  then have "rlookup m = rlookup n" by blast
  moreover have "nkeys m = nkeys n" "nnodes m = Suc (nnodes n)"
    using nkeys_node [of n] nnodes_node [of n] by (simp_all only: m_def nkeys.simps nnodes.simps sum_list_insert new_node_facts)
  moreover have "rdepth m \<le> max (rdepth n) 1"
  proof -
    have "1 + rdepth x \<le> max (rdepth n) 1" if "x \<in> set (rkids m)" for x
    proof (cases "x = new_node")
      case False
      then have "x \<in> set (rkids n)" using that by (auto simp: m_def dest: in_set_takeD in_set_dropD)
      then obtain j where "j < length (rkids n)" "x = rkids n ! j" by (auto simp: in_set_conv_nth)
      then show ?thesis using rdepth_kid [of j n] assms(2) by (simp add: edge_def)
    qed simp
    moreover have "\<not> rcompr m" by (simp add: m_def)
    ultimately show ?thesis by (simp add: rdepth_le edge_def)
  qed
  moreover have "add_child mal k n c = Inr (if mal k \<and> mal (k + 1) then Some (m, ?pos) else None, if mal k then k + 2 else k + 1)"
    using assms(2) by (simp add: add_child_def Let_def m_def)
  ultimately show ?thesis using wm at by simp
qed

lemma compress_node_ok:
  assumes "rwf n" "\<not> rcompr n" "rdata n = []" "2 \<le> length s" "length s \<le> RAX_NODE_MAX_SIZE"
  shows "\<exists>r k'. compress_node mal k n s = Inr (r, k') \<and> ((\<forall>k. mal k) \<longrightarrow> r \<noteq> None) \<and>
    (\<forall>m. r = Some m \<longrightarrow> rwf m \<and> rlookup m = rlookup n \<and> nkeys m = nkeys n \<and> nnodes m = Suc (nnodes n) \<and> rdepth m = length s \<and> link m s new_node)"
proof -
  let ?n = "RNode (rkey n) (rnull n) True s (rval n) [new_node]"
  define m where "m = (if rkey n then set_data ?n (get_data n) else ?n)"
  have eq: "compress_node mal k n s =
      Inr (if mal k \<and> mal (k + 1) then Some m else None, if mal k then k + 2 else k + 1)"
    using assms(2,3) by (simp add: compress_node_def Let_def m_def)
  have l: "link m s new_node" using assms(4,5) by (auto simp: link_def m_def)
  have k: "rkids n = []" "rkey m = rkey n" "get_data m = get_data n"
    using rwfD(2) [OF assms(1,2)] assms(3) by (auto simp: get_data_def set_data_def m_def)
  have "rlookup m r = rlookup n r" for r
    using link_lookup [OF l, of r] k by (cases "r = []") (simp_all add: rlookup_Nil rlookup_leaf)
  then have "rlookup m = rlookup n" by blast
  moreover have "nkeys m = nkeys n" "nnodes m = Suc (nnodes n)"
    using link_count [OF l] k nkeys_node [of n] nnodes_node [of n] by simp_all
  ultimately show ?thesis using l link_wf [OF l] link_depth [OF l] by (simp add: eq)
qed

text \<open>Splitting a compressed node.\<close>

lemma split_node_ok:
  assumes "rwf h" "rcompr h" "j < length (rdata h)"
  shows "\<exists>r k'. split_node mal k h j = Inr (r, k') \<and> ((\<forall>k. mal k) \<longrightarrow> r \<noteq> None) \<and>
    (\<forall>m q a. r = Some (m, q, a) \<longrightarrow> rwf m \<and> rlookup m = rlookup h \<and> nkeys m = nkeys h \<and> nnodes m = nnodes h + a \<and> rdepth m = rdepth h \<and>
       vpath m q \<and> label m q = take j (rdata h) \<and> \<not> rcompr (sub m q) \<and> rdata (sub m q) = [rdata h ! j])"
proof -
  let ?v = "rdata h"
  obtain c where c: "link h ?v c" "rwf c" using rwf_link [OF assms(1,2)] by blast
  define post where "post = (if length ?v - j - 1 \<noteq> 0 then RNode False False (length ?v - j - 1 > 1) (drop (j + 1) ?v) None [c] else c)"
  define sp where "sp = RNode False False False [?v ! j] None [post]"
  define trim where "trim = RNode (rkey h) (rnull h) (j > 1) (take j ?v) None [sp]"
  define m where "m = (if j = 0 then if rkey h then set_data sp (get_data h) else sp
                       else if rkey h \<and> \<not> rnull h then set_data trim (get_data h) else trim)"
  define a :: nat where "a = (if length ?v - j - 1 \<noteq> 0 then 1 else 0) + (if j = 0 then 0 else 1)"
  have eq: "split_node mal k h j =
      Inr (if mal k \<and> (j = 0 \<or> mal (k + 1)) \<and> (length ?v - j - 1 = 0 \<or> mal (if j \<noteq> 0 then k + 2 else k + 1))
           then Some (m, if j = 0 then [] else [0], a) else None,
           k + 1 + (if j \<noteq> 0 then 1 else 0) + (if length ?v - j - 1 \<noteq> 0 then 1 else 0))"
    using assms(3) drop_link [OF c(1)]
    by (simp add: split_node_def rd_ok Let_def m_def trim_def sp_def post_def a_def)
  have len: "length ?v \<le> RAX_NODE_MAX_SIZE" using c(1) by (simp add: link_def)
  have v: "?v = take j ?v @ ?v ! j # drop (j + 1) ?v" using id_take_nth_drop [OF assms(3)] by simp
  have ls: "link sp [?v ! j] post" using len assms(3) by (simp add: sp_def link_def)
  have "rwf post \<and> nkeys post = nkeys c \<and> nnodes post = nnodes c + (if length ?v - j - 1 \<noteq> 0 then 1 else 0) \<and>
     below sp (?v ! j # drop (j + 1) ?v) c"
  proof (cases "length ?v - j - 1 = 0")
    case False
    then have l: "link post (drop (j + 1) ?v) c" "\<not> rkey post" using len by (auto simp: post_def link_def)
    show ?thesis using False l link_wf [OF l(1)] c(2) link_count [OF l(1)]
        below_trans [OF below_link [OF ls] below_link [OF l(1) c(2)] l(2)] by simp
  qed (use below_link [OF ls] c in \<open>simp add: post_def\<close>)
  then have post: "rwf post" "nkeys post = nkeys c" "nnodes post = nnodes c + (if length ?v - j - 1 \<noteq> 0 then 1 else 0)"
    and sp: "below sp (?v ! j # drop (j + 1) ?v) c" "rwf sp" "\<not> rkey sp" "nkeys sp = nkeys c" "nnodes sp = Suc (nnodes post)"
    using link_wf [OF ls] link_count [OF ls] by (auto simp: sp_def)
  have key: "rkey m = rkey h" "rkey h \<Longrightarrow> get_data m = get_data h"
    by (auto simp: m_def trim_def sp_def get_data_def set_data_def)
  have h: "nkeys h = (if rkey h then 1 else 0) + nkeys c" "nnodes h = Suc (nnodes c)" "rdepth h = length ?v + rdepth c"
    using link_count [OF c(1)] link_depth [OF c(1)] by simp_all
  have dp: "rdepth post = length ?v - j - 1 + rdepth c"
    using link_depth [of post "drop (j + 1) ?v" c] len by (cases "length ?v - j - 1 = 0") (auto simp: post_def link_def)
  let ?q = "if j = 0 then [] else [0]"
  have "below m ?v c \<and> rwf m \<and> nkeys m = nkeys h \<and> nnodes m = nnodes h + a \<and> rdepth m = rdepth h \<and> vpath m ?q \<and>
     label m ?q = take j ?v \<and> \<not> rcompr (sub m ?q) \<and> rdata (sub m ?q) = [?v ! j]"
  proof (cases "j = 0")
    case True
    then have m: "m = (if rkey h then set_data sp (get_data h) else sp)" by (simp add: m_def)
    have lm: "link m [?v ! j] post" using ls m by simp
    have "below m (?v ! j # drop (j + 1) ?v) c" using sp(1) m rlookup_cong [of m sp] by (simp add: below_def)
    then show ?thesis using True lm link_wf [OF lm] link_count [OF lm] link_depth [OF lm] dp assms(3) post key h v m by (simp add: a_def sp_def)
  next
    case False
    then have lm: "link m (take j ?v) sp" using len assms(3) by (auto simp: m_def link_def trim_def)
    then have "below m (take j ?v @ ?v ! j # drop (j + 1) ?v) c" by (rule below_trans [OF below_link sp(1)]) (simp_all add: sp)
    then show ?thesis
      using False lm link_wf [OF lm] link_count [OF lm] link_edge [OF lm] link_depth [OF lm] link_depth [OF ls] dp assms(3) sp post key h v
      by (simp add: a_def sp_def link_def)
  qed
  then show ?thesis using below_same [OF _ below_link [OF c] key] by (simp add: eq)
qed

lemma prefix_append_drop: "prefix (u @ w) s \<longleftrightarrow> prefix u s \<and> prefix w (drop (length u) s)"
  by (auto simp: prefix_def)

lemma split_at_end_ok:
  assumes "rwf h" "rcompr h" "0 < j" "j < length (rdata h)"
  shows "\<exists>r k'. split_at_end mal k h j d = Inr (r, k') \<and> ((\<forall>k. mal k) \<longrightarrow> r \<noteq> None) \<and>
    (\<forall>m. r = Some m \<longrightarrow> rwf m \<and> rlookup m = (rlookup h)(take j (rdata h) \<mapsto> d) \<and> nkeys m = Suc (nkeys h) \<and> nnodes m = Suc (nnodes h) \<and> rdepth m = rdepth h)"
proof -
  let ?v = "rdata h"
  obtain c where c: "link h ?v c" "rwf c" using rwf_link [OF assms(1,2)] by blast
  define post where "post = set_data (RNode True False (length ?v - j > 1) (drop j ?v) None [c]) d"
  define trim where "trim = RNode False False (j > 1) (take j ?v) None [post]"
  define m where "m = (if rkey h then set_data trim (get_data h) else trim)"
  have eq: "split_at_end mal k h j d = Inr (if mal k \<and> mal (k + 1) then Some m else None, k + 2)"
    using drop_link [OF c(1)] by (simp add: split_at_end_def Let_def m_def trim_def post_def)
  have len: "length ?v \<le> RAX_NODE_MAX_SIZE" using c(1) by (simp add: link_def)
  have lp: "link post (drop j ?v) c" using len assms(4) by (auto simp: post_def link_def)
  have lm: "link m (take j ?v) post" using len assms(3,4) by (auto simp: m_def trim_def link_def)
  have wp: "rwf post" using link_wf [OF lp] c(2) by simp
  have key: "rkey m = rkey h" "rkey h \<Longrightarrow> get_data m = get_data h" "rkey post" "get_data post = d"
    by (auto simp: m_def trim_def post_def)
  have v: "prefix ?v s \<longleftrightarrow> prefix (take j ?v) s \<and> prefix (drop j ?v) (drop j s)" for s
    using prefix_append_drop [of "take j ?v" "drop j ?v" s] assms(4) by (simp add: min_def)
  have "rlookup m s = ((rlookup h)(take j ?v \<mapsto> d)) s" for s
  proof (cases "s = []")
    case True
    then show ?thesis using key assms(3,4) by (auto simp: rlookup_Nil)
  next
    case False
    note lh = link_lookup [OF c False] and lm' = link_lookup [OF lm wp False]
    show ?thesis
    proof (cases "s = take j ?v")
      case True
      then show ?thesis using lm' key assms(4) by (simp add: rlookup_Nil)
    next
      case ne: False
      show ?thesis
      proof (cases "prefix (take j ?v) s")
        case True
        then have "drop j s \<noteq> []" using ne assms(4) by (auto simp: prefix_def)
        then show ?thesis using True ne lh lm' link_lookup [OF lp c(2), of "drop j s"] v [of s] assms(4) by (simp add: min_def)
      qed (use ne lh lm' v [of s] in simp)
    qed
  qed
  then have "rlookup m = (rlookup h)(take j ?v \<mapsto> d)" by blast
  moreover have "rwf m" using link_wf [OF lm] wp by simp
  moreover have "nkeys m = Suc (nkeys h)" "nnodes m = Suc (nnodes h)" "rdepth m = rdepth h"
    using link_count [OF lm] link_count [OF lp] link_count [OF c(1)] link_depth [OF lm] link_depth [OF lp] link_depth [OF c(1)] key assms(4)
    by simp_all
  ultimately show ?thesis by (simp add: eq)
qed

section \<open>Growing a path\<close>

definition grown :: "'v rnode \<Rightarrow> nat list \<Rightarrow> byte list \<Rightarrow> 'v rnode \<Rightarrow> nat list \<Rightarrow> nat \<Rightarrow> bool" where
  "grown t p s t' p' m \<longleftrightarrow>
     m \<le> length s \<and> rwf t' \<and> rlookup t' = rlookup t \<and> nkeys t' = nkeys t \<and> vpath t' p' \<and> label t' p' = label t p @ take m s \<and>
     rdepth t' \<le> max (rdepth t) (length (label t p) + length s) \<and>
     (if m = 0 then t' = t \<and> p' = p else sub t' p' = new_node)"

lemma grow_step:
  assumes "rwf t" "vpath t p" "rwf m" "rlookup m = rlookup (sub t p)" "nkeys m = nkeys (sub t p)" "nnodes m = Suc (nnodes (sub t p))"
    "rdepth m \<le> max (rdepth (sub t p)) (length (edge m j))" "j < length (rkids m)" "rkids m ! j = new_node"
  shows "rwf (put_node t p m)" "vpath (put_node t p m) (p @ [j])" "sub (put_node t p m) (p @ [j]) = new_node"
    "label (put_node t p m) (p @ [j]) = label t p @ edge m j" "rlookup (put_node t p m) = rlookup t"
    "nkeys (put_node t p m) = nkeys t" "nnodes (put_node t p m) = Suc (nnodes t)"
    "rdepth (put_node t p m) \<le> max (rdepth t) (length (label t p) + length (edge m j))"
  using assms put_node_nkeys [OF assms(2), of m] put_node_nnodes [OF assms(2), of m] rdepth_put [OF assms(2), of m] rdepth_sub [OF assms(2)]
  by (simp_all add: put_node_wf vpath_append sub_append label_append put_node_path put_node_same)

lemma grow_ok:
  "rwf t \<Longrightarrow> vpath t p \<Longrightarrow> \<not> rcompr (sub t p) \<Longrightarrow> s = [] \<or> hd s \<notin> set (rdata (sub t p)) \<Longrightarrow>
   \<exists>ok t' p' m nn' k'. grow mal k t p s i nn = Inr (ok, t', p', i + m, nn', k') \<and> ((\<forall>k. mal k) \<longrightarrow> ok) \<and>
     (ok \<longrightarrow> m = length s) \<and> nnodes t' + nn = nnodes t + nn' \<and> grown t p s t' p' m"
proof (induction "length s" arbitrary: k t p s i nn rule: less_induct)
  case less
  let ?h = "sub t p"
  note pre = less(2-5)
  have step: ?case
    if call: "grow mal k t p s i nn =
        (case r of None \<Rightarrow> Inr (False, t, p, i, nn, kk) | Some (m, j) \<Rightarrow> grow mal kk (put_node t p m) (p @ [j]) (drop u s) (i + u) (nn + 1))"
      and ne: "0 < u" "u \<le> length s"
      and r: "(\<forall>k. mal k) \<longrightarrow> r \<noteq> None"
      and m: "\<And>m j. r = Some (m, j) \<Longrightarrow> rwf m \<and> rlookup m = rlookup ?h \<and> nkeys m = nkeys ?h \<and> nnodes m = Suc (nnodes ?h) \<and>
        rdepth m \<le> max (rdepth ?h) (length (edge m j)) \<and> j < length (rkids m) \<and> rkids m ! j = new_node \<and> edge m j = take u s" for r kk u
  proof (cases r)
    case None
    then show ?thesis using call r ne pre by (intro exI [of _ False] exI [of _ t] exI [of _ p] exI [of _ 0] exI [of _ nn] exI [of _ kk]) (simp add: grown_def)
  next
    case (Some mj)
    obtain m j where mj: "r = Some (m, j)" using Some by (cases mj) auto
    let ?t = "put_node t p m" and ?p = "p @ [j]"
    note m = m [OF mj]
    have md: "rdepth m \<le> max (rdepth ?h) (length (edge m j))" using m by blast
    have s: "rwf ?t" "vpath ?t ?p" "sub ?t ?p = new_node" "label ?t ?p = label t p @ take u s" "rlookup ?t = rlookup t"
      "nkeys ?t = nkeys t" "nnodes ?t = Suc (nnodes t)"
      "rdepth ?t \<le> max (rdepth t) (length (label t p) + u)"
      using grow_step [OF pre(1,2), of m j, OF _ _ _ _ md] m ne by simp_all
    have shorter: "length (drop u s) < length s" and fresh: "\<not> rcompr (sub ?t ?p)" "drop u s = [] \<or> hd (drop u s) \<notin> set (rdata (sub ?t ?p))"
      using ne s(3) by simp_all
    obtain ok t' p' m' nn' k' where ih: "grow mal kk ?t ?p (drop u s) (i + u) (nn + 1) = Inr (ok, t', p', i + u + m', nn', k')"
      "(\<forall>k. mal k) \<longrightarrow> ok" "ok \<longrightarrow> m' = length (drop u s)" "nnodes t' + (nn + 1) = nnodes ?t + nn'" "grown ?t ?p (drop u s) t' p' m'"
      using less(1) [OF shorter s(1,2) fresh, of kk "i + u" "nn + 1"] by blast
    have "take u s @ take m' (drop u s) = take (u + m') s" by (simp add: take_add)
    then have "grown t p s t' p' (u + m')" using ih(5) s ne by (auto simp: grown_def split: if_splits)
    then show ?thesis using call mj ih(1-4) s(7) ne
      by (intro exI [of _ ok] exI [of _ t'] exI [of _ p'] exI [of _ "u + m'"] exI [of _ nn'] exI [of _ k']) (simp add: add.assoc)
  qed
  have h: "node_at t p = Inr ?h" "rwf ?h" using node_at_sub rwf_sub pre(1,2) by blast+
  show ?case
  proof (cases "s = []")
    case True
    then have "grow mal k t p s i nn = Inr (True, t, p, i + 0, nn, k)" by (simp add: grow.simps [of mal k t p "[]"])
    moreover have "grown t p s t p 0" using pre by (simp add: grown_def)
    ultimately show ?thesis using True by (intro exI [of _ True] exI [of _ t] exI [of _ p] exI [of _ 0] exI [of _ nn] exI [of _ k]) simp
  next
    case ne: False
    show ?thesis
    proof (cases "rdata ?h = [] \<and> length s > 1")
      case True
      let ?u = "min (length s) RAX_NODE_MAX_SIZE"
      have u: "2 \<le> length (take ?u s)" "length (take ?u s) \<le> RAX_NODE_MAX_SIZE" using True by (auto simp: RAX_NODE_MAX_SIZE_def)
      obtain r kk where r: "compress_node mal k ?h (take ?u s) = Inr (r, kk)" "(\<forall>k. mal k) \<longrightarrow> r \<noteq> None"
        "\<And>m. r = Some m \<Longrightarrow> rwf m \<and> rlookup m = rlookup ?h \<and> nkeys m = nkeys ?h \<and> nnodes m = Suc (nnodes ?h) \<and>
           rdepth m = length (take ?u s) \<and> link m (take ?u s) new_node"
        using compress_node_ok [OF h(2) pre(3) _ u, of mal k] True by blast
      show ?thesis
      proof (rule step [where r = "map_option (\<lambda>m. (m, 0)) r" and kk = kk and u = ?u])
        show "grow mal k t p s i nn = (case map_option (\<lambda>m. (m, 0)) r of None \<Rightarrow> Inr (False, t, p, i, nn, kk)
          | Some (m, j) \<Rightarrow> grow mal kk (put_node t p m) (p @ [j]) (drop ?u s) (i + ?u) (nn + 1))"
          using ne True h(1) r(1) by (simp add: grow.simps [of mal k t p s] Let_def split: option.splits)
        show "rwf m \<and> rlookup m = rlookup ?h \<and> nkeys m = nkeys ?h \<and> nnodes m = Suc (nnodes ?h) \<and>
            rdepth m \<le> max (rdepth ?h) (length (edge m j)) \<and> j < length (rkids m) \<and> rkids m ! j = new_node \<and> edge m j = take ?u s"
          if "map_option (\<lambda>m. (m, 0)) r = Some (m, j)" for m j
          using r(3) [of m] that link_edge [of m] by (auto simp: link_def)
      qed (use r(2) u True in auto)
    next
      case False
      have hd: "hd s \<notin> set (rdata ?h)" using pre(4) ne by simp
      obtain r kk where r: "add_child mal k ?h (hd s) = Inr (r, kk)" "(\<forall>k. mal k) \<longrightarrow> r \<noteq> None"
        "\<And>m j. r = Some (m, j) \<Longrightarrow> rwf m \<and> rlookup m = rlookup ?h \<and> nkeys m = nkeys ?h \<and> nnodes m = Suc (nnodes ?h) \<and>
           rdepth m \<le> max (rdepth ?h) 1 \<and> j < length (rkids m) \<and> rkids m ! j = new_node \<and> edge m j = [hd s]"
        using add_child_ok [OF h(2) pre(3) hd, of mal k] by blast
      show ?thesis
      proof (rule step [where r = r and kk = kk and u = 1])
        show "grow mal k t p s i nn = (case r of None \<Rightarrow> Inr (False, t, p, i, nn, kk)
          | Some (m, j) \<Rightarrow> grow mal kk (put_node t p m) (p @ [j]) (drop 1 s) (i + 1) (nn + 1))"
          unfolding grow.simps [of mal k t p s] if_not_P [OF ne] h(1) bindE_Inr if_not_P [OF False] r(1) prod.case
          by (simp add: drop_Suc split: option.split)
      qed (use r(2,3) ne in \<open>auto simp: take_Suc Suc_le_eq\<close>)
    qed
  qed
qed

section \<open>Insertion\<close>

definition rax_ok :: "'v rax \<Rightarrow> bool" where
  "rax_ok t \<longleftrightarrow> rwf (head t) \<and> numele t = nkeys (head t) \<and> numnodes t = nnodes (head t)"

text \<open>What an insertion returns and stores when it succeeds.\<close>

definition inserted :: "'v rax \<Rightarrow> byte list \<Rightarrow> 'v option \<Rightarrow> bool \<Rightarrow> bool \<Rightarrow> 'v option option \<Rightarrow> 'v rax \<Rightarrow> bool" where
  "inserted t s d overwrite ins old t' \<longleftrightarrow>
     rax_ok t' \<and> rdepth (head t') \<le> max (rdepth (head t)) (length s) \<and>
     old = rlookup (head t) s \<and> ins = (old = None) \<and>
     rlookup (head t') = (if ins \<or> overwrite then (rlookup (head t))(s \<mapsto> d) else rlookup (head t))"

text \<open>Memory runs out in the loop: the rest of the work is the cleanup at \<open>oom\<close>, in a tree with the same map.\<close>

definition ran_out :: "(nat \<Rightarrow> bool) \<Rightarrow> 'v rax \<Rightarrow> byte list \<Rightarrow> 'v insert_result outcome \<Rightarrow> bool" where
  "ran_out mal t s res \<longleftrightarrow>
     (\<exists>t' p k. res = insert_oom mal k t' p (label (head t') p) \<and> rax_ok t' \<and> rlookup (head t') = rlookup (head t) \<and>
        rdepth (head t') \<le> max (rdepth (head t)) (length s) \<and>
        vpath (head t') p \<and> prefix (label (head t') p) s \<and> (rkey (sub (head t') p) \<and> rdata (sub (head t') p) = [] \<longrightarrow> t' = t))"

text \<open>An insertion succeeds; or memory runs out before the tree is changed; or it runs out after the path has grown, and
  the cleanup at \<open>oom\<close> runs.\<close>

definition insert_spec :: "(nat \<Rightarrow> bool) \<Rightarrow> 'v rax \<Rightarrow> byte list \<Rightarrow> 'v option \<Rightarrow> bool \<Rightarrow> 'v insert_result outcome \<Rightarrow> bool" where
  "insert_spec mal t s d ow res \<longleftrightarrow>
     (\<exists>ins old t' k. res = Inr (ins, old, False, t', k) \<and> inserted t s d ow ins old t') \<or>
     \<not> (\<forall>k. mal k) \<and> ((\<exists>old k. res = Inr (False, old, True, t, k)) \<or> ran_out mal t s res)"

lemma insert_specI:
  "inserted t s d ow ins old t' \<Longrightarrow> insert_spec mal t s d ow (Inr (ins, old, False, t', k))"
  "\<not> (\<forall>k. mal k) \<Longrightarrow> insert_spec mal t s d ow (Inr (False, old, True, t, k))"
  "\<not> (\<forall>k. mal k) \<Longrightarrow> ran_out mal t s res \<Longrightarrow> insert_spec mal t s d ow res"
  unfolding insert_spec_def by blast+

lemma insert_here_ok:
  assumes "rax_ok t" "vpath (head t) p" "h = sub (head t) p" "s = label (head t) p"
  shows "insert_spec mal t s d ow (Inr (insert_here mal k t p h d ow))"
proof -
  let ?r = "put_node (head t) p (set_data h d)"
  have t: "rwf (head t)" "numele t = nkeys (head t)" "numnodes t = nnodes (head t)" using assms(1) by (simp_all add: rax_ok_def)
  have look: "rlookup (head t) s = (if rkey h then Some (get_data h) else None)"
    using rlookup_label [OF t(1) assms(2), of "[]"] assms(3,4) by (simp add: rlookup_Nil)
  have h: "rwf (set_data h d)" using rwf_sub [OF t(1) assms(2)] assms(3) by (simp add: set_data_facts)
  have "rdepth ?r \<le> rdepth (head t)"
    using rdepth_put [OF assms(2), of "set_data h d"] rdepth_sub [OF assms(2)] assms(3) set_data_facts(5) [of h d] by simp
  then have r: "rwf ?r" "rlookup ?r = (rlookup (head t))(s \<mapsto> d)" "nnodes ?r = nnodes (head t)"
    "nkeys ?r = (if rkey h then nkeys (head t) else Suc (nkeys (head t)))" "rdepth ?r \<le> max (rdepth (head t)) (length s)"
    using put_node_wf [OF t(1) assms(2) h] put_node_upd [OF t(1) assms(2) h, of "[]" "Some d"] assms(3,4)
      put_node_nnodes [OF assms(2), of "set_data h d"] put_node_nkeys [OF assms(2), of "set_data h d"]
      set_data_facts(2,4) [of h d] set_data_facts(3) [of h d]
    by (auto split: if_splits)
  let ?need = "(\<not> rkey h \<or> (rnull h \<and> ow)) \<and> d \<noteq> None"
  consider "?need \<and> \<not> mal k" | "\<not> (?need \<and> \<not> mal k)" "rkey h" | "\<not> (?need \<and> \<not> mal k)" "\<not> rkey h" by blast
  then show ?thesis
  proof cases
    case 1
    then show ?thesis unfolding insert_here_def Let_def if_P [OF 1] by (intro insert_specI(2)) blast
  next
    case 2
    have "inserted t s d ow False (Some (get_data h)) (if ow then t\<lparr>head := ?r\<rparr> else t)"
      using look r t 2(2) assms(1) by (cases ow) (simp_all add: inserted_def rax_ok_def)
    then show ?thesis unfolding insert_here_def Let_def if_not_P [OF 2(1)] if_P [OF 2(2)] by (rule insert_specI(1))
  next
    case 3
    have "inserted t s d ow True None (t\<lparr>head := ?r, numele := numele t + 1\<rparr>)"
      using look r t 3(2) by (simp add: inserted_def rax_ok_def)
    then show ?thesis unfolding insert_here_def Let_def if_not_P [OF 3(1)] if_not_P [OF 3(2)] by (rule insert_specI(1))
  qed
qed

text \<open>The end of the insertion, in a tree \<open>t\<close> that may be \<open>u\<close> with a node split.\<close>

lemma insert_below_ok:
  assumes "rax_ok t" "vpath (head t) p" "\<not> rcompr (sub (head t) p)" "s = label (head t) p @ r" "r \<noteq> []"
    "hd r \<notin> set (rdata (sub (head t) p))" "i = length (label (head t) p)" "rlookup (head t) s = None"
    "rlookup (head t) = rlookup (head u)" "rdepth (head t) = rdepth (head u)" "t = u \<or> rdata (sub (head t) p) \<noteq> []"
  shows "insert_spec mal u s d ow (insert_below mal k t p s i d)"
proof -
  have t: "rwf (head t)" "numele t = nkeys (head t)" "numnodes t = nnodes (head t)" using assms(1) by (simp_all add: rax_ok_def)
  have rest: "drop i s = r" using assms(4,7) by simp
  obtain ok t' p' m nn' k' where g: "grow mal k (head t) p r i (numnodes t) = Inr (ok, t', p', i + m, nn', k')"
    "(\<forall>k. mal k) \<longrightarrow> ok" "ok \<longrightarrow> m = length r" "nnodes t' + numnodes t = nnodes (head t) + nn'" "grown (head t) p r t' p' m"
    using grow_ok [OF t(1) assms(2,3), of r mal k i "numnodes t"] assms(6) by blast
  let ?t = "t\<lparr>head := t', numnodes := nn'\<rparr>"
  have g': "rwf t'" "rlookup t' = rlookup (head t)" "nkeys t' = nkeys (head t)" "vpath t' p'" "label t' p' = take (i + m) s"
    "if m = 0 then t' = head t \<and> p' = p else sub t' p' = new_node" "nn' = nnodes t'" "rdepth t' \<le> max (rdepth (head u)) (length s)"
    using g(4,5) t assms(4,7,10) by (auto simp: grown_def)
  show ?thesis
  proof (cases "ok \<and> (d = None \<or> mal k')")
    case True
    let ?n = "set_data (sub t' p') d"
    let ?t' = "?t\<lparr>head := put_node t' p' ?n, numele := numele t + 1\<rparr>"
    have m: "m = length r" "m \<noteq> 0" using g(3) True assms(5) by auto
    then have new: "sub t' p' = new_node" and lab: "label t' p' = s" using g' assms(4,7) by auto
    have eq: "insert_below mal k t p s i d = Inr (True, None, False, ?t', if d \<noteq> None then k' + 1 else k')"
      using True g(1) new node_at_sub [OF g'(4)] by (auto simp: insert_below_def rest Let_def)
    have n: "rwf ?n" "rdepth ?n = 0" "nkeys ?n = 1" "nnodes ?n = 1"
      using new set_data_facts [of "new_node :: 'a rnode" d] by simp_all
    have "rlookup (put_node t' p' ?n) = (rlookup (head t))(s \<mapsto> d)"
      using put_node_upd [OF g'(1,4) n(1), of "[]" "Some d"] g'(2) lab by (simp add: set_data_facts)
    moreover have "rwf (put_node t' p' ?n)" by (rule put_node_wf [OF g'(1,4) n(1)])
    moreover have "nkeys (put_node t' p' ?n) = Suc (nkeys t')" "nnodes (put_node t' p' ?n) = nnodes t'"
      "rdepth (put_node t' p' ?n) \<le> max (rdepth (head u)) (length s)"
      using put_node_nkeys [OF g'(4), of ?n] put_node_nnodes [OF g'(4), of ?n] rdepth_put [OF g'(4), of ?n] n new lab g'(8) by simp_all
    ultimately have "inserted u s d ow True None ?t'" using g'(3,7) t assms(8,9) by (simp add: inserted_def rax_ok_def)
    then show ?thesis unfolding eq by (rule insert_specI(1))
  next
    case False
    then have "\<exists>k''. insert_below mal k t p s i d = insert_oom mal k'' ?t p' (label (head ?t) p')"
      using g(1) g'(5) by (auto simp: insert_below_def rest Let_def)
    then obtain k'' where "insert_below mal k t p s i d = insert_oom mal k'' ?t p' (label (head ?t) p')" ..
    moreover have "rax_ok ?t" "prefix (label t' p') s" using g' t by (simp_all add: rax_ok_def take_is_prefix)
    moreover have "rkey (sub t' p') \<longrightarrow> ?t = t \<and> t' = head t \<and> p' = p" using g'(6,7) t by (auto split: if_splits)
    ultimately have "ran_out mal u s (insert_below mal k t p s i d)" unfolding ran_out_def using g'(2,4,8) assms(9,11)
      by (intro exI [of _ ?t] exI [of _ p'] exI [of _ k'']) auto
    then show ?thesis using False g(2) by (intro insert_specI(3)) blast
  qed
qed

lemma insert_at_end_ok:
  assumes "rax_ok t" "stopped (head t) s i p h j r" "rcompr h" "i = length s" "0 < j"
  shows "insert_spec mal t s d ow (bindE (split_at_end mal k h j d) (\<lambda>(r, k).
          case r of None \<Rightarrow> Inr (False, None, True, t, k)
          | Some h' \<Rightarrow> Inr (True, None, False, \<lparr>head = put_node (head t) p h', numele = numele t + 1, numnodes = numnodes t + 1\<rparr>, k)))"
proof -
  have t: "rwf (head t)" "numele t = nkeys (head t)" "numnodes t = nnodes (head t)" using assms(1) by (simp_all add: rax_ok_def)
  note look = stopped_lookup [OF t(1) assms(2)]
  have p: "vpath (head t) p" "h = sub (head t) p" "s = label (head t) p @ r" "i = length (label (head t) p) + j"
    and j: "j = match_len (rdata h) r" "j < length (rdata h)"
    using assms(2,3) by (auto simp: stopped_def)
  have "length r = j" using assms(4) p(3,4) by simp
  then have r: "r = take j (rdata h)" using match_len_take [of "rdata h" r] j(1) by simp
  obtain x k' where x: "split_at_end mal k h j d = Inr (x, k')" "(\<forall>k. mal k) \<longrightarrow> x \<noteq> None"
    "\<And>m. x = Some m \<Longrightarrow> rwf m \<and> rlookup m = (rlookup h)(take j (rdata h) \<mapsto> d) \<and> nkeys m = Suc (nkeys h) \<and> nnodes m = Suc (nnodes h) \<and> rdepth m = rdepth h"
    using split_at_end_ok [OF look(3) assms(3,5) j(2), of mal k d] by blast
  show ?thesis
  proof (cases x)
    case None
    have "\<not> (\<forall>k. mal k)" using x(2) None by blast
    then show ?thesis unfolding x(1) bindE_Inr prod.case None option.case by (rule insert_specI(2))
  next
    case (Some m)
    note m = x(3) [OF Some]
    have "rdepth (put_node (head t) p m) \<le> max (rdepth (head t)) (length s)"
      using rdepth_put [OF p(1), of m] rdepth_sub [OF p(1)] m p(2) by simp
    then have "inserted t s d ow True None \<lparr>head = put_node (head t) p m, numele = numele t + 1, numnodes = numnodes t + 1\<rparr>"
      using m look(1) assms(5) r j(2) put_node_wf [OF t(1) p(1)] put_node_upd [OF t(1) p(1), of m r "Some d"] p(2,3) t
        put_node_nkeys [OF p(1), of m] put_node_nnodes [OF p(1), of m] by (auto simp add: inserted_def rax_ok_def)
    then show ?thesis unfolding x(1) bindE_Inr prod.case Some option.case by (rule insert_specI(1))
  qed
qed

lemma insert_split_ok:
  assumes "rax_ok t" "stopped (head t) s i p h j r" "rcompr h" "i \<noteq> length s" "r \<noteq> []"
  shows "insert_spec mal t s d ow (bindE (split_node mal k h j) (\<lambda>(r, k).
          case r of None \<Rightarrow> Inr (False, None, True, t, k)
          | Some (h', q, added) \<Rightarrow>
              insert_below mal k (t\<lparr>head := put_node (head t) p h', numnodes := numnodes t + added\<rparr>) (p @ q) s i d))"
proof -
  have t: "rwf (head t)" "numele t = nkeys (head t)" "numnodes t = nnodes (head t)" using assms(1) by (simp_all add: rax_ok_def)
  note look = stopped_lookup [OF t(1) assms(2)]
  have p: "vpath (head t) p" "h = sub (head t) p" "s = label (head t) p @ r" "i = length (label (head t) p) + j"
    and j: "j = match_len (rdata h) r" "j < length (rdata h)"
    using assms(2,3) by (auto simp: stopped_def)
  have jr: "j < length r" using assms(4) p(3,4) j(1) match_len_le(2) [of "rdata h" r] by simp
  obtain x k' where x: "split_node mal k h j = Inr (x, k')" "(\<forall>k. mal k) \<longrightarrow> x \<noteq> None"
    "\<And>m q a. x = Some (m, q, a) \<Longrightarrow> rwf m \<and> rlookup m = rlookup h \<and> nkeys m = nkeys h \<and> nnodes m = nnodes h + a \<and> rdepth m = rdepth h \<and>
       vpath m q \<and> label m q = take j (rdata h) \<and> \<not> rcompr (sub m q) \<and> rdata (sub m q) = [rdata h ! j]"
    using split_node_ok [OF look(3) assms(3) j(2), of mal k] by blast
  show ?thesis
  proof (cases x)
    case None
    have "\<not> (\<forall>k. mal k)" using x(2) None by blast
    then show ?thesis unfolding x(1) bindE_Inr prod.case None option.case by (rule insert_specI(2))
  next
    case (Some mqa)
    then obtain m q a where m': "x = Some (m, q, a)" by (cases mqa) auto
    note m = x(3) [OF m']
    let ?u = "t\<lparr>head := put_node (head t) p m, numnodes := numnodes t + a\<rparr>"
    have same: "rlookup (head ?u) = rlookup (head t)" using m p(2) put_node_same [OF t(1) p(1)] by simp
    have ok: "rax_ok ?u"
      using m t put_node_wf [OF t(1) p(1)] put_node_nkeys [OF p(1), of m] put_node_nnodes [OF p(1), of m] p(2) by (simp add: rax_ok_def)
    have depth: "rdepth (head ?u) = rdepth (head t)" using put_node_depth [OF p(1), of m] m p(2) by simp
    have at: "vpath (head ?u) (p @ q)" "sub (head ?u) (p @ q) = sub m q" "label (head ?u) (p @ q) = label (head t) p @ take j (rdata h)"
      using m p(1) by (simp_all add: vpath_append sub_append label_append put_node_path)
    have "r = take j (rdata h) @ drop j r" using match_len_take [of "rdata h" r] j(1) by (metis append_take_drop_id)
    then have s: "s = label (head ?u) (p @ q) @ drop j r" using p(3) at(3) by simp
    have "hd (drop j r) \<noteq> rdata h ! j" using match_len_stop [of "rdata h" r] j jr by (simp add: hd_drop_conv_nth)
    then have c: "\<not> rcompr (sub (head ?u) (p @ q))" "hd (drop j r) \<notin> set (rdata (sub (head ?u) (p @ q)))"
      "rdata (sub (head ?u) (p @ q)) \<noteq> []" using m at(2) by simp_all
    have i: "i = length (label (head ?u) (p @ q))" "drop j r \<noteq> []" using at(3) p(4) j(2) jr by simp_all
    have none: "rlookup (head ?u) s = None" using look(1) assms(5) same by simp
    show ?thesis unfolding x(1) bindE_Inr prod.case m' option.case
      by (rule insert_below_ok [OF ok at(1) c(1) s i(2) c(2) i(1) none same depth disjI2 [OF c(3)]])
  qed
qed

lemma insert_cases:
  assumes "rax_ok t"
  shows "insert_spec mal t s d ow (raxGenericInsert mal k t s d ow)"
proof -
  have t: "rwf (head t)" using assms by (simp add: rax_ok_def)
  obtain i p h j r where w: "walk (head t) s = Inr (i, p, h, j)" and st: "stopped (head t) s i p h j r"
    using walk_stopped [OF t] by blast
  note look = stopped_lookup [OF t st]
  have p: "vpath (head t) p" "h = sub (head t) p" "s = label (head t) p @ r" "i = length (label (head t) p) + j"
    using st by (auto simp: stopped_def)
  show ?thesis
  proof (cases "r = []")
    case True
    then have here: "i = length s \<and> (\<not> rcompr h \<or> j = 0)" using look(2) by simp
    show ?thesis unfolding raxGenericInsert_def w bindE_Inr prod.case if_P [OF here]
      using True p(3) by (intro insert_here_ok [OF assms p(1,2)]) simp
  next
    case ne: False
    then have nhere: "\<not> (i = length s \<and> (\<not> rcompr h \<or> j = 0))" and none: "rlookup (head t) s = None" using look(1,2) by simp_all
    consider "\<not> rcompr h" | "rcompr h" "i = length s" | "rcompr h" "i \<noteq> length s" by blast
    then show ?thesis
    proof cases
      case 1
      have "j = 0" "hd r \<notin> set (rdata h)" using st 1 ne by (auto simp: stopped_def)
      then have at: "\<not> rcompr (sub (head t) p)" "hd r \<notin> set (rdata (sub (head t) p))" "i = length (label (head t) p)"
        using 1 p(2,4) by simp_all
      have "raxGenericInsert mal k t s d ow = insert_below mal k t p s i d" using w nhere 1 by (simp add: raxGenericInsert_def)
      then show ?thesis using insert_below_ok [OF assms p(1) at(1) p(3) ne at(2,3) none refl refl disjI1 [OF refl]] by simp
    next
      case 2
      have "0 < j" using nhere 2 by simp
      then show ?thesis using insert_at_end_ok [OF assms st 2, of mal d ow k] w nhere 2 by (simp add: raxGenericInsert_def)
    next
      case 3
      then show ?thesis using insert_split_ok [OF assms st 3 ne, of mal d ow k] w by (simp add: raxGenericInsert_def)
    qed
  qed
qed

end
