(* ===== verification/Rax_Remove.thy ===== *)
theory Rax_Remove
  imports Rax_Insert
begin

text \<open>
  Removal from the radix tree deletes the key from the map: the stack holds the ancestors of the node, the nodes that carry no
  key any more are unlinked, and joining a chain into one node keeps the map.
\<close>

section \<open>The stack of ancestors\<close>

definition ancestors :: "nat list \<Rightarrow> nat list list" where
  "ancestors p = map (\<lambda>i. take i p) [0..<length p]"

lemma ancestors_Nil [simp]: "ancestors [] = []"
  by (simp add: ancestors_def)

lemma ancestors_snoc [simp]: "ancestors (p @ [j]) = ancestors p @ [p]"
  by (auto simp: ancestors_def)

lemma ancestors_Nil_iff [simp]: "ancestors p = [] \<longleftrightarrow> p = []"
  by (simp add: ancestors_def)

lemma raxStackPush_ok:
  assumes "raxStackPush mal k ts x = (ok, ts', k')"
  shows "\<not> st_oom ts' \<Longrightarrow> ok \<and> \<not> st_oom ts \<and> st_items ts' = st_items ts @ [x]"
    "\<forall>k. mal k \<Longrightarrow> st_oom ts' = st_oom ts"
    "length (st_items ts) < st_max ts \<Longrightarrow> st_oom ts' = st_oom ts \<and> length (st_items ts') = Suc (length (st_items ts)) \<and> st_max ts' = st_max ts"
  using assms by (auto simp: raxStackPush_def split: if_splits)

lemma push_path_items:
  "push_path mal k ts q p = (ts', k') \<Longrightarrow> \<not> st_oom ts' \<Longrightarrow>
   \<not> st_oom ts \<and> st_items ts' = st_items ts @ map (\<lambda>i. q @ take i p) [0..<length p]"
proof (induction p arbitrary: k ts q)
  case (Cons j p)
  obtain ok ts1 k1 where push: "raxStackPush mal k ts q = (ok, ts1, k1)" by (cases "raxStackPush mal k ts q") auto
  have "push_path mal k1 ts1 (q @ [j]) p = (ts', k')" using Cons(2) push by simp
  note ih = Cons(1) [OF this Cons(3)]
  have "[0..<length (j # p)] = 0 # map Suc [0..<length p]" by (simp add: map_Suc_upt upt_conv_Cons del: upt_Suc)
  then show ?case using ih raxStackPush_ok(1) [OF push] by simp
qed simp

lemma push_path_mal: "push_path mal k ts q p = (ts', k') \<Longrightarrow> \<forall>k. mal k \<Longrightarrow> st_oom ts' = st_oom ts"
proof (induction p arbitrary: k ts q)
  case (Cons j p)
  obtain ok ts1 k1 where push: "raxStackPush mal k ts q = (ok, ts1, k1)" by (cases "raxStackPush mal k ts q") auto
  have "push_path mal k1 ts1 (q @ [j]) p = (ts', k')" using Cons(2) push by simp
  then show ?case using Cons(1) [OF _ Cons(3)] raxStackPush_ok(2) [OF push Cons(3)] by simp
qed simp

lemma push_path_static:
  "push_path mal k ts q p = (ts', k') \<Longrightarrow> length (st_items ts) + length p \<le> st_max ts \<Longrightarrow> st_oom ts' = st_oom ts"
proof (induction p arbitrary: k ts q)
  case (Cons j p)
  obtain ok ts1 k1 where push: "raxStackPush mal k ts q = (ok, ts1, k1)" by (cases "raxStackPush mal k ts q") auto
  have "push_path mal k1 ts1 (q @ [j]) p = (ts', k')" using Cons(2) push by simp
  then show ?case using Cons(1) Cons(3) raxStackPush_ok(3) [OF push] by simp
qed simp

text \<open>The stack is complete when no allocation fails, and when the path is not longer than the static items.\<close>

lemma push_path_complete:
  assumes "push_path mal k raxStackInit [] p = (ts, k')" "(\<forall>k. mal k) \<or> length p \<le> RAX_STACK_STATIC_ITEMS"
  shows "\<not> st_oom ts" "st_items ts = ancestors p"
proof -
  show "\<not> st_oom ts"
    using assms push_path_mal [OF assms(1)] push_path_static [OF assms(1)] by (auto simp: raxStackInit_def)
  then show "st_items ts = ancestors p" using push_path_items [OF assms(1)] by (simp add: raxStackInit_def ancestors_def)
qed

section \<open>Unlinking\<close>

lemma stops_link:
  assumes "rwf n" "\<not> stops n"
  shows "\<not> rkey n" "\<exists>c. link n (rdata n) c \<and> rwf c"
proof -
  show "\<not> rkey n" using assms(2) by (simp add: stops_def)
  show "\<exists>c. link n (rdata n) c \<and> rwf c"
  proof (cases "rcompr n")
    case True
    then show ?thesis using rwf_link [OF assms(1)] by blast
  next
    case False
    then have "length (rdata n) = 1" using assms(2) by (simp add: stops_def)
    moreover from this obtain c where c: "rkids n = [c]" using rwfD(2) [OF assms(1) False] by (auto simp: length_Suc_conv)
    moreover have "rwf c" using rwfD(3) [OF assms(1)] c by simp
    ultimately show ?thesis using False by (auto simp: link_def RAX_NODE_MAX_SIZE_def)
  qed
qed

text \<open>A chain of nodes that carry no key, down to a leaf.\<close>

lemma dead_chain:
  "rwf n \<Longrightarrow> vpath n q \<Longrightarrow> (\<And>i. i < length q \<Longrightarrow> \<not> stops (sub n (take i q))) \<Longrightarrow> \<not> rkey (sub n q) \<Longrightarrow> rdata (sub n q) = [] \<Longrightarrow>
   rlookup n = Map.empty \<and> nkeys n = 0 \<and> nnodes n = Suc (length q)"
proof (induction n q rule: vpath.induct)
  case (1 n)
  then have "rkids n = []" using rwf_empty [of n] by simp
  moreover have "rlookup n s = None" for s using 1 calculation by (cases "s = []") (simp_all add: rlookup_Nil rlookup_leaf)
  ultimately show ?case using 1 nkeys_node [of n] nnodes_node [of n] by auto
next
  case (2 n j q)
  have "\<not> stops n" using 2(4) [of 0] by simp
  then obtain c where n: "\<not> rkey n" "link n (rdata n) c" "rwf c" using stops_link [OF 2(2)] by blast
  then have c: "rkids n ! j = c" using 2(3) by (simp add: link_def)
  have "\<not> stops (sub (rkids n ! j) (take i q))" if "i < length q" for i using 2(4) [of "Suc i"] that by simp
  then have ih: "rlookup c = Map.empty \<and> nkeys c = 0 \<and> nnodes c = Suc (length q)" using 2(1,3,5,6) n(3) c by simp
  have "rlookup n s = None" for s
    using link_lookup [OF n(2,3), of s] ih n(1) by (cases "s = []") (simp_all add: rlookup_Nil)
  then show ?case using ih link_count [OF n(2)] n(1) by auto
qed

lemma sum_list_remove: "j < length xs \<Longrightarrow> sum_list (map f (take j xs @ drop (Suc j) xs)) + f (xs ! j) = (sum_list (map f xs) :: nat)"
  using arg_cong [OF id_take_nth_drop [of j xs], of "\<lambda>ys. sum_list (map f ys)"] by simp

lemma set_take_drop: "set (take j xs @ drop (Suc j) xs) \<subseteq> set xs"
  using set_take_subset [of j xs] set_drop_subset [of "Suc j" xs] by auto

lemma sorted_remove: "sorted_wrt R xs \<Longrightarrow> sorted_wrt R (take j xs @ drop (Suc j) xs)"
  using sorted_wrt_append [of R "take (Suc j) xs" "drop (Suc j) xs"] sorted_wrt_append [of R "take j xs" "drop j xs"]
    set_drop_subset_set_drop [of j "Suc j" xs]
  by (auto simp: sorted_wrt_append)

lemma remove_nth:
  assumes "j < length xs" "j \<noteq> i"
  shows "(take i xs @ drop (Suc i) xs) ! (if j < i then j else j - 1) = xs ! j"
    "(if j < i then j else j - 1) < length (take i xs @ drop (Suc i) xs)"
  using assms by (auto simp: nth_append min_def)

lemma remove_branch_ok:
  assumes "rwf n" "\<not> rcompr n" "i < length (rkids n)" "rlookup (rkids n ! i) = Map.empty"
  shows "rwf (remove_child n i)" "rlookup (remove_child n i) = rlookup n" "rdepth (remove_child n i) \<le> rdepth n"
proof -
  let ?m = "remove_child n i"
  note w = rwfD(2) [OF assms(1,2)]
  have d: "distinct (rdata n)" using w strict_sorted_iff by blast
  have m: "rkey ?m = rkey n" "get_data ?m = get_data n" "\<not> rcompr ?m" "rdata ?m = take i (rdata n) @ drop (Suc i) (rdata n)"
    "rkids ?m = take i (rkids n) @ drop (Suc i) (rkids n)"
    using assms(2) by (simp_all add: remove_child_def get_data_def)
  show wm: "rwf ?m" using w assms(2) sorted_remove [of "(<)" "rdata n" i] set_take_drop [of i "rkids n"] rwfD(3) [OF assms(1)]
    by (auto simp: remove_child_def)
  have "rlookup ?m s = rlookup n s" for s
  proof (cases s)
    case Nil
    then show ?thesis by (simp add: rlookup_Nil m)
  next
    case (Cons a r)
    show ?thesis
    proof (cases "a \<in> set (rdata ?m)")
      case True
      then have "a \<in> set (rdata n)" using set_take_drop [of i "rdata n"] m(4) by auto
      then obtain j where j: "j < length (rdata n)" "a = rdata n ! j" by (auto simp: in_set_conv_nth)
      have ji: "j \<noteq> i"
      proof
        assume "j = i"
        then have "a \<notin> set (take i (rdata n))" "a \<notin> set (drop (Suc i) (rdata n))"
          using d j by (auto simp: in_set_conv_nth nth_eq_iff_index_eq)
        then show False using True m(4) by simp
      qed
      let ?j = "if j < i then j else j - 1"
      have k: "?j < length (rkids ?m)" "rkids ?m ! ?j = rkids n ! j" "rdata ?m ! ?j = a"
        using remove_nth [of j "rkids n" i] remove_nth [of j "rdata n" i] j ji w m(4,5) by simp_all
      then have "rlookup ?m (a # r) = rlookup (rkids n ! j) r" using rlookup_edge(1) [OF wm k(1), of r] m(3) by (simp add: edge_def)
      moreover have "rlookup n (a # r) = rlookup (rkids n ! j) r"
        using rlookup_edge(1) [OF assms(1), of j r] j w assms(2) by (simp add: edge_def)
      ultimately show ?thesis using Cons by simp
    next
      case False
      have "rlookup n (a # r) = None"
      proof (cases "a = rdata n ! i")
        case True
        then show ?thesis using rlookup_edge(1) [OF assms(1,3), of r] assms(2,4) by (simp add: edge_def)
      next
        case ne: False
        have "a \<notin> set (rdata n)"
          using False ne m(4) arg_cong [OF id_take_nth_drop [of i "rdata n"], of set] assms(3) w by auto
        then show ?thesis using assms(2) w by (simp add: rlookup_branch)
      qed
      then show ?thesis using False Cons rwfD(2) [OF wm m(3)] m(3) by (simp add: rlookup_branch)
    qed
  qed
  then show "rlookup ?m = rlookup n" by blast
  have "1 + rdepth x \<le> rdepth n" if "x \<in> set (rkids ?m)" for x
  proof -
    have "x \<in> set (rkids n)" using that set_take_drop [of i "rkids n"] m(5) by auto
    then obtain j where "j < length (rkids n)" "x = rkids n ! j" by (auto simp: in_set_conv_nth)
    then show ?thesis using rdepth_kid [of j n] assms(2) by (simp add: edge_def)
  qed
  then show "rdepth ?m \<le> rdepth n" using m(3) by (simp add: rdepth_le edge_def)
qed

lemma remove_child_ok:
  assumes "rwf n" "i < length (rkids n)" "rlookup (rkids n ! i) = Map.empty"
  shows "rwf (remove_child n i)" "rlookup (remove_child n i) = rlookup n" "rdepth (remove_child n i) \<le> rdepth n"
    "nkeys (remove_child n i) + nkeys (rkids n ! i) = nkeys n" "nnodes (remove_child n i) + nnodes (rkids n ! i) = nnodes n"
    "\<not> rcompr (remove_child n i)"
proof -
  let ?m = "remove_child n i"
  have "rwf ?m \<and> rlookup ?m = rlookup n \<and> rdepth ?m \<le> rdepth n \<and> \<not> rcompr ?m \<and> rkey ?m = rkey n \<and>
      rkids ?m = take i (rkids n) @ drop (Suc i) (rkids n)"
  proof (cases "rcompr n")
    case True
    obtain c where c: "link n (rdata n) c" "rwf c" using rwf_link [OF assms(1) True] by blast
    then have i: "i = 0" "rkids n = [c]" using assms(2) by (simp_all add: link_def)
    define m where "m = ?m"
    have m: "rkids m = []" "rdata m = []" "\<not> rcompr m" "rkey m = rkey n" "rkey n \<Longrightarrow> get_data m = get_data n"
      using True by (auto simp: m_def remove_child_def Let_def)
    have "rwf m" "rdepth m = 0" using m by (cases m; simp)+
    moreover have "rlookup m s = rlookup n s" for s
      using m link_lookup [OF c, of s] assms(3) i by (cases "s = []") (simp_all add: rlookup_Nil rlookup_leaf)
    ultimately show ?thesis using m i unfolding m_def [symmetric] by auto
  next
    case False
    then show ?thesis using remove_branch_ok [OF assms(1) False assms(2,3)] by (simp add: remove_child_def)
  qed
  then show "rwf ?m" "rlookup ?m = rlookup n" "rdepth ?m \<le> rdepth n" "\<not> rcompr ?m"
    "nkeys ?m + nkeys (rkids n ! i) = nkeys n" "nnodes ?m + nnodes (rkids n ! i) = nnodes n"
    using nkeys_node [of n] nnodes_node [of n] nkeys_node [of ?m] nnodes_node [of ?m]
      sum_list_remove [OF assms(2), of nkeys] sum_list_remove [OF assms(2), of nnodes] by auto
qed

lemma cleanup_ok:
  "vpath t p \<Longrightarrow> p \<noteq> [] \<Longrightarrow> st_items ts = ancestors p \<Longrightarrow>
   \<exists>q j u ts'. p = q @ j # u \<and> cleanup t p child ts nn = Inr (q, Some (q @ [j]), ts', (dec64 ^^ Suc (length u)) nn) \<and>
     st_items ts' = ancestors q \<and> st_oom ts' = st_oom ts \<and> (\<forall>i < length u. \<not> stops (sub t (q @ j # take i u)))"
proof (induction p arbitrary: child ts nn rule: rev_induct)
  case (snoc j p)
  let ?ts = "ts\<lparr>st_items := ancestors p, st_above := p # st_above ts\<rparr>"
  have pop: "raxStackPop ts = (Some p, ?ts)" using snoc(4) by (simp add: raxStackPop_def)
  have p: "vpath t p" "node_at t p = Inr (sub t p)" using snoc(2) node_at_sub by (auto simp: vpath_append)
  have eq: "cleanup t (p @ [j]) child ts nn =
      (if stops (sub t p) then Inr (p, Some (p @ [j]), ?ts, dec64 nn) else cleanup t p (Some (p @ [j])) ?ts (dec64 nn))"
    using pop p(2) by (simp add: cleanup.simps [of t "p @ [j]"])
  show ?case
  proof (cases "stops (sub t p) \<or> p = []")
    case True
    then have "cleanup t (p @ [j]) child ts nn = Inr (p, Some (p @ [j]), ?ts, dec64 nn)"
      using eq cleanup.simps [of t "[]"] by auto
    then show ?thesis by (intro exI [of _ p] exI [of _ j] exI [of _ "[]"] exI [of _ ?ts]) simp
  next
    case False
    have pre: "p \<noteq> []" "st_items ?ts = ancestors p" "st_oom ?ts = st_oom ts" using False by simp_all
    obtain q i u ts' where ih: "p = q @ i # u" "cleanup t p (Some (p @ [j])) ?ts (dec64 nn) = Inr (q, Some (q @ [i]), ts', (dec64 ^^ Suc (length u)) (dec64 nn))"
      "st_items ts' = ancestors q" "st_oom ts' = st_oom ts" "\<forall>k < length u. \<not> stops (sub t (q @ i # take k u))"
      using snoc(1) [OF p(1) pre(1,2), of "Some (p @ [j])" "dec64 nn"] unfolding pre(3) by blast
    have "\<not> stops (sub t (q @ i # take k (u @ [j])))" if "k < length (u @ [j])" for k
      using ih(1,5) False that by (cases "k = length u") auto
    then show ?thesis using ih eq False funpow_swap1 [of dec64 "length u" "dec64 nn"] funpow_swap1 [of dec64 "length u" nn]
      by (intro exI [of _ q] exI [of _ i] exI [of _ "u @ [j]"] exI [of _ ts']) simp
  qed
qed simp

section \<open>Recompression\<close>

text \<open>Copying and measuring a chain: the characters collected spell the path to the end of the chain, and unless the limit of
  a node is met the measure agrees with the copy.\<close>

lemma copy_chain_ok:
  "rwf n \<Longrightarrow> \<not> stops n \<Longrightarrow>
   \<exists>d e f. copy_chain n = Inr (d, e, f) \<and> below n d e \<and> rwf e \<and> length (rdata n) \<le> length d \<and> 0 < f \<and> f \<le> length d \<and>
     nnodes n = nnodes e + f \<and> nkeys n = nkeys e \<and> rdepth n = length d + rdepth e \<and>
     (\<forall>cs nd. cs + length d - length (rdata n) \<le> RAX_NODE_MAX_SIZE \<longrightarrow>
        scan_chain n cs nd = Inr (cs + length d - length (rdata n), nd + f - 1))"
proof (induction n rule: copy_chain.induct)
  case (1 n)
  obtain c where n: "\<not> rkey n" "link n (rdata n) c" "rwf c" using stops_link [OF 1(2,3)] by blast
  have d: "rdata n \<noteq> []" "last_kid n = Inr c" using n(2) drop_link by (auto simp: link_def)
  show ?case
  proof (cases "stops c")
    case True
    have "copy_chain n = Inr (rdata n, c, 1)" using d True by (simp add: copy_chain.simps [of n])
    moreover have "scan_chain n cs nd = Inr (cs, nd)" for cs nd using d True by (simp add: scan_chain.simps [of n])
    moreover have "0 < length (rdata n)" using d by simp
    ultimately show ?thesis using n below_link [OF n(2,3)] link_count [OF n(2)] link_depth [OF n(2)]
      by (intro exI [of _ "rdata n"] exI [of _ c] exI [of _ 1]) (simp add: Suc_le_eq)
  next
    case False
    then obtain d' e f where ih: "copy_chain c = Inr (d', e, f)" "below c d' e" "rwf e" "length (rdata c) \<le> length d'" "0 < f" "f \<le> length d'"
      "nnodes c = nnodes e + f" "nkeys c = nkeys e" "rdepth c = length d' + rdepth e"
      "\<And>cs nd. cs + length d' - length (rdata c) \<le> RAX_NODE_MAX_SIZE \<Longrightarrow>
        scan_chain c cs nd = Inr (cs + length d' - length (rdata c), nd + f - 1)"
      using 1(1) [OF d False n(3)] by blast
    have c: "\<not> rkey c" "d' \<noteq> []" using False ih(5,6) by (auto simp: stops_def)
    have "0 < length (rdata n)" using d by simp
    then have len: "f + 1 \<le> length (rdata n @ d')" using ih(6) unfolding length_append by linarith
    have "scan_chain n cs nd = Inr (cs + length (rdata n @ d') - length (rdata n), nd + (f + 1) - 1)"
      if "cs + length (rdata n @ d') - length (rdata n) \<le> RAX_NODE_MAX_SIZE" for cs nd
    proof -
      have "scan_chain n cs nd = scan_chain c (cs + length (rdata c)) (nd + 1)"
        using d False that ih(4) by (simp add: scan_chain.simps [of n])
      then show ?thesis using ih(10) [of "cs + length (rdata c)" "nd + 1"] that ih(5) by simp
    qed
    moreover have "copy_chain n = Inr (rdata n @ d', e, f + 1)" using d False ih(1) by (simp add: copy_chain.simps [of n])
    moreover have "below n (rdata n @ d') e" by (rule below_trans [OF below_link [OF n(2,3)] ih(2) c])
    ultimately show ?thesis using ih(3,5,7-9) n link_count [OF n(2)] link_depth [OF n(2)] len
      by (intro exI [of _ "rdata n @ d'"] exI [of _ e] exI [of _ "f + 1"]) simp
  qed
qed

lemma go_up_ok:
  "vpath t q \<Longrightarrow> \<not> stops (sub t q) \<Longrightarrow> st_items ts = ancestors q \<Longrightarrow>
   \<exists>p ts'. go_up t q ts = Inr (p, ts') \<and> vpath t p \<and> \<not> stops (sub t p)"
proof (induction q arbitrary: ts rule: rev_induct)
  case Nil
  then have "go_up t [] ts = Inr ([], ts)" by (simp add: go_up.simps [of t "[]"] raxStackPop_def)
  then show ?case using Nil by auto
next
  case (snoc j q)
  let ?ts = "ts\<lparr>st_items := ancestors q, st_above := q # st_above ts\<rparr>"
  have pop: "raxStackPop ts = (Some q, ?ts)" using snoc(4) by (simp add: raxStackPop_def)
  have q: "vpath t q" "node_at t q = Inr (sub t q)" using snoc(2) node_at_sub by (auto simp: vpath_append)
  have eq: "go_up t (q @ [j]) ts = (if stops (sub t q) then Inr (q @ [j], ?ts) else go_up t q ?ts)"
    using pop q(2) by (simp add: go_up.simps [of t "q @ [j]"])
  show ?case using eq snoc q by (cases "stops (sub t q)") auto
qed

lemma recompress_ok:
  assumes "rwf t" "vpath t q" "\<not> stops (sub t q)" "st_items ts = ancestors q" "rdepth t \<le> RAX_NODE_MAX_SIZE"
  shows "\<exists>t' nn' k'. recompress mal k t q ts (nnodes t) = Inr (t', nn', k') \<and> rwf t' \<and> rlookup t' = rlookup t \<and>
    nkeys t' = nkeys t \<and> nn' = nnodes t' \<and> rdepth t' \<le> rdepth t"
proof -
  obtain p ts' where p: "go_up t q ts = Inr (p, ts')" "vpath t p" "\<not> stops (sub t p)" using go_up_ok [OF assms(2,3,4)] by blast
  let ?n = "sub t p"
  note n = node_at_sub [OF p(2)] rwf_sub [OF assms(1) p(2)]
  obtain d e f where c: "copy_chain ?n = Inr (d, e, f)" "below ?n d e" "rwf e" "length (rdata ?n) \<le> length d" "0 < f" "f \<le> length d"
    "nnodes ?n = nnodes e + f" "nkeys ?n = nkeys e" "rdepth ?n = length d + rdepth e"
    "\<And>cs nd. cs + length d - length (rdata ?n) \<le> RAX_NODE_MAX_SIZE \<Longrightarrow>
        scan_chain ?n cs nd = Inr (cs + length d - length (rdata ?n), nd + f - 1)"
    using copy_chain_ok [OF n(2) p(3)] by blast
  have len: "length d \<le> RAX_NODE_MAX_SIZE" using rdepth_sub [OF p(2)] c(9) assms(5) by simp
  have scan: "scan_chain ?n (length (rdata ?n)) 1 = Inr (length d, f)" using c(10) [of "length (rdata ?n)" 1] len c(4) by simp
  let ?m = "RNode False False True d None [e]"
  have eq: "recompress mal k t q ts (nnodes t) =
      (if f \<le> 1 then Inr (t, nnodes t, k) else if \<not> mal k then Inr (t, nnodes t, k + 1)
       else Inr (put_node t p ?m, (dec64 ^^ f) (nnodes t + 1), k + 1))"
    using p(1) n(1) scan c(1) by (simp add: recompress_def)
  show ?thesis
  proof (cases "f \<le> 1 \<or> \<not> mal k")
    case True
    then show ?thesis using eq assms(1) by auto
  next
    case False
    then have lm: "link ?m d e" using len c(6) by (auto simp: link_def)
    have m: "rwf ?m" using link_wf [OF lm] c(3) by simp
    have "\<not> rkey ?n" using p(3) by (simp add: stops_def)
    then have "rlookup ?m = rlookup ?n" using below_same [OF below_link [OF lm c(3)] c(2)] by simp
    then have "rlookup (put_node t p ?m) = rlookup t" by (rule put_node_same [OF assms(1) p(2) m])
    moreover have "nkeys (put_node t p ?m) = nkeys t" "nnodes t + 1 = nnodes (put_node t p ?m) + f"
      using put_node_nkeys [OF p(2), of ?m] put_node_nnodes [OF p(2), of ?m] c(7,8) link_count [OF lm] by simp_all
    moreover have "rdepth (put_node t p ?m) = rdepth t" using put_node_depth [OF p(2), of ?m] link_depth [OF lm] c(9) by simp
    ultimately show ?thesis using eq False put_node_wf [OF assms(1) p(2) m] dec64_times [of f] by simp
  qed
qed

section \<open>Removal\<close>

lemma length_label: "rwf n \<Longrightarrow> vpath n p \<Longrightarrow> length p \<le> length (label n p)"
proof (induction n p rule: vpath.induct)
  case (2 n j p)
  then show ?case using rlookup_edge(2) [of n j] rwf_kid [of n j] by (cases "edge n j") auto
qed simp

text \<open>The node of the key without its key flag.\<close>

definition unkey :: "'v rnode \<Rightarrow> 'v rnode" where
  "unkey h = RNode False (rnull h) (rcompr h) (rdata h) (rval h) (rkids h)"

lemma unkey_sel [simp]:
  "\<not> rkey (unkey h)" "rcompr (unkey h) = rcompr h" "rdata (unkey h) = rdata h" "rkids (unkey h) = rkids h"
  by (simp_all add: unkey_def)

lemma unkey_facts:
  "rwf (unkey h) = rwf h" "rlookup (unkey h) = (rlookup h)([] := None)" "rkey h \<Longrightarrow> Suc (nkeys (unkey h)) = nkeys h"
  "nnodes (unkey h) = nnodes h" "rdepth (unkey h) = rdepth h"
proof -
  show "rwf (unkey h) = rwf h" by (rule rwf_cong) simp_all
  show "rlookup (unkey h) = (rlookup h)([] := None)"
  proof
    fix s show "rlookup (unkey h) s = ((rlookup h)([] := None)) s"
      by (cases "s = []") (auto simp: rlookup_Nil rlookup_cong [of "unkey h" h])
  qed
  show "rdepth (unkey h) = rdepth h" by (cases h) (simp add: unkey_def)
qed (simp_all add: nkeys_node [of h] nnodes_node [of h] nkeys_node [of "unkey h"] nnodes_node [of "unkey h"])

text \<open>What the cleanup of the branch of a leaf leaves: the same map, one node less for each node freed.\<close>

definition cleaned :: "'v rnode \<Rightarrow> 'v rnode \<Rightarrow> nat list \<Rightarrow> bool" where
  "cleaned t t' q \<longleftrightarrow> rwf t' \<and> rlookup t' = rlookup t \<and> nkeys t' = nkeys t \<and> rdepth t' \<le> rdepth t \<and> vpath t' q"

lemma unlink_ok:
  assumes "rwf t" "vpath t p" "p \<noteq> []" "st_items ts = ancestors p" "\<not> rkey (sub t p)" "rdata (sub t p) = []"
  shows "\<exists>q c ts' t' k'. cleanup t p None ts (nnodes t) = Inr (q, Some c, ts', nnodes t') \<and>
    unlink_child k t q c ts' = Inr (t', k') \<and> st_items ts' = ancestors q \<and> st_oom ts' = st_oom ts \<and>
    cleaned t t' q \<and> \<not> rcompr (sub t' q)"
proof -
  obtain q j u ts' where c: "p = q @ j # u" "cleanup t p None ts (nnodes t) = Inr (q, Some (q @ [j]), ts', (dec64 ^^ Suc (length u)) (nnodes t))"
    "st_items ts' = ancestors q" "st_oom ts' = st_oom ts" "\<forall>i < length u. \<not> stops (sub t (q @ j # take i u))"
    using cleanup_ok [OF assms(2,3,4)] by blast
  let ?n = "sub t q"
  have q: "vpath t q" "j < length (rkids ?n)" "vpath (rkids ?n ! j) u" using assms(2) c(1) by (auto simp: vpath_append)
  have n: "rwf ?n" "rwf (rkids ?n ! j)" using rwf_sub [OF assms(1) q(1)] rwf_kid q(2) by auto
  have "\<not> stops (sub (rkids ?n ! j) (take i u))" if "i < length u" for i using c(5) that by (auto simp: sub_append)
  then have dead: "rlookup (rkids ?n ! j) = Map.empty" "nkeys (rkids ?n ! j) = 0" "nnodes (rkids ?n ! j) = Suc (length u)"
    using dead_chain [OF n(2) q(3)] assms(5,6) c(1) by (auto simp: sub_append)
  let ?m = "remove_child ?n j" and ?t = "put_node t q (remove_child (sub t q) j)"
  note m = remove_child_ok [OF n(1) q(2) dead(1)]
  have j: "rcompr ?n \<Longrightarrow> j = 0" using rwfD(1) [OF n(1)] q(2) by simp
  have link: "parent_link q ts' = Inr ()"
    using c(3) by (cases q rule: rev_cases) (simp_all add: parent_link_def raxStackPeek_def index_in_def)
  have "unlink_child k t q (q @ [j]) ts' = Inr (?t, if rcompr ?n then k else k + 1)"
    using node_at_sub [OF q(1)] j link by (auto simp: unlink_child_def index_in_def)
  moreover have "rlookup ?t = rlookup t" using put_node_same [OF assms(1) q(1) m(1,2)] .
  moreover have "nkeys ?t = nkeys t" using put_node_nkeys [OF q(1), of ?m] m(4) dead(2) by simp
  moreover have "nnodes ?t + Suc (length u) = nnodes t" using put_node_nnodes [OF q(1), of ?m] m(5) dead(3) by simp
  then have "(dec64 ^^ Suc (length u)) (nnodes t) = nnodes ?t" using dec64_times by metis
  moreover have "rdepth ?t \<le> rdepth t" using rdepth_put [OF q(1), of ?m] rdepth_sub [OF q(1)] m(3) by simp
  ultimately show ?thesis using c put_node_wf [OF assms(1) q(1) m(1)] put_node_path [OF q(1), of ?m] m(6)
    by (auto simp: cleaned_def)
qed

text \<open>The tree after a removal: \<open>numele\<close> is decremented, the other fields are those of a tree without the key.\<close>

definition removed :: "'v rax \<Rightarrow> byte list \<Rightarrow> bool \<Rightarrow> 'v option option \<Rightarrow> 'v rax \<Rightarrow> bool" where
  "removed t s r old t' \<longleftrightarrow>
     rwf (head t') \<and> numnodes t' = nnodes (head t') \<and> rdepth (head t') \<le> rdepth (head t) \<and>
     r = (rlookup (head t) s \<noteq> None) \<and> old = rlookup (head t) s \<and> rlookup (head t') = (rlookup (head t))(s := None) \<and>
     (if r then Suc (nkeys (head t')) = nkeys (head t) \<and> numele t' = dec64 (numele t) else t' = t)"

text \<open>The end of \<open>raxRemove\<close>: recompression if it is asked for and the stack is complete.\<close>

lemma finish_remove:
  assumes "rwf t" "vpath t q" "\<not> st_oom ts" "st_items ts = ancestors q" "rdepth t \<le> RAX_NODE_MAX_SIZE"
    "tc \<longrightarrow> length (rdata (sub t q)) = 1 \<and> \<not> rkey (sub t q)"
  shows "\<exists>t' k'. (if tc \<and> \<not> st_oom ts
      then bindE (recompress mal k t q ts (nnodes t)) (\<lambda>(r, nn, k). Inr (True, Some old, \<lparr>head = r, numele = ne, numnodes = nn\<rparr>, k))
      else Inr (True, Some old, \<lparr>head = t, numele = ne, numnodes = nnodes t\<rparr>, k)) =
    Inr (True, Some old, \<lparr>head = t', numele = ne, numnodes = nnodes t'\<rparr>, k') \<and>
    rwf t' \<and> rlookup t' = rlookup t \<and> nkeys t' = nkeys t \<and> rdepth t' \<le> rdepth t"
proof (cases tc)
  case True
  then have "\<not> stops (sub t q)" using assms(6) by (simp add: stops_def)
  then obtain t' nn' k' where "recompress mal k t q ts (nnodes t) = Inr (t', nn', k')" "rwf t'" "rlookup t' = rlookup t"
    "nkeys t' = nkeys t" "nn' = nnodes t'" "rdepth t' \<le> rdepth t"
    using recompress_ok [OF assms(1,2) _ assms(4,5), of mal k] by blast
  then show ?thesis using True assms(3) by auto
qed (use assms(1) in auto)

text \<open>The key flag of the node at \<open>p\<close> is cleared; what is left to do.\<close>

lemma remove_node_ok:
  assumes "rwf r" "vpath r p" "\<not> rkey (sub r p)" "\<not> st_oom ts" "st_items ts = ancestors p" "rdepth r \<le> RAX_NODE_MAX_SIZE"
  shows "\<exists>t' k'. bindE (if rdata (sub r p) = []
               then bindE (cleanup r p None ts (nnodes r)) (\<lambda>(q, child, ts, nn).
                    case child of None \<Rightarrow> Inr (r, q, ts, nn, False, k)
                    | Some c \<Rightarrow> bindE (unlink_child k r q c ts) (\<lambda>(r, k).
                        bindE (node_at r q) (\<lambda>n. Inr (r, q, ts, nn, length (rdata n) = 1 \<and> \<not> rkey n, k))))
               else Inr (r, p, ts, nnodes r, length (rdata (sub r p)) = 1, k)) (\<lambda>(r, q, ts, nn, trycompress, k).
          if trycompress \<and> \<not> st_oom ts
          then bindE (recompress mal k r q ts nn) (\<lambda>(r, nn, k). Inr (True, Some old, \<lparr>head = r, numele = ne, numnodes = nn\<rparr>, k))
          else Inr (True, Some old, \<lparr>head = r, numele = ne, numnodes = nn\<rparr>, k)) =
      Inr (True, Some old, \<lparr>head = t', numele = ne, numnodes = nnodes t'\<rparr>, k') \<and>
      rwf t' \<and> rlookup t' = rlookup r \<and> nkeys t' = nkeys r \<and> rdepth t' \<le> rdepth r"
proof -
  consider "rdata (sub r p) \<noteq> []" | "rdata (sub r p) = []" "p = []" | "rdata (sub r p) = []" "p \<noteq> []" by blast
  then show ?thesis
  proof cases
    case 1
    have d: "length (rdata (sub r p)) = 1 \<longrightarrow> length (rdata (sub r p)) = 1 \<and> \<not> rkey (sub r p)" using assms(3) by simp
    show ?thesis unfolding if_not_P [OF 1] bindE_Inr prod.case by (rule finish_remove [OF assms(1,2,4,5,6) d])
  next
    case 2
    then have "cleanup r p None ts (nnodes r) = Inr (p, None, ts, nnodes r)" by (simp add: cleanup.simps [of _ "[]"])
    then show ?thesis unfolding if_P [OF 2(1)] using assms(1) by simp
  next
    case 3
    obtain q c ts' t' k2 where u: "cleanup r p None ts (nnodes r) = Inr (q, Some c, ts', nnodes t')"
      "unlink_child k r q c ts' = Inr (t', k2)" "st_items ts' = ancestors q" "st_oom ts' = st_oom ts" "cleaned r t' q"
      using unlink_ok [OF assms(1,2) 3(2) assms(5,3) 3(1), of k] by blast
    have t': "rwf t'" "rlookup t' = rlookup r" "nkeys t' = nkeys r" "rdepth t' \<le> rdepth r" "vpath t' q"
      using u(5) by (auto simp: cleaned_def)
    have "\<not> st_oom ts'" "rdepth t' \<le> RAX_NODE_MAX_SIZE" using u(4) assms(4,6) t'(4) by simp_all
    note f = finish_remove [OF t'(1,5) this(1) u(3) this(2), of "length (rdata (sub t' q)) = 1 \<and> \<not> rkey (sub t' q)" mal k2 old ne]
    show ?thesis unfolding if_P [OF 3(1)] u(1) bindE_Inr prod.case option.case u(2) node_at_sub [OF t'(5)]
      using f t'(2-4) by fastforce
  qed
qed

lemma raxRemove_hit:
  assumes "rwf (head t)" "numnodes t = nnodes (head t)" "rdepth (head t) \<le> RAX_NODE_MAX_SIZE"
    "walk (head t) s = Inr (i, p, h, j)" "stopped (head t) s i p h j []" "rkey h"
    "push_path mal k raxStackInit [] p = (ts, k1)" "\<not> st_oom ts" "st_items ts = ancestors p"
  shows "\<exists>t' k'. raxRemove mal k t s = Inr (True, Some (get_data h), t', k') \<and> removed t s True (Some (get_data h)) t'"
proof -
  note look = stopped_lookup [OF assms(1,5)]
  have p: "vpath (head t) p" "h = sub (head t) p" "s = label (head t) p" using assms(5) by (auto simp: stopped_def)
  have hit: "\<not> (i \<noteq> length s \<or> (rcompr h \<and> j \<noteq> 0) \<or> \<not> rkey h)" using look(2) assms(6) by auto
  let ?r = "put_node (head t) p (unkey h)"
  have wh: "rwf (unkey h)" using look(3) unkey_facts(1) [of h] by simp
  have r: "rwf ?r" "rlookup ?r = (rlookup (head t))(s := None)" "Suc (nkeys ?r) = nkeys (head t)" "nnodes ?r = numnodes t"
    "rdepth ?r = rdepth (head t)" "vpath ?r p" "sub ?r p = unkey h"
    using put_node_wf [OF assms(1) p(1) wh] put_node_upd [OF assms(1) p(1) wh, of "[]" None] put_node_nkeys [OF p(1), of "unkey h"]
      put_node_nnodes [OF p(1), of "unkey h"] put_node_depth [OF p(1), of "unkey h"] put_node_path [OF p(1), of "unkey h"]
      unkey_facts [of h] p(2,3) assms(2,6) by auto
  have body: "\<not> rkey (sub ?r p)" "rdepth ?r \<le> RAX_NODE_MAX_SIZE" using r(5,7) assms(3) by simp_all
  obtain t' k' where "raxRemove mal k t s = Inr (True, Some (get_data h), \<lparr>head = t', numele = dec64 (numele t), numnodes = nnodes t'\<rparr>, k')"
    "rwf t'" "rlookup t' = rlookup ?r" "nkeys t' = nkeys ?r" "rdepth t' \<le> rdepth ?r"
    using remove_node_ok [OF r(1,6) body(1) assms(8,9) body(2), of k1 mal "get_data h" "dec64 (numele t)"]
    unfolding raxRemove_def assms(4,7) bindE_Inr prod.case Let_def if_not_P [OF hit] r(4,7) unkey_sel unkey_def [symmetric] by blast
  then show ?thesis using r look(1) assms(6) by (auto simp: removed_def)
qed

lemma raxRemove_ok:
  assumes "rwf (head t)" "numnodes t = nnodes (head t)" "rdepth (head t) \<le> RAX_NODE_MAX_SIZE"
    "(\<forall>k. mal k) \<or> length s \<le> RAX_STACK_STATIC_ITEMS"
  shows "\<exists>r old t' k'. raxRemove mal k t s = Inr (r, old, t', k') \<and> removed t s r old t'"
proof -
  obtain i p h j r where w: "walk (head t) s = Inr (i, p, h, j)" and st: "stopped (head t) s i p h j r"
    using walk_stopped [OF assms(1)] by blast
  note look = stopped_lookup [OF assms(1) st]
  have p: "vpath (head t) p" "s = label (head t) p @ r" using st by (auto simp: stopped_def)
  obtain ts k1 where push: "push_path mal k raxStackInit [] p = (ts, k1)" by (cases "push_path mal k raxStackInit [] p") auto
  have "(\<forall>k. mal k) \<or> length p \<le> RAX_STACK_STATIC_ITEMS" using assms(4) length_label [OF assms(1) p(1)] p(2) by auto
  note ts = push_path_complete [OF push this]
  show ?thesis
  proof (cases "r = [] \<and> rkey h")
    case True
    then show ?thesis using raxRemove_hit [OF assms(1-3) w _ _ push ts] st by blast
  next
    case False
    then have miss: "i \<noteq> length s \<or> (rcompr h \<and> j \<noteq> 0) \<or> \<not> rkey h" using look(2) by auto
    have none: "rlookup (head t) s = None" using look(1) False by auto
    have "raxRemove mal k t s = Inr (False, None, t, k1)" using w push miss by (simp add: raxRemove_def)
    moreover have "removed t s False None t" using none assms(1,2) fun_upd_triv [of "rlookup (head t)" s] by (simp add: removed_def)
    ultimately show ?thesis by blast
  qed
qed

end
