(* ===== verification/Rax_Order.thy ===== *)
theory Rax_Order
  imports Rax_Map "HOL-Library.List_Lexorder"
begin

text \<open>
  The elements of a radix tree in lexicographic order. \<open>inorder\<close> lists them; it is sorted and agrees with \<open>rlookup\<close>, so the
  number of elements is the size of the map.
\<close>

definition edges :: "'v rnode \<Rightarrow> byte list list" where
  "edges n = (if rcompr n then [rdata n] else map (\<lambda>c. [c]) (rdata n))"

definition under :: "byte list \<Rightarrow> (byte list \<times> 'a) list \<Rightarrow> (byte list \<times> 'a) list" where
  "under e xs = map (\<lambda>(s, v). (e @ s, v)) xs"

fun inorder :: "'v rnode \<Rightarrow> (byte list \<times> 'v option) list" where
  "inorder (RNode key null compr ds v ks) =
     (if key then [([], if null then None else v)] else []) @
     concat (map (\<lambda>(e, xs). under e xs) (zip (if compr then [ds] else map (\<lambda>c. [c]) ds) (map inorder ks)))"

text \<open>The elements of a node itself, and of its children from the \<open>i\<close>-th on.\<close>

definition own :: "'v rnode \<Rightarrow> (byte list \<times> 'v option) list" where
  "own n = (if rkey n then [([], get_data n)] else [])"

definition kids_from :: "'v rnode \<Rightarrow> nat \<Rightarrow> (byte list \<times> 'v option) list" where
  "kids_from n i = concat (map (\<lambda>j. under (edge n j) (inorder (rkids n ! j))) [i..<length (rkids n)])"

lemma under_simps [simp]:
  "under e [] = []" "under e (xs @ ys) = under e xs @ under e ys" "under [] xs = xs" "under d (under e xs) = under (d @ e) xs"
  "length (under e xs) = length xs" "map fst (under e xs) = map (\<lambda>s. e @ s) (map fst xs)"
  by (auto simp: under_def)

lemma length_edges: "rwf n \<Longrightarrow> length (edges n) = length (rkids n)"
  using rwfD(1,2) [of n] by (auto simp: edges_def)

lemma nth_edges: "rwf n \<Longrightarrow> j < length (rkids n) \<Longrightarrow> edges n ! j = edge n j"
  using rwfD(1,2) [of n] by (auto simp: edges_def edge_def)

lemma inorder_node:
  assumes "rwf n"
  shows "inorder n = own n @ kids_from n 0"
proof -
  have "zip (edges n) (map inorder (rkids n)) = map (\<lambda>j. (edge n j, inorder (rkids n ! j))) [0..<length (rkids n)]"
    using length_edges [OF assms] nth_edges [OF assms] by (intro nth_equalityI) auto
  then have "concat (map (\<lambda>(e, xs). under e xs) (zip (edges n) (map inorder (rkids n)))) = kids_from n 0"
    by (simp add: kids_from_def comp_def)
  then show ?thesis by (cases n) (auto simp: own_def edges_def get_data_def)
qed

lemma kids_from_end [simp]: "length (rkids n) \<le> i \<Longrightarrow> kids_from n i = []"
  by (simp add: kids_from_def)

lemma kids_from_step: "i < length (rkids n) \<Longrightarrow> kids_from n i = under (edge n i) (inorder (rkids n ! i)) @ kids_from n (Suc i)"
  by (simp add: kids_from_def upt_rec [of i])

lemma in_kids_from:
  "(s, v) \<in> set (kids_from n i) \<longleftrightarrow>
   (\<exists>j r. i \<le> j \<and> j < length (rkids n) \<and> s = edge n j @ r \<and> (r, v) \<in> set (inorder (rkids n ! j)))"
  by (auto simp: kids_from_def under_def)

text \<open>Edges of a node are not empty and ascend.\<close>

lemma edge_less:
  assumes "rwf n" "i < j" "j < length (rkids n)"
  shows "\<exists>a b. edge n i = [a] \<and> edge n j = [b] \<and> a < b"
proof -
  have "\<not> rcompr n" using rwfD(1) [OF assms(1)] assms(2,3) by auto
  then show ?thesis using rwfD(2) [OF assms(1)] assms(2,3) by (auto simp: edge_def sorted_wrt_iff_nth_less)
qed

lemma Nil_less: "[] < (s :: byte list) \<longleftrightarrow> s \<noteq> []"
  by (cases s) auto

lemma append_less: "e @ x < e @ y \<longleftrightarrow> x < (y :: byte list)"
  by (induction e) auto

lemma sorted_under: "sorted_wrt (<) (map fst xs) \<Longrightarrow> sorted_wrt (<) (map fst (under e xs))"
  by (auto simp: sorted_wrt_map append_less under_def case_prod_unfold elim: sorted_wrt_mono_rel [rotated])

lemma kids_sorted:
  assumes "rwf n" "\<And>j. j < length (rkids n) \<Longrightarrow> sorted_wrt (<) (map fst (inorder (rkids n ! j)))"
  shows "sorted_wrt (<) (map fst (kids_from n i))"
proof (induction "length (rkids n) - i" arbitrary: i)
  case (Suc m)
  then have i: "i < length (rkids n)" by simp
  have "x < y" if "(x, v) \<in> set (under (edge n i) (inorder (rkids n ! i)))" "(y, w) \<in> set (kids_from n (Suc i))" for x y v w
  proof -
    note mem = that
    obtain j r where j: "Suc i \<le> j" "j < length (rkids n)" "y = edge n j @ r" using mem(2) by (auto simp: in_kids_from)
    obtain q where q: "x = edge n i @ q" using mem(1) by (auto simp: under_def)
    show ?thesis using edge_less [OF assms(1), of i j] j q by auto
  qed
  moreover have "sorted_wrt (<) (map fst (kids_from n (Suc i)))" using Suc by simp
  ultimately show ?case using sorted_under [OF assms(2) [OF i], of "edge n i"]
    by (force simp: kids_from_step [OF i] sorted_wrt_append simp del: under_simps(6))
qed simp

lemma edge_nonempty: "rwf n \<Longrightarrow> j < length (rkids n) \<Longrightarrow> edge n j \<noteq> []"
  by (rule rlookup_edge(2))

lemma inorder_sorted: "rwf n \<Longrightarrow> sorted_wrt (<) (map fst (inorder n))"
proof (induction n rule: measure_induct_rule [of size])
  case (less n)
  have "sorted_wrt (<) (map fst (inorder (rkids n ! j)))" if "j < length (rkids n)" for j
    using less(1) [OF rnode_kid_size [OF nth_mem [OF that]]] rwf_kid [OF less(2) that] by simp
  note kids = kids_sorted [OF less(2) this, of 0]
  have "[] < s" if "(s, v) \<in> set (kids_from n 0)" for s v
    using that edge_nonempty [OF less(2)] by (auto simp: in_kids_from Nil_less)
  then show ?case using kids by (auto simp: inorder_node [OF less(2)] own_def)
qed

lemma inorder_mem: "rwf n \<Longrightarrow> (s, v) \<in> set (inorder n) \<longleftrightarrow> rlookup n s = Some v"
proof (induction n arbitrary: s rule: measure_induct_rule [of size])
  case (less n)
  have ih: "(r, v) \<in> set (inorder (rkids n ! j)) \<longleftrightarrow> rlookup (rkids n ! j) r = Some v" if "j < length (rkids n)" for j r
    using less(1) [OF rnode_kid_size [OF nth_mem [OF that]]] rwf_kid [OF less(2) that] by simp
  show ?case
  proof (cases "s = []")
    case True
    then show ?thesis using edge_nonempty [OF less(2)]
      by (auto simp: inorder_node [OF less(2)] own_def rlookup_Nil in_kids_from)
  next
    case False
    have "rlookup n s = Some v \<longleftrightarrow> (\<exists>j r. j < length (rkids n) \<and> s = edge n j @ r \<and> rlookup (rkids n ! j) r = Some v)"
    proof
      assume l: "rlookup n s = Some v"
      show "\<exists>j r. j < length (rkids n) \<and> s = edge n j @ r \<and> rlookup (rkids n ! j) r = Some v"
      proof (cases "rcompr n")
        case True
        obtain c where c: "rkids n = [c]" using rwf_compr [OF less(2) True] by blast
        then show ?thesis using l False True by (auto simp: rlookup_compr edge_def prefix_def split: if_splits)
      next
        case br: False
        obtain a r where s: "s = a # r" using False by (cases s) auto
        note w = rwfD(2) [OF less(2) br]
        have a: "a \<in> set (rdata n)" "rlookup (rkids n ! child_index a (rdata n)) r = Some v"
          using l s br w by (auto simp: rlookup_branch split: if_splits)
        then show ?thesis using s br w child_index_found [of a "rdata n"] child_index_nth [OF a(1)]
          by (intro exI [of _ "child_index a (rdata n)"] exI [of _ r]) (simp add: edge_def)
      qed
    qed (auto simp: rlookup_edge [OF less(2)])
    then show ?thesis using ih False by (auto simp: inorder_node [OF less(2)] own_def in_kids_from)
  qed
qed

lemma inorder_distinct: "rwf n \<Longrightarrow> distinct (map fst (inorder n))"
  using inorder_sorted [of n] strict_sorted_iff by blast

lemma map_of_inorder: "rwf n \<Longrightarrow> map_of (inorder n) = rlookup n"
proof
  fix s assume n: "rwf n"
  show "map_of (inorder n) s = rlookup n s"
  proof (cases "rlookup n s")
    case None
    then show ?thesis using inorder_mem [OF n, of s] by (auto simp: map_of_eq_None_iff)
  next
    case (Some v)
    then show ?thesis using inorder_mem [OF n, of s v] inorder_distinct [OF n] by simp
  qed
qed

lemma kids_from_length:
  "length (kids_from n i) = sum_list (map (\<lambda>j. length (inorder (rkids n ! j))) [i..<length (rkids n)])"
  by (simp add: kids_from_def length_concat comp_def)

lemma length_inorder: "rwf n \<Longrightarrow> length (inorder n) = nkeys n"
proof (induction n rule: measure_induct_rule [of size])
  case (less n)
  have "length (inorder (rkids n ! j)) = nkeys (rkids n ! j)" if "j < length (rkids n)" for j
    using less(1) [OF rnode_kid_size [OF nth_mem [OF that]]] rwf_kid [OF less(2) that] by simp
  then have "map (\<lambda>j. length (inorder (rkids n ! j))) [0..<length (rkids n)] = map nkeys (rkids n)"
    by (intro nth_equalityI) auto
  then show ?case by (simp add: inorder_node [OF less(2)] own_def kids_from_length nkeys_node [of n])
qed

lemma nkeys_card: "rwf n \<Longrightarrow> nkeys n = card (dom (rlookup n))" "rwf n \<Longrightarrow> finite (dom (rlookup n))"
  using inorder_distinct [of n] map_of_inorder [of n] length_inorder [of n] distinct_card [of "map fst (inorder n)"]
  by (auto simp: dom_map_of_conv_image_fst simp flip: map_of_inorder)

end
