(* ===== verification/Rax_Traverse.thy ===== *)
theory Rax_Traverse
  imports Rax_Iter Rax_Remove Rax_Order
begin

text \<open>
  Forward iteration: the keys that \<open>raxSeek\<close> and \<open>raxNext\<close> visit are those of \<open>inorder\<close>, in this order. The elements of the
  tree that come after a node are those below it and those after its subtree.
\<close>

section \<open>The elements before and after a node\<close>

fun up :: "'v rnode \<Rightarrow> nat list \<Rightarrow> (byte list \<times> 'v option) list" where
  "up n [] = []"
| "up n (j # p) = under (edge n j) (up (rkids n ! j) p) @ kids_from n (Suc j)"

definition after :: "'v rnode \<Rightarrow> nat list \<Rightarrow> (byte list \<times> 'v option) list" where
  "after n p = under (label n p) (kids_from (sub n p) 0) @ up n p"

definition kids_upto :: "'v rnode \<Rightarrow> nat \<Rightarrow> (byte list \<times> 'v option) list" where
  "kids_upto n i = concat (map (\<lambda>j. under (edge n j) (inorder (rkids n ! j))) [0..<i])"

fun before :: "'v rnode \<Rightarrow> nat list \<Rightarrow> (byte list \<times> 'v option) list" where
  "before n [] = []"
| "before n (j # p) = own n @ kids_upto n j @ under (edge n j) (before (rkids n ! j) p)"

lemma up_snoc: "up n (p @ [j]) = under (label n p) (kids_from (sub n p) (Suc j)) @ up n p"
  by (induction n p rule: label.induct) auto

lemma kids_split: "j < length (rkids n) \<Longrightarrow> kids_from n 0 = kids_upto n j @ under (edge n j) (inorder (rkids n ! j)) @ kids_from n (Suc j)"
proof -
  assume j: "j < length (rkids n)"
  have "[0..<length (rkids n)] = [0..<j] @ [j..<length (rkids n)]" using j upt_add_eq_append [of 0 j "length (rkids n) - j"] by simp
  then show ?thesis using kids_from_step [OF j] by (simp add: kids_from_def kids_upto_def)
qed

lemma inorder_at: "rwf n \<Longrightarrow> vpath n p \<Longrightarrow> inorder n = before n p @ under (label n p) (inorder (sub n p)) @ up n p"
proof (induction n p rule: vpath.induct)
  case (2 n j p)
  then have j: "j < length (rkids n)" by simp
  show ?case using 2 by (simp add: inorder_node [OF 2(2)] kids_split [OF j] rwf_kid)
qed simp

lemma in_under: "(k, v) \<in> set (under e xs) \<longleftrightarrow> (\<exists>s. k = e @ s \<and> (s, v) \<in> set xs)"
  by (auto simp: under_def)

lemma edge_apart:
  assumes "rwf n" "i < j" "j < length (rkids n)"
  shows "edge n i @ x < edge n j @ y"
  using edge_less [OF assms] by auto

lemma up_greater: "rwf n \<Longrightarrow> vpath n p \<Longrightarrow> (k, v) \<in> set (up n p) \<Longrightarrow> label n p @ x < k"
proof (induction n p arbitrary: k rule: vpath.induct)
  case (2 n j p)
  from 2(4) consider s where "k = edge n j @ s" "(s, v) \<in> set (up (rkids n ! j) p)" | "(k, v) \<in> set (kids_from n (Suc j))"
    by (auto simp: in_under)
  then show ?case
  proof cases
    case 1
    then show ?thesis using 2(1) [OF rwf_kid [OF 2(2)]] 2(3) by (simp add: append_less)
  next
    case 2
    then show ?thesis using edge_apart [OF \<open>rwf n\<close>, of j] by (auto simp: in_kids_from Suc_le_eq)
  qed
qed simp

lemma before_less: "rwf n \<Longrightarrow> vpath n p \<Longrightarrow> (k, v) \<in> set (before n p) \<Longrightarrow> k < label n p @ x"
proof (induction n p arbitrary: k rule: vpath.induct)
  case (2 n j p)
  have j: "j < length (rkids n)" using 2(3) by simp
  from 2(4) consider "k = []" | i s where "i < j" "k = edge n i @ s" | s where "k = edge n j @ s" "(s, v) \<in> set (before (rkids n ! j) p)"
    by (auto simp: own_def in_under kids_upto_def split: if_splits)
  then show ?case
  proof cases
    case 1
    then show ?thesis using edge_nonempty [OF 2(2) j] by (simp add: Nil_less)
  next
    case (2 i s)
    then show ?thesis using edge_apart [OF \<open>rwf n\<close> _ j] by simp
  next
    case 3
    then show ?thesis using 2(1) [OF rwf_kid [OF 2(2)]] 2(3) by (simp add: append_less)
  qed
qed simp

lemma append_le: "e @ x \<le> e @ y \<longleftrightarrow> x \<le> (y :: byte list)"
  using append_less [of e y x] by (simp add: not_less [symmetric])

text \<open>The elements from a string on, that goes through a node.\<close>

lemma inorder_from:
  assumes "rwf n" "vpath n p"
  shows "filter (\<lambda>(k, v). label n p @ r \<le> k) (inorder n) = under (label n p) (filter (\<lambda>(k, v). r \<le> k) (inorder (sub n p))) @ up n p"
    "filter (\<lambda>(k, v). label n p @ r < k) (inorder n) = under (label n p) (filter (\<lambda>(k, v). r < k) (inorder (sub n p))) @ up n p"
proof -
  have b: "filter (\<lambda>(k, v). label n p @ r \<le> k) (before n p) = []" "filter (\<lambda>(k, v). label n p @ r < k) (before n p) = []"
    using before_less [OF assms, of _ _ r] by (force simp: filter_empty_conv dest: less_imp_not_less)+
  have u: "filter (\<lambda>(k, v). label n p @ r \<le> k) (up n p) = up n p" "filter (\<lambda>(k, v). label n p @ r < k) (up n p) = up n p"
    using up_greater [OF assms, of _ _ r] by (force simp: filter_id_conv)+
  have m: "filter (\<lambda>(k, v). label n p @ r \<le> k) (under (label n p) xs) = under (label n p) (filter (\<lambda>(k, v). r \<le> k) xs)"
    "filter (\<lambda>(k, v). label n p @ r < k) (under (label n p) xs) = under (label n p) (filter (\<lambda>(k, v). r < k) xs)"
    for xs :: "(byte list \<times> 'a option) list"
    by (induction xs) (auto simp: under_def append_less append_le)
  show "filter (\<lambda>(k, v). label n p @ r \<le> k) (inorder n) = under (label n p) (filter (\<lambda>(k, v). r \<le> k) (inorder (sub n p))) @ up n p"
    "filter (\<lambda>(k, v). label n p @ r < k) (inorder n) = under (label n p) (filter (\<lambda>(k, v). r < k) (inorder (sub n p))) @ up n p"
    using b u m by (simp_all add: inorder_at [OF assms])
qed

lemma first_greater_le: "first_greater c vs \<le> length vs"
  by (induction vs) auto

lemma first_greater_iff: "sorted_wrt (<) vs \<Longrightarrow> j < length vs \<Longrightarrow> c < vs ! j \<longleftrightarrow> first_greater c vs \<le> j"
proof (induction vs arbitrary: j)
  case (Cons v vs)
  show ?case
  proof (cases j)
    case (Suc i)
    then have "v < vs ! i" using Cons(2,3) by simp
    then show ?thesis using Cons Suc less_trans [of c v "vs ! i"] by auto
  qed auto
qed simp

lemma first_greater_next: "sorted_wrt (<) vs \<Longrightarrow> j < length vs \<Longrightarrow> first_greater (vs ! j) vs = Suc j"
proof (induction vs arbitrary: j)
  case (Cons v vs)
  show ?case
  proof (cases j)
    case 0
    then show ?thesis using Cons(2) by (cases vs) auto
  next
    case (Suc i)
    then have "v < vs ! i" using Cons(2,3) by simp
    then show ?thesis using Cons Suc less_asym [of v "vs ! i"] by auto
  qed
qed simp

text \<open>Below the node where a walk stops, the elements from the rest of the string on are those of some last children.\<close>

lemma from_branch:
  assumes "rwf h" "\<not> rcompr h" "r \<noteq> []" "hd r \<notin> set (rdata h)"
  shows "filter (\<lambda>(k, v). r \<le> k) (inorder h) = kids_from h (first_greater (hd r) (rdata h))"
    "filter (\<lambda>(k, v). r < k) (inorder h) = kids_from h (first_greater (hd r) (rdata h))"
proof -
  note w = rwfD(2) [OF assms(1,2)]
  let ?i = "first_greater (hd r) (rdata h)"
  obtain a q where r: "r = a # q" using assms(3) by (cases r) auto
  have kid: "[rdata h ! j] @ s > r \<longleftrightarrow> ?i \<le> j" "[rdata h ! j] @ s \<noteq> r" if "j < length (rkids h)" for j s
  proof -
    have "rdata h ! j \<noteq> a" using assms(4) r that w nth_mem [of j "rdata h"] by auto
    then show "[rdata h ! j] @ s > r \<longleftrightarrow> ?i \<le> j" "[rdata h ! j] @ s \<noteq> r"
      using first_greater_iff [of "rdata h" j a] that w r by auto
  qed
  have split: "kids_from h 0 = kids_upto h ?i @ kids_from h ?i"
    using first_greater_le [of "hd r" "rdata h"] w upt_add_eq_append [of 0 ?i "length (rkids h) - ?i"]
    by (simp add: kids_from_def kids_upto_def)
  have le: "r \<le> k \<longleftrightarrow> r < k" if "(k, v) \<in> set (inorder h)" for k v
    using that kid(2) r assms(2) by (auto simp: inorder_node [OF assms(1)] own_def in_kids_from edge_def le_less split: if_splits)
  have "filter (\<lambda>(k, v). r < k) (kids_upto h ?i) = []"
    using kid(1) assms(2) first_greater_le [of "hd r" "rdata h"] w
    by (auto simp: filter_empty_conv kids_upto_def in_under edge_def split: if_splits)
  moreover have "filter (\<lambda>(k, v). r < k) (kids_from h ?i) = kids_from h ?i"
    using kid(1) assms(2) by (auto simp: filter_id_conv in_kids_from edge_def)
  ultimately show "filter (\<lambda>(k, v). r < k) (inorder h) = kids_from h ?i"
    using r by (simp add: inorder_node [OF assms(1)] own_def split)
  then show "filter (\<lambda>(k, v). r \<le> k) (inorder h) = kids_from h ?i"
    using le by (metis (mono_tags, lifting) case_prod_beta filter_cong prod.collapse)
qed

lemma less_at: "j < length x \<Longrightarrow> j < length y \<Longrightarrow> take j x = take j y \<Longrightarrow> x ! j < y ! j \<Longrightarrow> x < (y :: byte list)"
proof (induction j arbitrary: x y)
  case 0
  then show ?case by (cases x; cases y) auto
next
  case (Suc j)
  then show ?case by (cases x; cases y) auto
qed

lemma from_compr:
  assumes "rwf h" "rcompr h" "r \<noteq> []" "j = match_len (rdata h) r" "j < length (rdata h)"
  shows "filter (\<lambda>(k, v). r \<le> k) (inorder h) = (if j = length r \<or> r ! j < rdata h ! j then kids_from h 0 else [])"
    "filter (\<lambda>(k, v). r < k) (inorder h) = (if j = length r \<or> r ! j < rdata h ! j then kids_from h 0 else [])"
proof -
  obtain c where c: "link h (rdata h) c" "rwf c" using rwf_link [OF assms(1,2)] by blast
  have kids: "rkids h = [c]" "edge h 0 = rdata h" using c(1) link_edge by (auto simp: link_def)
  have tk: "take j r = take j (rdata h)" using match_len_take [of "rdata h" r] assms(4) by simp
  have le: "j \<le> length r" using match_len_le(2) assms(4) by simp
  have cmp: "r < rdata h @ s \<longleftrightarrow> j = length r \<or> r ! j < rdata h ! j" "r \<noteq> rdata h @ s" for s
  proof -
    have "r < rdata h @ s \<and> r \<noteq> rdata h @ s" if "j = length r"
    proof -
      have eq: "rdata h @ s = r @ (drop j (rdata h) @ s)"
        using tk that append_take_drop_id [of j "rdata h"] by (metis append_assoc order_refl take_all)
      have "r < r @ (drop j (rdata h) @ s)" using append_less [of r "[]" "drop j (rdata h) @ s"] assms(5) by (simp add: Nil_less)
      then show ?thesis unfolding eq using assms(5) by simp
    qed
    moreover have "(r < rdata h @ s \<longleftrightarrow> r ! j < rdata h ! j) \<and> r \<noteq> rdata h @ s" if "j < length r"
    proof -
      have ne: "r ! j \<noteq> rdata h ! j" using match_len_stop [of "rdata h" r] assms(4,5) that by simp
      have "r ! j < rdata h ! j \<Longrightarrow> r < rdata h @ s" "rdata h ! j < r ! j \<Longrightarrow> rdata h @ s < r"
        using less_at [of j r "rdata h @ s"] less_at [of j "rdata h @ s" r] tk that assms(5) by (auto simp: nth_append)
      then show ?thesis using ne assms(5) that by (metis less_asym neqE nth_append)
    qed
    ultimately show "r < rdata h @ s \<longleftrightarrow> j = length r \<or> r ! j < rdata h ! j" "r \<noteq> rdata h @ s" using le by (auto simp: le_less)
  qed
  have mem: "\<exists>s. k = rdata h @ s" if "(k, v) \<in> set (kids_from h 0)" for k v using that kids by (auto simp: in_kids_from)
  have own: "filter (\<lambda>(k, v). r \<le> k) (own h) = []" "filter (\<lambda>(k, v). r < k) (own h) = []" using assms(3) by (auto simp: own_def)
  have "filter (\<lambda>(k, v). r < k) (kids_from h 0) = (if j = length r \<or> r ! j < rdata h ! j then kids_from h 0 else [])"
    "filter (\<lambda>(k, v). r \<le> k) (kids_from h 0) = (if j = length r \<or> r ! j < rdata h ! j then kids_from h 0 else [])"
    using cmp mem by (fastforce simp: filter_id_conv filter_empty_conv le_less)+
  then show "filter (\<lambda>(k, v). r \<le> k) (inorder h) = (if j = length r \<or> r ! j < rdata h ! j then kids_from h 0 else [])"
    "filter (\<lambda>(k, v). r < k) (inorder h) = (if j = length r \<or> r ! j < rdata h ! j then kids_from h 0 else [])"
    using own by (simp_all add: inorder_node [OF assms(1)])
qed

section \<open>Moving the iterator\<close>

text \<open>The iterator is at the node \<open>p\<close>: its key is the label of the node, its stack holds the ancestors.\<close>

definition spot :: "'v rax \<Rightarrow> 'v raxIterator \<Rightarrow> nat list \<Rightarrow> bool" where
  "spot t it p \<longleftrightarrow> vpath (head t) p \<and> it_node it = Some p \<and> st_items (it_stack it) = ancestors p \<and>
     it_key it = label (head t) p \<and> it_len it \<le> length (it_buf it)"

lemma length_it_key: "it_len it \<le> length (it_buf it) \<Longrightarrow> length (it_key it) = it_len it"
  by (simp add: it_key_def)

lemma add_chars_ok:
  assumes "\<forall>k. mal k" "it_len it \<le> length (it_buf it)"
  shows "\<exists>it' k'. raxIteratorAddChars mal k it s = (True, it', k') \<and> it_key it' = it_key it @ s \<and> it_len it' \<le> length (it_buf it') \<and>
    it_node it' = it_node it \<and> it_stack it' = it_stack it \<and> it_eof it' = it_eof it \<and> it_seeked it' = it_seeked it \<and> it_data it' = it_data it"
  using assms by (auto simp: raxIteratorAddChars_def Let_def it_key_def)

lemma del_chars_ok:
  assumes "it_key it = x @ s" "it_len it \<le> length (it_buf it)"
  shows "\<exists>it'. raxIteratorDelChars it (length s) = Inr it' \<and> it_key it' = x \<and> it_len it' \<le> length (it_buf it') \<and>
    it_node it' = it_node it \<and> it_stack it' = it_stack it \<and> it_eof it' = it_eof it \<and> it_seeked it' = it_seeked it \<and> it_data it' = it_data it"
proof -
  have len: "it_len it = length x + length s" using assms length_it_key [OF assms(2)] by simp
  have "take (length x) (it_buf it) = x" using assms(1) len by (metis append_eq_conv_conj it_key_def le_add1 min_absorb1 take_take)
  then show ?thesis using len assms(2) by (auto simp: raxIteratorDelChars_def it_key_def)
qed

lemma push_ok:
  assumes "\<forall>k. mal k"
  shows "\<exists>ts k'. it_push mal k it p = (True, it\<lparr>it_stack := ts\<rparr>, k') \<and> st_items ts = st_items (it_stack it) @ [p] \<and> st_oom ts = st_oom (it_stack it)"
  using assms by (auto simp: it_push_def raxStackPush_def)

lemma prevchild_ok: "it_key it = x @ [c] \<Longrightarrow> it_len it \<le> length (it_buf it) \<Longrightarrow> prevchild it = Inr c"
proof -
  assume a: "it_key it = x @ [c]" "it_len it \<le> length (it_buf it)"
  then have "it_len it = Suc (length x)" using length_it_key [OF a(2)] by simp
  moreover from this have "it_buf it ! length x = c" using a by (metis it_key_def lessI nth_append_length nth_take)
  ultimately show ?thesis using a(2) by (simp add: prevchild_def rd_ok)
qed

text \<open>Entering a child.\<close>

lemma enter_child_ok:
  assumes "\<forall>k. mal k" "spot t it p" "j < length (rkids (sub (head t) p))"
  shows "\<exists>it1 k1 ts k2. raxIteratorAddChars mal k it (edge (sub (head t) p) j) = (True, it1, k1) \<and>
    it_push mal k1 it1 p = (True, it1\<lparr>it_stack := ts\<rparr>, k2) \<and> it_eof it1 = it_eof it \<and> it_seeked it1 = it_seeked it \<and>
    spot t (enter (p @ [j]) c (it1\<lparr>it_stack := ts\<rparr>)) (p @ [j])"
proof -
  note s = assms(2) [unfolded spot_def]
  obtain it1 k1 where a: "raxIteratorAddChars mal k it (edge (sub (head t) p) j) = (True, it1, k1)" "it_key it1 = it_key it @ edge (sub (head t) p) j"
    "it_len it1 \<le> length (it_buf it1)" "it_stack it1 = it_stack it" "it_eof it1 = it_eof it" "it_seeked it1 = it_seeked it"
    using add_chars_ok [OF assms(1), of it k] s by metis
  obtain ts k2 where p: "it_push mal k1 it1 p = (True, it1\<lparr>it_stack := ts\<rparr>, k2)" "st_items ts = st_items (it_stack it1) @ [p]"
    using push_ok [OF assms(1)] by blast
  have "spot t (enter (p @ [j]) c (it1\<lparr>it_stack := ts\<rparr>)) (p @ [j])"
    using s a p assms(3) by (auto simp: spot_def enter_def it_key_def vpath_append label_append)
  then show ?thesis using a p by blast
qed

lemma enter_sel [simp]:
  "it_eof (enter p n it) = it_eof it" "it_seeked (enter p n it) = it_seeked it" "rkey n \<Longrightarrow> it_data (enter p n it) = get_data n"
  by (simp_all add: enter_def)

text \<open>Nodes visited after the subtree of a node, to show that the loops end.\<close>

fun upn :: "'v rnode \<Rightarrow> nat list \<Rightarrow> nat" where
  "upn n [] = 0"
| "upn n (j # p) = upn (rkids n ! j) p + sum_list (map nnodes (drop (Suc j) (rkids n)))"

lemma upn_snoc: "upn n (p @ [j]) = sum_list (map nnodes (drop (Suc j) (rkids (sub n p)))) + upn n p"
  by (induction n p rule: label.induct) auto

lemma nnodes_pos: "0 < nnodes n"
  by (cases n) simp

text \<open>The position after the child \<open>j\<close> of a node has been entered.\<close>

lemma entered:
  assumes "rwf (head t)" "vpath (head t) p" "j < length (rkids (sub (head t) p))"
  shows "under (label (head t) p) (kids_from (sub (head t) p) j) @ up (head t) p =
      under (label (head t) (p @ [j])) (own (sub (head t) (p @ [j]))) @ after (head t) (p @ [j])"
    "nnodes (sub (head t) (p @ [j])) + upn (head t) (p @ [j]) = sum_list (map nnodes (drop j (rkids (sub (head t) p)))) + upn (head t) p"
proof -
  let ?n = "sub (head t) p"
  have w: "rwf (rkids ?n ! j)" using rwf_sub [OF assms(1,2)] rwf_kid assms(3) by blast
  show "under (label (head t) p) (kids_from ?n j) @ up (head t) p =
      under (label (head t) (p @ [j])) (own (sub (head t) (p @ [j]))) @ after (head t) (p @ [j])"
    using kids_from_step [OF assms(3)] inorder_node [OF w] by (simp add: after_def up_snoc label_append sub_append)
  show "nnodes (sub (head t) (p @ [j])) + upn (head t) (p @ [j]) = sum_list (map nnodes (drop j (rkids ?n))) + upn (head t) p"
    using assms(3) by (simp add: upn_snoc sub_append Cons_nth_drop_Suc [symmetric])
qed

text \<open>The result of going up with the elements \<open>xs\<close> still to come: the end, or the first node below which the next of them is, with
  at most \<open>m\<close> nodes to visit from there on.\<close>

definition landed_up :: "'v rax \<Rightarrow> up_result \<Rightarrow> 'v raxIterator \<Rightarrow> (byte list \<times> 'v option) list \<Rightarrow> nat \<Rightarrow> bool" where
  "landed_up t r it xs m \<longleftrightarrow>
     r = UpEof \<and> xs = [] \<and> it_eof it \<or>
     (\<exists>p. r = (if rkey (sub (head t) p) then UpKey else UpNode) \<and> spot t it p \<and> \<not> it_eof it \<and> \<not> it_seeked it \<and>
        (rkey (sub (head t) p) \<longrightarrow> it_data it = get_data (sub (head t) p)) \<and>
        xs = under (label (head t) p) (own (sub (head t) p)) @ after (head t) p \<and> nnodes (sub (head t) p) + upn (head t) p \<le> m)"

lemma landed_up_mono: "landed_up t r it xs m \<Longrightarrow> m \<le> m' \<Longrightarrow> landed_up t r it xs m'"
  unfolding landed_up_def by (erule disjE, simp, erule exE, rule disjI2, rule_tac x = p in exI, simp)

lemma scan_ok:
  assumes "\<forall>k. mal k" "rwf (head t)" "spot t it q" "\<not> it_eof it" "\<not> it_seeked it" "n = sub (head t) q" "\<not> rcompr n" "i < length (rdata n)"
  shows "\<exists>r it' k'. (let (_, it, k) = raxIteratorAddChars mal k it [rdata n ! i]; (ok, it, k) = it_push mal k it q
      in if \<not> ok then Inr (UpOom, it, k)
         else bindE (rd (rkids n) i) (\<lambda>c. Inr (if rkey c then UpKey else UpNode, enter (q @ [i]) c it, k))) = Inr (r, it', k') \<and>
    landed_up t r it' (under (label (head t) q) (kids_from n i) @ up (head t) q) (sum_list (map nnodes (drop i (rkids n))) + upn (head t) q)"
proof -
  have q: "vpath (head t) q" using assms(3) by (simp add: spot_def)
  have n: "rwf n" "length (rkids n) = length (rdata n)" using rwf_sub [OF assms(2) q] assms(6,7) rwfD(2) [of n] by auto
  have i: "i < length (rkids (sub (head t) q))" using assms(6,8) n(2) by simp
  have e: "edge (sub (head t) q) i = [rdata n ! i]" using assms(6,7) by (simp add: edge_def)
  obtain it1 k1 ts k2 where c: "raxIteratorAddChars mal k it [rdata n ! i] = (True, it1, k1)" "it_push mal k1 it1 q = (True, it1\<lparr>it_stack := ts\<rparr>, k2)"
    "it_eof it1 = it_eof it" "it_seeked it1 = it_seeked it" "spot t (enter (q @ [i]) (rkids n ! i) (it1\<lparr>it_stack := ts\<rparr>)) (q @ [i])"
    using enter_child_ok [OF assms(1,3) i] e by metis
  note s = entered [OF assms(2) q i, folded assms(6)]
  have "landed_up t (if rkey (rkids n ! i) then UpKey else UpNode) (enter (q @ [i]) (rkids n ! i) (it1\<lparr>it_stack := ts\<rparr>))
      (under (label (head t) q) (kids_from n i) @ up (head t) q) (sum_list (map nnodes (drop i (rkids n))) + upn (head t) q)"
    unfolding landed_up_def using c(3-5) assms(4,5,6) s by (intro disjI2 exI [of _ "q @ [i]"]) (simp add: sub_append)
  then show ?thesis using c(1,2) n(2) assms(8) by (simp add: rd_ok)
qed

lemma step_back_ok:
  assumes "rwf (head t)" "spot t it (q @ [j])" "n = sub (head t) q"
  shows "\<exists>ts it'. prevchild it = Inr (last (edge n j)) \<and> raxStackPop (it_stack it) = (Some q, ts) \<and>
    raxIteratorDelChars (it\<lparr>it_node := Some q, it_stack := ts\<rparr>) (if rcompr n then length (rdata n) else 1) = Inr it' \<and>
    spot t it' q \<and> it_eof it' = it_eof it \<and> it_seeked it' = it_seeked it \<and> it_data it' = it_data it"
proof -
  have s: "vpath (head t) q" "j < length (rkids n)" "st_items (it_stack it) = ancestors q @ [q]" "it_key it = label (head t) q @ edge n j"
    "it_len it \<le> length (it_buf it)" using assms(2,3) by (auto simp: spot_def vpath_append label_append)
  have n: "rwf n" using rwf_sub [OF assms(1) s(1)] assms(3) by simp
  have "it_key it = (label (head t) q @ butlast (edge n j)) @ [last (edge n j)]" using s(4) edge_nonempty [OF n s(2)] by simp
  then have "prevchild it = Inr (last (edge n j))" using prevchild_ok s(5) by blast
  moreover obtain ts where ts: "raxStackPop (it_stack it) = (Some q, ts)" "st_items ts = ancestors q" using s(3) by (simp add: raxStackPop_def)
  moreover have e: "(if rcompr n then length (rdata n) else 1) = length (edge n j)" by (simp add: edge_def)
  obtain it' where "raxIteratorDelChars (it\<lparr>it_node := Some q, it_stack := ts\<rparr>) (length (edge n j)) = Inr it'" "it_key it' = label (head t) q"
    "it_len it' \<le> length (it_buf it')" "it_node it' = Some q" "it_stack it' = ts" "it_eof it' = it_eof it" "it_seeked it' = it_seeked it" "it_data it' = it_data it"
    using del_chars_ok [of "it\<lparr>it_node := Some q, it_stack := ts\<rparr>" "label (head t) q" "edge n j"] s(4,5) by (auto simp: it_key_def)
  ultimately show ?thesis using s(1) unfolding e by (auto simp: spot_def)
qed

lemma next_up_ok:
  "\<forall>k. mal k \<Longrightarrow> rwf (head t) \<Longrightarrow> spot t it p \<Longrightarrow> \<not> it_eof it \<Longrightarrow> \<not> it_seeked it \<Longrightarrow>
   \<exists>r it' k'. next_up mal k t it False sv = Inr (r, it', k') \<and> landed_up t r it' (up (head t) p) (upn (head t) p)"
proof (induction p arbitrary: it k rule: rev_induct)
  case Nil
  then have "it_node it = Some []" by (simp add: spot_def)
  moreover have "it_eof (at_end sv it)" by (simp add: at_end_def split: prod.splits)
  ultimately show ?case by (simp add: next_up.simps [of mal k t it] landed_up_def)
next
  case (snoc j q)
  let ?n = "sub (head t) q" and ?c = "last (edge (sub (head t) q) j)"
  have v: "vpath (head t) q" "j < length (rkids ?n)" "it_node it = Some (q @ [j])" using snoc(4) by (auto simp: spot_def vpath_append)
  have n: "node_at (head t) q = Inr ?n" "rwf ?n" using node_at_sub [OF v(1)] rwf_sub [OF snoc(3) v(1)] by simp_all
  obtain ts it1 where b: "prevchild it = Inr ?c" "raxStackPop (it_stack it) = (Some q, ts)"
    "raxIteratorDelChars (it\<lparr>it_node := Some q, it_stack := ts\<rparr>) (if rcompr ?n then length (rdata ?n) else 1) = Inr it1"
    "spot t it1 q" "it_eof it1 = it_eof it" "it_seeked it1 = it_seeked it"
    using step_back_ok [OF snoc(3,4) refl] by blast
  have it1: "\<not> it_eof it1" "\<not> it_seeked it1" using b(5,6) snoc(5,6) by simp_all
  let ?i = "first_greater ?c (rdata ?n)"
  let ?found = "\<not> rcompr ?n \<and> 1 < length (rdata ?n) \<and> ?i \<noteq> length (rdata ?n)"
  have eq: "next_up mal k t it False sv = (if ?found
      then let (_, it, k) = raxIteratorAddChars mal k it1 [rdata ?n ! ?i]; (ok, it, k) = it_push mal k it q
           in if \<not> ok then Inr (UpOom, it, k)
              else bindE (rd (rkids ?n) ?i) (\<lambda>c. Inr (if rkey c then UpKey else UpNode, enter (q @ [?i]) c it, k))
      else next_up mal k t it1 False sv)"
    using v(3) b(1-3) n(1) by (simp add: next_up.simps [of mal k t it] Let_def)
  have i: "?i = Suc j" if "\<not> rcompr ?n"
    using that first_greater_next [of "rdata ?n" j] rwfD(2) [OF n(2) that] v(2) by (simp add: edge_def)
  show ?case
  proof (cases ?found)
    case True
    then have "?i < length (rdata ?n)" using first_greater_le [of ?c "rdata ?n"] by simp
    then show ?thesis unfolding eq if_P [OF True]
      using scan_ok [OF snoc(2,3) b(4) it1 refl, of ?i k] True i by (simp add: up_snoc upn_snoc)
  next
    case False
    have "length (rkids ?n) \<le> Suc j" using False i rwfD(1,2) [OF n(2)] v(2) by (cases "rcompr ?n") auto
    then have "up (head t) (q @ [j]) = up (head t) q" by (simp add: up_snoc)
    moreover have "upn (head t) q \<le> upn (head t) (q @ [j])" by (simp add: upn_snoc)
    ultimately show ?thesis unfolding eq if_not_P [OF False] using snoc(1) [OF snoc(2,3) b(4) it1, of k] landed_up_mono by metis
  qed
qed

section \<open>A step forward\<close>

text \<open>The iterator stands at the first of the elements \<open>xs\<close>, the others come after it; or it is at the end.\<close>

definition landed :: "'v rax \<Rightarrow> 'v raxIterator \<Rightarrow> (byte list \<times> 'v option) list \<Rightarrow> bool" where
  "landed t it xs \<longleftrightarrow>
     (case xs of [] \<Rightarrow> it_eof it
      | (s, v) # ys \<Rightarrow> \<not> it_eof it \<and> it_key it = s \<and> it_data it = v \<and> (\<exists>p. spot t it p \<and> after (head t) p = ys))"

lemma landed_key:
  "spot t it p \<Longrightarrow> rkey (sub (head t) p) \<Longrightarrow> it_data it = get_data (sub (head t) p) \<Longrightarrow> \<not> it_eof it \<Longrightarrow>
   landed t it (under (label (head t) p) (own (sub (head t) p)) @ after (head t) p)"
  by (auto simp: landed_def own_def under_def spot_def)

lemma deeper_ok:
  assumes "\<forall>k. mal k" "spot t it p" "j < length (rkids (sub (head t) p))"
  shows "\<exists>it1 k1 it2 k2. it_push mal k it p = (True, it1, k1) \<and> raxIteratorAddChars mal k1 it1 (edge (sub (head t) p) j) = (True, it2, k2) \<and>
    it_eof it2 = it_eof it \<and> it_seeked it2 = it_seeked it \<and> spot t (enter (p @ [j]) c it2) (p @ [j])"
proof -
  note s = assms(2) [unfolded spot_def]
  obtain ts k1 where p: "it_push mal k it p = (True, it\<lparr>it_stack := ts\<rparr>, k1)" "st_items ts = st_items (it_stack it) @ [p]"
    using push_ok [OF assms(1)] by blast
  let ?it = "it\<lparr>it_stack := ts\<rparr>"
  obtain it2 k2 where a: "raxIteratorAddChars mal k1 ?it (edge (sub (head t) p) j) = (True, it2, k2)" "it_key it2 = it_key ?it @ edge (sub (head t) p) j"
    "it_len it2 \<le> length (it_buf it2)" "it_stack it2 = ts" "it_eof it2 = it_eof it" "it_seeked it2 = it_seeked it"
    using add_chars_ok [OF assms(1), of ?it k1 "edge (sub (head t) p) j"] s by auto
  have "it_key ?it = it_key it" by (simp add: it_key_def)
  then have "spot t (enter (p @ [j]) c it2) (p @ [j])"
    using s a(2-4) p(2) assms(3) by (auto simp: spot_def enter_def it_key_def vpath_append label_append)
  then show ?thesis using a p(1) by blast
qed

lemma next_loop_ok:
  "\<forall>k. mal k \<Longrightarrow> rwf (head t) \<Longrightarrow> spot t it p \<Longrightarrow> \<not> it_eof it \<Longrightarrow> \<not> it_seeked it \<Longrightarrow>
   \<exists>it' k'. next_loop mal k t it False sv = Some (Inr (True, it', k')) \<and> (it_eof it' \<or> \<not> it_seeked it') \<and> landed t it' (after (head t) p)"
proof (induction "nnodes (sub (head t) p) + upn (head t) p" arbitrary: it k p rule: less_induct)
  case less
  let ?n = "sub (head t) p"
  have v: "vpath (head t) p" "it_node it = Some p" using less(4) by (auto simp: spot_def)
  have n: "cur_node t it = Inr (p, ?n)" "rwf ?n" using node_at_sub [OF v(1)] rwf_sub [OF less(3) v(1)] v(2) by (simp_all add: cur_node_def)
  have kids: "(if rcompr ?n then 1 else length (rdata ?n)) = length (rkids ?n)" using rwfD(1,2) [OF n(2)] by auto
  show ?case
  proof (cases "rkids ?n = []")
    case True
    then have af: "after (head t) p = up (head t) p" by (simp add: after_def)
    obtain r it1 k1 where r: "next_up mal k t it False sv = Inr (r, it1, k1)" "landed_up t r it1 (up (head t) p) (upn (head t) p)"
      using next_up_ok [OF less(2-6)] by blast
    have eq: "next_loop mal k t it False sv = (if r = UpNode then next_loop mal k1 t it1 False sv else Some (Inr (r \<noteq> UpOom, it1, k1)))"
      using n(1) kids True r(1) by (simp add: next_loop.simps [of mal k t it])
    show ?thesis
    proof (cases "r = UpEof")
      case True
      then show ?thesis using eq r(2) af by (auto simp: landed_up_def landed_def split: if_splits)
    next
      case False
      then obtain q where q: "r = (if rkey (sub (head t) q) then UpKey else UpNode)" "spot t it1 q" "\<not> it_eof it1" "\<not> it_seeked it1"
        "rkey (sub (head t) q) \<longrightarrow> it_data it1 = get_data (sub (head t) q)"
        "up (head t) p = under (label (head t) q) (own (sub (head t) q)) @ after (head t) q" "nnodes (sub (head t) q) + upn (head t) q \<le> upn (head t) p"
        using r(2) by (auto simp: landed_up_def)
      show ?thesis
      proof (cases "rkey (sub (head t) q)")
        case True
        then show ?thesis using eq q landed_key [OF q(2)] af by (auto split: if_splits)
      next
        case False
        have "nnodes (sub (head t) q) + upn (head t) q < nnodes ?n + upn (head t) p" using q(7) nnodes_pos [of ?n] by simp
        moreover have "after (head t) q = after (head t) p" using q(6) False af by (simp add: own_def)
        ultimately show ?thesis using less(1) [of q it1 k1] less(2,3) q(2-4) eq q(1) False by simp
      qed
    qed
  next
    case False
    then have j: "0 < length (rkids ?n)" by simp
    let ?c = "rkids ?n ! 0"
    obtain it1 k1 it2 k2 where d: "it_push mal k it p = (True, it1, k1)" "raxIteratorAddChars mal k1 it1 (edge ?n 0) = (True, it2, k2)"
      "it_eof it2 = it_eof it" "it_seeked it2 = it_seeked it" "spot t (enter (p @ [0]) ?c it2) (p @ [0])"
      using deeper_ok [OF less(2,4) j] by blast
    let ?it = "enter (p @ [0]) ?c it2"
    have eq: "next_loop mal k t it False sv = (if rkey ?c then Some (Inr (True, ?it, k2)) else next_loop mal k2 t ?it False sv)"
      using n(1) kids j d(1,2) by (simp add: next_loop.simps [of mal k t it] rd_ok flip: edge_def)
    note s = entered [OF less(3) v(1) j]
    have af: "after (head t) p = under (label (head t) (p @ [0])) (own (sub (head t) (p @ [0]))) @ after (head t) (p @ [0])"
      using s(1) by (simp add: after_def [of _ p])
    have c: "sub (head t) (p @ [0]) = ?c" by (simp add: sub_append)
    show ?thesis
    proof (cases "rkey ?c")
      case True
      then show ?thesis using eq landed_key [OF d(5)] af c d(3,4) less(5,6) by simp
    next
      case False
      have "nnodes (sub (head t) (p @ [0])) + upn (head t) (p @ [0]) < nnodes ?n + upn (head t) p"
        using s(2) nnodes_node [of ?n] by simp
      moreover have "after (head t) (p @ [0]) = after (head t) p" using af False c by (simp add: own_def)
      ultimately show ?thesis using less(1) [of "p @ [0]" ?it k2] less(2,3) d(3-5) less(5,6) eq False by simp
    qed
  qed
qed

end
