(* ===== verification/Rax_Dict.thy ===== *)
theory Rax_Dict
  imports Rax_Remove Rax_Order "HOL-Library.Multiset"
begin

text \<open>
  The radix tree as a dictionary: the contract of a key/value store as a locale, that the radix tree meets it when memory
  suffices, and what happens when it does not.
\<close>

section \<open>The contract of a dictionary\<close>

datatype ('k, 'v) dict_op = Find 'k | Put bool 'k 'v | Del 'k

datatype 'v dict_res = Found "'v option" | Done bool "'v option"

fun op_key :: "('k, 'v) dict_op \<Rightarrow> 'k" where
  "op_key (Find x) = x"
| "op_key (Put ow x v) = x"
| "op_key (Del x) = x"

text \<open>A sequence of operations on a map, and on a store that implements one.\<close>

fun map_op :: "('k \<rightharpoonup> 'v) \<Rightarrow> ('k, 'v) dict_op \<Rightarrow> 'v dict_res \<times> ('k \<rightharpoonup> 'v)" where
  "map_op m (Find x) = (Found (m x), m)"
| "map_op m (Put ow x v) = (Done (m x = None) (m x), if m x = None \<or> ow then m(x \<mapsto> v) else m)"
| "map_op m (Del x) = (Done (m x \<noteq> None) (m x), m(x := None))"

fun map_run :: "('k \<rightharpoonup> 'v) \<Rightarrow> ('k, 'v) dict_op list \<Rightarrow> 'v dict_res list \<times> ('k \<rightharpoonup> 'v)" where
  "map_run m [] = ([], m)"
| "map_run m (c # cs) = (let (r, m) = map_op m c; (rs, m) = map_run m cs in (r # rs, m))"

fun store_op :: "('s \<Rightarrow> 'k \<Rightarrow> 'v option outcome) \<Rightarrow> (bool \<Rightarrow> 's \<Rightarrow> 'k \<Rightarrow> 'v \<Rightarrow> (bool \<times> 'v option \<times> 's) outcome) \<Rightarrow>
    ('s \<Rightarrow> 'k \<Rightarrow> (bool \<times> 'v option \<times> 's) outcome) \<Rightarrow> 's \<Rightarrow> ('k, 'v) dict_op \<Rightarrow> ('v dict_res \<times> 's) outcome" where
  "store_op get put del s (Find x) = bindE (get s x) (\<lambda>r. Inr (Found r, s))"
| "store_op get put del s (Put ow x v) = bindE (put ow s x v) (\<lambda>(r, old, s). Inr (Done r old, s))"
| "store_op get put del s (Del x) = bindE (del s x) (\<lambda>(r, old, s). Inr (Done r old, s))"

fun store_run :: "('s \<Rightarrow> ('k, 'v) dict_op \<Rightarrow> ('v dict_res \<times> 's) outcome) \<Rightarrow> 's \<Rightarrow> ('k, 'v) dict_op list \<Rightarrow> ('v dict_res list \<times> 's) outcome" where
  "store_run step s [] = Inr ([], s)"
| "store_run step s (c # cs) = bindE (step s c) (\<lambda>(r, s). bindE (store_run step s cs) (\<lambda>(rs, s). Inr (r # rs, s)))"

locale dictionary =
  fixes view :: "'s \<Rightarrow> 'k \<rightharpoonup> 'v"
    and inv :: "'s \<Rightarrow> bool"
    and legal :: "'k \<Rightarrow> bool"
    and get :: "'s \<Rightarrow> 'k \<Rightarrow> 'v option outcome"
    and put :: "bool \<Rightarrow> 's \<Rightarrow> 'k \<Rightarrow> 'v \<Rightarrow> (bool \<times> 'v option \<times> 's) outcome"
    and del :: "'s \<Rightarrow> 'k \<Rightarrow> (bool \<times> 'v option \<times> 's) outcome"
  assumes get_view: "inv s \<Longrightarrow> get s x = Inr (view s x)"
    and put_view: "inv s \<Longrightarrow> legal x \<Longrightarrow> \<exists>s'. put ow s x v = Inr (view s x = None, view s x, s') \<and> inv s' \<and>
      view s' = (if view s x = None \<or> ow then (view s)(x \<mapsto> v) else view s)"
    and del_view: "inv s \<Longrightarrow> \<exists>s'. del s x = Inr (view s x \<noteq> None, view s x, s') \<and> inv s' \<and> view s' = (view s)(x := None)"
begin

lemma op_refines:
  assumes "inv s" "legal (op_key c)"
  shows "\<exists>s'. store_op get put del s c = Inr (fst (map_op (view s) c), s') \<and> inv s' \<and> view s' = snd (map_op (view s) c)"
proof (cases c)
  case (Find x)
  then show ?thesis using assms by (simp add: get_view)
next
  case (Put ow x v)
  then show ?thesis using put_view [OF assms(1), of x ow v] assms(2) by fastforce
next
  case (Del x)
  then show ?thesis using del_view [OF assms(1), of x] by fastforce
qed

lemma run_refines:
  "inv s \<Longrightarrow> \<forall>c \<in> set cs. legal (op_key c) \<Longrightarrow>
   \<exists>s'. store_run (store_op get put del) s cs = Inr (fst (map_run (view s) cs), s') \<and> inv s' \<and> view s' = snd (map_run (view s) cs)"
proof (induction cs arbitrary: s)
  case (Cons c cs)
  obtain s1 where s1: "store_op get put del s c = Inr (fst (map_op (view s) c), s1)" "inv s1" "view s1 = snd (map_op (view s) c)"
    using op_refines [OF Cons(2), of c] Cons(3) by auto
  obtain s2 where "store_run (store_op get put del) s1 cs = Inr (fst (map_run (view s1) cs), s2)" "inv s2" "view s2 = snd (map_run (view s1) cs)"
    using Cons(1) [OF s1(2)] Cons(3) by auto
  then show ?case using s1 by (auto simp: case_prod_unfold Let_def)
qed simp

end

section \<open>The radix tree meets it\<close>

definition rax_find :: "'v rax \<times> nat \<Rightarrow> byte list \<Rightarrow> 'v option option outcome" where
  "rax_find tk x = raxFind (fst tk) x"

definition rax_put :: "(nat \<Rightarrow> bool) \<Rightarrow> bool \<Rightarrow> 'v rax \<times> nat \<Rightarrow> byte list \<Rightarrow> 'v option \<Rightarrow> (bool \<times> 'v option option \<times> 'v rax \<times> nat) outcome" where
  "rax_put mal ow tk x v =
     bindE (if ow then raxInsert mal (snd tk) (fst tk) x v else raxTryInsert mal (snd tk) (fst tk) x v)
       (\<lambda>(ins, old, oom, t, k). if oom then Inl OutOfMemory else Inr (ins, old, t, k))"

definition rax_del :: "(nat \<Rightarrow> bool) \<Rightarrow> 'v rax \<times> nat \<Rightarrow> byte list \<Rightarrow> (bool \<times> 'v option option \<times> 'v rax \<times> nat) outcome" where
  "rax_del mal tk x = raxRemove mal (snd tk) (fst tk) x"

definition rax_inv :: "(nat \<Rightarrow> bool) \<Rightarrow> 'v rax \<times> nat \<Rightarrow> bool" where
  "rax_inv mal tk \<longleftrightarrow> (\<forall>k. mal k) \<and> rax_ok (fst tk) \<and> rdepth (head (fst tk)) \<le> RAX_NODE_MAX_SIZE"

lemma rax_put_eq: "rax_put mal ow tk x v = bindE (raxGenericInsert mal (snd tk) (fst tk) x v ow)
    (\<lambda>(ins, old, oom, t, k). if oom then Inl OutOfMemory else Inr (ins, old, t, k))"
  by (cases ow) (simp_all add: rax_put_def raxInsert_def raxTryInsert_def)

interpretation rax_dict: dictionary "\<lambda>tk. rlookup (head (fst tk))" "rax_inv mal" "\<lambda>x. length x \<le> RAX_NODE_MAX_SIZE"
  rax_find "rax_put mal" "rax_del mal" for mal
proof unfold_locales
  fix tk :: "'a rax \<times> nat" and x ow v
  assume inv: "rax_inv mal tk"
  obtain t k where tk: "tk = (t, k)" by fastforce
  have t: "\<forall>k. mal k" "rax_ok t" "rwf (head t)" "numnodes t = nnodes (head t)" "rdepth (head t) \<le> RAX_NODE_MAX_SIZE"
    "numele t = nkeys (head t)"
    using inv by (auto simp: rax_inv_def tk rax_ok_def)
  show "rax_find tk x = Inr (rlookup (head (fst tk)) x)" using t by (simp add: rax_find_def tk raxFind_ok)
  show "\<exists>s'. rax_del mal tk x = Inr (rlookup (head (fst tk)) x \<noteq> None, rlookup (head (fst tk)) x, s') \<and> rax_inv mal s' \<and>
      rlookup (head (fst s')) = (rlookup (head (fst tk)))(x := None)"
    using raxRemove_ok [OF t(3-5), of mal x k] t by (auto simp: rax_del_def tk removed_def rax_inv_def rax_ok_def intro: dec64_eq split: if_splits)
  assume "length x \<le> RAX_NODE_MAX_SIZE"
  then show "\<exists>s'. rax_put mal ow tk x v = Inr (rlookup (head (fst tk)) x = None, rlookup (head (fst tk)) x, s') \<and> rax_inv mal s' \<and>
      rlookup (head (fst s')) = (if rlookup (head (fst tk)) x = None \<or> ow then (rlookup (head (fst tk)))(x \<mapsto> v) else rlookup (head (fst tk)))"
    using insert_cases [OF t(2), of mal x v ow k] t by (auto simp: insert_spec_def rax_put_eq tk inserted_def rax_inv_def)
qed

section \<open>Freeing\<close>

text \<open>The stored values that are not \<open>NULL\<close>.\<close>

definition vals :: "'v rnode \<Rightarrow> 'v option multiset" where
  "vals n = filter_mset (\<lambda>v. v \<noteq> None) (mset (map snd (inorder n)))"

lemma vals_node: "rwf n \<Longrightarrow> vals n = filter_mset (\<lambda>v. v \<noteq> None) (mset (map snd (own n))) + sum_list (map vals (rkids n))"
proof -
  assume n: "rwf n"
  have "filter_mset (\<lambda>v. v \<noteq> None) (mset (map snd (kids_from n i))) = sum_list (map (\<lambda>j. vals (rkids n ! j)) [i..<length (rkids n)])" for i
  proof (induction "length (rkids n) - i" arbitrary: i)
    case (Suc m)
    then have i: "i < length (rkids n)" by simp
    have "map snd (under e xs) = map snd xs" for e and xs :: "(byte list \<times> 'a option) list" by (auto simp: under_def)
    then show ?case using Suc i by (simp add: kids_from_step [OF i] vals_def upt_rec [of i])
  qed simp
  from this [of 0] have "filter_mset (\<lambda>v. v \<noteq> None) (mset (map snd (kids_from n 0))) = sum_list (map (\<lambda>j. vals (rkids n ! j)) [0..<length (rkids n)])" .
  moreover have "map (\<lambda>j. vals (rkids n ! j)) [0..<length (rkids n)] = map vals (rkids n)" by (intro nth_equalityI) auto
  ultimately show ?thesis by (simp add: vals_def [of n] inorder_node [OF n])
qed

lemma free_kids:
  "(\<And>c m. c \<in> set ks \<Longrightarrow> \<exists>f. raxRecursiveFree c (nnodes c + m) = (f, m) \<and> filter_mset (\<lambda>v. v \<noteq> None) (mset f) = vals c) \<Longrightarrow>
   \<exists>f. fold (\<lambda>c (fs, nn). let (f, nn) = raxRecursiveFree c nn in (fs @ f, nn)) ks (fs, sum_list (map nnodes ks) + m) = (fs @ f, m) \<and>
     filter_mset (\<lambda>v. v \<noteq> None) (mset f) = sum_list (map vals ks)"
proof (induction ks arbitrary: fs)
  case (Cons c ks)
  obtain g where g: "raxRecursiveFree c (nnodes c + (sum_list (map nnodes ks) + m)) = (g, sum_list (map nnodes ks) + m)"
    "filter_mset (\<lambda>v. v \<noteq> None) (mset g) = vals c"
    using Cons(2) by (meson list.set_intros(1))
  obtain f where "fold (\<lambda>c (fs, nn). let (f, nn) = raxRecursiveFree c nn in (fs @ f, nn)) ks (fs @ g, sum_list (map nnodes ks) + m) = (fs @ g @ f, m)"
    "filter_mset (\<lambda>v. v \<noteq> None) (mset f) = sum_list (map vals ks)"
    using Cons(1) [of "fs @ g"] Cons(2) by fastforce
  then show ?case using g by (intro exI [of _ "g @ f"]) (simp add: add.assoc)
qed simp

lemma free_node:
  "rwf n \<Longrightarrow> \<exists>f. raxRecursiveFree n (nnodes n + m) = (f, m) \<and> filter_mset (\<lambda>v. v \<noteq> None) (mset f) = vals n"
proof (induction n arbitrary: m rule: measure_induct_rule [of size])
  case (less n)
  obtain key null compr ds v ks where n: "n = RNode key null compr ds v ks" by (cases n) auto
  have "\<exists>f. raxRecursiveFree c (nnodes c + m) = (f, m) \<and> filter_mset (\<lambda>v. v \<noteq> None) (mset f) = vals c" if "c \<in> set (rev ks)" for c m
    using less(1) [of c] rnode_kid_size [of c n] rwfD(3) [OF less(2), of c] that n by simp
  then obtain f where f: "fold (\<lambda>c (fs, nn). let (f, nn) = raxRecursiveFree c nn in (fs @ f, nn)) (rev ks) ([], sum_list (map nnodes (rev ks)) + Suc m) = (f, Suc m)"
    "filter_mset (\<lambda>v. v \<noteq> None) (mset f) = sum_list (map vals (rev ks))"
    using free_kids [of "rev ks" "[]" "Suc m"] by auto
  have "sum_list (map nnodes (rev ks)) = sum_list (map nnodes ks)" "sum_list (map vals (rev ks)) = sum_list (map vals ks)"
    by (simp_all add: sum_list_rev flip: rev_map)
  then show ?case using f vals_node [OF less(2)] n by (auto simp: own_def get_data_def)
qed

section \<open>Running out of memory\<close>

lemma insert_oom_ok:
  assumes "rax_ok t" "rdepth (head t) \<le> RAX_NODE_MAX_SIZE" "vpath (head t) p"
    "(\<forall>k. mal k) \<or> length (label (head t) p) \<le> RAX_STACK_STATIC_ITEMS"
  shows "\<exists>t' k'. insert_oom mal k t p (label (head t) p) = Inr (False, None, True, t', k') \<and>
    rwf (head t') \<and> numnodes t' = nnodes (head t') \<and> rdepth (head t') \<le> rdepth (head t) \<and>
    (if rkey (sub (head t) p) \<and> rdata (sub (head t) p) = []
     then rlookup (head t') = (rlookup (head t))(label (head t) p := None) \<and> numele t' = Suc (nkeys (head t'))
     else rlookup (head t') = rlookup (head t) \<and> numele t' = nkeys (head t'))"
proof -
  let ?h = "sub (head t) p" and ?s = "label (head t) p"
  have t: "rwf (head t)" "numele t = nkeys (head t)" "numnodes t = nnodes (head t)" using assms(1) by (simp_all add: rax_ok_def)
  have h: "node_at (head t) p = Inr ?h" "rwf ?h" using node_at_sub [OF assms(3)] rwf_sub [OF t(1) assms(3)] by simp_all
  show ?thesis
  proof (cases "rdata ?h = []")
    case False
    then show ?thesis using h(1) t by (simp add: insert_oom_def)
  next
    case True
    let ?m = "RNode True True (rcompr ?h) (rdata ?h) (rval ?h) (rkids ?h)"
    let ?t = "t\<lparr>head := put_node (head t) p ?m, numele := numele t + 1\<rparr>"
    have kids: "rkids ?h = []" using rwf_empty [OF h(2)] True by simp
    have m: "rwf ?m" "rlookup ?m = (rlookup ?h)([] \<mapsto> None)" "nnodes ?m = nnodes ?h" "rdepth ?m = rdepth ?h" "nkeys ?m = 1"
    proof -
      show "rwf ?m" using rwf_cong [of ?m ?h] h(2) by simp
      show "rlookup ?m = (rlookup ?h)([] \<mapsto> None)"
      proof
        fix s show "rlookup ?m s = ((rlookup ?h)([] \<mapsto> None)) s"
          by (cases "s = []") (auto simp: rlookup_Nil get_data_def rlookup_cong [of ?m ?h])
      qed
    qed (use kids nnodes_node [of ?h] in \<open>simp_all, cases ?h, simp\<close>)
    have r: "rwf (head ?t)" "numnodes ?t = nnodes (head ?t)" "rdepth (head ?t) = rdepth (head t)"
      "rlookup (head ?t) = (rlookup (head t))(?s \<mapsto> None)" "nkeys (head ?t) + nkeys ?h = nkeys (head t) + 1"
      using put_node_wf [OF t(1) assms(3) m(1)] put_node_nnodes [OF assms(3), of ?m] m t put_node_depth [OF assms(3), of ?m]
        put_node_upd [OF t(1) assms(3) m(1), of "[]" "Some None"] put_node_nkeys [OF assms(3), of ?m] by simp_all
    have "rdepth (head ?t) \<le> RAX_NODE_MAX_SIZE" using r(3) assms(2) by simp
    then obtain b old t' k' where rem: "raxRemove mal k ?t ?s = Inr (b, old, t', k')" "removed ?t ?s b old t'"
      using raxRemove_ok [OF r(1,2), of mal ?s k] assms(4) by blast
    have b: "b" "rwf (head t')" "numnodes t' = nnodes (head t')" "rdepth (head t') \<le> rdepth (head t)"
      "rlookup (head t') = (rlookup (head t))(?s := None)" "Suc (nkeys (head t')) = nkeys (head ?t)" "numele t' = numele t"
      using rem(2) r(3,4) by (auto simp: removed_def split: if_splits)
    have eq: "insert_oom mal k t p ?s = Inr (False, None, True, t', k')" using h(1) True rem(1) b(1) by (simp add: insert_oom_def)
    have look: "rlookup (head t) ?s = rlookup ?h []" using rlookup_label [OF t(1) assms(3), of "[]"] by simp
    have "nkeys ?h = (if rkey ?h then 1 else 0)" using nkeys_node [of ?h] kids by simp
    moreover have "(rlookup (head t))(?s := None) = rlookup (head t)" if "\<not> rkey ?h" using look that by (auto simp: rlookup_Nil)
    ultimately show ?thesis using eq b r(5) t True by auto
  qed
qed

lemma insert_any_memory:
  assumes "rax_ok t" "rdepth (head t) \<le> RAX_NODE_MAX_SIZE"
    "length s \<le> RAX_STACK_STATIC_ITEMS \<or> (\<forall>k. mal k) \<and> length s \<le> RAX_NODE_MAX_SIZE"
  shows "\<exists>ins old oom t' k'. raxGenericInsert mal k t s d ow = Inr (ins, old, oom, t', k') \<and>
    rwf (head t') \<and> numnodes t' = nnodes (head t') \<and> rdepth (head t') \<le> RAX_NODE_MAX_SIZE \<and>
    (if oom
     then \<not> ins \<and> \<not> (\<forall>k. mal k) \<and>
       (rlookup (head t') = rlookup (head t) \<and> numele t' = nkeys (head t') \<or>
        (\<exists>u. prefix u s \<and> rlookup (head t) u \<noteq> None \<and> rlookup (head t') = (rlookup (head t))(u := None) \<and>
           numele t' = Suc (nkeys (head t'))))
     else inserted t s d ow ins old t')"
  using insert_cases [OF assms(1), of mal s d ow k] unfolding insert_spec_def
proof (elim disjE exE conjE)
  fix ins old t' k'
  assume r: "raxGenericInsert mal k t s d ow = Inr (ins, old, False, t', k')" "inserted t s d ow ins old t'"
  have "max (rdepth (head t)) (length s) \<le> RAX_NODE_MAX_SIZE"
    using assms(2,3) by (auto simp: RAX_NODE_MAX_SIZE_def RAX_STACK_STATIC_ITEMS_def)
  then have "rwf (head t')" "numnodes t' = nnodes (head t')" "rdepth (head t') \<le> RAX_NODE_MAX_SIZE"
    using r(2) unfolding inserted_def rax_ok_def by linarith+
  then show ?thesis using r by (intro exI [of _ ins] exI [of _ old] exI [of _ False] exI [of _ t'] exI [of _ k']) simp
next
  fix old k'
  assume "\<not> (\<forall>k. mal k)" "raxGenericInsert mal k t s d ow = Inr (False, old, True, t, k')"
  then show ?thesis using assms(1,2)
    by (intro exI [of _ False] exI [of _ old] exI [of _ True] exI [of _ t] exI [of _ k']) (simp add: rax_ok_def)
next
  assume m: "\<not> (\<forall>k. mal k)" and "ran_out mal t s (raxGenericInsert mal k t s d ow)"
  then obtain t1 p k1 where r: "raxGenericInsert mal k t s d ow = insert_oom mal k1 t1 p (label (head t1) p)" "rax_ok t1"
    "rlookup (head t1) = rlookup (head t)" "rdepth (head t1) \<le> max (rdepth (head t)) (length s)" "vpath (head t1) p"
    "prefix (label (head t1) p) s" unfolding ran_out_def by blast
  have d: "rdepth (head t1) \<le> RAX_NODE_MAX_SIZE" "(\<forall>k. mal k) \<or> length (label (head t1) p) \<le> RAX_STACK_STATIC_ITEMS"
    using r(4) assms(2,3) m prefix_length_le [OF r(6)] by (auto simp: RAX_NODE_MAX_SIZE_def RAX_STACK_STATIC_ITEMS_def)
  have look: "rlookup (head t1) (label (head t1) p) = rlookup (sub (head t1) p) []"
    using rlookup_label [of "head t1" p "[]"] r(2,5) by (simp add: rax_ok_def)
  obtain t' k' where i: "insert_oom mal k1 t1 p (label (head t1) p) = Inr (False, None, True, t', k')"
    "rwf (head t')" "numnodes t' = nnodes (head t')" "rdepth (head t') \<le> rdepth (head t1)"
    "if rkey (sub (head t1) p) \<and> rdata (sub (head t1) p) = []
     then rlookup (head t') = (rlookup (head t1))(label (head t1) p := None) \<and> numele t' = Suc (nkeys (head t'))
     else rlookup (head t') = rlookup (head t1) \<and> numele t' = nkeys (head t')"
    using insert_oom_ok [OF r(2) d(1) r(5) d(2), of k1] by blast
  have "rlookup (head t') = rlookup (head t) \<and> numele t' = nkeys (head t') \<or>
      (\<exists>u. prefix u s \<and> rlookup (head t) u \<noteq> None \<and> rlookup (head t') = (rlookup (head t))(u := None) \<and> numele t' = Suc (nkeys (head t')))"
  proof (cases "rkey (sub (head t1) p) \<and> rdata (sub (head t1) p) = []")
    case True
    then show ?thesis using i(5) r(3,6) look by (intro disjI2 exI [of _ "label (head t1) p"]) (simp add: rlookup_Nil)
  next
    case False
    then show ?thesis using i(5) r(3) by (intro disjI1) (simp only: if_False)
  qed
  then show ?thesis using i(1-4) r(1) d(1) m
    by (intro exI [of _ False] exI [of _ None] exI [of _ True] exI [of _ t'] exI [of _ k']) simp
qed

section \<open>Properties\<close>

definition foo_tree :: "nat rax" where
  "foo_tree = \<lparr>head = RNode False False True [70, 79, 79] None [RNode True False False [] (Some 1) []], numele = 1, numnodes = 2\<rparr>"

definition foo_ops :: "(byte list, nat option) dict_op list" where
  "foo_ops = [Put True [70, 79, 79] (Some 1), Put False [70] None, Del [70, 79, 79], Find [70]]"

lemma foo_tree_ok: "rax_ok foo_tree" "rdepth (head foo_tree) = 3"
  by (simp_all add: foo_tree_def rax_ok_def RAX_NODE_MAX_SIZE_def)

text \<open>C1: Any sequence of \<open>raxFind\<close>, \<open>raxInsert\<close>, \<open>raxTryInsert\<close> and \<open>raxRemove\<close> on a new radix tree returns, while memory
  suffices and keys fit the size field of a node, what the same operations return on a map, return values and old values
  included; afterwards the tree is that map, \<open>raxSize\<close> is the number of keys, and freeing the tree hands every value that is not
  \<open>NULL\<close> to the callback once, without failing the assertion on the count of nodes.\<close>

theorem rax_runs_as_map:
  assumes "\<forall>k. mal k" "raxNew mal k = (Some t, k0)" "\<forall>c \<in> set cs. length (op_key c) \<le> RAX_NODE_MAX_SIZE"
  shows "\<exists>t' k' f. store_run (store_op rax_find (rax_put mal) (rax_del mal)) (t, k0) cs = Inr (fst (map_run Map.empty cs), t', k') \<and>
    rlookup (head t') = snd (map_run Map.empty cs) \<and> raxSize t' = card (dom (snd (map_run Map.empty cs))) \<and>
    raxFreeWithCallback t' = Inr f \<and> filter_mset (\<lambda>v. v \<noteq> None) (mset f) = vals (head t')"
proof -
  have t: "t = \<lparr>head = new_node, numele = 0, numnodes = 1\<rparr>" using assms(1,2) by (simp add: raxNew_def)
  have "rlookup (new_node :: 'a rnode) = Map.empty" by auto
  then have "rax_inv mal (t, k0)" "rlookup (head t) = Map.empty" using assms(1) t by (simp_all add: rax_inv_def rax_ok_def)
  then obtain t' k' where r: "store_run (store_op rax_find (rax_put mal) (rax_del mal)) (t, k0) cs = Inr (fst (map_run Map.empty cs), t', k')"
    "rax_inv mal (t', k')" "rlookup (head t') = snd (map_run Map.empty cs)"
    using rax_dict.run_refines [of mal "(t, k0)" cs] assms(3) by auto
  then have w: "rwf (head t')" "numele t' = nkeys (head t')" "numnodes t' = nnodes (head t')" by (simp_all add: rax_inv_def rax_ok_def)
  then show ?thesis using r nkeys_card(1) [OF w(1)] free_node [OF w(1), of 0] by (auto simp: raxSize_def raxFreeWithCallback_def)
qed

theorem rax_runs_as_map_witness:
  "\<exists>t' k' f. store_run (store_op rax_find (rax_put (\<lambda>_. True)) (rax_del (\<lambda>_. True))) (\<lparr>head = new_node, numele = 0, numnodes = 1\<rparr>, 2) foo_ops =
      Inr (fst (map_run Map.empty foo_ops), t', k') \<and>
    rlookup (head t') = snd (map_run Map.empty foo_ops) \<and> raxSize t' = card (dom (snd (map_run Map.empty foo_ops))) \<and>
    raxFreeWithCallback t' = Inr f \<and> filter_mset (\<lambda>v. v \<noteq> None) (mset f) = vals (head t')"
  by (rule rax_runs_as_map [of "\<lambda>_. True" 0]) (simp_all add: raxNew_def RAX_NODE_MAX_SIZE_def foo_ops_def)

text \<open>C39: An insertion of a key of at most \<open>RAX_STACK_STATIC_ITEMS\<close> (32) characters does not fault, whatever allocations fail,
  and neither does an insertion of a longer key (of at most \<open>RAX_NODE_MAX_SIZE\<close> characters) when none fails. It succeeds; or, only
  if an allocation fails, it returns 0 with \<open>ENOMEM\<close>, and then the map is as before and the count of elements is right, or a
  stored prefix of the key has been removed and the count is one too high.\<close>

theorem raxInsert_out_of_memory:
  assumes "rax_ok t" "rdepth (head t) \<le> RAX_NODE_MAX_SIZE"
    "length s \<le> RAX_STACK_STATIC_ITEMS \<or> (\<forall>k. mal k) \<and> length s \<le> RAX_NODE_MAX_SIZE"
  shows "\<exists>ins old oom t' k'. raxInsert mal k t s d = Inr (ins, old, oom, t', k') \<and>
    (if oom
     then \<not> ins \<and> \<not> (\<forall>k. mal k) \<and>
       (rlookup (head t') = rlookup (head t) \<and> numele t' = nkeys (head t') \<or>
        (\<exists>u. prefix u s \<and> rlookup (head t) u \<noteq> None \<and> rlookup (head t') = (rlookup (head t))(u := None) \<and>
           numele t' = Suc (nkeys (head t'))))
     else inserted t s d True ins old t')"
  unfolding raxInsert_def using insert_any_memory [OF assms, of k d True] by blast

lemma insert_foob_fails:
  "raxInsert (\<lambda>_. False) 0 foo_tree [70, 79, 79, 66] (Some 2) = Inr (False, None, True, \<lparr>head = new_node, numele = 1, numnodes = 1\<rparr>, 1)"
  by code_simp

theorem raxInsert_out_of_memory_witness:
  "\<exists>t' k' u. raxInsert (\<lambda>_. False) 0 foo_tree [70, 79, 79, 66] (Some 2) = Inr (False, None, True, t', k') \<and>
     prefix u [70, 79, 79, 66] \<and> rlookup (head foo_tree) u \<noteq> None \<and> rlookup (head t') = (rlookup (head foo_tree))(u := None) \<and>
     numele t' = Suc (nkeys (head t'))"
proof -
  have "nkeys (new_node :: nat rnode) = 0" by code_simp
  then show ?thesis
    using raxInsert_out_of_memory [of foo_tree "[70, 79, 79, 66]" "\<lambda>_. False" 0 "Some 2"]
    by (auto simp: insert_foob_fails foo_tree_ok RAX_NODE_MAX_SIZE_def RAX_STACK_STATIC_ITEMS_def split: if_splits)
qed

text \<open>C40: Insertion and removal keep the radix tree well formed and its count of nodes right: compressed nodes have two
  characters or more and one child, other nodes have a child for each character, in ascending order. For keys of at most
  \<open>RAX_STACK_STATIC_ITEMS\<close> (32) characters this holds whatever allocations fail, for longer ones (of at most
  \<open>RAX_NODE_MAX_SIZE\<close> characters) when none fails: the stack of the parents of a long path has to grow.\<close>

theorem rax_well_formed:
  assumes "rax_ok t" "rdepth (head t) \<le> RAX_NODE_MAX_SIZE"
    "length s \<le> RAX_STACK_STATIC_ITEMS \<or> (\<forall>k. mal k) \<and> length s \<le> RAX_NODE_MAX_SIZE"
  shows "(\<exists>ins old oom t' k'. raxGenericInsert mal k t s d ow = Inr (ins, old, oom, t', k') \<and> rwf (head t') \<and> numnodes t' = nnodes (head t')) \<and>
    (\<exists>r old t' k'. raxRemove mal k t s = Inr (r, old, t', k') \<and> rwf (head t') \<and> numnodes t' = nnodes (head t'))"
proof
  show "\<exists>ins old oom t' k'. raxGenericInsert mal k t s d ow = Inr (ins, old, oom, t', k') \<and> rwf (head t') \<and> numnodes t' = nnodes (head t')"
    using insert_any_memory [OF assms, of k d ow] by blast
  have "rwf (head t)" "numnodes t = nnodes (head t)" using assms(1) by (simp_all add: rax_ok_def)
  then show "\<exists>r old t' k'. raxRemove mal k t s = Inr (r, old, t', k') \<and> rwf (head t') \<and> numnodes t' = nnodes (head t')"
    using raxRemove_ok [of t mal s k] assms(2,3) unfolding removed_def by blast
qed

theorem rax_well_formed_witness:
  "(\<exists>ins old oom t' k'. raxGenericInsert (\<lambda>k. k < 3) 0 foo_tree [70, 65] (Some 2) True = Inr (ins, old, oom, t', k') \<and>
      rwf (head t') \<and> numnodes t' = nnodes (head t')) \<and>
   (\<exists>r old t' k'. raxRemove (\<lambda>k. k < 3) 0 foo_tree [70, 65] = Inr (r, old, t', k') \<and> rwf (head t') \<and> numnodes t' = nnodes (head t'))"
  by (rule rax_well_formed) (simp_all add: foo_tree_ok RAX_NODE_MAX_SIZE_def RAX_STACK_STATIC_ITEMS_def)

section \<open>Deviations\<close>

text \<open>Running out of memory while \<open>FOOB\<close> is inserted below the key \<open>FOO\<close> removes \<open>FOO\<close>, and \<open>numele\<close> still counts it.\<close>

lemma raxInsert_oom_loses_key:
  "raxFind foo_tree [70, 79, 79] = Inr (Some (Some 1)) \<and>
   raxInsert (\<lambda>_. False) 0 foo_tree [70, 79, 79, 66] (Some 2) = Inr (False, None, True, \<lparr>head = new_node, numele = 1, numnodes = 1\<rparr>, 1)"
  by code_simp

text \<open>The first example of the comment on recompression: after the removal of \<open>FOO\<close> the nodes \<open>FOO\<close> and \<open>BAR\<close> are not joined,
  because the code tests \<open>h->size == 1\<close>, which is the length of the string when the node is compressed.\<close>

definition foobar_tree :: "nat rax" where
  "foobar_tree = \<lparr>head = RNode False False True [70, 79, 79] None
     [RNode True False True [66, 65, 82] (Some 1) [RNode True False False [] (Some 2) []]], numele = 2, numnodes = 3\<rparr>"

lemma raxRemove_not_recompressed:
  "raxRemove (\<lambda>_. True) 0 foobar_tree [70, 79, 79] = Inr (True, Some (Some 1),
     \<lparr>head = RNode False False True [70, 79, 79] None
       [RNode False False True [66, 65, 82] (Some 1) [RNode True False False [] (Some 2) []]], numele = 1, numnodes = 3\<rparr>, 0)"
  by code_simp

text \<open>A path of 33 nodes does not fit the static items of the stack; if the stack cannot grow, the removal of the deepest key
  looks for the freed child in a node that is not its parent.\<close>

fun spine :: "nat \<Rightarrow> nat rnode" where
  "spine 0 = RNode True True False [] None []"
| "spine (Suc n) = RNode True True False [97] None [spine n]"

lemma raxRemove_incomplete_stack:
  "raxRemove (\<lambda>_. False) 0 \<lparr>head = spine 33, numele = 34, numnodes = 34\<rparr> (replicate 33 97) = Inl OutOfBounds"
  by code_simp

text \<open>The second scan of the recompression does not apply the limit of the first one, and writes beyond the new node.\<close>

lemma recompress_overflow:
  assumes "link a u b" "link b v c" "link c w d" "\<not> stops a" "\<not> stops b" "\<not> stops c" "stops d" "rwf a" "mal k"
    "length u + length v \<le> RAX_NODE_MAX_SIZE" "RAX_NODE_MAX_SIZE < length u + length v + length w"
  shows "recompress mal k a [] raxStackInit nn = Inl OutOfBounds"
proof -
  have d: "rdata a = u" "rdata b = v" "rdata c = w" "u \<noteq> []" "v \<noteq> []" "w \<noteq> []" using assms(1-3) by (auto simp: link_def)
  note k = drop_link [OF assms(1)] drop_link [OF assms(2)] drop_link [OF assms(3)]
  have scan: "scan_chain a (length u) 1 = Inr (length u + length v, 2)"
    using d k assms(5-7,10,11) by (simp add: scan_chain.simps [of a] scan_chain.simps [of b])
  have copy: "copy_chain a = Inr (u @ v @ w, d, 3)"
    using d k assms(5-7) by (simp add: copy_chain.simps [of a] copy_chain.simps [of b] copy_chain.simps [of c])
  have up: "go_up a [] raxStackInit = Inr ([], raxStackInit)" by (simp add: go_up.simps [of a] raxStackPop_def raxStackInit_def)
  show ?thesis using scan copy up d assms(9) by (simp add: recompress_def)
qed

end
