(* ===== verification/Rax_Seek.thy ===== *)
theory Rax_Seek
  imports Rax_Traverse Rax_Dict
begin

text \<open>
  Seeking forward: \<open>raxSeek\<close> puts the iterator at the first element from the key on, and \<open>raxNext\<close> enumerates the elements from
  there in ascending order, without omission.
\<close>

section \<open>A step that does not start at the node\<close>

text \<open>The iterator is at a node, its key has the characters \<open>s\<close> of a child too, that need not be there.\<close>

definition past :: "'v rax \<Rightarrow> 'v raxIterator \<Rightarrow> nat list \<Rightarrow> byte list \<Rightarrow> bool" where
  "past t it p s \<longleftrightarrow> vpath (head t) p \<and> it_node it = Some p \<and> st_items (it_stack it) = ancestors p \<and>
     it_key it = label (head t) p @ s \<and> it_len it \<le> length (it_buf it)"

lemma past_add:
  assumes "\<forall>k. mal k" "spot t it p"
  shows "\<exists>it' k'. raxIteratorAddChars mal k it s = (True, it', k') \<and> past t it' p s \<and> it_eof it' = it_eof it \<and> it_seeked it' = it_seeked it"
  using add_chars_ok [OF assms(1), of it k s] assms(2) by (auto simp: spot_def past_def)

lemma next_up_past:
  assumes "\<forall>k. mal k" "rwf (head t)" "past t it p s" "\<not> it_eof it" "\<not> it_seeked it" "n = sub (head t) p"
    "s \<noteq> []" "length s = (if rcompr n then length (rdata n) else 1)"
  shows "\<exists>r it' k'. next_up mal k t it True sv = Inr (r, it', k') \<and>
    landed_up t r it' (under (label (head t) p) (if rcompr n then [] else kids_from n (first_greater (last s) (rdata n))) @ up (head t) p)
      (nnodes n + upn (head t) p)"
proof -
  note s = assms(3) [unfolded past_def]
  have n: "node_at (head t) p = Inr n" "rwf n" using node_at_sub [of "head t" p] rwf_sub [OF assms(2)] s assms(6) by simp_all
  have c: "prevchild it = Inr (last s)" using prevchild_ok [of it "label (head t) p @ butlast s" "last s"] s assms(7) by simp
  obtain it1 where d: "raxIteratorDelChars it (length s) = Inr it1" "spot t it1 p" "it_eof it1 = it_eof it" "it_seeked it1 = it_seeked it"
    using del_chars_ok [of it "label (head t) p" s] s by (auto simp: spot_def)
  have it1: "\<not> it_eof it1" "\<not> it_seeked it1" using d(3,4) assms(4,5) by simp_all
  let ?i = "first_greater (last s) (rdata n)"
  let ?found = "\<not> rcompr n \<and> 0 < length (rdata n) \<and> ?i \<noteq> length (rdata n)"
  have "it\<lparr>it_node := Some p\<rparr> = it" using s by (cases it) simp
  then have "raxIteratorDelChars (it\<lparr>it_node := Some p\<rparr>) (if rcompr n then length (rdata n) else 1) = Inr it1" using d(1) assms(8) by simp
  then have eq: "next_up mal k t it True sv = (if ?found
      then let (_, it, k) = raxIteratorAddChars mal k it1 [rdata n ! ?i]; (ok, it, k) = it_push mal k it p
           in if \<not> ok then Inr (UpOom, it, k)
              else bindE (rd (rkids n) ?i) (\<lambda>c. Inr (if rkey c then UpKey else UpNode, enter (p @ [?i]) c it, k))
      else next_up mal k t it1 False sv)"
    using s c n(1) by (simp add: next_up.simps [of mal k t it] Let_def split del: if_split)
  have sub: "sum_list (map nnodes (drop i (rkids n))) \<le> nnodes n" for i
  proof -
    have "sum_list (map nnodes (rkids n)) = sum_list (map nnodes (take i (rkids n) @ drop i (rkids n)))" by simp
    also have "\<dots> \<ge> sum_list (map nnodes (drop i (rkids n)))" unfolding map_append sum_list_append by simp
    finally show ?thesis using nnodes_node [of n] by simp
  qed
  show ?thesis
  proof (cases ?found)
    case True
    then have "?i < length (rdata n)" using first_greater_le [of "last s" "rdata n"] by simp
    then obtain r it' k' where r: "next_up mal k t it True sv = Inr (r, it', k')"
      "landed_up t r it' (under (label (head t) p) (kids_from n ?i) @ up (head t) p) (sum_list (map nnodes (drop ?i (rkids n))) + upn (head t) p)"
      unfolding eq if_P [OF True] using scan_ok [OF assms(1,2) d(2) it1 assms(6), of ?i k] True by blast
    show ?thesis using r(1) landed_up_mono [OF r(2) add_right_mono [OF sub]] True by auto
  next
    case False
    have "(if rcompr n then [] else kids_from n ?i) = []"
      using False rwfD(2) [OF n(2)] by auto
    moreover obtain r it' k' where "next_up mal k t it True sv = Inr (r, it', k')" and r: "landed_up t r it' (up (head t) p) (upn (head t) p)"
      unfolding eq if_not_P [OF False] using next_up_ok [OF assms(1,2) d(2) it1, of k sv] by blast
    moreover have "landed_up t r it' (up (head t) p) (nnodes n + upn (head t) p)" using landed_up_mono [OF r] by simp
    ultimately show ?thesis by auto
  qed
qed

lemma next_past_ok:
  assumes "\<forall>k. mal k" "rwf (head t)" "past t it p s" "\<not> it_eof it" "\<not> it_seeked it" "n = sub (head t) p"
    "s \<noteq> []" "length s = (if rcompr n then length (rdata n) else 1)"
  shows "\<exists>it' k'. raxIteratorNextStep mal k t it True = Some (Inr (True, it', k')) \<and>
    landed t it' (under (label (head t) p) (if rcompr n then [] else kids_from n (first_greater (last s) (rdata n))) @ up (head t) p)"
proof -
  let ?xs = "under (label (head t) p) (if rcompr n then [] else kids_from n (first_greater (last s) (rdata n))) @ up (head t) p"
  obtain r it1 k1 where r: "next_up mal k t it True (save it) = Inr (r, it1, k1)" "landed_up t r it1 ?xs (nnodes n + upn (head t) p)"
    using next_up_past [OF assms] by blast
  have "cur_node t it = Inr (p, n)" using assms(3,6) node_at_sub [of "head t" p] by (auto simp: past_def cur_node_def)
  then have eq: "raxIteratorNextStep mal k t it True =
      (if r = UpNode then next_loop mal k1 t it1 False (save it) else Some (Inr (r \<noteq> UpOom, it1, k1)))"
    using assms(4,5) r(1) by (simp add: raxIteratorNextStep_def next_loop.simps [of mal k t it])
  show ?thesis
  proof (cases "r = UpEof")
    case True
    then show ?thesis using eq r(2) by (auto simp: landed_up_def landed_def split: if_splits)
  next
    case False
    then obtain q where q: "r = (if rkey (sub (head t) q) then UpKey else UpNode)" "spot t it1 q" "\<not> it_eof it1" "\<not> it_seeked it1"
      "rkey (sub (head t) q) \<longrightarrow> it_data it1 = get_data (sub (head t) q)"
      "?xs = under (label (head t) q) (own (sub (head t) q)) @ after (head t) q"
      using r(2) by (auto simp: landed_up_def)
    show ?thesis
    proof (cases "rkey (sub (head t) q)")
      case True
      then show ?thesis unfolding q(6) using eq q(1-5) landed_key [OF q(2)] by simp
    next
      case False
      then show ?thesis unfolding q(6) using eq q(1) next_loop_ok [OF assms(1,2) q(2-4), of k1 "save it"] by (auto simp: own_def)
    qed
  qed
qed

lemma next_step_ok:
  assumes "\<forall>k. mal k" "rwf (head t)" "spot t it p" "\<not> it_eof it" "\<not> it_seeked it"
  shows "\<exists>it' k'. raxIteratorNextStep mal k t it False = Some (Inr (True, it', k')) \<and> (it_eof it' \<or> \<not> it_seeked it') \<and> landed t it' (after (head t) p)"
  using next_loop_ok [OF assms, of k "save it"] assms(4,5) by (simp add: raxIteratorNextStep_def)

section \<open>Seeking\<close>

lemma index_in_child [simp]: "index_in q (q @ [j]) = Inr j"
  by (simp add: index_in_def)

lemma add_path_ok:
  "\<forall>k. mal k \<Longrightarrow> rwf (head t) \<Longrightarrow> vpath (head t) (q @ p) \<Longrightarrow> it_len it \<le> length (it_buf it) \<Longrightarrow>
   \<exists>it' k'. add_path mal k t it (map (\<lambda>i. q @ take i p) [0..<Suc (length p)]) = Inr (True, it', k') \<and>
     it_key it' = it_key it @ label (sub (head t) q) p \<and> it_len it' \<le> length (it_buf it') \<and>
     it_node it' = it_node it \<and> it_stack it' = it_stack it \<and> it_eof it' = it_eof it"
proof (induction p arbitrary: q it k)
  case (Cons j p)
  let ?n = "sub (head t) q" and ?rest = "map (\<lambda>i. (q @ [j]) @ take i p) [0..<Suc (length p)]"
  have v: "vpath (head t) q" "j < length (rkids ?n)" "vpath (head t) ((q @ [j]) @ p)" using Cons(4) by (auto simp: vpath_append)
  have n: "node_at (head t) q = Inr ?n" "rwf ?n" using node_at_sub [OF v(1)] rwf_sub [OF Cons(3) v(1)] by simp_all
  have items: "map (\<lambda>i. q @ take i (j # p)) [0..<Suc (length (j # p))] = q # ?rest"
    by (simp add: map_Suc_upt [symmetric] upt_conv_Cons del: upt_Suc)
  have rest: "?rest = (q @ [j]) # tl ?rest" by (simp add: upt_conv_Cons del: upt_Suc)
  have e: "(if rcompr ?n then Inr (rdata ?n) else bindE (index_in q (q @ [j])) (\<lambda>j. bindE (rd (rdata ?n) j) (\<lambda>c. Inr [c]))) = Inr (edge ?n j)"
    using v(2) rwfD(2) [OF n(2)] by (auto simp: edge_def rd_ok)
  obtain it1 k1 where a: "raxIteratorAddChars mal k it (edge ?n j) = (True, it1, k1)" "it_key it1 = it_key it @ edge ?n j"
    "it_len it1 \<le> length (it_buf it1)" "it_node it1 = it_node it" "it_stack it1 = it_stack it" "it_eof it1 = it_eof it"
    using add_chars_ok [OF Cons(2,5), of k "edge ?n j"] by auto
  have "add_path mal k t it (q # ?rest) = add_path mal k1 t it1 ?rest"
    by (subst (1 2) rest) (simp only: add_path.simps n(1) bindE_Inr e a(1) prod.case Let_def simp_thms if_False)
  then show ?case unfolding items using Cons(1) [OF Cons(2,3) v(3) a(3), of k1] a(2,4-6) by (simp add: sub_append del: upt_Suc)
qed (simp add: upt_rec)

text \<open>The elements after the node that a string leads to.\<close>

lemma above_node: "rwf h \<Longrightarrow> filter (\<lambda>(k, v). [] < k) (inorder h) = kids_from h 0"
proof -
  assume h: "rwf h"
  have "\<forall>(k, v) \<in> set (kids_from h 0). [] < k"
    using edge_nonempty [OF h] by (auto simp: in_kids_from Nil_less)
  then show ?thesis by (simp add: inorder_node [OF h] own_def filter_id_conv split_def)
qed

lemma landed_seeked [simp]: "landed t (it\<lparr>it_seeked := b\<rparr>) xs = landed t it xs"
  by (simp add: landed_def spot_def it_key_def split: list.splits)

lemma past_seeked [simp]: "past t (it\<lparr>it_seeked := b\<rparr>) p s = past t it p s" "spot t (it\<lparr>it_seeked := b\<rparr>) p = spot t it p"
  by (simp_all add: past_def spot_def it_key_def)

lemma then_seeked_ok:
  assumes "\<exists>it' k'. r = Some (Inr (True, it', k')) \<and> landed t it' xs"
  shows "\<exists>it' k'. then_seeked r = Some (Inr (True, it', k')) \<and> it_seeked it' \<and> landed t it' xs"
proof -
  obtain it' k' where "r = Some (Inr (True, it', k'))" "landed t it' xs" using assms by blast
  then show ?thesis by (intro exI [of _ "it'\<lparr>it_seeked := True\<rparr>"] exI [of _ k']) (simp add: then_seeked_def)
qed

text \<open>From the node where the walk stopped, the next elements are those above the string.\<close>

lemma elements_above:
  assumes "rwf (head t)" "stopped (head t) s i p h j r"
  shows "filter (\<lambda>(k, v). s < k) (inorder (head t)) =
    under (label (head t) p)
      (if r = [] \<or> rcompr h \<and> (j = length r \<or> r ! j < rdata h ! j) then kids_from h 0
       else if rcompr h then [] else kids_from h (first_greater (hd r) (rdata h))) @ up (head t) p"
proof -
  note s = assms(2) [unfolded stopped_def]
  have p: "vpath (head t) p" "h = sub (head t) p" "s = label (head t) p @ r" using s by simp_all
  have h: "rwf h" using stopped_lookup(3) [OF assms] .
  have "filter (\<lambda>(k, v). r < k) (inorder h) =
      (if r = [] \<or> rcompr h \<and> (j = length r \<or> r ! j < rdata h ! j) then kids_from h 0
       else if rcompr h then [] else kids_from h (first_greater (hd r) (rdata h)))"
  proof (cases "r = []")
    case True
    then show ?thesis using above_node [OF h] by simp
  next
    case False
    then show ?thesis using from_branch(2) [OF h _ False] from_compr(2) [OF h _ False, of j] s by (auto split: if_splits)
  qed
  then show ?thesis using inorder_from(2) [OF assms(1) p(1), of r] p by simp
qed

lemma rebuild_ok:
  assumes "\<forall>k. mal k" "rwf (head t)" "vpath (head t) p" "it_node it = Some p" "st_items (it_stack it) = ancestors p" "it_len it = 0" "\<not> it_eof it"
  shows "\<exists>it1 k1 it2 k2. it_push mal k it p = (True, it1, k1) \<and> add_path mal k1 t it1 (st_items (it_stack it1)) = Inr (True, it2, k2) \<and>
    spot t (it2\<lparr>it_stack := snd (raxStackPop (it_stack it2))\<rparr>) p \<and> \<not> it_eof it2"
proof -
  obtain ts k1 where ts: "it_push mal k it p = (True, it\<lparr>it_stack := ts\<rparr>, k1)" "st_items ts = ancestors p @ [p]"
    using push_ok [OF assms(1), of k it p] assms(5) by auto
  let ?it = "it\<lparr>it_stack := ts\<rparr>"
  have items: "st_items ts = map (\<lambda>i. [] @ take i p) [0..<Suc (length p)]" using ts(2) by (simp add: ancestors_def)
  obtain it1 k2 where a: "add_path mal k1 t ?it (st_items ts) = Inr (True, it1, k2)" "it_key it1 = label (head t) p" "it_len it1 \<le> length (it_buf it1)"
    "it_node it1 = Some p" "it_stack it1 = ts" "it_eof it1 = it_eof it"
    using add_path_ok [OF assms(1,2), of "[]" p ?it k1] assms(3,4,6) unfolding items by (auto simp: it_key_def)
  have "spot t (it1\<lparr>it_stack := snd (raxStackPop (it_stack it1))\<rparr>) p"
    using a(2-5) ts(2) assms(3) by (simp add: spot_def it_key_def raxStackPop_def)
  then show ?thesis using ts(1) a(1,6) assms(7) by auto
qed

lemma mismatch_ok:
  assumes "\<forall>k. mal k" "rwf (head t)" "stopped (head t) s i p h j r" "rcompr h" "i \<noteq> length s" "spot t it p" "\<not> it_eof it" "\<not> it_seeked it"
  shows "\<exists>it' k'. seek_mismatch mal k t it True p h (rdata h ! j) (s ! i) = Some (Inr (True, it', k')) \<and>
    landed t it' (filter (\<lambda>(k, v). s < k) (inorder (head t)))"
proof -
  note s = assms(3) [unfolded stopped_def]
  have r: "r \<noteq> []" "j \<noteq> length r" "s ! i = r ! j" "h = sub (head t) p" using s assms(4,5) by (auto simp: nth_append)
  show ?thesis
  proof (cases "r ! j < rdata h ! j")
    case True
    have "filter (\<lambda>(k, v). s < k) (inorder (head t)) = after (head t) p"
      using elements_above [OF assms(2,3)] True assms(4) r(4) by (simp add: after_def)
    then show ?thesis using next_step_ok [OF assms(1,2,6-8), of k] True r(3) by (auto simp: seek_mismatch_def)
  next
    case False
    obtain it1 k1 where a: "raxIteratorAddChars mal k it (rdata h) = (True, it1, k1)" "past t it1 p (rdata h)" "it_eof it1 = it_eof it" "it_seeked it1 = it_seeked it"
      using past_add [OF assms(1,6)] by blast
    have "filter (\<lambda>(k, v). s < k) (inorder (head t)) = up (head t) p"
      using elements_above [OF assms(2,3)] False assms(4) r(1,2) by simp
    moreover have "rdata h \<noteq> []" using s assms(4) by auto
    ultimately show ?thesis using next_past_ok [OF assms(1,2) a(2) _ _ r(4), of k1] a assms(4,7,8) False r(3) by (auto simp: seek_mismatch_def seek_step_def)
  qed
qed

lemma seek_near_ok:
  assumes "\<forall>k. mal k" "rwf (head t)" "stopped (head t) s i p h j r" "it_node it = Some p" "st_items (it_stack it) = ancestors p"
    "it_len it = 0" "\<not> it_eof it"
  shows "\<exists>it' k'. seek_near mal k t it True s i p h j = Some (Inr (True, it', k')) \<and> it_seeked it' \<and>
    landed t it' (filter (\<lambda>(k, v). s < k) (inorder (head t)))"
proof -
  note s = assms(3) [unfolded stopped_def]
  have p: "vpath (head t) p" "h = sub (head t) p" using s by auto
  have ab: "filter (\<lambda>(k, v). s < k) (inorder (head t)) = after (head t) p" if "i = length s"
    using elements_above [OF assms(2,3)] s that by (auto simp: after_def split: if_splits)
  obtain it1 k1 it2 k2 where b: "it_push mal k it p = (True, it1, k1)" "add_path mal k1 t it1 (st_items (it_stack it1)) = Inr (True, it2, k2)"
    "spot t (it2\<lparr>it_stack := snd (raxStackPop (it_stack it2))\<rparr>) p" "\<not> it_eof it2"
    using rebuild_ok [OF assms(1,2) p(1) assms(4-7)] by blast
  define it3 where "it3 = it2\<lparr>it_stack := snd (raxStackPop (it_stack it2))\<rparr>"
  have it3: "spot t it3 p" "\<not> it_eof it3" using b(3,4) by (simp_all add: it3_def)
  let ?it = "it3\<lparr>it_seeked := False\<rparr>"
  have it: "spot t ?it p" "\<not> it_eof ?it" "\<not> it_seeked ?it" using it3 by simp_all
  have eq: "seek_near mal k t it True s i p h j =
      (if i \<noteq> length s \<and> \<not> rcompr h
       then case raxIteratorAddChars mal k2 it3 [s ! i] of (ok, it, k) \<Rightarrow>
            if \<not> ok then Some (Inr (False, it, k)) else then_seeked (seek_step mal k t (it\<lparr>it_seeked := False\<rparr>) True True)
       else then_seeked (if i \<noteq> length s then seek_mismatch mal k2 t ?it True p h (rdata h ! j) (s ! i) else raxIteratorNextStep mal k2 t ?it False))"
    using b(1,2) by (simp add: seek_near_def it3_def seek_step_def Let_def)
  show ?thesis
  proof (cases "i \<noteq> length s \<and> \<not> rcompr h")
    case True
    then have r: "r \<noteq> []" "s ! i = hd r" using s by (auto simp: nth_append hd_conv_nth)
    obtain it4 k4 where a: "raxIteratorAddChars mal k2 it3 [s ! i] = (True, it4, k4)" "past t it4 p [s ! i]" "it_eof it4 = it_eof it3"
      using past_add [OF assms(1) it3(1)] by blast
    have "\<exists>it' k'. raxIteratorNextStep mal k4 t (it4\<lparr>it_seeked := False\<rparr>) True = Some (Inr (True, it', k')) \<and>
        landed t it' (filter (\<lambda>(k, v). s < k) (inorder (head t)))"
      using next_past_ok [OF assms(1,2), of "it4\<lparr>it_seeked := False\<rparr>" p "[s ! i]" h k4] a(2,3) it3(2) p(2) True r elements_above [OF assms(2,3)] by simp
    then show ?thesis unfolding eq if_P [OF True] using then_seeked_ok a(1) by (simp add: seek_step_def)
  next
    case False
    then show ?thesis unfolding eq if_not_P [OF False]
      using then_seeked_ok mismatch_ok [OF assms(1-3) _ _ it, of k2] next_step_ok [OF assms(1,2) it, of k2] ab by (cases "i = length s") (simp_all, blast)
  qed
qed

lemma push_path_ok:
  assumes "push_path mal k ts [] p = (ts', k')" "\<forall>k. mal k" "st_items ts = []" "\<not> st_oom ts"
  shows "\<not> st_oom ts'" "st_items ts' = ancestors p"
  using push_path_mal [OF assms(1,2)] push_path_items [OF assms(1)] assms(3,4) by (simp_all add: ancestors_def)

lemma seek_key_ok:
  assumes "\<forall>k. mal k" "rwf (head t)" "st_items (it_stack it) = []" "\<not> st_oom (it_stack it)" "it_len it = 0" "\<not> it_eof it" "it_seeked it"
  shows "\<exists>it' k'. seek_key mal k t it eq False True s = Some (Inr (True, it', k')) \<and> it_seeked it' \<and>
    landed t it' (filter (\<lambda>(k, v). if eq then s \<le> k else s < k) (inorder (head t)))"
proof -
  obtain i p h j r where w: "walk (head t) s = Inr (i, p, h, j)" "stopped (head t) s i p h j r" using walk_stopped [OF assms(2)] by blast
  obtain ts k1 where ts: "push_path mal k (it_stack it) [] p = (ts, k1)" by fastforce
  note ts1 = push_path_ok [OF ts assms(1,3,4)]
  define it1 where "it1 = it\<lparr>it_node := Some p, it_stack := ts\<rparr>"
  have it1: "it_node it1 = Some p" "st_items (it_stack it1) = ancestors p" "it_len it1 = 0" "\<not> it_eof it1" "it_seeked it1"
    using ts1 assms(5-7) by (simp_all add: it1_def)
  have p: "vpath (head t) p" "h = sub (head t) p" "s = label (head t) p @ r" using w(2) by (auto simp: stopped_def)
  note hit = stopped_lookup [OF assms(2) w(2)]
  have hit_iff: "eq \<and> r = [] \<and> rkey h \<longleftrightarrow> eq \<and> i = length s \<and> (\<not> rcompr h \<or> j = 0) \<and> rkey h" using hit(2) by blast
  have eq1: "seek_key mal k t it eq False True s =
      (if eq \<and> r = [] \<and> rkey h
       then case raxIteratorAddChars mal k1 it1 s of (ok, it, k) \<Rightarrow>
            if \<not> ok then Some (Inr (False, it, k)) else Some (Inr (True, it\<lparr>it_data := get_data h\<rparr>, k))
       else seek_near mal k1 t it1 True s i p h j)"
    unfolding hit_iff using w(1) ts ts1(1) by (auto simp: seek_key_def Let_def it1_def)
  show ?thesis
  proof (cases "eq \<and> r = [] \<and> rkey h")
    case True
    obtain it2 k2 where a: "raxIteratorAddChars mal k1 it1 s = (True, it2, k2)" "it_key it2 = it_key it1 @ s" "it_len it2 \<le> length (it_buf it2)"
      "it_node it2 = it_node it1" "it_stack it2 = it_stack it1" "it_eof it2 = it_eof it1" "it_seeked it2 = it_seeked it1"
      using add_chars_ok [OF assms(1), of it1 k1 s] it1(3) by auto
    have "landed t (it2\<lparr>it_data := get_data h\<rparr>) (under (label (head t) p) (own (sub (head t) p)) @ after (head t) p)"
      using a it1 True p by (intro landed_key) (simp_all add: spot_def it_key_def)
    moreover have "filter (\<lambda>(k, v). s \<le> k) (inorder (head t)) = under (label (head t) p) (own (sub (head t) p)) @ after (head t) p"
      using inorder_from(1) [OF assms(2) p(1), of r] True p inorder_node [OF hit(3)] by (simp add: after_def)
    ultimately show ?thesis unfolding eq1 if_P [OF True] using True a(1,7) it1(5) by simp
  next
    case False
    have none: "v \<noteq> Some x" if "eq" "v = rlookup (head t) s" for v x using False hit(1) that by auto
    have "filter (\<lambda>(k, v). s \<le> k) (inorder (head t)) = filter (\<lambda>(k, v). s < k) (inorder (head t))" if "eq"
      using none [OF that] inorder_mem [OF assms(2)] by (intro filter_cong) (auto simp: order_le_less)
    then show ?thesis unfolding eq1 if_not_P [OF False] using seek_near_ok [OF assms(1,2) w(2) it1(1-4), of k1] by (cases eq) simp_all
  qed
qed

lemma seek_forward_ok:
  assumes "\<forall>k. mal k" "rax_ok t" "\<not> st_oom (it_stack it)" "opr \<in> {''>'', ''>='', ''^''}"
  shows "\<exists>it' k'. raxSeek mal k t it opr s = Some (Inr (True, it', k')) \<and> it_seeked it' \<and>
    landed t it' (filter (\<lambda>(k, v). if opr = ''>='' then s \<le> k else if opr = ''>'' then s < k else True) (inorder (head t)))"
proof -
  have w: "rwf (head t)" "numele t = nkeys (head t)" using assms(2) by (simp_all add: rax_ok_def)
  have st: "st_items (it_stack (seek_reset i)) = []" "it_len (seek_reset i) = 0" "\<not> it_eof (seek_reset i)" "it_seeked (seek_reset i)"
    "st_oom (it_stack (seek_reset i)) = st_oom (it_stack i)" for i :: "'a raxIterator" by (simp_all add: seek_reset_def set_items_def)
  note key = seek_key_ok [OF assms(1) w(1) st(1) _ st(2-4), unfolded st(5)]
  show ?thesis
  proof (cases "numele t = 0")
    case True
    then have "inorder (head t) = []" using w length_inorder [OF w(1)] by simp
    then show ?thesis using True assms(4) st(4) by (auto simp: raxSeek_def op_char_def Let_def landed_def)
  next
    case False
    from assms(4) consider "opr = ''>''" | "opr = ''>=''" | "opr = ''^''" by blast
    then show ?thesis
    proof cases
      case 1
      then show ?thesis using False key [OF assms(3), of k False s] by (simp add: raxSeek_def op_char_def Let_def)
    next
      case 2
      then show ?thesis using False key [OF assms(3), of k True s] by (simp add: raxSeek_def op_char_def Let_def)
    next
      case 3
      then show ?thesis using False key [of "seek_reset it" k True "[]"] assms(3) by (simp add: raxSeek_def op_char_def Let_def st(5))
    qed
  qed
qed

section \<open>Enumerating\<close>

text \<open>A client that calls \<open>raxNext\<close> until it returns 0, at most \<open>fuel\<close> times, and collects the keys and the values. It gives up
  when \<open>raxNext\<close> is out of memory or returns 0 before the end.\<close>

fun enumerate_next :: "nat \<Rightarrow> (nat \<Rightarrow> bool) \<Rightarrow> nat \<Rightarrow> 'v rax \<Rightarrow> 'v raxIterator \<Rightarrow> (byte list \<times> 'v option) list option" where
  "enumerate_next 0 mal k t it = None"
| "enumerate_next (Suc fuel) mal k t it =
     (case raxNext mal k t it of
        Some (Inr (True, _, it, k)) \<Rightarrow> map_option (\<lambda>xs. (it_key it, it_data it) # xs) (enumerate_next fuel mal k t it)
      | Some (Inr (False, False, it, k)) \<Rightarrow> if raxEOF it then Some [] else None
      | _ \<Rightarrow> None)"

lemma enumerate_after:
  assumes "\<forall>k. mal k" "rwf (head t)"
  shows "spot t it p \<Longrightarrow> \<not> it_eof it \<Longrightarrow> \<not> it_seeked it \<Longrightarrow> after (head t) p = xs \<Longrightarrow> length xs < fuel \<Longrightarrow> enumerate_next fuel mal k t it = Some xs"
proof (induction fuel arbitrary: xs it p k)
  case (Suc fuel)
  obtain it' k' where n: "raxIteratorNextStep mal k t it False = Some (Inr (True, it', k'))" "it_eof it' \<or> \<not> it_seeked it'" "landed t it' xs"
    using next_step_ok [OF assms Suc(2-4), of k] Suc(5) by blast
  show ?case
  proof (cases xs)
    case Nil
    then show ?thesis using n by (simp add: raxNext_def step_result_def landed_def raxEOF_def)
  next
    case (Cons x ys)
    obtain s v where x: "x = (s, v)" by fastforce
    obtain q where q: "spot t it' q" "after (head t) q = ys" "\<not> it_eof it'" "it_key it' = s" "it_data it' = v" using n(3) Cons x by (auto simp: landed_def)
    then show ?thesis using Suc(1) [OF q(1,3) _ q(2), of k'] n(1,2) Suc(6) Cons x by (simp add: raxNext_def step_result_def)
  qed
qed simp

text \<open>The first call after a seek returns the element found.\<close>

lemma enumerate_landed:
  assumes "\<forall>k. mal k" "rwf (head t)" "it_seeked it" "landed t it xs" "length xs < fuel"
  shows "enumerate_next fuel mal k t it = Some xs"
proof -
  obtain m where m: "fuel = Suc m" using assms(5) by (cases fuel) auto
  show ?thesis
  proof (cases xs)
    case Nil
    then show ?thesis using assms(4) m by (simp add: raxNext_def raxIteratorNextStep_def step_result_def landed_def raxEOF_def)
  next
    case (Cons x ys)
    obtain s v where x: "x = (s, v)" by fastforce
    let ?it = "it\<lparr>it_seeked := False\<rparr>"
    obtain q where q: "spot t ?it q" "after (head t) q = ys" "\<not> it_eof it" "it_key ?it = s" "it_data it = v"
      using assms(4) Cons x by (auto simp: landed_def it_key_def)
    then show ?thesis using enumerate_after [OF assms(1,2) q(1) _ _ q(2), of m k] assms(3,5) Cons x m
      by (simp add: raxNext_def raxIteratorNextStep_def step_result_def)
  qed
qed

text \<open>C2: On a well-formed tree with the count of its elements, \<open>raxSeek\<close> with \<open>>\<close>, \<open>>=\<close> or \<open>^\<close> succeeds while memory suffices, whatever
  the iterator held; the calls of \<open>raxNext\<close> that follow end, and return every stored key above the one given, or from it on, or
  every stored key, with its value, once, in ascending order, before they return 0 with the iterator at \<open>EOF\<close>.\<close>

theorem raxSeek_enumerates:
  assumes "\<forall>k. mal k" "rax_ok t" "\<not> st_oom (it_stack it)" "opr \<in> {''>'', ''>='', ''^''}"
  shows "\<exists>it' k' xs. raxSeek mal k t it opr s = Some (Inr (True, it', k')) \<and> enumerate_next (Suc (raxSize t)) mal k' t it' = Some xs \<and>
    sorted_wrt (<) (map fst xs) \<and>
    set xs = {(x, v). rlookup (head t) x = Some v \<and> (if opr = ''>='' then s \<le> x else if opr = ''>'' then s < x else True)}"
proof -
  let ?P = "\<lambda>(x, v :: 'a option). if opr = ''>='' then s \<le> x else if opr = ''>'' then s < x else True"
  have w: "rwf (head t)" "raxSize t = length (inorder (head t))" using assms(2) length_inorder [of "head t"] by (simp_all add: rax_ok_def raxSize_def)
  obtain it' k' where r: "raxSeek mal k t it opr s = Some (Inr (True, it', k'))" "it_seeked it'" "landed t it' (filter ?P (inorder (head t)))"
    using seek_forward_ok [OF assms] by blast
  have "length (filter ?P (inorder (head t))) < Suc (raxSize t)" unfolding w(2) by (simp add: less_Suc_eq_le)
  then have "enumerate_next (Suc (raxSize t)) mal k' t it' = Some (filter ?P (inorder (head t)))" by (rule enumerate_landed [OF assms(1) w(1) r(2,3)])
  moreover have "sorted_wrt (<) (map fst (filter ?P (inorder (head t))))"
    using inorder_sorted [OF w(1)] unfolding sorted_wrt_map by (rule sorted_wrt_filter)
  moreover have "set (filter ?P (inorder (head t))) = {(x, v). rlookup (head t) x = Some v \<and>
      (if opr = ''>='' then s \<le> x else if opr = ''>'' then s < x else True)}"
    using inorder_mem [OF w(1)] by auto
  ultimately show ?thesis using r(1) by blast
qed

theorem raxSeek_enumerates_witness:
  "\<exists>it' k' xs. raxSeek (\<lambda>k. True) 0 foo_tree raxStart ''>='' [70, 79] = Some (Inr (True, it', k')) \<and>
    enumerate_next (Suc (raxSize foo_tree)) (\<lambda>k. True) k' foo_tree it' = Some xs \<and> sorted_wrt (<) (map fst xs) \<and>
    set xs = {(x, v). rlookup (head foo_tree) x = Some v \<and> (if ''>='' = ''>='' then [70, 79] \<le> x else if ''>='' = ''>'' then [70, 79] < x else True)}"
  by (rule raxSeek_enumerates) (simp_all add: foo_tree_ok raxStart_def raxStackInit_def)

section \<open>Seeking backward\<close>

definition f_foobar :: "nat rax" where
  "f_foobar = \<lparr>head = RNode False False False [102] None
       [RNode True False True [111, 111, 98, 97, 114] (Some 1) [RNode True False False [] (Some 2) []]],
     numele = 2, numnodes = 3\<rparr>"

text \<open>The example of a comment of \<open>raxSeek\<close>: with the keys \<open>f\<close> and \<open>foobar\<close>, seeking below \<open>foo\<close> finds the key \<open>f\<close>, but the data of the
  iterator is still the one it had before, here that of \<open>foobar\<close>.\<close>

lemma raxSeek_below_stale_data:
  "(case raxSeek (\<lambda>k. True) 0 f_foobar raxStart ''$'' [] of
      Some (Inr (True, it, k)) \<Rightarrow>
        (case raxSeek (\<lambda>k. True) k f_foobar it ''<'' [102, 111, 111] of
           Some (Inr (True, it', _)) \<Rightarrow> Some (it_key it', it_data it', rlookup (head f_foobar) (it_key it'))
         | _ \<Rightarrow> None)
    | _ \<Rightarrow> None) = Some ([102], Some 2, Some (Some 1))"
  by code_simp

section \<open>Random walks\<close>

lemma walk_up_ok:
  assumes "rwf (head t)" "spot t (it\<lparr>it_node := Some p\<rparr>) p" "p \<noteq> []" "q = butlast p"
  shows "\<exists>ts it'. raxStackPop (it_stack it) = (Some q, ts) \<and> node_at (head t) q = Inr (sub (head t) q) \<and>
    raxIteratorDelChars (it\<lparr>it_stack := ts\<rparr>) (if rcompr (sub (head t) q) then length (rdata (sub (head t) q)) else 1) = Inr it' \<and>
    spot t (it'\<lparr>it_node := Some q\<rparr>) q"
proof -
  have p: "p = q @ [last p]" using assms(3,4) by simp
  let ?m = "if rcompr (sub (head t) q) then length (rdata (sub (head t) q)) else 1"
  obtain ts it1 where b: "raxStackPop (it_stack it) = (Some q, ts)" "raxIteratorDelChars (it\<lparr>it_node := Some q, it_stack := ts\<rparr>) ?m = Inr it1" "spot t it1 q"
    using step_back_ok [of t "it\<lparr>it_node := Some p\<rparr>" q "last p"] assms(1,2) p by auto
  have "vpath (head t) q" using b(3) by (simp add: spot_def)
  then show ?thesis using b node_at_sub [of "head t" q] by (auto simp: raxIteratorDelChars_def spot_def it_key_def split: if_splits)
qed

lemma walk_down_ok:
  assumes "\<forall>k. mal k" "spot t (it\<lparr>it_node := Some p\<rparr>) p" "j < length (rkids (sub (head t) p))"
  shows "\<exists>it1 k1 it2 k2. raxIteratorAddChars mal k it (edge (sub (head t) p) j) = (True, it1, k1) \<and> it_push mal k1 it1 p = (True, it2, k2) \<and>
    spot t (it2\<lparr>it_node := Some (p @ [j])\<rparr>) (p @ [j])"
proof -
  have it: "vpath (head t) p" "st_items (it_stack it) = ancestors p" "it_key it = label (head t) p" "it_len it \<le> length (it_buf it)"
    using assms(2) by (simp_all add: spot_def it_key_def)
  obtain it1 k1 where a: "raxIteratorAddChars mal k it (edge (sub (head t) p) j) = (True, it1, k1)" "it_key it1 = it_key it @ edge (sub (head t) p) j"
    "it_len it1 \<le> length (it_buf it1)" "it_stack it1 = it_stack it"
    using add_chars_ok [OF assms(1) it(4), of k "edge (sub (head t) p) j"] by auto
  obtain ts k2 where p: "it_push mal k1 it1 p = (True, it1\<lparr>it_stack := ts\<rparr>, k2)" "st_items ts = st_items (it_stack it1) @ [p]"
    using push_ok [OF assms(1)] by blast
  have "spot t (it1\<lparr>it_stack := ts, it_node := Some (p @ [j])\<rparr>) (p @ [j])"
    using it a(2-4) p(2) assms(3) by (simp add: spot_def it_key_def vpath_append label_append)
  then show ?thesis using a(1) p(1) by auto
qed

text \<open>A random walk that starts where an iteration can be does not fault, unless the only node is the root: there the code divides
  by zero. When it returns, memory sufficing, the iterator is at a stored key.\<close>

lemma random_loop_ok:
  assumes "random_loop rnd r mal k t it p steps = Some res" "\<forall>k. mal k" "rwf (head t)" "rkids (head t) \<noteq> []" "spot t (it\<lparr>it_node := Some p\<rparr>) p"
  shows "\<exists>it' k' q. res = Inr (True, it', k') \<and> spot t it' q \<and> rkey (sub (head t) q)"
  using assms
proof (induction rnd r mal k t it p steps res rule: random_loop.raw_induct [rotated, consumes 1])
  case (1 loop rnd r mal k t it p steps res)
  note prem = 1(3-6)
  let ?n = "sub (head t) p"
  have v: "vpath (head t) p" using prem(4) by (simp add: spot_def)
  have n: "node_at (head t) p = Inr ?n" "rwf ?n" using node_at_sub [OF v] rwf_sub [OF prem(2) v] by simp_all
  define kids choices where "kids = length (rkids ?n)" and "choices = kids + (if p \<noteq> [] then 1 else 0)"
  let ?i = "rnd r mod choices"
  have kids: "(if rcompr ?n then 1 else length (rdata ?n)) = kids" using rwfD(1,2) [OF n(2)] by (auto simp: kids_def)
  have pos: "0 < choices" using prem(3) by (auto simp: choices_def kids_def)
  note body = 1(2) [unfolded n(1) sum.case Let_def kids choices_def [symmetric]]
  show ?case
  proof (cases "0 < steps \<or> \<not> rkey ?n")
    case False
    then show ?thesis using body prem(4) by auto
  next
    case go: True
    show ?thesis
    proof (cases "?i = kids")
      case True
      then have p: "p \<noteq> []" using pos mod_less_divisor [of choices "rnd r"] by (auto simp: choices_def split: if_splits)
      let ?q = "butlast p"
      obtain ts it1 where b: "raxStackPop (it_stack it) = (Some ?q, ts)" "node_at (head t) ?q = Inr (sub (head t) ?q)"
        "raxIteratorDelChars (it\<lparr>it_stack := ts\<rparr>) (if rcompr (sub (head t) ?q) then length (rdata (sub (head t) ?q)) else 1) = Inr it1"
        "spot t (it1\<lparr>it_node := Some ?q\<rparr>) ?q"
        using walk_up_ok [OF prem(2,4) p refl] by blast
      have "loop rnd (Suc r) mal k t it1 ?q (walk_steps steps (sub (head t) ?q)) = Some res"
        using body go True pos b(1-3) by (simp split del: if_split)
      then show ?thesis using 1(1) prem(1-3) b(4) by blast
    next
      case False
      have "?i < choices" using pos by simp
      moreover have "choices \<le> Suc kids" by (simp add: choices_def)
      ultimately have i: "?i < length (rkids ?n)" using False by (simp add: kids_def)
      obtain it1 k1 it2 k2 where d: "raxIteratorAddChars mal k it (edge ?n ?i) = (True, it1, k1)" "it_push mal k1 it1 p = (True, it2, k2)"
        "spot t (it2\<lparr>it_node := Some (p @ [?i])\<rparr>) (p @ [?i])"
        using walk_down_ok [OF prem(1,4) i] by blast
      have "loop rnd (Suc r) mal k2 t it2 (p @ [?i]) (walk_steps steps (rkids ?n ! ?i)) = Some res"
        using body go False pos d(1,2) i by (simp add: rd_ok edge_def split del: if_split)
      then show ?thesis using 1(1) prem(1-3) d(3) by blast
    qed
  qed
qed

text \<open>With one element or two, twice the floor of the logarithm is 0, and a walk of a random number of steps divides by it. On a tree
  that has only the empty key every walk divides by zero.\<close>

lemma raxRandomWalk_divides_by_zero:
  "flog 2 = 0 \<Longrightarrow> raxRandomWalk rnd flog mal k f_foobar it 0 = Some (Inl DivByZero)"
  "steps \<noteq> 0 \<Longrightarrow> it_node it = Some [] \<Longrightarrow>
   raxRandomWalk rnd flog mal k \<lparr>head = RNode True False False [] (Some 1) [], numele = 1, numnodes = 1\<rparr> it steps = Some (Inl DivByZero)"
  by (simp_all add: raxRandomWalk_def f_foobar_def random_loop.simps word_gt_0)

section \<open>Comparing\<close>

lemma memcmp_take: "memcmp (take (min (length b) (length a)) a) (take (min (length b) (length a)) b) = memcmp a b"
  by (induction a b rule: memcmp.induct) auto

lemma memcmp_less: "a < b \<longleftrightarrow> memcmp a b < 0 \<or> memcmp a b = 0 \<and> length a < length b"
  by (induction a b rule: memcmp.induct) (auto simp: word_less_def word_uint_eq_iff Nil_less)

lemma memcmp_eq: "a = b \<longleftrightarrow> memcmp a b = 0 \<and> length a = length b"
  using memcmp_zero_iff [of a b] by auto

text \<open>\<open>raxCompare\<close> compares the key of the iterator with the given one in the order in which \<open>raxNext\<close> enumerates the keys, with each
  of its five operators.\<close>

theorem raxCompare_order:
  assumes "it_len it \<le> length (it_buf it)"
  shows "raxCompare it ''<'' x = (it_key it < x) \<and> raxCompare it ''<='' x = (it_key it \<le> x) \<and> raxCompare it ''>'' x = (x < it_key it) \<and>
    raxCompare it ''>='' x = (x \<le> it_key it) \<and> raxCompare it ''=='' x = (it_key it = x)"
proof -
  have len: "it_len it = length (it_key it)" using length_it_key [OF assms] by simp
  show ?thesis unfolding raxCompare_def len Let_def memcmp_take
    by (auto simp: op_char_def memcmp_less memcmp_eq memcmp_swap [of x] order_le_less)
qed

definition at_f :: "nat raxIterator" where
  "at_f = raxStart\<lparr>it_buf := [102, 111, 111], it_len := 1\<rparr>"

theorem raxCompare_order_witness:
  "it_key at_f = [102] \<and> raxCompare at_f ''<'' [102, 111] = (it_key at_f < [102, 111]) \<and> raxCompare at_f ''<='' [102, 111] = (it_key at_f \<le> [102, 111]) \<and>
    raxCompare at_f ''>'' [102, 111] = ([102, 111] < it_key at_f) \<and> raxCompare at_f ''>='' [102, 111] = ([102, 111] \<le> it_key at_f) \<and>
    raxCompare at_f ''=='' [102, 111] = (it_key at_f = [102, 111])"
  using raxCompare_order [of at_f "[102, 111]"] by (simp add: at_f_def it_key_def)

end
