(* ===== verification/Net_Reply.thy ===== *)
theory Net_Reply
  imports Sds_Args
begin

text \<open>
  The reply side of \<open>networking.c\<close>: the output buffers of a client, the functions that append a reply in the Redis protocol to
  them, and the limits on their size. A client has a static buffer and a list of reply blocks; \<open>NULL\<close> in the list (here
  \<open>None\<close>) holds the place of a length that is filled in later. The list is an adlist, used through what \<open>Adlist\<close> shows: it is
  the sequence of its values. A node of it is named by its position.

  What the sources call but do not hold is in the environment \<open>net_env\<close>: the block that the allocator gives for a reply block
  (\<open>zmalloc_usable\<close> tells its size), \<open>ll2string\<close>, the shared objects of \<open>createSharedObjects\<close>, and two constants. Flags are the
  set of the \<open>CLIENT_\<close> bits that are on. Messages to the log are left out.
\<close>

section \<open>Clients\<close>

datatype client_flag =
    CLIENT_SLAVE | CLIENT_MASTER | CLIENT_MONITOR | CLIENT_PUBSUB | CLIENT_MULTI | CLIENT_BLOCKED | CLIENT_CLOSE_AFTER_REPLY
  | CLIENT_LUA | CLIENT_MODULE | CLIENT_ASKING | CLIENT_CLOSE_ASAP | CLIENT_REPLY_OFF | CLIENT_REPLY_SKIP | CLIENT_REPLY_SKIP_NEXT
  | CLIENT_MASTER_FORCE_REPLY | CLIENT_PENDING_WRITE | CLIENT_PENDING_READ | CLIENT_PENDING_COMMAND | CLIENT_PROTECTED

datatype repl_state = REPL_STATE_NONE | SLAVE_STATE_ONLINE | REPL_STATE_OTHER

definition PROTO_REPLY_CHUNK_BYTES :: nat where "PROTO_REPLY_CHUNK_BYTES = 16 * 1024"

text \<open>A reply block; its \<open>size\<close> is the length of its buffer.\<close>

record clientReplyBlock =
  blk_used :: nat
  blk_buf :: "byte list"

definition blk_size :: "clientReplyBlock \<Rightarrow> nat" where
  "blk_size b = length (blk_buf b)"

record client =
  c_id :: nat
  c_fd :: int
  c_resp :: int
  c_flags :: "client_flag set"
  c_replstate :: repl_state
  c_repl_put_online_on_ack :: bool
  c_reply :: "clientReplyBlock option list"
  c_reply_bytes :: "64 word"
  c_sentlen :: nat
  c_bufpos :: nat
  c_buf :: "byte list"
  c_obuf_soft_limit_reached_time :: int
  c_lastinteraction :: int

datatype client_class = CLIENT_TYPE_NORMAL | CLIENT_TYPE_SLAVE | CLIENT_TYPE_PUBSUB | CLIENT_TYPE_MASTER

record clientBufferLimitsConfig =
  hard_limit_bytes :: "64 word"
  soft_limit_bytes :: "64 word"
  soft_limit_seconds :: int

text \<open>The part of the server state that the buffers of the clients touch. The lists hold the clients by number; \<open>write_handlers\<close> and
  \<open>read_handlers\<close> are the descriptors for which the event loop has a handler. \<open>world\<close> is the state of the operating system.\<close>

record 'w redisServer =
  clients_pending_write :: "nat list"
  clients_to_close :: "nat list"
  clients_pending_read :: "nat list"
  write_handlers :: "int set"
  read_handlers :: "int set"
  unixtime :: int
  mstime :: int
  clients_paused :: bool
  clients_pause_end_time :: int
  lua_timedout :: bool
  current_client :: "nat option"
  stat_net_output_bytes :: nat
  stat_net_input_bytes :: nat
  maxmemory :: nat
  client_obuf_limits :: "client_class \<Rightarrow> clientBufferLimitsConfig"
  aof_on :: bool
  aof_fsync_always :: bool
  world :: 'w

record net_env =
  new_block :: "nat \<Rightarrow> byte list"
  list_item_size :: nat
  ll2string :: "int \<Rightarrow> byte list"
  shared_mbulkhdr :: "nat \<Rightarrow> byte list"
  shared_bulkhdr :: "nat \<Rightarrow> byte list"
  OBJ_SHARED_BULKHDR_LEN :: nat

type_synonym 'w sc = "'w redisServer \<times> client"

definition set_flag :: "client_flag \<Rightarrow> client \<Rightarrow> client" where
  "set_flag f c = c\<lparr>c_flags := insert f (c_flags c)\<rparr>"

definition clear_flag :: "client_flag \<Rightarrow> client \<Rightarrow> client" where
  "clear_flag f c = c\<lparr>c_flags := c_flags c - {f}\<rparr>"

section \<open>Scheduling and closing\<close>

definition clientHasPendingReplies :: "client \<Rightarrow> bool" where
  "clientHasPendingReplies c \<longleftrightarrow> c_bufpos c \<noteq> 0 \<or> c_reply c \<noteq> []"

definition clientInstallWriteHandler :: "'w sc \<Rightarrow> 'w sc" where
  "clientInstallWriteHandler = (\<lambda>(S, c).
     if CLIENT_PENDING_WRITE \<notin> c_flags c \<and>
        (c_replstate c = REPL_STATE_NONE \<or> c_replstate c = SLAVE_STATE_ONLINE \<and> \<not> c_repl_put_online_on_ack c)
     then (S\<lparr>clients_pending_write := c_id c # clients_pending_write S\<rparr>, set_flag CLIENT_PENDING_WRITE c)
     else (S, c))"

definition prepareClientToWrite :: "'w sc \<Rightarrow> bool \<times> 'w sc" where
  "prepareClientToWrite = (\<lambda>(S, c).
     if CLIENT_LUA \<in> c_flags c \<or> CLIENT_MODULE \<in> c_flags c then (True, S, c)
     else if CLIENT_REPLY_OFF \<in> c_flags c \<or> CLIENT_REPLY_SKIP \<in> c_flags c then (False, S, c)
     else if CLIENT_MASTER \<in> c_flags c \<and> CLIENT_MASTER_FORCE_REPLY \<notin> c_flags c then (False, S, c)
     else if c_fd c \<le> 0 then (False, S, c)
     else (True, if \<not> clientHasPendingReplies c then clientInstallWriteHandler (S, c) else (S, c)))"

definition freeClientAsync :: "'w sc \<Rightarrow> 'w sc" where
  "freeClientAsync = (\<lambda>(S, c).
     if CLIENT_CLOSE_ASAP \<in> c_flags c \<or> CLIENT_LUA \<in> c_flags c then (S, c)
     else (S\<lparr>clients_to_close := clients_to_close S @ [c_id c]\<rparr>, set_flag CLIENT_CLOSE_ASAP c))"

definition getClientOutputBufferMemoryUsage :: "net_env \<Rightarrow> client \<Rightarrow> 64 word" where
  "getClientOutputBufferMemoryUsage E c = c_reply_bytes c + of_nat (list_item_size E) * of_nat (length (c_reply c))"

definition getClientType :: "client \<Rightarrow> client_class" where
  "getClientType c =
     (if CLIENT_MASTER \<in> c_flags c then CLIENT_TYPE_MASTER
      else if CLIENT_SLAVE \<in> c_flags c \<and> CLIENT_MONITOR \<notin> c_flags c then CLIENT_TYPE_SLAVE
      else if CLIENT_PUBSUB \<in> c_flags c then CLIENT_TYPE_PUBSUB
      else CLIENT_TYPE_NORMAL)"

definition checkClientOutputBufferLimits :: "net_env \<Rightarrow> 'w sc \<Rightarrow> bool \<times> client" where
  "checkClientOutputBufferLimits E = (\<lambda>(S, c).
     let used_mem = getClientOutputBufferMemoryUsage E c;
         cls = getClientType c;
         cls = (if cls = CLIENT_TYPE_MASTER then CLIENT_TYPE_NORMAL else cls);
         limit = client_obuf_limits S cls;
         hard = (hard_limit_bytes limit \<noteq> 0 \<and> used_mem \<ge> hard_limit_bytes limit);
         soft = (soft_limit_bytes limit \<noteq> 0 \<and> used_mem \<ge> soft_limit_bytes limit)
     in if soft
        then if c_obuf_soft_limit_reached_time c = 0
             then (hard, c\<lparr>c_obuf_soft_limit_reached_time := unixtime S\<rparr>)
             else (\<not> unixtime S - c_obuf_soft_limit_reached_time c \<le> soft_limit_seconds limit \<or> hard, c)
        else (hard, c\<lparr>c_obuf_soft_limit_reached_time := 0\<rparr>))"

definition asyncCloseClientOnOutputBufferLimitReached :: "net_env \<Rightarrow> 'w sc \<Rightarrow> 'w sc outcome" where
  "asyncCloseClientOnOutputBufferLimitReached E = (\<lambda>(S, c).
     if c_fd c = - 1 then Inr (S, c)
     else if \<not> unat (c_reply_bytes c) < SIZE_MAX - 1024 * 64 then Inl AssertFailed
     else if c_reply_bytes c = 0 \<or> CLIENT_CLOSE_ASAP \<in> c_flags c then Inr (S, c)
     else let (reached, c) = checkClientOutputBufferLimits E (S, c)
          in Inr (if reached then freeClientAsync (S, c) else (S, c)))"

section \<open>Appending bytes\<close>

definition size_diff :: "nat \<Rightarrow> nat \<Rightarrow> nat" where
  "size_diff a b = nat ((int a - int b) mod 2 ^ 64)"

text \<open>\<open>_addReplyToBuffer\<close>; the result tells \<open>C_OK\<close>.\<close>

definition addReplyToBuffer :: "client \<Rightarrow> byte list \<Rightarrow> (bool \<times> client) outcome" where
  "addReplyToBuffer c s =
     (if CLIENT_CLOSE_AFTER_REPLY \<in> c_flags c then Inr (True, c)
      else if c_reply c \<noteq> [] then Inr (False, c)
      else if length s > size_diff PROTO_REPLY_CHUNK_BYTES (c_bufpos c) then Inr (False, c)
      else bindE (mem_write (c_buf c) (c_bufpos c) s) (\<lambda>b.
           Inr (True, c\<lparr>c_buf := b, c_bufpos := c_bufpos c + length s\<rparr>)))"

text \<open>\<open>_addReplyProtoToList\<close>: what fits goes into the last block, the rest into a new one.\<close>

definition fill_tail :: "client \<Rightarrow> byte list \<Rightarrow> (byte list \<times> client) outcome" where
  "fill_tail c s =
     (case (if c_reply c = [] then None else last (c_reply c)) of
        None \<Rightarrow> Inr (s, c)
      | Some b \<Rightarrow>
          let avail = size_diff (blk_size b) (blk_used b);
              copy = (if avail \<ge> length s then length s else avail)
          in bindE (mem_write (blk_buf b) (blk_used b) (take copy s)) (\<lambda>bs.
             Inr (drop copy s, c\<lparr>c_reply := butlast (c_reply c) @ [Some \<lparr>blk_used = blk_used b + copy, blk_buf = bs\<rparr>]\<rparr>)))"

definition add_block :: "net_env \<Rightarrow> client \<Rightarrow> byte list \<Rightarrow> client outcome" where
  "add_block E c s =
     (let size = (if length s < PROTO_REPLY_CHUNK_BYTES then PROTO_REPLY_CHUNK_BYTES else length s)
      in bindE (mem_write (new_block E size) 0 s) (\<lambda>bs.
         Inr (c\<lparr>c_reply := c_reply c @ [Some \<lparr>blk_used = length s, blk_buf = bs\<rparr>],
                 c_reply_bytes := c_reply_bytes c + of_nat (length bs)\<rparr>)))"

definition addReplyProtoToList :: "net_env \<Rightarrow> 'w sc \<Rightarrow> byte list \<Rightarrow> 'w sc outcome" where
  "addReplyProtoToList E = (\<lambda>(S, c) s.
     if CLIENT_CLOSE_AFTER_REPLY \<in> c_flags c then Inr (S, c)
     else bindE (fill_tail c s) (\<lambda>(s, c).
          bindE (if s \<noteq> [] then add_block E c s else Inr c) (\<lambda>c.
          asyncCloseClientOnOutputBufferLimitReached E (S, c))))"

definition queue_bytes :: "net_env \<Rightarrow> 'w sc \<Rightarrow> byte list \<Rightarrow> 'w sc outcome" where
  "queue_bytes E = (\<lambda>(S, c) s.
     bindE (addReplyToBuffer c s) (\<lambda>(ok, c).
     if ok then Inr (S, c) else addReplyProtoToList E (S, c) s))"

definition addReplyProto :: "net_env \<Rightarrow> 'w sc \<Rightarrow> byte list \<Rightarrow> 'w sc outcome" where
  "addReplyProto E x s = (let (ok, x) = prepareClientToWrite x in if \<not> ok then Inr x else queue_bytes E x s)"

text \<open>A string object: the bytes of an sds string, or an integer.\<close>

datatype robj = Sds_Obj "byte list" | Int_Obj int | Other_Obj

definition addReply :: "net_env \<Rightarrow> 'w sc \<Rightarrow> robj \<Rightarrow> 'w sc outcome" where
  "addReply E x obj =
     (let (ok, x) = prepareClientToWrite x
      in if \<not> ok then Inr x
         else case obj of
                Sds_Obj s \<Rightarrow> queue_bytes E x s
              | Int_Obj i \<Rightarrow> (let s = ll2string E i in if length s > 32 then Inl OutOfBounds else queue_bytes E x s)
              | Other_Obj \<Rightarrow> Inl AssertFailed)"

definition addReplySds :: "net_env \<Rightarrow> 'w sc \<Rightarrow> byte list \<Rightarrow> 'w sc outcome" where
  "addReplySds E x s = (let (ok, x) = prepareClientToWrite x in if \<not> ok then Inr x else queue_bytes E x s)"

section \<open>Replies of the protocol\<close>

definition ascii :: "string \<Rightarrow> byte list" where
  "ascii s = map of_char s"

definition crlf :: "byte list" where
  "crlf = [13, 10]"

definition addReplyErrorLength :: "net_env \<Rightarrow> 'w sc \<Rightarrow> byte list \<Rightarrow> 'w sc outcome" where
  "addReplyErrorLength E x s =
     bindE (if s = [] \<or> s ! 0 \<noteq> 45 then addReplyProto E x (ascii ''-ERR '') else Inr x) (\<lambda>x.
     bindE (addReplyProto E x s) (\<lambda>x.
     addReplyProto E x crlf))"

text \<open>C strings come with their terminator.\<close>

definition addReplyError :: "net_env \<Rightarrow> 'w sc \<Rightarrow> byte list \<Rightarrow> 'w sc outcome" where
  "addReplyError E x err = bindE (strlen err) (\<lambda>n. addReplyErrorLength E x (take n err))"

text \<open>\<open>s\<close> is what \<open>sdscatvprintf\<close> gives for the format.\<close>

definition addReplyErrorFormat :: "net_env \<Rightarrow> 'w sc \<Rightarrow> byte list \<Rightarrow> 'w sc outcome" where
  "addReplyErrorFormat E x s = addReplyErrorLength E x (map (\<lambda>b. if b = 13 \<or> b = 10 then 32 else b) s)"

definition addReplyStatusLength :: "net_env \<Rightarrow> 'w sc \<Rightarrow> byte list \<Rightarrow> 'w sc outcome" where
  "addReplyStatusLength E x s =
     bindE (addReplyProto E x (ascii ''+'')) (\<lambda>x.
     bindE (addReplyProto E x s) (\<lambda>x.
     addReplyProto E x crlf))"

definition addReplyStatus :: "net_env \<Rightarrow> 'w sc \<Rightarrow> byte list \<Rightarrow> 'w sc outcome" where
  "addReplyStatus E x status = bindE (strlen status) (\<lambda>n. addReplyStatusLength E x (take n status))"

definition addReplyStatusFormat :: "net_env \<Rightarrow> 'w sc \<Rightarrow> byte list \<Rightarrow> 'w sc outcome" where
  "addReplyStatusFormat E x s = addReplyStatusLength E x s"

text \<open>Deferred lengths. The node is given by its position in the list, \<open>None\<close> is \<open>NULL\<close>.\<close>

definition addReplyDeferredLen :: "'w sc \<Rightarrow> nat option \<times> 'w sc" where
  "addReplyDeferredLen x =
     (let (ok, S, c) = prepareClientToWrite x
      in if \<not> ok then (None, S, c) else (Some (length (c_reply c)), S, c\<lparr>c_reply := c_reply c @ [None]\<rparr>))"

definition glue_len :: "client \<Rightarrow> nat \<Rightarrow> clientReplyBlock \<Rightarrow> byte list \<Rightarrow> client outcome" where
  "glue_len c i nxt lenstr =
     bindE (mem_read (blk_buf nxt) 0 (blk_used nxt)) (\<lambda>old.
     bindE (mem_write (blk_buf nxt) (length lenstr) old) (\<lambda>bs.
     bindE (mem_write bs 0 lenstr) (\<lambda>bs.
     Inr (c\<lparr>c_reply := take i (c_reply c) @ Some \<lparr>blk_used = blk_used nxt + length lenstr, blk_buf = bs\<rparr> # drop (i + 2) (c_reply c)\<rparr>))))"

definition fill_len :: "net_env \<Rightarrow> client \<Rightarrow> nat \<Rightarrow> byte list \<Rightarrow> client outcome" where
  "fill_len E c i lenstr =
     bindE (mem_write (new_block E (length lenstr)) 0 lenstr) (\<lambda>bs.
     Inr (c\<lparr>c_reply := (c_reply c)[i := Some \<lparr>blk_used = length lenstr, blk_buf = bs\<rparr>], c_reply_bytes := c_reply_bytes c + of_nat (length bs)\<rparr>))"

definition setDeferredAggregateLen :: "net_env \<Rightarrow> 'w sc \<Rightarrow> nat option \<Rightarrow> int \<Rightarrow> byte \<Rightarrow> 'w sc outcome" where
  "setDeferredAggregateLen E = (\<lambda>(S, c) node len pfx.
     let lenstr = pfx # dec_int len @ crlf
     in if length lenstr \<ge> 128 then Inl OutOfBounds
        else case node of
          None \<Rightarrow> Inr (S, c)
        | Some i \<Rightarrow>
            if \<not> i < length (c_reply c) then Inl InvalidPointer
            else if c_reply c ! i \<noteq> None then Inl AssertFailed
            else bindE (case (if Suc i < length (c_reply c) then c_reply c ! Suc i else None) of
                          Some nxt \<Rightarrow> if size_diff (blk_size nxt) (blk_used nxt) \<ge> length lenstr \<and> blk_used nxt < PROTO_REPLY_CHUNK_BYTES * 4
                                       then glue_len c i nxt lenstr else fill_len E c i lenstr
                        | None \<Rightarrow> fill_len E c i lenstr) (\<lambda>c.
                 asyncCloseClientOnOutputBufferLimitReached E (S, c)))"

text \<open>Twice a \<open>long\<close>, with the overflow.\<close>

definition long_twice :: "int \<Rightarrow> int outcome" where
  "long_twice l = (if - (2 ^ 63) \<le> 2 * l \<and> 2 * l < 2 ^ 63 then Inr (2 * l) else Inl SignedOverflow)"

definition setDeferredArrayLen :: "net_env \<Rightarrow> 'w sc \<Rightarrow> nat option \<Rightarrow> int \<Rightarrow> 'w sc outcome" where
  "setDeferredArrayLen E x node len = setDeferredAggregateLen E x node len 42"

definition setDeferredMapLen :: "net_env \<Rightarrow> 'w sc \<Rightarrow> nat option \<Rightarrow> int \<Rightarrow> 'w sc outcome" where
  "setDeferredMapLen E x node len =
     (if c_resp (snd x) = 2 then bindE (long_twice len) (\<lambda>len. setDeferredAggregateLen E x node len 42)
      else setDeferredAggregateLen E x node len 37)"

definition setDeferredSetLen :: "net_env \<Rightarrow> 'w sc \<Rightarrow> nat option \<Rightarrow> int \<Rightarrow> 'w sc outcome" where
  "setDeferredSetLen E x node len = setDeferredAggregateLen E x node len (if c_resp (snd x) = 2 then 42 else 126)"

definition setDeferredAttributeLen :: "net_env \<Rightarrow> 'w sc \<Rightarrow> nat option \<Rightarrow> int \<Rightarrow> 'w sc outcome" where
  "setDeferredAttributeLen E x node len =
     (if c_resp (snd x) = 2 then bindE (long_twice len) (\<lambda>len. setDeferredAggregateLen E x node len 42)
      else setDeferredAggregateLen E x node len 124)"

definition setDeferredPushLen :: "net_env \<Rightarrow> 'w sc \<Rightarrow> nat option \<Rightarrow> int \<Rightarrow> 'w sc outcome" where
  "setDeferredPushLen E x node len = setDeferredAggregateLen E x node len (if c_resp (snd x) = 2 then 42 else 62)"

text \<open>Numbers. The shared objects hold \<open>*n\<close> and \<open>$n\<close> for small \<open>n\<close>.\<close>

definition addReplyLongLongWithPrefix :: "net_env \<Rightarrow> 'w sc \<Rightarrow> int \<Rightarrow> byte \<Rightarrow> 'w sc outcome" where
  "addReplyLongLongWithPrefix E x ll pfx =
     (if pfx = 42 \<and> ll < int (OBJ_SHARED_BULKHDR_LEN E) \<and> ll \<ge> 0 then addReply E x (Sds_Obj (shared_mbulkhdr E (nat ll)))
      else if pfx = 36 \<and> ll < int (OBJ_SHARED_BULKHDR_LEN E) \<and> ll \<ge> 0 then addReply E x (Sds_Obj (shared_bulkhdr E (nat ll)))
      else let s = ll2string E ll
           in if length s + 3 > 128 then Inl OutOfBounds else addReplyProto E x (pfx # s @ crlf))"

definition addReplyLongLong :: "net_env \<Rightarrow> 'w sc \<Rightarrow> int \<Rightarrow> 'w sc outcome" where
  "addReplyLongLong E x ll =
     (if ll = 0 then addReply E x (Sds_Obj (ascii '':0'' @ crlf))
      else if ll = 1 then addReply E x (Sds_Obj (ascii '':1'' @ crlf))
      else addReplyLongLongWithPrefix E x ll 58)"

definition addReplyAggregateLen :: "net_env \<Rightarrow> 'w sc \<Rightarrow> int \<Rightarrow> byte \<Rightarrow> 'w sc outcome" where
  "addReplyAggregateLen E x len pfx =
     (if pfx = 42 \<and> len < int (OBJ_SHARED_BULKHDR_LEN E)
      then if len < 0 then Inl OutOfBounds else addReply E x (Sds_Obj (shared_mbulkhdr E (nat len)))
      else addReplyLongLongWithPrefix E x len pfx)"

definition addReplyArrayLen :: "net_env \<Rightarrow> 'w sc \<Rightarrow> int \<Rightarrow> 'w sc outcome" where
  "addReplyArrayLen E x len = addReplyAggregateLen E x len 42"

definition addReplyMapLen :: "net_env \<Rightarrow> 'w sc \<Rightarrow> int \<Rightarrow> 'w sc outcome" where
  "addReplyMapLen E x len =
     (if c_resp (snd x) = 2 then bindE (long_twice len) (\<lambda>len. addReplyAggregateLen E x len 42)
      else addReplyAggregateLen E x len 37)"

definition addReplySetLen :: "net_env \<Rightarrow> 'w sc \<Rightarrow> int \<Rightarrow> 'w sc outcome" where
  "addReplySetLen E x len = addReplyAggregateLen E x len (if c_resp (snd x) = 2 then 42 else 126)"

definition addReplyAttributeLen :: "net_env \<Rightarrow> 'w sc \<Rightarrow> int \<Rightarrow> 'w sc outcome" where
  "addReplyAttributeLen E x len =
     (if c_resp (snd x) = 2 then bindE (long_twice len) (\<lambda>len. addReplyAggregateLen E x len 42)
      else addReplyAggregateLen E x len 124)"

definition addReplyPushLen :: "net_env \<Rightarrow> 'w sc \<Rightarrow> int \<Rightarrow> 'w sc outcome" where
  "addReplyPushLen E x len = addReplyAggregateLen E x len (if c_resp (snd x) = 2 then 42 else 62)"

definition addReplyNull :: "net_env \<Rightarrow> 'w sc \<Rightarrow> 'w sc outcome" where
  "addReplyNull E x = addReplyProto E x (if c_resp (snd x) = 2 then ascii ''$-1'' @ crlf else ascii ''_'' @ crlf)"

definition addReplyBool :: "net_env \<Rightarrow> 'w sc \<Rightarrow> bool \<Rightarrow> 'w sc outcome" where
  "addReplyBool E x b =
     (if c_resp (snd x) = 2 then addReply E x (Sds_Obj (if b then ascii '':1'' @ crlf else ascii '':0'' @ crlf))
      else addReplyProto E x (if b then ascii ''#t'' @ crlf else ascii ''#f'' @ crlf))"

definition addReplyNullArray :: "net_env \<Rightarrow> 'w sc \<Rightarrow> 'w sc outcome" where
  "addReplyNullArray E x = addReplyProto E x (if c_resp (snd x) = 2 then ascii ''*-1'' @ crlf else ascii ''_'' @ crlf)"

text \<open>Strings. The length of a string object that holds an integer is that of its decimal form.\<close>

definition stringObjectLen :: "net_env \<Rightarrow> robj \<Rightarrow> nat outcome" where
  "stringObjectLen E obj = (case obj of Sds_Obj s \<Rightarrow> Inr (length s) | Int_Obj i \<Rightarrow> Inr (length (ll2string E i)) | Other_Obj \<Rightarrow> Inl AssertFailed)"

definition addReplyBulkLen :: "net_env \<Rightarrow> 'w sc \<Rightarrow> robj \<Rightarrow> 'w sc outcome" where
  "addReplyBulkLen E x obj =
     bindE (stringObjectLen E obj) (\<lambda>len.
     if len < OBJ_SHARED_BULKHDR_LEN E then addReply E x (Sds_Obj (shared_bulkhdr E len))
     else addReplyLongLongWithPrefix E x (int len) 36)"

definition addReplyBulk :: "net_env \<Rightarrow> 'w sc \<Rightarrow> robj \<Rightarrow> 'w sc outcome" where
  "addReplyBulk E x obj =
     bindE (addReplyBulkLen E x obj) (\<lambda>x.
     bindE (addReply E x obj) (\<lambda>x.
     addReply E x (Sds_Obj crlf)))"

definition addReplyBulkCBuffer :: "net_env \<Rightarrow> 'w sc \<Rightarrow> byte list \<Rightarrow> 'w sc outcome" where
  "addReplyBulkCBuffer E x s =
     bindE (addReplyLongLongWithPrefix E x (int (length s)) 36) (\<lambda>x.
     bindE (addReplyProto E x s) (\<lambda>x.
     addReply E x (Sds_Obj crlf)))"

definition addReplyBulkSds :: "net_env \<Rightarrow> 'w sc \<Rightarrow> byte list \<Rightarrow> 'w sc outcome" where
  "addReplyBulkSds E x s =
     bindE (addReplyLongLongWithPrefix E x (int (length s)) 36) (\<lambda>x.
     bindE (addReplySds E x s) (\<lambda>x.
     addReply E x (Sds_Obj crlf)))"

definition addReplyBulkCString :: "net_env \<Rightarrow> 'w sc \<Rightarrow> byte list option \<Rightarrow> 'w sc outcome" where
  "addReplyBulkCString E x s =
     (case s of None \<Rightarrow> addReplyNull E x | Some s \<Rightarrow> bindE (strlen s) (\<lambda>n. addReplyBulkCBuffer E x (take n s)))"

definition addReplyBulkLongLong :: "net_env \<Rightarrow> 'w sc \<Rightarrow> int \<Rightarrow> 'w sc outcome" where
  "addReplyBulkLongLong E x ll = (let s = ll2string E ll in if length s > 64 then Inl OutOfBounds else addReplyBulkCBuffer E x s)"

text \<open>The first three characters of the extension, filled up with spaces.\<close>

definition pad_ext :: "byte list \<Rightarrow> byte list" where
  "pad_ext ext = take 3 (ext @ [32, 32, 32])"

definition addReplyVerbatim :: "net_env \<Rightarrow> 'w sc \<Rightarrow> byte list \<Rightarrow> byte list \<Rightarrow> 'w sc outcome" where
  "addReplyVerbatim E x s ext =
     (if c_resp (snd x) = 2 then addReplyBulkCBuffer E x s
      else bindE (strlen ext) (\<lambda>n.
           let pref = ascii ''='' @ dec (to_size_t (length s + 4)) @ crlf @ pad_ext (take n ext) @ ascii '':''
           in if length pref \<ge> 32 then Inl OutOfBounds
              else bindE (addReplyProto E x pref) (\<lambda>x.
                   bindE (addReplyProto E x s) (\<lambda>x.
                   addReplyProto E x crlf))))"

text \<open>The help of a command with subcommands: \<open>cmd\<close> is its name, \<open>help\<close> the lines.\<close>

fun add_help_lines :: "net_env \<Rightarrow> 'w sc \<Rightarrow> byte list list \<Rightarrow> 'w sc outcome" where
  "add_help_lines E x [] = Inr x"
| "add_help_lines E x (h # hs) = bindE (addReplyStatus E x h) (\<lambda>x. add_help_lines E x hs)"

definition addReplyHelp :: "net_env \<Rightarrow> 'w sc \<Rightarrow> byte list \<Rightarrow> byte list list \<Rightarrow> 'w sc outcome" where
  "addReplyHelp E x cmd help =
     (let (blenp, x) = addReplyDeferredLen x
      in bindE (addReplyStatusFormat E x (map toupper cmd @ ascii '' <subcommand> arg arg ... arg. Subcommands are:'')) (\<lambda>x.
         bindE (add_help_lines E x help) (\<lambda>x.
         setDeferredArrayLen E x blenp (int (length help) + 1))))"

definition addReplySubcommandSyntaxError :: "net_env \<Rightarrow> 'w sc \<Rightarrow> byte list \<Rightarrow> byte list \<Rightarrow> 'w sc outcome" where
  "addReplySubcommandSyntaxError E x cmd arg =
     addReplyErrorFormat E x (ascii ''Unknown subcommand or wrong number of arguments for '' @ [39] @ arg @ [39] @ ascii ''. Try '' @ map toupper cmd @ ascii '' HELP.'')"

section \<open>Moving output between clients\<close>

definition AddReplyFromClient :: "net_env \<Rightarrow> 'w sc \<Rightarrow> client \<Rightarrow> ('w sc \<times> client) outcome" where
  "AddReplyFromClient E x src =
     (let (ok, x) = prepareClientToWrite x
      in if \<not> ok then Inr (x, src)
         else bindE (mem_read (c_buf src) 0 (c_bufpos src)) (\<lambda>s.
              bindE (addReplyProto E x s) (\<lambda>(S, dst).
              Inr ((S, dst\<lparr>c_reply := c_reply dst @ c_reply src, c_reply_bytes := c_reply_bytes dst + c_reply_bytes src\<rparr>),
                   src\<lparr>c_reply := [], c_reply_bytes := 0, c_bufpos := 0\<rparr>))))"

text \<open>\<open>dupClientReplyValue\<close> copies a block; it reads the size of the block first.\<close>

fun dup_blocks :: "clientReplyBlock option list \<Rightarrow> clientReplyBlock option list outcome" where
  "dup_blocks [] = Inr []"
| "dup_blocks (b # bs) = (case b of None \<Rightarrow> Inl NullDeref | Some b \<Rightarrow> bindE (dup_blocks bs) (\<lambda>bs. Inr (Some b # bs)))"

definition copyClientOutputBuffer :: "client \<Rightarrow> client \<Rightarrow> client outcome" where
  "copyClientOutputBuffer dst src =
     bindE (dup_blocks (c_reply src)) (\<lambda>bs.
     bindE (mem_read (c_buf src) 0 (c_bufpos src)) (\<lambda>s.
     bindE (mem_write (c_buf dst) 0 s) (\<lambda>b.
     Inr (dst\<lparr>c_reply := bs, c_sentlen := 0, c_buf := b, c_bufpos := c_bufpos src, c_reply_bytes := c_reply_bytes src\<rparr>))))"

section \<open>Writing to the socket\<close>

text \<open>The operating system: \<open>write\<close> on a descriptor gives its result and whether \<open>errno\<close> is \<open>EAGAIN\<close>; registering a handler for
  writing with the event loop, with \<open>AE_BARRIER\<close> or without, succeeds or not.\<close>

record 'w io_env =
  os_write :: "'w \<Rightarrow> int \<Rightarrow> byte list \<Rightarrow> int \<times> bool \<times> 'w"
  os_register :: "'w \<Rightarrow> int \<Rightarrow> bool \<Rightarrow> bool \<times> 'w"
  os_register_read :: "'w \<Rightarrow> int \<Rightarrow> bool \<times> 'w"
  zmalloc_used_memory :: "'w \<Rightarrow> nat"
  NET_MAX_WRITES_PER_EVENT :: nat

definition write_enough :: "'w io_env \<Rightarrow> 'w sc \<Rightarrow> nat \<Rightarrow> bool" where
  "write_enough IO = (\<lambda>(S, c) totwritten.
     totwritten > NET_MAX_WRITES_PER_EVENT IO \<and> (maxmemory S = 0 \<or> zmalloc_used_memory IO (world S) < maxmemory S) \<and>
     CLIENT_SLAVE \<notin> c_flags c)"

text \<open>The rest of the buffer or of the first block; the state after some of it was written.\<close>

definition sent_buf :: "client \<Rightarrow> nat \<Rightarrow> client" where
  "sent_buf c n =
     (let c = c\<lparr>c_sentlen := c_sentlen c + n\<rparr>
      in if c_sentlen c = c_bufpos c then c\<lparr>c_bufpos := 0, c_sentlen := 0\<rparr> else c)"

definition drop_block :: "client \<Rightarrow> clientReplyBlock \<Rightarrow> client" where
  "drop_block c b = c\<lparr>c_reply := tl (c_reply c), c_reply_bytes := c_reply_bytes c - of_nat (blk_size b)\<rparr>"

definition sent_block :: "client \<Rightarrow> clientReplyBlock \<Rightarrow> nat \<Rightarrow> client outcome" where
  "sent_block c b n =
     (let c = c\<lparr>c_sentlen := c_sentlen c + n\<rparr>
      in if c_sentlen c = blk_used b
         then let c = (drop_block c b)\<lparr>c_sentlen := 0\<rparr>
              in if c_reply c = [] \<and> c_reply_bytes c \<noteq> 0 then Inl AssertFailed else Inr c
         else Inr c)"

text \<open>The loop of \<open>writeToClient\<close>; \<open>nwritten\<close> and \<open>again\<close> are the last result of \<open>write\<close>.\<close>

partial_function (option) write_loop ::
  "'w io_env \<Rightarrow> int \<Rightarrow> 'w redisServer \<Rightarrow> client \<Rightarrow> int \<Rightarrow> bool \<Rightarrow> nat \<Rightarrow> (int \<times> bool \<times> nat \<times> 'w sc) outcome option" where
  "write_loop IO fd S c nwritten again totwritten =
     (if \<not> clientHasPendingReplies c then Some (Inr (nwritten, again, totwritten, S, c))
      else if c_bufpos c > 0
      then case mem_read (c_buf c) (c_sentlen c) (size_diff (c_bufpos c) (c_sentlen c)) of Inl e \<Rightarrow> Some (Inl e)
           | Inr d \<Rightarrow>
               (case os_write IO (world S) fd d of (n, again, w) \<Rightarrow>
                let S = S\<lparr>world := w\<rparr>; c' = sent_buf c (nat n); tot = totwritten + nat n
                in if n \<le> 0 then Some (Inr (n, again, totwritten, S, c))
                   else if write_enough IO (S, c') tot then Some (Inr (n, again, tot, S, c'))
                   else write_loop IO fd S c' n again tot)
      else case hd (c_reply c) of None \<Rightarrow> Some (Inl NullDeref)
           | Some b \<Rightarrow>
               if blk_used b = 0 then write_loop IO fd S (drop_block c b) nwritten again totwritten
               else case mem_read (blk_buf b) (c_sentlen c) (size_diff (blk_used b) (c_sentlen c)) of Inl e \<Rightarrow> Some (Inl e)
                    | Inr d \<Rightarrow>
                        (case os_write IO (world S) fd d of (n, again, w) \<Rightarrow>
                         let S = S\<lparr>world := w\<rparr>; tot = totwritten + nat n
                         in if n \<le> 0 then Some (Inr (n, again, totwritten, S, c))
                            else case sent_block c b (nat n) of Inl e \<Rightarrow> Some (Inl e)
                                 | Inr c \<Rightarrow> if write_enough IO (S, c) tot then Some (Inr (n, again, tot, S, c))
                                           else write_loop IO fd S c n again tot))"

text \<open>What \<open>writeToClient\<close> does after the loop; the result tells \<open>C_OK\<close>.\<close>

definition write_done :: "'w sc \<Rightarrow> bool \<Rightarrow> bool \<times> 'w sc" where
  "write_done = (\<lambda>(S, c) handler_installed.
     if \<not> clientHasPendingReplies c
     then let c = c\<lparr>c_sentlen := 0\<rparr>;
              S = (if handler_installed then S\<lparr>write_handlers := write_handlers S - {c_fd c}\<rparr> else S)
          in if CLIENT_CLOSE_AFTER_REPLY \<in> c_flags c then (False, freeClientAsync (S, c)) else (True, S, c)
     else (True, S, c))"

definition writeToClient :: "'w io_env \<Rightarrow> int \<Rightarrow> 'w sc \<Rightarrow> bool \<Rightarrow> (bool \<times> 'w sc) outcome option" where
  "writeToClient IO fd = (\<lambda>(S, c) handler_installed.
     bindO (write_loop IO fd S c 0 False 0) (\<lambda>(nwritten, again, totwritten, S, c).
     let S = S\<lparr>stat_net_output_bytes := stat_net_output_bytes S + totwritten\<rparr>
     in if nwritten = - 1 \<and> \<not> again then Some (Inr (False, freeClientAsync (S, c)))
        else let c = (if totwritten > 0 \<and> CLIENT_MASTER \<notin> c_flags c then c\<lparr>c_lastinteraction := unixtime S\<rparr> else c)
             in Some (Inr (write_done (S, c) handler_installed))))"

definition sendReplyToClient :: "'w io_env \<Rightarrow> int \<Rightarrow> 'w sc \<Rightarrow> 'w sc outcome option" where
  "sendReplyToClient IO fd x = bindO (writeToClient IO fd x True) (\<lambda>(ok, x). Some (Inr x))"

text \<open>\<open>handleClientsWithPendingWrites\<close>: one client, then the clients that were in the list at the start.\<close>

definition handle_pending :: "'w io_env \<Rightarrow> 'w sc \<Rightarrow> 'w sc outcome option" where
  "handle_pending IO = (\<lambda>(S, c).
     if CLIENT_PROTECTED \<in> c_flags c then Some (Inr (S, c))
     else bindO (writeToClient IO (c_fd c) (S, c) False) (\<lambda>(ok, S, c).
          if ok \<and> clientHasPendingReplies c
          then let barrier = aof_on S \<and> aof_fsync_always S; (reg, w) = os_register IO (world S) (c_fd c) barrier; S = S\<lparr>world := w\<rparr>
               in Some (Inr (if reg then (S\<lparr>write_handlers := insert (c_fd c) (write_handlers S)\<rparr>, c) else freeClientAsync (S, c)))
          else Some (Inr (S, c))))"

fun handle_loop :: "'w io_env \<Rightarrow> 'w redisServer \<Rightarrow> (nat \<rightharpoonup> client) \<Rightarrow> nat list \<Rightarrow> ('w redisServer \<times> (nat \<rightharpoonup> client)) outcome option" where
  "handle_loop IO S M [] = Some (Inr (S, M))"
| "handle_loop IO S M (i # is) =
     bindO (Some (deref M (Some i))) (\<lambda>c.
     bindO (handle_pending IO (S\<lparr>clients_pending_write := remove1 i (clients_pending_write S)\<rparr>, clear_flag CLIENT_PENDING_WRITE c)) (\<lambda>(S, c).
     handle_loop IO S (M(i \<mapsto> c)) is))"

definition handleClientsWithPendingWrites ::
  "'w io_env \<Rightarrow> 'w redisServer \<Rightarrow> (nat \<rightharpoonup> client) \<Rightarrow> (nat \<times> 'w redisServer \<times> (nat \<rightharpoonup> client)) outcome option" where
  "handleClientsWithPendingWrites IO S M =
     bindO (handle_loop IO S M (clients_pending_write S)) (\<lambda>(S', M). Some (Inr (length (clients_pending_write S), S', M)))"

section \<open>Protected clients\<close>

definition protectClient :: "'w sc \<Rightarrow> 'w sc" where
  "protectClient = (\<lambda>(S, c).
     (S\<lparr>read_handlers := read_handlers S - {c_fd c}, write_handlers := write_handlers S - {c_fd c}\<rparr>, set_flag CLIENT_PROTECTED c))"

definition unprotectClient :: "'w io_env \<Rightarrow> 'w sc \<Rightarrow> 'w sc" where
  "unprotectClient IO = (\<lambda>(S, c).
     if CLIENT_PROTECTED \<in> c_flags c
     then let c = clear_flag CLIENT_PROTECTED c;
              (reg, w) = os_register_read IO (world S) (c_fd c);
              S = S\<lparr>world := w, read_handlers := (if reg then insert (c_fd c) (read_handlers S) else read_handlers S)\<rparr>
          in if clientHasPendingReplies c then clientInstallWriteHandler (S, c) else (S, c)
     else (S, c))"

end
