(* ===== verification/Net_Output.thy ===== *)
theory Net_Output
  imports Net_Reply
begin

text \<open>
  What the output buffers of \<open>Net_Reply\<close> promise: they are a queue of bytes. A reply appends its bytes at the end, a write to
  the socket takes bytes from the front, and nothing is lost, doubled or reordered between the two.
\<close>

section \<open>The bytes that wait to be sent\<close>

definition blk_data :: "clientReplyBlock \<Rightarrow> byte list" where
  "blk_data b = take (blk_used b) (blk_buf b)"

definition node_data :: "clientReplyBlock option \<Rightarrow> byte list" where
  "node_data r = (case r of None \<Rightarrow> [] | Some b \<Rightarrow> blk_data b)"

definition node_size :: "clientReplyBlock option \<Rightarrow> nat" where
  "node_size r = (case r of None \<Rightarrow> 0 | Some b \<Rightarrow> blk_size b)"

definition queued :: "client \<Rightarrow> byte list" where
  "queued c = take (c_bufpos c) (c_buf c) @ concat (map node_data (c_reply c))"

definition pending :: "client \<Rightarrow> byte list" where
  "pending c = drop (c_sentlen c) (queued c)"

definition total_size :: "client \<Rightarrow> nat" where
  "total_size c = sum_list (map node_size (c_reply c))"

text \<open>The bytes of the buffer or block that is being sent.\<close>

definition front :: "client \<Rightarrow> nat" where
  "front c = (if c_bufpos c > 0 then c_bufpos c else case c_reply c of [] \<Rightarrow> 0 | r # rs \<Rightarrow> length (node_data r))"

definition out_wf :: "client \<Rightarrow> bool" where
  "out_wf c \<longleftrightarrow> length (c_buf c) = PROTO_REPLY_CHUNK_BYTES \<and> c_bufpos c \<le> PROTO_REPLY_CHUNK_BYTES \<and>
     (\<forall>b. Some b \<in> set (c_reply c) \<longrightarrow> blk_used b \<le> blk_size b) \<and> c_reply_bytes c = of_nat (total_size c) \<and>
     (c_sentlen c = 0 \<or> c_sentlen c < front c)"

lemma length_blk_data: "blk_used b \<le> blk_size b \<Longrightarrow> length (blk_data b) = blk_used b"
  by (simp add: blk_data_def blk_size_def)

lemma node_simps [simp]:
  "node_data None = []" "node_data (Some b) = blk_data b" "node_size None = 0" "node_size (Some b) = blk_size b"
  by (simp_all add: node_data_def node_size_def)

lemma size_diff_eq: "b \<le> a \<Longrightarrow> size_diff a b = (a - b) mod 2 ^ 64"
proof -
  assume "b \<le> a"
  then have "int a - int b = int (a - b)" by simp
  moreover have "nat (int (a - b) mod 2 ^ 64) = (a - b) mod 2 ^ 64" using nat_mod_distrib [of "int (a - b)" "2 ^ 64"] by simp
  ultimately show ?thesis by (simp only: size_diff_def)
qed

lemma size_diff_le: "b \<le> a \<Longrightarrow> size_diff a b \<le> a - b"
  by (simp add: size_diff_eq)

lemma queued_nil: "queued c = [] \<longleftrightarrow> c_bufpos c = 0 \<and> (\<forall>r \<in> set (c_reply c). node_data r = [])" if "out_wf c"
  using that by (auto simp: queued_def out_wf_def PROTO_REPLY_CHUNK_BYTES_def)

section \<open>Appending\<close>

text \<open>The allocator gives blocks of at least the requested size, and what is stored stays away from the end of the address space.\<close>

definition env_ok :: "net_env \<Rightarrow> bool" where
  "env_ok E \<longleftrightarrow> (\<forall>n. n \<le> length (new_block E n))"

definition room :: "net_env \<Rightarrow> nat \<Rightarrow> nat \<Rightarrow> bool" where
  "room E m len \<longleftrightarrow> (\<forall>n \<le> max PROTO_REPLY_CHUNK_BYTES len. m + length (new_block E n) < SIZE_MAX - 1024 * 64)"

text \<open>What appending leaves alone.\<close>

definition out_frame :: "'w sc \<Rightarrow> 'w sc \<Rightarrow> bool" where
  "out_frame = (\<lambda>(S, c) (S', c').
     c_id c' = c_id c \<and> c_fd c' = c_fd c \<and> c_resp c' = c_resp c \<and> c_replstate c' = c_replstate c \<and>
     c_repl_put_online_on_ack c' = c_repl_put_online_on_ack c \<and> c_sentlen c' = c_sentlen c \<and>
     c_flags c \<subseteq> c_flags c' \<and> c_flags c' \<subseteq> insert CLIENT_CLOSE_ASAP (c_flags c) \<and>
     world S' = world S \<and> write_handlers S' = write_handlers S \<and> clients_pending_write S' = clients_pending_write S \<and>
     clients_paused S' = clients_paused S \<and> current_client S' = current_client S)"

lemma out_frame_refl [simp]: "out_frame x x"
  by (auto simp: out_frame_def)

lemma add_to_buffer_ok:
  assumes "out_wf c" "CLIENT_CLOSE_AFTER_REPLY \<notin> c_flags c"
  shows "addReplyToBuffer c s = Inr (False, c) \<or>
    (\<exists>b. addReplyToBuffer c s = Inr (True, c\<lparr>c_buf := b, c_bufpos := c_bufpos c + length s\<rparr>) \<and> c_reply c = [] \<and>
       out_wf (c\<lparr>c_buf := b, c_bufpos := c_bufpos c + length s\<rparr>) \<and> queued (c\<lparr>c_buf := b, c_bufpos := c_bufpos c + length s\<rparr>) = queued c @ s)"
proof (cases "c_reply c = [] \<and> length s \<le> size_diff PROTO_REPLY_CHUNK_BYTES (c_bufpos c)")
  case True
  note w = assms(1) [unfolded out_wf_def]
  have "length s \<le> PROTO_REPLY_CHUNK_BYTES - c_bufpos c" using True size_diff_le [of "c_bufpos c" PROTO_REPLY_CHUNK_BYTES] w le_trans by blast
  then have "c_bufpos c + length s \<le> length (c_buf c)" using w by linarith
  then show ?thesis using True assms(2) w
    by (intro disjI2 exI [of _ "take (c_bufpos c) (c_buf c) @ s @ drop (c_bufpos c + length s) (c_buf c)"])
       (auto simp: addReplyToBuffer_def mem out_wf_def queued_def front_def total_size_def split: if_splits)
next
  case False
  then show ?thesis using assms(2) by (auto simp: addReplyToBuffer_def)
qed

lemma append_last: "xs \<noteq> [] \<Longrightarrow> last xs = y \<Longrightarrow> xs = butlast xs @ [y]"
  by auto

lemma fill_tail_ok:
  assumes "out_wf c"
  shows "\<exists>s' c'. fill_tail c s = Inr (s', c') \<and> out_wf c' \<and> queued c' @ s' = queued c @ s \<and> length s' \<le> length s \<and>
    total_size c' = total_size c \<and> c_reply_bytes c' = c_reply_bytes c \<and> (\<exists>rs. c' = c\<lparr>c_reply := rs\<rparr>)"
proof (cases "if c_reply c = [] then None else last (c_reply c)")
  case None
  then show ?thesis using assms by (intro exI [of _ s] exI [of _ c]) (auto simp: fill_tail_def intro: exI [of _ "c_reply c"])
next
  case (Some b)
  then have l: "c_reply c = butlast (c_reply c) @ [Some b]" by (auto split: if_splits intro: append_last)
  note w = assms [unfolded out_wf_def]
  define rs copy where "rs = butlast (c_reply c)" and "copy = min (size_diff (blk_size b) (blk_used b)) (length s)"
  have l: "c_reply c = rs @ [Some b]" using l rs_def by simp
  have used: "blk_used b \<le> blk_size b" using w l by simp
  have copy: "blk_used b + copy \<le> length (blk_buf b)" "copy \<le> length s"
    using size_diff_le [OF used] used by (auto simp: copy_def blk_size_def)
  define b' where "b' = \<lparr>blk_used = blk_used b + copy, blk_buf = take (blk_used b) (blk_buf b) @ take copy s @ drop (blk_used b + copy) (blk_buf b)\<rparr>"
  have b': "blk_data b' = blk_data b @ take copy s" "blk_size b' = blk_size b" "blk_used b' \<le> blk_size b'"
    using copy used by (simp_all add: b'_def blk_data_def blk_size_def)
  let ?c = "c\<lparr>c_reply := rs @ [Some b']\<rparr>"
  have copy_eq: "(if length s \<le> size_diff (blk_size b) (blk_used b) then length s else size_diff (blk_size b) (blk_used b)) = copy"
    by (simp add: copy_def min_def)
  have "fill_tail c s = Inr (drop copy s, ?c)"
    unfolding fill_tail_def Some option.case Let_def copy_eq using copy by (simp add: mem b'_def rs_def)
  moreover have "front c \<le> front ?c" using l b'(1) by (cases rs) (simp_all add: front_def)
  then have "out_wf ?c" using w l b' by (auto simp: out_wf_def total_size_def)
  moreover have "queued ?c @ drop copy s = queued c @ s" using l b'(1) by (simp add: queued_def)
  moreover have "total_size ?c = total_size c" using l b'(2) by (simp add: total_size_def)
  ultimately show ?thesis by (intro exI [of _ "drop copy s"] exI [of _ ?c]) auto
qed

lemma add_block_ok:
  assumes "env_ok E" "out_wf c" "s \<noteq> []" "sz = (if length s < PROTO_REPLY_CHUNK_BYTES then PROTO_REPLY_CHUNK_BYTES else length s)"
  shows "\<exists>c'. add_block E c s = Inr c' \<and> out_wf c' \<and> queued c' = queued c @ s \<and> total_size c' = total_size c + length (new_block E sz) \<and>
    (\<exists>rs n. c' = c\<lparr>c_reply := rs, c_reply_bytes := n\<rparr>)"
proof -
  note w = assms(2) [unfolded out_wf_def]
  have len: "length s \<le> length (new_block E sz)" using assms(1,4) unfolding env_ok_def by (metis le_trans less_imp_le_nat order_refl)
  let ?bs = "s @ drop (length s) (new_block E sz)"
  let ?b = "\<lparr>blk_used = length s, blk_buf = ?bs\<rparr>"
  let ?c = "c\<lparr>c_reply := c_reply c @ [Some ?b], c_reply_bytes := c_reply_bytes c + of_nat (length ?bs)\<rparr>"
  have "add_block E c s = Inr ?c" unfolding add_block_def Let_def assms(4) [symmetric] using len by (simp add: mem)
  moreover have "out_wf ?c" using w by (auto simp: out_wf_def total_size_def blk_size_def front_def split: if_splits list.splits)
  moreover have "queued ?c = queued c @ s" by (simp add: queued_def blk_data_def)
  moreover have "total_size ?c = total_size c + length (new_block E sz)" using len by (simp add: total_size_def blk_size_def)
  ultimately show ?thesis by blast
qed

lemma out_wf_cong:
  "c_buf c' = c_buf c \<Longrightarrow> c_bufpos c' = c_bufpos c \<Longrightarrow> c_reply c' = c_reply c \<Longrightarrow> c_reply_bytes c' = c_reply_bytes c \<Longrightarrow> c_sentlen c' = c_sentlen c \<Longrightarrow>
   out_wf c' = out_wf c \<and> queued c' = queued c \<and> pending c' = pending c \<and> total_size c' = total_size c"
  by (simp add: out_wf_def queued_def pending_def total_size_def front_def)

lemma limits_ok:
  assumes "unat (c_reply_bytes c) < SIZE_MAX - 1024 * 64"
  shows "\<exists>S' c'. asyncCloseClientOnOutputBufferLimitReached E (S, c) = Inr (S', c') \<and> out_frame (S, c) (S', c') \<and>
    out_wf c' = out_wf c \<and> queued c' = queued c \<and> total_size c' = total_size c"
proof (cases "c_fd c = - 1 \<or> c_reply_bytes c = 0 \<or> CLIENT_CLOSE_ASAP \<in> c_flags c")
  case True
  then show ?thesis using assms by (intro exI [of _ S] exI [of _ c]) (auto simp: asyncCloseClientOnOutputBufferLimitReached_def)
next
  case False
  obtain r c1 where r: "checkClientOutputBufferLimits E (S, c) = (r, c1)" by fastforce
  have "c1 = c \<or> (\<exists>m. c1 = c\<lparr>c_obuf_soft_limit_reached_time := m\<rparr>)"
    using r by (auto simp: checkClientOutputBufferLimits_def Let_def split: if_splits)
  moreover have "c = c\<lparr>c_obuf_soft_limit_reached_time := c_obuf_soft_limit_reached_time c\<rparr>" by simp
  ultimately obtain m where c1: "c1 = c\<lparr>c_obuf_soft_limit_reached_time := m\<rparr>" by metis
  obtain S' c' where x: "(if r then freeClientAsync (S, c1) else (S, c1)) = (S', c')" by fastforce
  have "out_frame (S, c) (S', c')"
    using x c1 by (auto simp: out_frame_def freeClientAsync_def set_flag_def split: if_splits)
  moreover have "out_wf c' = out_wf c \<and> queued c' = queued c \<and> pending c' = pending c \<and> total_size c' = total_size c"
    using x c1 by (intro out_wf_cong) (auto simp: freeClientAsync_def set_flag_def split: if_splits)
  moreover have "asyncCloseClientOnOutputBufferLimitReached E (S, c) = Inr (S', c')"
    using False assms r x by (simp add: asyncCloseClientOnOutputBufferLimitReached_def)
  ultimately show ?thesis by blast
qed

lemma room_less: "room E m len \<Longrightarrow> n \<le> max PROTO_REPLY_CHUNK_BYTES len \<Longrightarrow> m + length (new_block E n) < SIZE_MAX - 1024 * 64"
  by (simp add: room_def)

lemma unat_reply_bytes: "out_wf c \<Longrightarrow> total_size c < SIZE_MAX - 1024 * 64 \<Longrightarrow> unat (c_reply_bytes c) < SIZE_MAX - 1024 * 64"
  by (simp add: out_wf_def unat_of_nat SIZE_MAX_def)

lemma out_frame_upd: "out_frame (S, c\<lparr>c_reply := rs\<rparr>) x = out_frame (S, c) x" "out_frame (S, c\<lparr>c_reply := rs, c_reply_bytes := n\<rparr>) x = out_frame (S, c) x"
  by (simp_all add: out_frame_def split_def)

lemma add_to_list_ok:
  assumes "env_ok E" "out_wf c" "room E (total_size c) (length s)" "CLIENT_CLOSE_AFTER_REPLY \<notin> c_flags c"
  shows "\<exists>S' c' n. addReplyProtoToList E (S, c) s = Inr (S', c') \<and> out_wf c' \<and> queued c' = queued c @ s \<and> out_frame (S, c) (S', c') \<and>
    n \<le> max PROTO_REPLY_CHUNK_BYTES (length s) \<and> total_size c' \<le> total_size c + length (new_block E n)"
proof -
  obtain s1 c1 rs where f: "fill_tail c s = Inr (s1, c1)" "out_wf c1" "queued c1 @ s1 = queued c @ s" "length s1 \<le> length s" "total_size c1 = total_size c"
    "c1 = c\<lparr>c_reply := rs\<rparr>"
    using fill_tail_ok [OF assms(2), of s] by blast
  define sz where "sz = (if length s1 < PROTO_REPLY_CHUNK_BYTES then PROTO_REPLY_CHUNK_BYTES else length s1)"
  have sz: "sz \<le> max PROTO_REPLY_CHUNK_BYTES (length s)" using f(4) by (simp add: sz_def max_def)
  obtain c2 where c2: "(if s1 \<noteq> [] then add_block E c1 s1 else Inr c1) = Inr c2" "out_wf c2" "queued c2 = queued c1 @ s1"
    "total_size c2 \<le> total_size c1 + length (new_block E sz)" "\<And>x. out_frame (S, c2) x = out_frame (S, c1) x"
  proof (cases "s1 = []")
    case True
    then show thesis using f(2) that [of c1] by simp
  next
    case False
    obtain c2 rs n where c2: "add_block E c1 s1 = Inr c2" "out_wf c2" "queued c2 = queued c1 @ s1" "total_size c2 = total_size c1 + length (new_block E sz)"
      "c2 = c1\<lparr>c_reply := rs, c_reply_bytes := n\<rparr>"
      using add_block_ok [OF assms(1) f(2) False sz_def] by blast
    show thesis using that [of c2] c2(1-4) False out_frame_upd(2) [where S = S and c = c1 and rs = rs and n = n] unfolding c2(5) [symmetric] by simp
  qed
  have "total_size c2 < SIZE_MAX - 1024 * 64" using c2(4) f(5) room_less [OF assms(3) sz] by simp
  then obtain S' c' where r: "asyncCloseClientOnOutputBufferLimitReached E (S, c2) = Inr (S', c')" "out_frame (S, c2) (S', c')"
    "out_wf c' = out_wf c2" "queued c' = queued c2" "total_size c' = total_size c2"
    using limits_ok [OF unat_reply_bytes [OF c2(2)], of E S] by blast
  have "addReplyProtoToList E (S, c) s = Inr (S', c')"
    using assms(4) f(1) c2(1) r(1) by (simp add: addReplyProtoToList_def)
  then show ?thesis using r c2 f sz by (intro exI [of _ S'] exI [of _ c'] exI [of _ sz]) (simp add: out_frame_upd)
qed

lemma queue_bytes_ok:
  assumes "env_ok E" "out_wf c" "room E (total_size c) (length s)"
  shows "\<exists>S' c' n. queue_bytes E (S, c) s = Inr (S', c') \<and> out_wf c' \<and>
    queued c' = queued c @ (if CLIENT_CLOSE_AFTER_REPLY \<in> c_flags c then [] else s) \<and> out_frame (S, c) (S', c') \<and>
    n \<le> max PROTO_REPLY_CHUNK_BYTES (length s) \<and> total_size c' \<le> total_size c + length (new_block E n)"
proof (cases "CLIENT_CLOSE_AFTER_REPLY \<in> c_flags c")
  case True
  then show ?thesis using assms(2) by (intro exI [of _ S] exI [of _ c] exI [of _ 0]) (simp add: queue_bytes_def addReplyToBuffer_def)
next
  case False
  from add_to_buffer_ok [OF assms(2) False, of s] show ?thesis
  proof (elim disjE exE conjE)
    assume "addReplyToBuffer c s = Inr (False, c)"
    then show ?thesis using add_to_list_ok [OF assms False, of S] False by (simp add: queue_bytes_def)
  next
    fix b
    let ?c = "c\<lparr>c_buf := b, c_bufpos := c_bufpos c + length s\<rparr>"
    assume "addReplyToBuffer c s = Inr (True, ?c)" "out_wf ?c" "queued ?c = queued c @ s"
    then show ?thesis using False
      by (intro exI [of _ S] exI [of _ ?c] exI [of _ 0]) (simp add: queue_bytes_def out_frame_def total_size_def subset_insertI)
  qed
qed

text \<open>A client takes replies: it is not being closed, and it is not one of those that never get replies.\<close>

definition takes_replies :: "client \<Rightarrow> bool" where
  "takes_replies c \<longleftrightarrow> CLIENT_LUA \<in> c_flags c \<or> CLIENT_MODULE \<in> c_flags c \<or>
     CLIENT_REPLY_OFF \<notin> c_flags c \<and> CLIENT_REPLY_SKIP \<notin> c_flags c \<and>
     (CLIENT_MASTER \<in> c_flags c \<longrightarrow> CLIENT_MASTER_FORCE_REPLY \<in> c_flags c) \<and> c_fd c > 0"

definition accepted :: "client \<Rightarrow> byte list \<Rightarrow> byte list" where
  "accepted c s = (if takes_replies c \<and> CLIENT_CLOSE_AFTER_REPLY \<notin> c_flags c then s else [])"

text \<open>Scheduling changes only the list of clients that wait for a write and the flag.\<close>

definition sc_frame :: "'w sc \<Rightarrow> 'w sc \<Rightarrow> bool" where
  "sc_frame = (\<lambda>(S, c) (S', c').
     c_id c' = c_id c \<and> c_fd c' = c_fd c \<and> c_resp c' = c_resp c \<and> c_replstate c' = c_replstate c \<and>
     c_repl_put_online_on_ack c' = c_repl_put_online_on_ack c \<and>
     c_flags c - {CLIENT_CLOSE_ASAP, CLIENT_PENDING_WRITE, CLIENT_PROTECTED} = c_flags c' - {CLIENT_CLOSE_ASAP, CLIENT_PENDING_WRITE, CLIENT_PROTECTED})"

lemma sc_frame_refl [simp]: "sc_frame x x"
  by (simp add: sc_frame_def split_def)

lemma sc_frame_trans: "sc_frame x y \<Longrightarrow> sc_frame y z \<Longrightarrow> sc_frame x z"
  by (simp add: sc_frame_def split_def)

lemma sc_frameD:
  assumes "sc_frame (S, c) (S', c')"
  shows "takes_replies c' = takes_replies c" "accepted c' = accepted c" "c_fd c' = c_fd c" "c_resp c' = c_resp c"
proof -
  have eq: "c_flags c - {CLIENT_CLOSE_ASAP, CLIENT_PENDING_WRITE, CLIENT_PROTECTED} = c_flags c' - {CLIENT_CLOSE_ASAP, CLIENT_PENDING_WRITE, CLIENT_PROTECTED}"
    and fd: "c_fd c' = c_fd c" "c_resp c' = c_resp c" using assms by (simp_all add: sc_frame_def)
  have "f \<in> c_flags c' \<longleftrightarrow> f \<in> c_flags c" if "f \<noteq> CLIENT_CLOSE_ASAP" "f \<noteq> CLIENT_PENDING_WRITE" "f \<noteq> CLIENT_PROTECTED" for f
    using eq that by blast
  then show "takes_replies c' = takes_replies c" "accepted c' = accepted c" "c_fd c' = c_fd c" "c_resp c' = c_resp c"
    using fd by (simp_all add: takes_replies_def accepted_def fun_eq_iff)
qed

lemma prepare_ok:
  assumes "prepareClientToWrite (S, c) = (ok, S', c')"
  shows "ok = takes_replies c" "sc_frame (S, c) (S', c')" "c_sentlen c' = c_sentlen c" "world S' = world S" "write_handlers S' = write_handlers S"
    "out_wf c' = out_wf c" "queued c' = queued c" "total_size c' = total_size c" "clients_paused S' = clients_paused S" "current_client S' = current_client S"
proof -
  have c': "c' = c \<or> c' = set_flag CLIENT_PENDING_WRITE c"
    using assms by (auto simp: prepareClientToWrite_def clientInstallWriteHandler_def split: if_splits)
  show "ok = takes_replies c" "sc_frame (S, c) (S', c')" "world S' = world S" "write_handlers S' = write_handlers S" "clients_paused S' = clients_paused S"
    "current_client S' = current_client S"
    using assms by (auto simp: prepareClientToWrite_def takes_replies_def sc_frame_def clientInstallWriteHandler_def set_flag_def insert_Diff_if split: if_splits)
  show "c_sentlen c' = c_sentlen c" using c' by (auto simp: set_flag_def)
  show "out_wf c' = out_wf c" "queued c' = queued c" "total_size c' = total_size c"
    using c' out_wf_cong [of c' c] by (auto simp: set_flag_def)
qed

section \<open>Scheduling\<close>

text \<open>The server writes to the client: it is no client of a script or a module, and no replica that is not online yet.\<close>

definition writable :: "client \<Rightarrow> bool" where
  "writable c \<longleftrightarrow> CLIENT_LUA \<notin> c_flags c \<and> CLIENT_MODULE \<notin> c_flags c \<and>
     (c_replstate c = REPL_STATE_NONE \<or> c_replstate c = SLAVE_STATE_ONLINE \<and> \<not> c_repl_put_online_on_ack c)"

text \<open>The bytes of the client will be sent: before the next sleep of the event loop or by its handler, unless it is to be closed or protected.\<close>

definition waits :: "'w sc \<Rightarrow> bool" where
  "waits = (\<lambda>(S, c). c_id c \<in> set (clients_pending_write S) \<or> c_fd c \<in> write_handlers S \<or>
     CLIENT_CLOSE_ASAP \<in> c_flags c \<or> CLIENT_PROTECTED \<in> c_flags c)"

definition sched :: "'w sc \<Rightarrow> bool" where
  "sched = (\<lambda>(S, c). (CLIENT_PENDING_WRITE \<in> c_flags c \<longrightarrow> c_id c \<in> set (clients_pending_write S)) \<and>
     (clientHasPendingReplies c \<and> writable c \<longrightarrow> waits (S, c)))"

lemma prepare_waits:
  assumes "prepareClientToWrite (S, c) = (True, S', c')" "sched (S, c)"
  shows "CLIENT_PENDING_WRITE \<in> c_flags c' \<longrightarrow> c_id c' \<in> set (clients_pending_write S')" "writable c' \<longrightarrow> waits (S', c')"
  using assms by (auto simp: prepareClientToWrite_def clientInstallWriteHandler_def set_flag_def sched_def writable_def waits_def split: if_splits)

lemma prepare_false: "prepareClientToWrite (S, c) = (False, S', c') \<Longrightarrow> S' = S \<and> c' = c"
  by (auto simp: prepareClientToWrite_def split: if_splits)

lemma prepare_reply: "prepareClientToWrite (S, c) = (ok, S', c') \<Longrightarrow> c_reply c' = c_reply c \<and> c_buf c' = c_buf c \<and> c_bufpos c' = c_bufpos c"
  by (auto simp: prepareClientToWrite_def clientInstallWriteHandler_def set_flag_def split: if_splits)

lemma waits_sched:
  assumes "CLIENT_PENDING_WRITE \<in> c_flags c \<longrightarrow> c_id c \<in> set (clients_pending_write S)" "writable c \<longrightarrow> waits (S, c)" "out_frame (S, c) (S', c')"
  shows "sched (S', c')"
proof -
  have fl: "c_flags c \<subseteq> c_flags c'" "c_flags c' \<subseteq> insert CLIENT_CLOSE_ASAP (c_flags c)" using assms(3) by (simp_all add: out_frame_def)
  have "writable c' = writable c" using fl assms(3) by (auto simp: writable_def out_frame_def)
  then show ?thesis using assms fl by (auto simp: sched_def waits_def out_frame_def)
qed

lemma append_reply:
  "addReplyToBuffer c s = Inr (ok, c') \<Longrightarrow> c_reply c' = c_reply c"
  "fill_tail c s = Inr (s', c') \<Longrightarrow> None \<in> set (c_reply c') \<Longrightarrow> None \<in> set (c_reply c)"
  "add_block E c s = Inr c' \<Longrightarrow> None \<in> set (c_reply c') \<Longrightarrow> None \<in> set (c_reply c)"
  "asyncCloseClientOnOutputBufferLimitReached E (S, c) = Inr (S', c') \<Longrightarrow> c_reply c' = c_reply c"
  by (auto simp: addReplyToBuffer_def fill_tail_def add_block_def asyncCloseClientOnOutputBufferLimitReached_def checkClientOutputBufferLimits_def
      freeClientAsync_def set_flag_def Let_def bindE_eq_Inr split: if_splits option.splits prod.splits dest: in_set_butlastD)

lemma queue_bytes_reply: "queue_bytes E (S, c) s = Inr (S', c') \<Longrightarrow> None \<in> set (c_reply c') \<Longrightarrow> None \<in> set (c_reply c)"
  by (auto simp: queue_bytes_def addReplyProtoToList_def bindE_eq_Inr split: if_splits prod.splits dest!: append_reply)

text \<open>A placeholder for a length stays where it is, and so does what is in front of it.\<close>

definition keeps_front :: "client \<Rightarrow> client \<Rightarrow> bool" where
  "keeps_front c c' \<longleftrightarrow> (\<forall>i < length (c_reply c). c_reply c ! i = None \<longrightarrow>
     take (Suc i) (c_reply c') = take (Suc i) (c_reply c) \<and> c_buf c' = c_buf c \<and> c_bufpos c' = c_bufpos c)"

lemma keeps_front_refl: "c_reply c' = c_reply c \<Longrightarrow> c_buf c' = c_buf c \<Longrightarrow> c_bufpos c' = c_bufpos c \<Longrightarrow> keeps_front c c'"
  by (simp add: keeps_front_def)

lemma keeps_front_trans: "keeps_front a b \<Longrightarrow> keeps_front b c \<Longrightarrow> keeps_front a c"
  unfolding keeps_front_def
proof (intro allI impI)
  fix i
  assume h: "\<forall>i<length (c_reply a). c_reply a ! i = None \<longrightarrow> take (Suc i) (c_reply b) = take (Suc i) (c_reply a) \<and> c_buf b = c_buf a \<and> c_bufpos b = c_bufpos a"
    "\<forall>i<length (c_reply b). c_reply b ! i = None \<longrightarrow> take (Suc i) (c_reply c) = take (Suc i) (c_reply b) \<and> c_buf c = c_buf b \<and> c_bufpos c = c_bufpos b"
    and i: "i < length (c_reply a)" "c_reply a ! i = None"
  have e: "take (Suc i) (c_reply b) = take (Suc i) (c_reply a)" using h(1) i by blast
  then have "length (take (Suc i) (c_reply b)) = Suc i" using i(1) by simp
  then have "i < length (c_reply b)" by simp
  moreover have "c_reply b ! i = None" using e i(2) by (metis lessI nth_take)
  ultimately show "take (Suc i) (c_reply c) = take (Suc i) (c_reply a) \<and> c_buf c = c_buf a \<and> c_bufpos c = c_bufpos a"
    using h i by simp
qed

lemma append_front:
  "addReplyToBuffer c s = Inr (ok, c') \<Longrightarrow> keeps_front c c'"
  "fill_tail c s = Inr (s', c') \<Longrightarrow> keeps_front c c'"
  "add_block E c s = Inr c' \<Longrightarrow> keeps_front c c'"
  "asyncCloseClientOnOutputBufferLimitReached E (S, c) = Inr (S', c') \<Longrightarrow> keeps_front c c'"
proof -
  show "keeps_front c c'" if "addReplyToBuffer c s = Inr (ok, c')"
    using that by (auto simp: addReplyToBuffer_def keeps_front_def bindE_eq_Inr split: if_splits)
  show "keeps_front c c'" if f: "fill_tail c s = Inr (s', c')"
    unfolding keeps_front_def
  proof (intro allI impI)
    fix i assume i: "i < length (c_reply c)" "c_reply c ! i = None"
    then have ne: "c_reply c \<noteq> []" by auto
    show "take (Suc i) (c_reply c') = take (Suc i) (c_reply c) \<and> c_buf c' = c_buf c \<and> c_bufpos c' = c_bufpos c"
    proof (cases "last (c_reply c)")
      case None
      then show ?thesis using f ne by (simp add: fill_tail_def)
    next
      case (Some b)
      then have "i \<noteq> length (c_reply c) - 1" using i last_conv_nth [OF ne] by auto
      then have "Suc i \<le> length (butlast (c_reply c))" "take (Suc i) (butlast (c_reply c)) = take (Suc i) (c_reply c)"
        using i(1) by (auto simp: take_butlast)
      then show ?thesis using f Some ne by (auto simp: fill_tail_def Let_def bindE_eq_Inr)
    qed
  qed
  show "keeps_front c c'" if "add_block E c s = Inr c'"
    using that by (auto simp: add_block_def Let_def bindE_eq_Inr keeps_front_def)
  show "keeps_front c c'" if "asyncCloseClientOnOutputBufferLimitReached E (S, c) = Inr (S', c')"
    using that by (intro keeps_front_refl) (auto simp: asyncCloseClientOnOutputBufferLimitReached_def checkClientOutputBufferLimits_def
      freeClientAsync_def set_flag_def Let_def split: if_splits prod.splits)
qed

lemma queue_bytes_front: "queue_bytes E (S, c) s = Inr (S', c') \<Longrightarrow> keeps_front c c'"
proof -
  assume "queue_bytes E (S, c) s = Inr (S', c')"
  then obtain ok c1 where a: "addReplyToBuffer c s = Inr (ok, c1)" "if ok then c' = c1 else addReplyProtoToList E (S, c1) s = Inr (S', c')"
    by (auto simp: queue_bytes_def bindE_eq_Inr split: if_splits)
  have "keeps_front c1 c'"
  proof (cases "ok \<or> CLIENT_CLOSE_AFTER_REPLY \<in> c_flags c1")
    case True
    then show ?thesis using a(2) by (auto simp: addReplyProtoToList_def keeps_front_refl split: if_splits)
  next
    case False
    then obtain s2 c2 c3 where "fill_tail c1 s = Inr (s2, c2)" "c3 = c2 \<or> add_block E c2 s2 = Inr c3"
      "asyncCloseClientOnOutputBufferLimitReached E (S, c3) = Inr (S', c')"
      using a(2) by (auto simp: addReplyProtoToList_def bindE_eq_Inr split: if_splits)
    then show ?thesis using append_front(2-4) keeps_front_trans keeps_front_refl by metis
  qed
  then show ?thesis using append_front(1) [OF a(1)] keeps_front_trans by blast
qed

definition rep_frame :: "'w sc \<Rightarrow> 'w sc \<Rightarrow> bool" where
  "rep_frame x y \<longleftrightarrow> sc_frame x y \<and> (sched x \<longrightarrow> sched y) \<and> (None \<in> set (c_reply (snd y)) \<longrightarrow> None \<in> set (c_reply (snd x))) \<and>
     keeps_front (snd x) (snd y) \<and> world (fst y) = world (fst x) \<and> write_handlers (fst y) = write_handlers (fst x) \<and>
     clients_paused (fst y) = clients_paused (fst x) \<and> current_client (fst y) = current_client (fst x)"

lemma rep_frame_trans: "rep_frame x y \<Longrightarrow> rep_frame y z \<Longrightarrow> rep_frame x z"
  using sc_frame_trans [of x y z] keeps_front_trans [of "snd x" "snd y" "snd z"] by (auto simp: rep_frame_def)

lemma rep_frameD:
  assumes "rep_frame (S, c) (S', c')"
  shows "takes_replies c' = takes_replies c" "accepted c' = accepted c" "c_fd c' = c_fd c" "c_resp c' = c_resp c"
  using sc_frameD assms unfolding rep_frame_def by blast+

section \<open>Replies\<close>

text \<open>Memory for \<open>k\<close> more pieces of at most \<open>L\<close> bytes.\<close>

definition max_block :: "net_env \<Rightarrow> nat \<Rightarrow> nat" where
  "max_block E L = Max ((\<lambda>n. length (new_block E n)) ` {..max PROTO_REPLY_CHUNK_BYTES L})"

definition space :: "net_env \<Rightarrow> nat \<Rightarrow> nat \<Rightarrow> client \<Rightarrow> bool" where
  "space E L k c \<longleftrightarrow> total_size c + k * max_block E L < SIZE_MAX - 1024 * 64"

lemma max_block: "n \<le> max PROTO_REPLY_CHUNK_BYTES L \<Longrightarrow> length (new_block E n) \<le> max_block E L"
  unfolding max_block_def by (rule Max_ge) auto

lemma space_room:
  assumes "space E L (Suc k) c" "len \<le> L"
  shows "room E (total_size c) len"
  unfolding room_def
proof (intro allI impI)
  fix n assume "n \<le> max PROTO_REPLY_CHUNK_BYTES len"
  then have "length (new_block E n) \<le> max_block E L" using assms(2) by (intro max_block) linarith
  then show "total_size c + length (new_block E n) < SIZE_MAX - 1024 * 64" using assms(1) by (simp add: space_def)
qed

lemma space_used: "space E L (Suc k) c \<Longrightarrow> n \<le> max PROTO_REPLY_CHUNK_BYTES L \<Longrightarrow> total_size c' \<le> total_size c + length (new_block E n) \<Longrightarrow> space E L k c'"
  using max_block [of n L E] by (simp add: space_def)

lemma space_less: "space E L (m + k) c \<Longrightarrow> space E L k c"
  by (simp add: space_def add_mult_distrib)

text \<open>An operation that appends what \<open>enc\<close> gives for the protocol version, in at most \<open>n\<close> pieces of at most \<open>L\<close> bytes.\<close>

definition emits :: "net_env \<Rightarrow> nat \<Rightarrow> nat \<Rightarrow> ('w sc \<Rightarrow> 'w sc outcome) \<Rightarrow> (int \<Rightarrow> byte list) \<Rightarrow> bool" where
  "emits E L n f enc \<longleftrightarrow>
     (\<forall>S c k. out_wf c \<longrightarrow> space E L (n + k) c \<longrightarrow>
        (\<exists>S' c'. f (S, c) = Inr (S', c') \<and> out_wf c' \<and> space E L k c' \<and> queued c' = queued c @ accepted c (enc (c_resp c)) \<and>
           c_sentlen c' = c_sentlen c \<and> rep_frame (S, c) (S', c')))"

lemma emitsD:
  assumes "emits E L n f enc" "out_wf c" "space E L (n + k) c"
  obtains S' c' where "f (S, c) = Inr (S', c')" "out_wf c'" "space E L k c'" "queued c' = queued c @ accepted c (enc (c_resp c))"
    "c_sentlen c' = c_sentlen c" "rep_frame (S, c) (S', c')"
  using assms unfolding emits_def by blast

lemma accepted_append: "accepted c (s @ u) = accepted c s @ accepted c u" "accepted c [] = []"
  by (simp_all add: accepted_def)

lemma emits_seq:
  assumes "emits E L n f e1" "emits E L m g e2"
  shows "emits E L (n + m) (\<lambda>x. bindE (f x) g) (\<lambda>v. e1 v @ e2 v)"
  unfolding emits_def
proof (intro allI impI)
  fix S c k
  assume c: "out_wf c" "space E L (n + m + k) c"
  obtain S1 c1 where f: "f (S, c) = Inr (S1, c1)" "out_wf c1" "space E L (m + k) c1" "queued c1 = queued c @ accepted c (e1 (c_resp c))"
    "c_sentlen c1 = c_sentlen c" "rep_frame (S, c) (S1, c1)"
    using emitsD [OF assms(1) c(1), of "m + k" S] c(2) by (auto simp: add.assoc)
  obtain S2 c2 where g: "g (S1, c1) = Inr (S2, c2)" "out_wf c2" "space E L k c2" "queued c2 = queued c1 @ accepted c1 (e2 (c_resp c1))"
    "c_sentlen c2 = c_sentlen c1" "rep_frame (S1, c1) (S2, c2)"
    using emitsD [OF assms(2) f(2,3), of S1] by blast
  show "\<exists>S' c'. bindE (f (S, c)) g = Inr (S', c') \<and> out_wf c' \<and> space E L k c' \<and> queued c' = queued c @ accepted c (e1 (c_resp c) @ e2 (c_resp c)) \<and>
      c_sentlen c' = c_sentlen c \<and> rep_frame (S, c) (S', c')"
    using f g rep_frameD [OF f(6)] rep_frame_trans [OF f(6) g(6)] by (intro exI [of _ S2] exI [of _ c2]) (simp add: accepted_append)
qed

lemma emits_mono: "emits E L n f e \<Longrightarrow> n \<le> m \<Longrightarrow> emits E L m f e"
  unfolding emits_def
proof (intro allI impI)
  fix S c k
  assume h: "\<forall>S c k. out_wf c \<longrightarrow> space E L (n + k) c \<longrightarrow>
        (\<exists>S' c'. f (S, c) = Inr (S', c') \<and> out_wf c' \<and> space E L k c' \<and> queued c' = queued c @ accepted c (e (c_resp c)) \<and>
           c_sentlen c' = c_sentlen c \<and> rep_frame (S, c) (S', c'))"
    and c: "n \<le> m" "out_wf c" "space E L (m + k) c"
  have "space E L (n + k) c" using space_less [of E L "m - n" "n + k" c] c(1,3) by simp
  then show "\<exists>S' c'. f (S, c) = Inr (S', c') \<and> out_wf c' \<and> space E L k c' \<and> queued c' = queued c @ accepted c (e (c_resp c)) \<and>
           c_sentlen c' = c_sentlen c \<and> rep_frame (S, c) (S', c')"
    using h c(2) by blast
qed

lemma out_frame_sc: "out_frame (S, c) (S', c') \<Longrightarrow> sc_frame (S, c) (S', c')"
proof -
  assume f: "out_frame (S, c) (S', c')"
  then have "c_flags c \<subseteq> c_flags c'" "c_flags c' \<subseteq> insert CLIENT_CLOSE_ASAP (c_flags c)" by (simp_all add: out_frame_def)
  then have "c_flags c - {CLIENT_CLOSE_ASAP, CLIENT_PENDING_WRITE, CLIENT_PROTECTED} = c_flags c' - {CLIENT_CLOSE_ASAP, CLIENT_PENDING_WRITE, CLIENT_PROTECTED}" by blast
  then show ?thesis using f by (simp add: out_frame_def sc_frame_def)
qed

text \<open>All the functions that append bytes do it in this way.\<close>

lemma emits_queue:
  assumes "env_ok E" "length s \<le> L"
  shows "emits E L 1 (\<lambda>x. let (ok, x) = prepareClientToWrite x in if \<not> ok then Inr x else queue_bytes E x s) (\<lambda>v. s)"
  unfolding emits_def
proof (intro allI impI)
  fix S c k
  assume c: "out_wf c" "space E L (1 + k) c"
  obtain ok S1 c1 where p: "prepareClientToWrite (S, c) = (ok, S1, c1)" by (cases "prepareClientToWrite (S, c)") auto
  note p1 = prepare_ok [OF p]
  have sp: "space E L (Suc k) c1" using c(2) p1(8) by (simp add: space_def)
  show "\<exists>S' c'. (let (ok, x) = prepareClientToWrite (S, c) in if \<not> ok then Inr x else queue_bytes E x s) = Inr (S', c') \<and> out_wf c' \<and> space E L k c' \<and>
      queued c' = queued c @ accepted c s \<and> c_sentlen c' = c_sentlen c \<and> rep_frame (S, c) (S', c')"
  proof (cases "takes_replies c")
    case False
    then have "S1 = S \<and> c1 = c" using prepare_false p p1(1) by metis
    then show ?thesis using False p p1(1) c(1) space_less [of E L 1 k c] sp by (intro exI [of _ S] exI [of _ c]) (simp add: accepted_def rep_frame_def keeps_front_refl)
  next
    case True
    obtain S2 c2 n where q: "queue_bytes E (S1, c1) s = Inr (S2, c2)" "out_wf c2" "queued c2 = queued c1 @ (if CLIENT_CLOSE_AFTER_REPLY \<in> c_flags c1 then [] else s)"
      "out_frame (S1, c1) (S2, c2)" "n \<le> max PROTO_REPLY_CHUNK_BYTES (length s)" "total_size c2 \<le> total_size c1 + length (new_block E n)"
      using queue_bytes_ok [OF assms(1) _ space_room [OF sp assms(2)], of S1] p1(6) c(1) by blast
    have "n \<le> max PROTO_REPLY_CHUNK_BYTES L" using q(5) assms(2) by linarith
    then have "space E L k c2" using space_used [OF sp _ q(6)] by blast
    moreover have "(if CLIENT_CLOSE_AFTER_REPLY \<in> c_flags c1 then [] else s) = accepted c s"
      using sc_frameD(1,2) [OF p1(2)] True by (metis accepted_def)
    moreover have "rep_frame (S, c) (S2, c2)"
      using sc_frame_trans [OF p1(2) out_frame_sc [OF q(4)]] queue_bytes_reply [OF q(1)] prepare_reply [OF p] p1(4,5,9,10) q(4)
        keeps_front_trans [OF keeps_front_refl queue_bytes_front [OF q(1)], of c]
        waits_sched [OF prepare_waits q(4), of S c] p p1(1) True by (auto simp: rep_frame_def out_frame_def)
    ultimately show ?thesis using p p1(1,3,7) q(1-4) True by (intro exI [of _ S2] exI [of _ c2]) (simp add: out_frame_def)
  qed
qed

lemma emits_proto: "env_ok E \<Longrightarrow> length s \<le> L \<Longrightarrow> emits E L 1 (\<lambda>x. addReplyProto E x s) (\<lambda>v. s)"
  unfolding addReplyProto_def by (rule emits_queue)

lemma emits_sds: "env_ok E \<Longrightarrow> length s \<le> L \<Longrightarrow> emits E L 1 (\<lambda>x. addReplySds E x s) (\<lambda>v. s)"
  unfolding addReplySds_def by (rule emits_queue)

lemma emits_obj: "env_ok E \<Longrightarrow> length s \<le> L \<Longrightarrow> emits E L 1 (\<lambda>x. addReply E x (Sds_Obj s)) (\<lambda>v. s)"
  unfolding addReply_def robj.case by (rule emits_queue)

text \<open>The replies and their form in versions 2 and 3 of the protocol.\<close>

datatype reply =
    Status "byte list" | Failure "byte list" | Integer int | Bulk "byte list" | Null | NullArray | Boolean bool
  | ArrayLen nat | MapLen nat | SetLen nat | AttributeLen nat | PushLen nat | Verbatim "byte list" "byte list"

definition line :: "byte \<Rightarrow> byte list \<Rightarrow> byte list" where
  "line b s = b # s @ crlf"

definition encode_bulk :: "byte list \<Rightarrow> byte list" where
  "encode_bulk s = line 36 (dec (length s)) @ s @ crlf"

fun encode :: "int \<Rightarrow> reply \<Rightarrow> byte list" where
  "encode v (Status s) = line 43 s"
| "encode v (Failure s) = (if s = [] \<or> hd s \<noteq> 45 then ascii ''-ERR '' else []) @ s @ crlf"
| "encode v (Integer i) = line 58 (dec_int i)"
| "encode v (Bulk s) = encode_bulk s"
| "encode v Null = (if v = 2 then line 36 (ascii ''-1'') else line 95 [])"
| "encode v NullArray = (if v = 2 then line 42 (ascii ''-1'') else line 95 [])"
| "encode v (Boolean b) = (if v = 2 then line 58 (dec (if b then 1 else 0)) else line 35 (ascii (if b then ''t'' else ''f'')))"
| "encode v (ArrayLen n) = line 42 (dec n)"
| "encode v (MapLen n) = (if v = 2 then line 42 (dec (2 * n)) else line 37 (dec n))"
| "encode v (SetLen n) = line (if v = 2 then 42 else 126) (dec n)"
| "encode v (AttributeLen n) = (if v = 2 then line 42 (dec (2 * n)) else line 124 (dec n))"
| "encode v (PushLen n) = line (if v = 2 then 42 else 62) (dec n)"
| "encode v (Verbatim s ext) = (if v = 2 then encode_bulk s else line 61 (dec (length s + 4)) @ pad_ext ext @ ascii '':'' @ s @ crlf)"

text \<open>The function of the source for each reply.\<close>

fun send :: "net_env \<Rightarrow> reply \<Rightarrow> 'w sc \<Rightarrow> 'w sc outcome" where
  "send E (Status s) x = addReplyStatusLength E x s"
| "send E (Failure s) x = addReplyErrorLength E x s"
| "send E (Integer i) x = addReplyLongLong E x i"
| "send E (Bulk s) x = addReplyBulkCBuffer E x s"
| "send E Null x = addReplyNull E x"
| "send E NullArray x = addReplyNullArray E x"
| "send E (Boolean b) x = addReplyBool E x b"
| "send E (ArrayLen n) x = addReplyArrayLen E x (int n)"
| "send E (MapLen n) x = addReplyMapLen E x (int n)"
| "send E (SetLen n) x = addReplySetLen E x (int n)"
| "send E (AttributeLen n) x = addReplyAttributeLen E x (int n)"
| "send E (PushLen n) x = addReplyPushLen E x (int n)"
| "send E (Verbatim s ext) x = addReplyVerbatim E x s (ext @ [0])"

text \<open>The numbers are in range for the types of the source, and the strings have at most \<open>L\<close> bytes.\<close>

fun reply_ok :: "nat \<Rightarrow> reply \<Rightarrow> bool" where
  "reply_ok L (Status s) = (length s \<le> L)"
| "reply_ok L (Failure s) = (length s \<le> L)"
| "reply_ok L (Integer i) = (- (2 ^ 63) \<le> i \<and> i < 2 ^ 63)"
| "reply_ok L (Bulk s) = (length s \<le> L)"
| "reply_ok L (ArrayLen n) = (n < 2 ^ 62)"
| "reply_ok L (MapLen n) = (n < 2 ^ 62)"
| "reply_ok L (SetLen n) = (n < 2 ^ 62)"
| "reply_ok L (AttributeLen n) = (n < 2 ^ 62)"
| "reply_ok L (PushLen n) = (n < 2 ^ 62)"
| "reply_ok L (Verbatim s ext) = (length s \<le> L \<and> 0 \<notin> set ext)"
| "reply_ok L r = True"

text \<open>What the sources rely on: \<open>ll2string\<close> gives the decimal form, the shared objects hold the headers for small numbers.\<close>

definition resp_env :: "net_env \<Rightarrow> bool" where
  "resp_env E \<longleftrightarrow> env_ok E \<and> (\<forall>i. ll2string E i = dec_int i) \<and>
     (\<forall>n < OBJ_SHARED_BULKHDR_LEN E. shared_mbulkhdr E n = line 42 (dec n) \<and> shared_bulkhdr E n = line 36 (dec n))"

lemma emits_resp:
  assumes "emits E L n f e" "emits E L n g e'"
  shows "emits E L n (\<lambda>x. if c_resp (snd x) = 2 then f x else g x) (\<lambda>v. if v = 2 then e v else e' v)"
  unfolding emits_def
proof (intro allI impI)
  fix S c k
  assume c: "out_wf c" "space E L (n + k) c"
  show "\<exists>S' c'. (if c_resp (snd (S, c)) = 2 then f (S, c) else g (S, c)) = Inr (S', c') \<and> out_wf c' \<and> space E L k c' \<and>
      queued c' = queued c @ accepted c (if c_resp c = 2 then e (c_resp c) else e' (c_resp c)) \<and> c_sentlen c' = c_sentlen c \<and>
      rep_frame (S, c) (S', c')"
    using assms(1) [unfolded emits_def, rule_format, OF c, of S] assms(2) [unfolded emits_def, rule_format, OF c, of S]
    by (cases "c_resp c = 2") simp_all
qed

lemma dec_int_nat [simp]: "dec_int (int n) = dec n"
  by (simp add: dec_int_def)

lemma length_dec_int: "- (2 ^ 63) \<le> i \<Longrightarrow> i < 2 ^ 63 \<Longrightarrow> length (dec_int i) \<le> 20"
proof -
  assume i: "- (2 ^ 63) \<le> i" "i < 2 ^ 63"
  then have "nat \<bar>i\<bar> < 10 ^ 19" by simp
  then have "length (dec (nat \<bar>i\<bar>)) \<le> 19" by (rule dec_length) simp
  then show ?thesis by (cases "i < 0") (simp_all add: dec_int_def)
qed

lemma length_dec: "n < 2 ^ 63 \<Longrightarrow> length (dec n) \<le> 20"
  using length_dec_int [of "int n"] by simp

lemma emits_cong: "emits E L n f e \<Longrightarrow> (\<And>x. g x = f x) \<Longrightarrow> (\<And>v. e' v = e v) \<Longrightarrow> emits E L n g e'"
  by (metis ext)

lemma emits_prefix:
  assumes "resp_env E" "32 \<le> L" "- (2 ^ 63) \<le> i" "i < 2 ^ 63"
  shows "emits E L 1 (\<lambda>x :: 'w sc. addReplyLongLongWithPrefix E x i p) (\<lambda>v. line p (dec_int i))"
proof -
  have len: "length (line p (dec_int i)) \<le> L" using length_dec_int [OF assms(3,4)] assms(2) by (simp add: line_def crlf_def)
  have E: "env_ok E" using assms(1) by (simp add: resp_env_def)
  have "(\<forall>x :: 'w sc. addReplyLongLongWithPrefix E x i p = addReply E x (Sds_Obj (line p (dec_int i)))) \<or>
      (\<forall>x :: 'w sc. addReplyLongLongWithPrefix E x i p = addReplyProto E x (line p (dec_int i)))"
    using assms(1) length_dec_int [OF assms(3,4)] by (auto simp: addReplyLongLongWithPrefix_def resp_env_def line_def dec_int_def)
  then show ?thesis
  proof
    assume "\<forall>x :: 'w sc. addReplyLongLongWithPrefix E x i p = addReply E x (Sds_Obj (line p (dec_int i)))"
    then show ?thesis by (intro emits_cong [OF emits_obj [OF E len]]) blast+
  next
    assume "\<forall>x :: 'w sc. addReplyLongLongWithPrefix E x i p = addReplyProto E x (line p (dec_int i))"
    then show ?thesis by (intro emits_cong [OF emits_proto [OF E len]]) blast+
  qed
qed

lemma emits_aggregate:
  assumes "resp_env E" "32 \<le> L" "n < 2 ^ 63"
  shows "emits E L 1 (\<lambda>x :: 'w sc. addReplyAggregateLen E x (int n) p) (\<lambda>v. line p (dec n))"
proof (cases "p = 42 \<and> n < OBJ_SHARED_BULKHDR_LEN E")
  case True
  then have eq: "addReplyAggregateLen E x (int n) p = addReply E x (Sds_Obj (line p (dec n)))" for x :: "'w sc"
    using assms(1) by (auto simp: addReplyAggregateLen_def resp_env_def)
  have "env_ok E" "length (line p (dec n)) \<le> L" using assms length_dec [of n] by (simp_all add: resp_env_def line_def crlf_def)
  then show ?thesis by (intro emits_cong [OF emits_obj]) (simp_all add: eq)
next
  case False
  then have eq: "addReplyAggregateLen E x (int n) p = addReplyLongLongWithPrefix E x (int n) p" for x :: "'w sc"
    by (auto simp: addReplyAggregateLen_def)
  show ?thesis by (rule emits_cong [OF emits_prefix [OF assms(1,2), of "int n" p]]) (use assms(3) in \<open>simp_all add: eq\<close>)
qed

lemma emits_bulk:
  assumes "resp_env E" "32 \<le> L" "length s \<le> L" "L < 2 ^ 63"
  shows "emits E L 3 (\<lambda>x. addReplyBulkCBuffer E x s) (\<lambda>v. encode_bulk s)"
proof -
  have E: "env_ok E" using assms(1) by (simp add: resp_env_def)
  have crlf: "length crlf \<le> L" using assms(2) by (simp add: crlf_def)
  have "emits E L (1 + (1 + 1)) (\<lambda>x. bindE (addReplyLongLongWithPrefix E x (int (length s)) 36) (\<lambda>x. bindE (addReplyProto E x s) (\<lambda>x. addReply E x (Sds_Obj crlf))))
      (\<lambda>v. line 36 (dec_int (int (length s))) @ s @ crlf)"
    using assms by (intro emits_seq emits_prefix emits_proto emits_obj E crlf) simp_all
  then show ?thesis by (simp add: addReplyBulkCBuffer_def encode_bulk_def eval_nat_numeral)
qed

lemma emits_three:
  assumes "env_ok E" "length a \<le> L" "length b \<le> L" "length d \<le> L"
  shows "emits E L 3 (\<lambda>x. bindE (addReplyProto E x a) (\<lambda>x. bindE (addReplyProto E x b) (\<lambda>x. addReplyProto E x d))) (\<lambda>v. a @ b @ d)"
proof -
  have "emits E L (1 + (1 + 1)) (\<lambda>x. bindE (addReplyProto E x a) (\<lambda>x. bindE (addReplyProto E x b) (\<lambda>x. addReplyProto E x d))) (\<lambda>v. a @ b @ d)"
    using assms by (intro emits_seq emits_proto)
  then show ?thesis by (simp add: eval_nat_numeral)
qed

lemma emits_error:
  assumes "env_ok E" "32 \<le> L" "length s \<le> L"
  shows "emits E L 3 (\<lambda>x. addReplyErrorLength E x s) (\<lambda>v. encode v (Failure s))"
proof (cases "s = [] \<or> hd s \<noteq> 45")
  case True
  then have "s = [] \<or> s ! 0 \<noteq> 45" by (auto simp: hd_conv_nth)
  then show ?thesis
    using emits_three [OF assms(1) _ assms(3), of "ascii ''-ERR ''" crlf] assms(2) True
    by (simp add: addReplyErrorLength_def ascii_def crlf_def)
next
  case False
  then have nth: "s \<noteq> []" "s ! 0 = 45" by (auto simp: hd_conv_nth)
  have "emits E L (1 + 1) (\<lambda>x. bindE (addReplyProto E x s) (\<lambda>x. addReplyProto E x crlf)) (\<lambda>v. s @ crlf)"
    using assms by (intro emits_seq emits_proto) (simp_all add: crlf_def)
  then have "emits E L 3 (\<lambda>x. bindE (addReplyProto E x s) (\<lambda>x. addReplyProto E x crlf)) (\<lambda>v. s @ crlf)" by (rule emits_mono) simp
  then show ?thesis using False nth by (simp add: addReplyErrorLength_def)
qed

lemma emits_verbatim:
  assumes "resp_env E" "32 \<le> L" "length s \<le> L" "L < 2 ^ 62" "0 \<notin> set ext"
  shows "emits E L 3 (\<lambda>x. addReplyVerbatim E x s (ext @ [0])) (\<lambda>v. encode v (Verbatim s ext))"
proof -
  let ?p = "ascii ''='' @ dec (to_size_t (length s + 4)) @ crlf @ pad_ext ext @ ascii '':''"
  have n: "to_size_t (length s + 4) = length s + 4" using assms(3,4) by (simp add: to_size_t_def)
  have "length (dec (length s + 4)) \<le> 20" using assms(3,4) by (intro length_dec) simp
  then have p: "length ?p < 32" "length ?p \<le> L" using assms(2) unfolding n by (simp_all add: ascii_def crlf_def pad_ext_def)
  have "emits E L 3 (\<lambda>x. bindE (addReplyProto E x ?p) (\<lambda>x. bindE (addReplyProto E x s) (\<lambda>x. addReplyProto E x crlf))) (\<lambda>v. ?p @ s @ crlf)"
    using assms(1,2) by (intro emits_three p(2) assms(3)) (simp_all add: resp_env_def crlf_def)
  moreover have "emits E L 3 (\<lambda>x. addReplyBulkCBuffer E x s) (\<lambda>v. encode_bulk s)" using assms by (intro emits_bulk) simp_all
  ultimately have "emits E L 3 (\<lambda>x. if c_resp (snd x) = 2 then addReplyBulkCBuffer E x s
      else bindE (addReplyProto E x ?p) (\<lambda>x. bindE (addReplyProto E x s) (\<lambda>x. addReplyProto E x crlf))) (\<lambda>v. if v = 2 then encode_bulk s else ?p @ s @ crlf)"
    by (intro emits_resp)
  then show ?thesis
  proof (rule emits_cong)
    show "addReplyVerbatim E x s (ext @ [0]) = (if c_resp (snd x) = 2 then addReplyBulkCBuffer E x s
      else bindE (addReplyProto E x ?p) (\<lambda>x. bindE (addReplyProto E x s) (\<lambda>x. addReplyProto E x crlf)))" for x
      using strlen_append_zero [OF assms(5), of "[]"] p(1) by (simp add: addReplyVerbatim_def)
    show "encode v (Verbatim s ext) = (if v = 2 then encode_bulk s else ?p @ s @ crlf)" for v
      unfolding n by (simp add: line_def ascii_def)
  qed
qed

lemma emits_map:
  assumes "resp_env E" "32 \<le> L" "n < 2 ^ 62"
  shows "emits E L 1 (\<lambda>x. if c_resp (snd x) = 2 then bindE (long_twice (int n)) (\<lambda>len. addReplyAggregateLen E x len 42) else addReplyAggregateLen E x (int n) p)
    (\<lambda>v. if v = 2 then line 42 (dec (2 * n)) else line p (dec n))"
proof -
  have tw: "long_twice (int n) = Inr (int (2 * n))" using assms(3) by (simp add: long_twice_def)
  show ?thesis unfolding tw bindE_Inr using assms(3) by (intro emits_resp emits_aggregate [OF assms(1,2)]) simp_all
qed

lemma emits_set:
  assumes "resp_env E" "32 \<le> L" "n < 2 ^ 62"
  shows "emits E L 1 (\<lambda>x. addReplyAggregateLen E x (int n) (if c_resp (snd x) = 2 then 42 else p)) (\<lambda>v. line (if v = 2 then 42 else p) (dec n))"
  by (rule emits_cong [OF emits_resp [OF emits_aggregate [OF assms(1,2), of n 42] emits_aggregate [OF assms(1,2), of n p]]]) (use assms(3) in simp_all)

lemma emits_literal:
  assumes "env_ok E" "length a \<le> L" "length b \<le> L"
  shows "emits E L 1 (\<lambda>x. addReplyProto E x (if c_resp (snd x) = 2 then a else b)) (\<lambda>v. if v = 2 then a else b)"
  by (rule emits_cong [OF emits_resp [OF emits_proto [OF assms(1,2)] emits_proto [OF assms(1,3)]]]) simp_all

lemma dec_digits: "dec 0 = ascii ''0''" "dec 1 = ascii ''1''"
  by (simp_all add: dec.simps ascii_def)

lemma emits_integer:
  assumes "resp_env E" "32 \<le> L" "- (2 ^ 63) \<le> i" "i < 2 ^ 63"
  shows "emits E L 1 (\<lambda>x. addReplyLongLong E x i) (\<lambda>v. line 58 (dec_int i))"
proof (cases "i = 0 \<or> i = 1")
  case True
  have "emits E L 1 (\<lambda>x. addReply E x (Sds_Obj (line 58 (dec_int i)))) (\<lambda>v. line 58 (dec_int i))"
    using assms length_dec_int [OF assms(3,4)] by (intro emits_obj) (simp_all add: resp_env_def line_def crlf_def)
  then show ?thesis using True dec_digits by (elim disjE) (simp_all add: addReplyLongLong_def dec_int_def line_def ascii_def)
next
  case False
  then show ?thesis using emits_prefix [OF assms, of 58] by (simp add: addReplyLongLong_def)
qed

lemma emits_bool:
  assumes "env_ok E" "32 \<le> L"
  shows "emits E L 1 (\<lambda>x. addReplyBool E x b) (\<lambda>v. encode v (Boolean b))"
  unfolding addReplyBool_def encode.simps
  by (intro emits_cong [OF emits_resp [OF emits_obj [OF assms(1), where s = "line 58 (dec (if b then 1 else 0))"]
        emits_proto [OF assms(1), where s = "line 35 (ascii (if b then ''t'' else ''f''))"]]])
     (use assms(2) dec_digits in \<open>cases b; simp add: line_def ascii_def crlf_def\<close>)+

lemma send_fun:
  "send E (Status s) = (\<lambda>x. addReplyStatusLength E x s)" "send E (Failure s) = (\<lambda>x. addReplyErrorLength E x s)"
  "send E (Integer i) = (\<lambda>x. addReplyLongLong E x i)" "send E (Bulk s) = (\<lambda>x. addReplyBulkCBuffer E x s)"
  "send E Null = addReplyNull E" "send E NullArray = addReplyNullArray E" "send E (Boolean b) = (\<lambda>x. addReplyBool E x b)"
  "send E (ArrayLen n) = (\<lambda>x. addReplyArrayLen E x (int n))" "send E (MapLen n) = (\<lambda>x. addReplyMapLen E x (int n))"
  "send E (SetLen n) = (\<lambda>x. addReplySetLen E x (int n))" "send E (AttributeLen n) = (\<lambda>x. addReplyAttributeLen E x (int n))"
  "send E (PushLen n) = (\<lambda>x. addReplyPushLen E x (int n))" "send E (Verbatim s ext) = (\<lambda>x. addReplyVerbatim E x s (ext @ [0]))"
  by (simp_all add: fun_eq_iff)

lemma send_emits:
  assumes "resp_env E" "32 \<le> L" "L < 2 ^ 62" "reply_ok L r"
  shows "emits E L 3 (send E r) (\<lambda>v. encode v r)"
proof -
  have E: "env_ok E" using assms(1) by (simp add: resp_env_def)
  have one: "emits E L 3 f e" if "emits E L 1 f e" for f :: "'a sc \<Rightarrow> 'a sc outcome" and e using emits_mono [OF that] by simp
  note lit = emits_literal [OF E] 
  show ?thesis
  proof (cases r)
    case (Status s)
    have "emits E L 3 (\<lambda>x. addReplyStatusLength E x s) (\<lambda>v. ascii ''+'' @ s @ crlf)"
      unfolding addReplyStatusLength_def using assms Status by (intro emits_three E) (simp_all add: ascii_def crlf_def)
    then show ?thesis using Status by (simp add: send_fun line_def ascii_def)
  next
    case (Failure s)
    then show ?thesis using emits_error [OF E assms(2), of s] assms(4) by (simp add: send_fun del: encode.simps)
  next
    case (Integer i)
    then show ?thesis using one [OF emits_integer [OF assms(1,2)]] assms(4) by (simp add: send_fun)
  next
    case (Bulk s)
    then show ?thesis using emits_bulk [OF assms(1,2)] assms(3,4) by (simp add: send_fun)
  next
    case Null
    have "emits E L 1 (addReplyNull E) (\<lambda>v. if v = 2 then line 36 (ascii ''-1'') else line 95 [])"
      by (rule emits_cong [OF lit [where a = "line 36 (ascii ''-1'')" and b = "line 95 []"]])
         (use assms(2) in \<open>simp_all add: addReplyNull_def line_def ascii_def crlf_def\<close>)
    then show ?thesis using one Null by (simp add: send_fun)
  next
    case NullArray
    have "emits E L 1 (addReplyNullArray E) (\<lambda>v. if v = 2 then line 42 (ascii ''-1'') else line 95 [])"
      by (rule emits_cong [OF lit [where a = "line 42 (ascii ''-1'')" and b = "line 95 []"]])
         (use assms(2) in \<open>simp_all add: addReplyNullArray_def line_def ascii_def crlf_def\<close>)
    then show ?thesis using one NullArray by (simp add: send_fun)
  next
    case (Boolean b)
    then show ?thesis using one [OF emits_bool [OF E assms(2)]] by (simp add: send_fun del: encode.simps)
  next
    case (ArrayLen n)
    then show ?thesis using one [OF emits_aggregate [OF assms(1,2), of n 42]] assms(4) by (simp add: send_fun addReplyArrayLen_def)
  next
    case (MapLen n)
    then show ?thesis using one [OF emits_map [OF assms(1,2), of n 37]] assms(4) by (simp add: send_fun addReplyMapLen_def)
  next
    case (SetLen n)
    then show ?thesis using one [OF emits_set [OF assms(1,2), of n 126]] assms(4) by (simp add: send_fun addReplySetLen_def)
  next
    case (AttributeLen n)
    then show ?thesis using one [OF emits_map [OF assms(1,2), of n 124]] assms(4) by (simp add: send_fun addReplyAttributeLen_def)
  next
    case (PushLen n)
    then show ?thesis using one [OF emits_set [OF assms(1,2), of n 62]] assms(4) by (simp add: send_fun addReplyPushLen_def)
  next
    case (Verbatim s ext)
    then show ?thesis using emits_verbatim [OF assms(1,2), of s ext] assms(3,4) by (simp add: send_fun del: encode.simps)
  qed
qed

section \<open>An example\<close>

text \<open>An environment that meets the laws, a new client, and a server.\<close>

definition ex_env :: net_env where
  "ex_env = \<lparr>new_block = \<lambda>n. replicate n 0, list_item_size = 24, ll2string = dec_int, shared_mbulkhdr = \<lambda>n. line 42 (dec n),
     shared_bulkhdr = \<lambda>n. line 36 (dec n), OBJ_SHARED_BULKHDR_LEN = 32\<rparr>"

definition ex_client :: client where
  "ex_client = \<lparr>c_id = 1, c_fd = 8, c_resp = 3, c_flags = {}, c_replstate = REPL_STATE_NONE, c_repl_put_online_on_ack = False, c_reply = [],
     c_reply_bytes = 0, c_sentlen = 0, c_bufpos = 0, c_buf = replicate PROTO_REPLY_CHUNK_BYTES 0, c_obuf_soft_limit_reached_time = 0,
     c_lastinteraction = 0\<rparr>"

definition ex_server :: "'w \<Rightarrow> 'w redisServer" where
  "ex_server w = \<lparr>clients_pending_write = [], clients_to_close = [], clients_pending_read = [], write_handlers = {}, read_handlers = {8},
     unixtime = 0, mstime = 0, clients_paused = False, clients_pause_end_time = 0, lua_timedout = False, current_client = None,
     stat_net_output_bytes = 0, stat_net_input_bytes = 0,
     maxmemory = 0, client_obuf_limits = \<lambda>_. \<lparr>hard_limit_bytes = 0, soft_limit_bytes = 0, soft_limit_seconds = 0\<rparr>,
     aof_on = False, aof_fsync_always = False, world = w\<rparr>"

lemma ex_env_ok: "resp_env ex_env" "max_block ex_env 32 \<le> PROTO_REPLY_CHUNK_BYTES"
proof -
  show "resp_env ex_env" by (simp add: resp_env_def env_ok_def ex_env_def)
  show "max_block ex_env 32 \<le> PROTO_REPLY_CHUNK_BYTES" unfolding max_block_def by (subst Max_le_iff) (auto simp: ex_env_def PROTO_REPLY_CHUNK_BYTES_def)
qed

end
