(* ===== verification/Net_Write.thy ===== *)
theory Net_Write
  imports Net_Output
begin

text \<open>
  Writing to the socket: \<open>writeToClient\<close> takes bytes from the front of the queue, and every client with bytes in its queue is
  scheduled for another write.
\<close>

section \<open>One write\<close>

lemma pending_sent: "pending (c\<lparr>c_sentlen := c_sentlen c + n\<rparr>) = drop n (pending c)"
proof -
  have "queued (c\<lparr>c_sentlen := c_sentlen c + n\<rparr>) = queued c" by (simp add: queued_def)
  then show ?thesis by (simp add: pending_def add.commute)
qed

lemma sent_buf_ok:
  assumes "out_wf c" "c_bufpos c > 0" "d = take (size_diff (c_bufpos c) (c_sentlen c)) (drop (c_sentlen c) (c_buf c))" "n \<le> length d"
  shows "mem_read (c_buf c) (c_sentlen c) (size_diff (c_bufpos c) (c_sentlen c)) = Inr d" "out_wf (sent_buf c n)"
    "pending c = take n d @ pending (sent_buf c n)"
proof -
  note w = assms(1) [unfolded out_wf_def]
  have sl: "c_sentlen c < c_bufpos c" using w assms(2) by (auto simp: front_def)
  have sz: "size_diff (c_bufpos c) (c_sentlen c) = c_bufpos c - c_sentlen c"
  proof -
    have "c_bufpos c \<le> 16384" using w by (simp add: PROTO_REPLY_CHUNK_BYTES_def)
    then have "(c_bufpos c - c_sentlen c) mod 2 ^ 64 = c_bufpos c - c_sentlen c" by (intro mod_less) simp
    then show ?thesis using size_diff_eq [of "c_sentlen c" "c_bufpos c"] sl by simp
  qed
  show "mem_read (c_buf c) (c_sentlen c) (size_diff (c_bufpos c) (c_sentlen c)) = Inr d"
    using sl w unfolding assms(3) sz by (simp add: mem)
  have d: "d = drop (c_sentlen c) (take (c_bufpos c) (c_buf c))" unfolding assms(3) sz by (simp add: drop_take)
  have len: "length d = c_bufpos c - c_sentlen c" using d w by simp
  let ?rest = "concat (map node_data (c_reply c))"
  have pd: "pending c = d @ ?rest" using sl w unfolding pending_def queued_def d by simp
  show "out_wf (sent_buf c n)" "pending c = take n d @ pending (sent_buf c n)"
  proof (atomize (full), cases "c_sentlen c + n = c_bufpos c")
    case True
    then have s: "sent_buf c n = c\<lparr>c_bufpos := 0, c_sentlen := 0\<rparr>" by (simp add: sent_buf_def)
    have "n = length d" using True len sl by simp
    then show "out_wf (sent_buf c n) \<and> pending c = take n d @ pending (sent_buf c n)"
      unfolding s using w pd by (simp add: out_wf_def pending_def queued_def total_size_def)
  next
    case False
    then have s: "sent_buf c n = c\<lparr>c_sentlen := c_sentlen c + n\<rparr>" by (simp add: sent_buf_def)
    have l: "c_sentlen c + n < c_bufpos c" using False assms(4) len sl by simp
    have "pending (sent_buf c n) = drop n (pending c)" unfolding s by (rule pending_sent)
    then have "pending c = take n d @ pending (sent_buf c n)" using pd assms(4) by simp
    moreover have "out_wf (sent_buf c n)" unfolding s using w l assms(2) by (simp add: out_wf_def front_def total_size_def)
    ultimately show "out_wf (sent_buf c n) \<and> pending c = take n d @ pending (sent_buf c n)" by blast
  qed
qed

lemma sent_block_ok:
  assumes "out_wf c" "c_bufpos c = 0" "c_reply c = Some b # rs" "blk_used b \<noteq> 0"
    "d = take (size_diff (blk_used b) (c_sentlen c)) (drop (c_sentlen c) (blk_buf b))" "n \<le> length d"
  shows "mem_read (blk_buf b) (c_sentlen c) (size_diff (blk_used b) (c_sentlen c)) = Inr d"
    "\<exists>c'. sent_block c b n = Inr c' \<and> out_wf c' \<and> pending c = take n d @ pending c' \<and> (\<exists>j. c_reply c' = drop j (c_reply c)) \<and>
       (\<exists>rs m k. c' = c\<lparr>c_reply := rs, c_reply_bytes := m, c_sentlen := k\<rparr>)"
proof -
  note w = assms(1) [unfolded out_wf_def]
  have used: "blk_used b \<le> blk_size b" using w assms(3) by simp
  have sl: "c_sentlen c < blk_used b" using w assms(2-4) length_blk_data [OF used] by (auto simp: front_def)
  have sz: "size_diff (blk_used b) (c_sentlen c) \<le> blk_used b - c_sentlen c" using size_diff_le sl by simp
  show "mem_read (blk_buf b) (c_sentlen c) (size_diff (blk_used b) (c_sentlen c)) = Inr d"
    using sl used sz unfolding assms(5) by (simp add: mem blk_size_def)
  have ns: "n \<le> size_diff (blk_used b) (c_sentlen c)" using assms(5,6) by simp
  then have nu: "n \<le> blk_used b - c_sentlen c" using sz by (rule le_trans)
  then have n: "c_sentlen c + n \<le> blk_used b" using sl by simp
  have tk: "take n d = take n (drop (c_sentlen c) (blk_data b))"
    unfolding assms(5) using ns nu by (simp add: blk_data_def drop_take min_absorb1)
  let ?rest = "concat (map node_data rs)"
  have pd: "pending c = drop (c_sentlen c) (blk_data b) @ ?rest"
    using sl length_blk_data [OF used] assms(2,3) by (simp add: pending_def queued_def)
  show "\<exists>c'. sent_block c b n = Inr c' \<and> out_wf c' \<and> pending c = take n d @ pending c' \<and> (\<exists>j. c_reply c' = drop j (c_reply c)) \<and>
       (\<exists>rs m k. c' = c\<lparr>c_reply := rs, c_reply_bytes := m, c_sentlen := k\<rparr>)"
  proof (cases "c_sentlen c + n = blk_used b")
    case True
    let ?c = "c\<lparr>c_reply := rs, c_reply_bytes := c_reply_bytes c - of_nat (blk_size b), c_sentlen := 0\<rparr>"
    have rb: "c_reply_bytes ?c = of_nat (total_size ?c)" using w assms(3) by (simp add: total_size_def)
    then have "sent_block c b n = Inr ?c" using True assms(3) by (auto simp: sent_block_def drop_block_def Let_def total_size_def)
    moreover have "out_wf ?c" using w assms(2,3) rb by (auto simp: out_wf_def)
    moreover have "take n d = drop (c_sentlen c) (blk_data b)" unfolding tk using True length_blk_data [OF used] by simp
    then have "pending c = take n d @ pending ?c" using pd assms(2) by (simp add: pending_def queued_def)
    moreover have "\<exists>j. c_reply ?c = drop j (c_reply c)" using assms(3) by (intro exI [of _ 1]) simp
    ultimately show ?thesis by blast
  next
    case False
    let ?c = "c\<lparr>c_sentlen := c_sentlen c + n\<rparr>"
    have "sent_block c b n = Inr ?c" using False by (simp add: sent_block_def)
    moreover have "out_wf ?c" using w assms(2,3) n False length_blk_data [OF used] by (simp add: out_wf_def front_def total_size_def)
    moreover have "pending ?c = drop n (pending c)" by (rule pending_sent)
    moreover have "take n d = take n (pending c)" unfolding tk pd using nu length_blk_data [OF used] by simp
    ultimately have f: "sent_block c b n = Inr ?c" "out_wf ?c" "pending c = take n d @ pending ?c" by simp_all
    have "?c = c\<lparr>c_reply := c_reply c, c_reply_bytes := c_reply_bytes c, c_sentlen := c_sentlen c + n\<rparr>" by simp
    then have g: "\<exists>rs m k. ?c = c\<lparr>c_reply := rs, c_reply_bytes := m, c_sentlen := k\<rparr>" "\<exists>j. c_reply ?c = drop j (c_reply c)"
      by (blast, simp add: exI [of _ 0])
    show ?thesis by (rule exI [of _ ?c]) (intro conjI f g)
  qed
qed

section \<open>The loop\<close>

text \<open>What the code relies on: \<open>write\<close> sends the first bytes of what it is given, as many as it returns, on the descriptor; registering
  a handler sends nothing. \<open>stream\<close> are the bytes sent on each descriptor.\<close>

definition io_ok :: "'w io_env \<Rightarrow> ('w \<Rightarrow> int \<Rightarrow> byte list) \<Rightarrow> bool" where
  "io_ok IO stream \<longleftrightarrow>
     (\<forall>w fd d n again w'. os_write IO w fd d = (n, again, w') \<longrightarrow>
        n \<le> int (length d) \<and> stream w' = (stream w)(fd := stream w fd @ take (nat n) d)) \<and>
     (\<forall>w fd bar r w'. os_register IO w fd bar = (r, w') \<longrightarrow> stream w' = stream w) \<and>
     (\<forall>w fd r w'. os_register_read IO w fd = (r, w') \<longrightarrow> stream w' = stream w)"

lemma io_okD:
  assumes "io_ok IO stream"
  shows "os_write IO w fd d = (n, again, w') \<Longrightarrow> nat n \<le> length d \<and> stream w' = (stream w)(fd := stream w fd @ take (nat n) d)"
    "os_register IO w fd bar = (r, w') \<Longrightarrow> stream w' = stream w"
    "os_register_read IO w fd = (r, w') \<Longrightarrow> stream w' = stream w"
  using assms unfolding io_ok_def by (meson nat_le_iff, blast, blast)

text \<open>The bytes \<open>x\<close> moved from the queue to the socket; the client is otherwise as before.\<close>

definition moved :: "('w \<Rightarrow> int \<Rightarrow> byte list) \<Rightarrow> int \<Rightarrow> 'w sc \<Rightarrow> byte list \<Rightarrow> 'w sc \<Rightarrow> bool" where
  "moved stream fd = (\<lambda>(S, c) x (S', c').
     pending c = x @ pending c' \<and> stream (world S') = (stream (world S))(fd := stream (world S) fd @ x) \<and> out_wf c' \<and>
     (\<exists>j. c_reply c' = drop j (c_reply c)) \<and> c_bufpos c' \<le> c_bufpos c \<and> S' = S\<lparr>world := world S'\<rparr> \<and>
     c' = c\<lparr>c_reply := c_reply c', c_reply_bytes := c_reply_bytes c', c_sentlen := c_sentlen c', c_bufpos := c_bufpos c'\<rparr>)"

lemma moved_refl: "out_wf c \<Longrightarrow> moved stream fd (S, c) [] (S, c)"
  by (simp add: moved_def exI [of _ 0])

lemma moved_world: "moved stream fd (S, c) x (S', c') \<Longrightarrow> stream w = stream (world S') \<Longrightarrow> moved stream fd (S, c) x (S\<lparr>world := w\<rparr>, c')"
  by (simp add: moved_def)

lemma movedD:
  assumes "moved stream fd (S, c) x (S', c')"
  shows "pending c = x @ pending c'" "stream (world S') = (stream (world S))(fd := stream (world S) fd @ x)" "out_wf c'"
    "set (c_reply c') \<subseteq> set (c_reply c)" "length (c_reply c') \<le> length (c_reply c)" "total_size c' \<le> total_size c"
    "clientHasPendingReplies c' \<Longrightarrow> clientHasPendingReplies c" "write_handlers S' = write_handlers S"
proof -
  have S': "S' = S\<lparr>world := world S'\<rparr>" using assms unfolding moved_def prod.case by blast
  show "write_handlers S' = write_handlers S" by (subst S') simp
  show "pending c = x @ pending c'" "stream (world S') = (stream (world S))(fd := stream (world S) fd @ x)" "out_wf c'"
    using assms unfolding moved_def prod.case by blast+
  obtain j where j: "c_reply c' = drop j (c_reply c)" using assms unfolding moved_def prod.case by blast
  then show "set (c_reply c') \<subseteq> set (c_reply c)" "length (c_reply c') \<le> length (c_reply c)" by (simp_all add: set_drop_subset)
  have "c_bufpos c' \<le> c_bufpos c" using assms unfolding moved_def prod.case by blast
  then show "clientHasPendingReplies c" if "clientHasPendingReplies c'" using that j by (auto simp: clientHasPendingReplies_def)
  have "sum_list (map node_size (c_reply c)) = sum_list (map node_size (take j (c_reply c))) + sum_list (map node_size (c_reply c'))"
    unfolding j sum_list.append [symmetric] map_append [symmetric] by simp
  then show "total_size c' \<le> total_size c" by (simp add: total_size_def)
qed

lemma client_eqI:
  "c' = c\<lparr>c_reply := r, c_reply_bytes := m, c_sentlen := k, c_bufpos := p\<rparr> \<Longrightarrow>
   c' = c\<lparr>c_reply := c_reply c', c_reply_bytes := c_reply_bytes c', c_sentlen := c_sentlen c', c_bufpos := c_bufpos c'\<rparr>"
  by simp

lemma moved_trans: "moved stream fd a x b \<Longrightarrow> moved stream fd b y d \<Longrightarrow> moved stream fd a (x @ y) d"
proof -
  assume m: "moved stream fd a x b" "moved stream fd b y d"
  obtain S c S1 c1 S2 c2 where e: "a = (S, c)" "b = (S1, c1)" "d = (S2, c2)" by (metis surj_pair)
  note m1 = m(1) [unfolded moved_def e prod.case] and m2 = m(2) [unfolded moved_def e prod.case]
  have "S2 = S\<lparr>world := world S2\<rparr>"
  proof -
    have "S2 = S1\<lparr>world := world S2\<rparr>" using m2 by blast
    also have "\<dots> = (S\<lparr>world := world S1\<rparr>)\<lparr>world := world S2\<rparr>" using m1 by metis
    finally show ?thesis by simp
  qed
  moreover have "c2 = c\<lparr>c_reply := c_reply c2, c_reply_bytes := c_reply_bytes c2, c_sentlen := c_sentlen c2, c_bufpos := c_bufpos c2\<rparr>"
  proof (rule client_eqI)
    have "c2 = c1\<lparr>c_reply := c_reply c2, c_reply_bytes := c_reply_bytes c2, c_sentlen := c_sentlen c2, c_bufpos := c_bufpos c2\<rparr>" using m2 by blast
    also have "\<dots> = (c\<lparr>c_reply := c_reply c1, c_reply_bytes := c_reply_bytes c1, c_sentlen := c_sentlen c1, c_bufpos := c_bufpos c1\<rparr>)
        \<lparr>c_reply := c_reply c2, c_reply_bytes := c_reply_bytes c2, c_sentlen := c_sentlen c2, c_bufpos := c_bufpos c2\<rparr>" using m1 by metis
    finally show "c2 = c\<lparr>c_reply := c_reply c2, c_reply_bytes := c_reply_bytes c2, c_sentlen := c_sentlen c2, c_bufpos := c_bufpos c2\<rparr>" by simp
  qed
  moreover obtain i j where "c_reply c1 = drop i (c_reply c)" "c_reply c2 = drop j (c_reply c1)" using m1 m2 by blast
  then have "\<exists>j. c_reply c2 = drop j (c_reply c)" by auto
  ultimately show ?thesis using m1 m2 unfolding moved_def e prod.case by auto
qed

lemma moved_write:
  assumes "io_ok IO stream" "os_write IO (world S) fd d = (n, again, w)" "out_wf c'" "pending c = take (nat n) d @ pending c'"
    "\<exists>j. c_reply c' = drop j (c_reply c)"
    "p \<le> c_bufpos c" "c' = c\<lparr>c_reply := r, c_reply_bytes := m, c_sentlen := k, c_bufpos := p\<rparr>"
  shows "moved stream fd (S, c) (take (nat n) d) (S\<lparr>world := w\<rparr>, c')"
  using client_eqI [OF assms(7)] assms(3-7) io_okD(1) [OF assms(1,2)] unfolding moved_def prod.case by simp

lemma moved_buf:
  assumes "io_ok IO stream" "out_wf c" "c_bufpos c > 0" "os_write IO (world S) fd d = (n, again, w)" "0 < n"
    "d = take (size_diff (c_bufpos c) (c_sentlen c)) (drop (c_sentlen c) (c_buf c))"
  shows "moved stream fd (S, c) (take (nat n) d) (S\<lparr>world := w\<rparr>, sent_buf c (nat n))" "length (take (nat n) d) = nat n" "0 < nat n"
proof -
  have n: "nat n \<le> length d" using io_okD(1) [OF assms(1,4)] by blast
  note s = sent_buf_ok(2,3) [OF assms(2,3,6) n]
  obtain k p where p: "p \<le> c_bufpos c" and e: "sent_buf c (nat n) = c\<lparr>c_reply := c_reply c, c_reply_bytes := c_reply_bytes c, c_sentlen := k, c_bufpos := p\<rparr>"
  proof (cases "c_sentlen c + nat n = c_bufpos c")
    case True
    then show ?thesis using that [of 0 0] by (simp add: sent_buf_def)
  next
    case False
    then show ?thesis using that [where k = "c_sentlen c + nat n" and p = "c_bufpos c"] by (simp add: sent_buf_def)
  qed
  show "moved stream fd (S, c) (take (nat n) d) (S\<lparr>world := w\<rparr>, sent_buf c (nat n))"
    by (rule moved_write [OF assms(1,4) s _ p e]) (simp add: e exI [of _ 0])
  show "length (take (nat n) d) = nat n" "0 < nat n" using n assms(5) by simp_all
qed

lemma moved_block:
  assumes "io_ok IO stream" "out_wf c" "c_bufpos c = 0" "c_reply c = Some b # rs" "blk_used b \<noteq> 0"
    "os_write IO (world S) fd d = (n, again, w)" "0 < n"
    "d = take (size_diff (blk_used b) (c_sentlen c)) (drop (c_sentlen c) (blk_buf b))"
  shows "\<exists>c'. sent_block c b (nat n) = Inr c' \<and> moved stream fd (S, c) (take (nat n) d) (S\<lparr>world := w\<rparr>, c') \<and>
    length (take (nat n) d) = nat n \<and> 0 < nat n"
proof -
  have n: "nat n \<le> length d" using io_okD(1) [OF assms(1,6)] by blast
  obtain c' r m k where s: "sent_block c b (nat n) = Inr c'" "out_wf c'" "pending c = take (nat n) d @ pending c'"
    "\<exists>j. c_reply c' = drop j (c_reply c)"
    and e: "c' = c\<lparr>c_reply := r, c_reply_bytes := m, c_sentlen := k\<rparr>"
    using sent_block_ok(2) [OF assms(2-5,8) n] by blast
  have "c' = c\<lparr>c_reply := r, c_reply_bytes := m, c_sentlen := k, c_bufpos := c_bufpos c\<rparr>" by (simp add: e)
  then have "moved stream fd (S, c) (take (nat n) d) (S\<lparr>world := w\<rparr>, c')" by (rule moved_write [OF assms(1,6) s(2-4) order_refl])
  then show ?thesis using s(1) n assms(7) by simp
qed

lemma moved_drop:
  assumes "out_wf c" "c_bufpos c = 0" "c_reply c = Some b # rs" "blk_used b = 0"
  shows "moved stream fd (S, c) [] (S, drop_block c b)"
proof -
  note w = assms(1) [unfolded out_wf_def]
  have sl: "c_sentlen c = 0" using w assms(2-4) by (auto simp: front_def blk_data_def)
  have rb: "c_reply_bytes (drop_block c b) = of_nat (total_size (drop_block c b))" using w assms(3) by (simp add: total_size_def drop_block_def)
  have "out_wf (drop_block c b)" using w sl rb assms(3) by (auto simp: out_wf_def drop_block_def)
  moreover have "pending (drop_block c b) = pending c" using assms sl by (simp add: pending_def queued_def drop_block_def blk_data_def)
  moreover have "\<exists>j. c_reply (drop_block c b) = drop j (c_reply c)" using assms(3) by (intro exI [of _ 1]) (simp add: drop_block_def)
  ultimately show ?thesis by (simp add: moved_def) (simp add: drop_block_def)
qed

text \<open>The measure of the loop.\<close>

definition left :: "client \<Rightarrow> nat" where
  "left c = length (pending c) + length (c_reply c)"

lemma left_moved: "moved stream fd (S, c) x (S', c') \<Longrightarrow> 0 < length x \<Longrightarrow> left c' < left c"
  using movedD(1,5) [of stream fd S c x S' c'] by (simp add: left_def del: length_greater_0_conv)

lemma left_drop: "moved stream fd (S, c) [] (S, drop_block c b) \<Longrightarrow> c_reply c \<noteq> [] \<Longrightarrow> left (drop_block c b) < left c"
  using movedD(1) [of stream fd S c "[]" S "drop_block c b"] by (simp add: left_def) (simp add: drop_block_def)

definition wrote :: "'w io_env \<Rightarrow> ('w \<Rightarrow> int \<Rightarrow> byte list) \<Rightarrow> int \<Rightarrow> nat \<Rightarrow> 'w sc \<Rightarrow> (int \<times> bool \<times> nat \<times> 'w sc) outcome option \<Rightarrow> bool" where
  "wrote IO stream fd tot x r \<longleftrightarrow> (\<exists>n again s y. r = Some (Inr (n, again, tot + length s, y)) \<and> moved stream fd x s y \<and>
     (clientHasPendingReplies (snd y) \<longrightarrow> n \<le> 0 \<or> write_enough IO y (tot + length s)))"

lemma wrote_step:
  assumes "wrote IO stream fd (tot + length s) y r" "moved stream fd x s y"
  shows "wrote IO stream fd tot x r"
proof -
  obtain n again s' z where "r = Some (Inr (n, again, tot + length s + length s', z))" "moved stream fd y s' z"
    "clientHasPendingReplies (snd z) \<longrightarrow> n \<le> 0 \<or> write_enough IO z (tot + length s + length s')"
    using assms(1) unfolding wrote_def by blast
  then show ?thesis unfolding wrote_def using moved_trans [OF assms(2)]
    by (intro exI [of _ n] exI [of _ again] exI [of _ "s @ s'"] exI [of _ z]) (simp add: add.assoc)
qed

lemma wrote_stop:
  "moved stream fd x s y \<Longrightarrow> (clientHasPendingReplies (snd y) \<longrightarrow> n \<le> 0 \<or> write_enough IO y (tot + length s)) \<Longrightarrow>
   wrote IO stream fd tot x (Some (Inr (n, again, tot + length s, y)))"
  unfolding wrote_def by blast

lemma write_loop_buf:
  assumes "io_ok IO stream" "c_bufpos c > 0" "out_wf c"
    "\<And>S' c' nw' ag' s. moved stream fd (S, c) s (S', c') \<Longrightarrow> left c' < left c \<Longrightarrow>
       wrote IO stream fd tot (S, c) (write_loop IO fd S' c' nw' ag' (tot + length s))"
  shows "wrote IO stream fd tot (S, c) (write_loop IO fd S c nw ag tot)"
proof -
  define d where "d = take (size_diff (c_bufpos c) (c_sentlen c)) (drop (c_sentlen c) (c_buf c))"
  obtain n again w where wr: "os_write IO (world S) fd d = (n, again, w)" by (metis surj_pair)
  have pr: "clientHasPendingReplies c" using assms(2) by (simp add: clientHasPendingReplies_def)
  note eq = write_loop.simps [of IO fd S c nw ag tot, unfolded sent_buf_ok(1) [OF assms(3,2) d_def le0]]
  consider "n \<le> 0" | "0 < n" "write_enough IO (S\<lparr>world := w\<rparr>, sent_buf c (nat n)) (tot + nat n)"
    | "0 < n" "\<not> write_enough IO (S\<lparr>world := w\<rparr>, sent_buf c (nat n)) (tot + nat n)" by linarith
  then show ?thesis
  proof cases
    case 1
    have "moved stream fd (S, c) [] (S\<lparr>world := w\<rparr>, c)"
      using moved_refl [OF assms(3)] io_okD(1) [OF assms(1) wr] 1 by (intro moved_world) auto
    from wrote_stop [OF this, where tot = tot and n = n] show ?thesis using 1 assms(2) pr wr by (simp add: eq Let_def)
  next
    case 2
    note m = moved_buf [OF assms(1,3,2) wr 2(1) d_def]
    from wrote_stop [OF m(1), where tot = tot and n = n] show ?thesis using 2 m(2) assms(2) pr wr by (simp add: eq Let_def)
  next
    case 3
    note m = moved_buf [OF assms(1,3,2) wr 3(1) d_def]
    have "0 < length (take (nat n) d)" using m(3) unfolding m(2) .
    from assms(4) [OF m(1) left_moved [OF m(1) this]] show ?thesis using 3 m(2) assms(2) pr wr by (simp add: eq Let_def)
  qed
qed

lemma write_loop_block:
  assumes "io_ok IO stream" "c_bufpos c = 0" "c_reply c = Some b # rs" "out_wf c"
    "\<And>S' c' nw' ag' s. moved stream fd (S, c) s (S', c') \<Longrightarrow> left c' < left c \<Longrightarrow>
       wrote IO stream fd tot (S, c) (write_loop IO fd S' c' nw' ag' (tot + length s))"
  shows "wrote IO stream fd tot (S, c) (write_loop IO fd S c nw ag tot)"
proof (cases "blk_used b = 0")
  case True
  note m = moved_drop [OF assms(4,2,3) True]
  show ?thesis using assms(5) [OF m left_drop [OF m]] assms(2,3) True
    by (simp add: write_loop.simps [of IO fd S c nw ag tot] clientHasPendingReplies_def)
next
  case used: False
  define d where "d = take (size_diff (blk_used b) (c_sentlen c)) (drop (c_sentlen c) (blk_buf b))"
  obtain n again w where wr: "os_write IO (world S) fd d = (n, again, w)" by (metis surj_pair)
  have pr: "clientHasPendingReplies c" "hd (c_reply c) = Some b" using assms(3) by (simp_all add: clientHasPendingReplies_def)
  note eq = write_loop.simps [of IO fd S c nw ag tot] sent_block_ok(1) [OF assms(4,2,3) used d_def le0]
  show ?thesis
  proof (cases "n \<le> 0")
    case True
    have "moved stream fd (S, c) [] (S\<lparr>world := w\<rparr>, c)"
      using moved_refl [OF assms(4)] io_okD(1) [OF assms(1) wr] True by (intro moved_world) auto
    from wrote_stop [OF this, where tot = tot and n = n] show ?thesis using True used assms(2) pr wr by (simp add: eq Let_def)
  next
    case False
    then obtain c' where c': "sent_block c b (nat n) = Inr c'" and m: "moved stream fd (S, c) (take (nat n) d) (S\<lparr>world := w\<rparr>, c')"
      and l: "length (take (nat n) d) = nat n" "0 < nat n" using moved_block [OF assms(1,4,2,3) used wr _ d_def] by auto
    have "0 < length (take (nat n) d)" using l(2) unfolding l(1) .
    from wrote_stop [OF m, where tot = tot and n = n] assms(5) [OF m left_moved [OF m this]]
    show ?thesis using False used l assms(2) pr wr c' by (cases "write_enough IO (S\<lparr>world := w\<rparr>, c') (tot + nat n)") (simp_all add: eq Let_def)
  qed
qed

lemma write_loop_wrote:
  assumes "io_ok IO stream" "out_wf c" "None \<notin> set (c_reply c)"
  shows "wrote IO stream fd tot (S, c) (write_loop IO fd S c nw ag tot)"
  using assms(2,3)
proof (induction "left c" arbitrary: S c nw ag tot rule: less_induct)
  case less
  have step: "wrote IO stream fd tot (S, c) (write_loop IO fd S' c' nw' ag' (tot + length s))"
    if "moved stream fd (S, c) s (S', c')" "left c' < left c" for S' c' nw' ag' s
  proof (rule wrote_step [OF less.hyps that(1)])
    show "left c' < left c" "out_wf c'" "None \<notin> set (c_reply c')" using that less.prems movedD(3,4) [OF that(1)] by auto
  qed
  consider "\<not> clientHasPendingReplies c" | "c_bufpos c > 0" | b rs where "c_bufpos c = 0" "c_reply c = Some b # rs"
    using less.prems(2) by (cases "c_reply c"; cases "hd (c_reply c)"; cases "c_bufpos c = 0") (auto simp: clientHasPendingReplies_def)
  then show ?case
  proof cases
    case 1
    then show ?thesis using wrote_stop [OF moved_refl [OF less.prems(1)], where tot = tot and n = nw] by (simp add: write_loop.simps)
  next
    case 2
    then show ?thesis using less.prems(1) step by (rule write_loop_buf [OF assms(1)])
  next
    case 3
    then show ?thesis using less.prems(1) step by (rule write_loop_block [OF assms(1)])
  qed
qed

section \<open>writeToClient\<close>

definition same_client :: "client \<Rightarrow> client \<Rightarrow> bool" where
  "same_client c c' \<longleftrightarrow> c_id c' = c_id c \<and> c_fd c' = c_fd c \<and> c_resp c' = c_resp c \<and> c_replstate c' = c_replstate c \<and>
     c_repl_put_online_on_ack c' = c_repl_put_online_on_ack c \<and>
     c_flags c \<subseteq> c_flags c' \<and> c_flags c' \<subseteq> insert CLIENT_CLOSE_ASAP (c_flags c)"

text \<open>The bytes \<open>x\<close> at the front of the queue went to the descriptor.\<close>

definition sent :: "('w \<Rightarrow> int \<Rightarrow> byte list) \<Rightarrow> int \<Rightarrow> 'w sc \<Rightarrow> byte list \<Rightarrow> 'w sc \<Rightarrow> bool" where
  "sent stream fd = (\<lambda>(S, c) x (S', c').
     pending c = x @ pending c' \<and> stream (world S') = (stream (world S))(fd := stream (world S) fd @ x) \<and> out_wf c' \<and>
     set (c_reply c') \<subseteq> set (c_reply c) \<and> total_size c' \<le> total_size c \<and> same_client c c' \<and>
     (clientHasPendingReplies c' \<longrightarrow> clientHasPendingReplies c) \<and> clients_pending_write S' = clients_pending_write S \<and> stat_net_output_bytes S' = stat_net_output_bytes S + length x)"

lemma sent_out:
  assumes "sent stream fd (S, c) x (S1, c1)" "c_reply c' = c_reply c1" "c_reply_bytes c' = c_reply_bytes c1" "c_sentlen c' = c_sentlen c1"
    "c_bufpos c' = c_bufpos c1" "c_buf c' = c_buf c1" "same_client c1 c'" "world S' = world S1" "clients_pending_write S' = clients_pending_write S1"
    "stat_net_output_bytes S' = stat_net_output_bytes S1"
  shows "sent stream fd (S, c) x (S', c')"
proof -
  have "same_client c c'" using assms(1,7) by (auto simp: sent_def same_client_def)
  moreover have "out_wf c' = out_wf c1 \<and> queued c' = queued c1 \<and> pending c' = pending c1 \<and> total_size c' = total_size c1"
    using assms(2-6) by (intro out_wf_cong)
  moreover have "clientHasPendingReplies c' = clientHasPendingReplies c1" using assms(2,5) by (simp add: clientHasPendingReplies_def)
  ultimately show ?thesis using assms(1-6,8-) by (simp add: sent_def)
qed

lemma same_client_refl [simp]: "same_client c c"
  by (auto simp: same_client_def)

lemma sent_free:
  assumes "sent stream fd (S, c) x (S1, c1)" "freeClientAsync (S1, c1) = (S', c')"
  shows "sent stream fd (S, c) x (S', c')"
  using assms(2) by (intro sent_out [OF assms(1)]) (auto simp: freeClientAsync_def set_flag_def same_client_def split: if_splits)

lemma free_flags:
  "freeClientAsync (S, c) = (S', c') \<Longrightarrow> CLIENT_CLOSE_ASAP \<in> c_flags c' \<or> CLIENT_LUA \<in> c_flags c'"
  "freeClientAsync (S, c) = (S', c') \<Longrightarrow> write_handlers S' = write_handlers S \<and> clientHasPendingReplies c' = clientHasPendingReplies c"
  by (auto simp: freeClientAsync_def set_flag_def clientHasPendingReplies_def split: if_splits)

definition handlers_ok :: "'w sc \<Rightarrow> 'w sc \<Rightarrow> bool \<Rightarrow> bool" where
  "handlers_ok = (\<lambda>(S, c) (S', c') installed.
     write_handlers S' = write_handlers S \<or> installed \<and> \<not> clientHasPendingReplies c' \<and> write_handlers S' = write_handlers S - {c_fd c})"

lemma idle_sentlen: "out_wf c \<Longrightarrow> \<not> clientHasPendingReplies c \<Longrightarrow> c_sentlen c = 0"
  by (auto simp: out_wf_def front_def clientHasPendingReplies_def)

lemma write_done_ok:
  assumes "sent stream fd (S, c) x (S1, c1)" "write_done (S1, c1) installed = (ok, S', c')" "write_handlers S1 = write_handlers S"
  shows "sent stream fd (S, c) x (S', c')" "handlers_ok (S, c) (S', c') installed"
    "ok \<or> CLIENT_CLOSE_ASAP \<in> c_flags c' \<or> CLIENT_LUA \<in> c_flags c'"
proof -
  have wf: "out_wf c1" and fd: "c_fd c1 = c_fd c" using assms(1) by (simp_all add: sent_def same_client_def)
  show "sent stream fd (S, c) x (S', c')" "handlers_ok (S, c) (S', c') installed"
    "ok \<or> CLIENT_CLOSE_ASAP \<in> c_flags c' \<or> CLIENT_LUA \<in> c_flags c'"
  proof (atomize (full), cases "clientHasPendingReplies c1")
    case True
    then show "sent stream fd (S, c) x (S', c') \<and> handlers_ok (S, c) (S', c') installed \<and> (ok \<or> CLIENT_CLOSE_ASAP \<in> c_flags c' \<or> CLIENT_LUA \<in> c_flags c')"
      using assms by (auto simp: write_done_def handlers_ok_def)
  next
    case False
    define S2 where "S2 = (if installed then S1\<lparr>write_handlers := write_handlers S1 - {c_fd c1}\<rparr> else S1)"
    have c1: "c1\<lparr>c_sentlen := 0\<rparr> = c1" using idle_sentlen [OF wf False] by simp
    have s2: "sent stream fd (S, c) x (S2, c1)" by (rule sent_out [OF assms(1)]) (simp_all add: S2_def)
    have h2: "handlers_ok (S, c) (S2, c1) installed" using False assms(3) fd by (simp add: handlers_ok_def S2_def)
    have "write_done (S1, c1) installed = (if CLIENT_CLOSE_AFTER_REPLY \<in> c_flags c1 then (False, freeClientAsync (S2, c1)) else (True, S2, c1))"
      using False by (simp add: write_done_def Let_def c1 S2_def)
    then show "sent stream fd (S, c) x (S', c') \<and> handlers_ok (S, c) (S', c') installed \<and> (ok \<or> CLIENT_CLOSE_ASAP \<in> c_flags c' \<or> CLIENT_LUA \<in> c_flags c')"
      using assms(2) s2 h2 sent_free [OF s2, of S' c'] free_flags [of S2 c1 S' c'] by (auto simp: handlers_ok_def split: if_splits)
  qed
qed

lemma moved_sent: "moved stream fd (S, c) x (S', c') \<Longrightarrow> stat_net_output_bytes S'' = stat_net_output_bytes S' + length x \<Longrightarrow>
    world S'' = world S' \<Longrightarrow> clients_pending_write S'' = clients_pending_write S' \<Longrightarrow> sent stream fd (S, c) x (S'', c')"
proof -
  assume m: "moved stream fd (S, c) x (S', c')" and S'': "stat_net_output_bytes S'' = stat_net_output_bytes S' + length x"
    "world S'' = world S'" "clients_pending_write S'' = clients_pending_write S'"
  have S': "S' = S\<lparr>world := world S'\<rparr>" and c: "c' = c\<lparr>c_reply := c_reply c', c_reply_bytes := c_reply_bytes c', c_sentlen := c_sentlen c', c_bufpos := c_bufpos c'\<rparr>"
    using m unfolding moved_def prod.case by blast+
  have "clients_pending_write S' = clients_pending_write S" "stat_net_output_bytes S' = stat_net_output_bytes S"
    by (subst S', simp)+
  moreover have "same_client c c'" by (subst c) (auto simp: same_client_def)
  ultimately show ?thesis using S'' movedD [OF m] unfolding sent_def prod.case by simp
qed

lemma writeToClient_sent:
  assumes "io_ok IO stream" "out_wf c" "None \<notin> set (c_reply c)"
  shows "\<exists>ok x S' c'. writeToClient IO fd (S, c) installed = Some (Inr (ok, S', c')) \<and> sent stream fd (S, c) x (S', c') \<and>
    handlers_ok (S, c) (S', c') installed \<and> (ok \<or> CLIENT_CLOSE_ASAP \<in> c_flags c' \<or> CLIENT_LUA \<in> c_flags c')"
proof -
  obtain n again x S1 c1 where w: "write_loop IO fd S c 0 False 0 = Some (Inr (n, again, length x, S1, c1))" and m: "moved stream fd (S, c) x (S1, c1)"
    using write_loop_wrote [OF assms, of fd 0 S 0 False] unfolding wrote_def by auto
  define S2 where "S2 = S1\<lparr>stat_net_output_bytes := stat_net_output_bytes S1 + length x\<rparr>"
  have s: "sent stream fd (S, c) x (S2, c1)" and h: "write_handlers S2 = write_handlers S"
    using moved_sent [OF m, of S2] movedD(8) [OF m] by (simp_all add: S2_def)
  show ?thesis
  proof (cases "n = - 1 \<and> \<not> again")
    case True
    obtain S' c' where f: "freeClientAsync (S2, c1) = (S', c')" by fastforce
    then have "writeToClient IO fd (S, c) installed = Some (Inr (False, S', c'))"
      using w True by (simp add: writeToClient_def S2_def)
    moreover have "handlers_ok (S, c) (S', c') installed" using h free_flags(2) [OF f] by (simp add: handlers_ok_def)
    ultimately show ?thesis using sent_free [OF s f] free_flags(1) [OF f] by blast
  next
    case False
    define c2 where "c2 = (if length x > 0 \<and> CLIENT_MASTER \<notin> c_flags c1 then c1\<lparr>c_lastinteraction := unixtime S2\<rparr> else c1)"
    obtain ok S' c' where d: "write_done (S2, c2) installed = (ok, S', c')" by (metis surj_pair)
    have s2: "sent stream fd (S, c) x (S2, c2)" by (rule sent_out [OF s]) (simp_all add: c2_def same_client_def subset_insertI)
    have "writeToClient IO fd (S, c) installed = Some (Inr (ok, S', c'))"
      using w False d unfolding S2_def c2_def by (auto simp: writeToClient_def Let_def)
    then show ?thesis using write_done_ok [OF s2 d h] by blast
  qed
qed

text \<open>A write keeps the client scheduled.\<close>

lemma writable_same: "same_client c c' \<Longrightarrow> writable c' = writable c"
  by (auto simp: same_client_def writable_def)

lemma sent_sched:
  assumes "sent stream fd (S, c) x (S', c')" "handlers_ok (S, c) (S', c') installed" "sched (S, c)"
  shows "sched (S', c')"
proof -
  have sm: "same_client c c'" and l: "clients_pending_write S' = clients_pending_write S" and p: "clientHasPendingReplies c' \<Longrightarrow> clientHasPendingReplies c"
    using assms(1) by (simp_all add: sent_def)
  have fl: "c_id c' = c_id c" "c_fd c' = c_fd c" "c_flags c \<subseteq> c_flags c'" "c_flags c' \<subseteq> insert CLIENT_CLOSE_ASAP (c_flags c)"
    using sm by (simp_all add: same_client_def)
  have "waits (S', c')" if "clientHasPendingReplies c'" "writable c'"
  proof -
    have "waits (S, c)" using assms(3) p that writable_same [OF sm] by (simp add: sched_def)
    moreover have "write_handlers S' = write_handlers S" using assms(2) that(1) by (simp add: handlers_ok_def)
    ultimately show ?thesis using fl l by (auto simp: waits_def)
  qed
  then show ?thesis using assms(3) fl l by (auto simp: sched_def)
qed

section \<open>Serving a client\<close>

text \<open>What can happen to a connection: a reply is appended, its handler writes, it is served before the event loop sleeps, or it is
  protected and unprotected around a call that runs the event loop.\<close>

datatype step = Reply reply | Handler | Serve | Protect | Unprotect

definition serve :: "'w io_env \<Rightarrow> 'w sc \<Rightarrow> 'w sc outcome option" where
  "serve IO = (\<lambda>(S, c).
     handle_pending IO (S\<lparr>clients_pending_write := remove1 (c_id c) (clients_pending_write S)\<rparr>, clear_flag CLIENT_PENDING_WRITE c))"

fun perform :: "net_env \<Rightarrow> 'w io_env \<Rightarrow> step \<Rightarrow> 'w sc \<Rightarrow> 'w sc outcome option" where
  "perform E IO (Reply r) x = Some (send E r x)"
| "perform E IO Handler x = sendReplyToClient IO (c_fd (snd x)) x"
| "perform E IO Serve x = serve IO x"
| "perform E IO Protect x = Some (Inr (protectClient x))"
| "perform E IO Unprotect x = Some (Inr (unprotectClient IO x))"

fun performs :: "net_env \<Rightarrow> 'w io_env \<Rightarrow> step list \<Rightarrow> 'w sc \<Rightarrow> 'w sc outcome option" where
  "performs E IO [] x = Some (Inr x)"
| "performs E IO (s # ss) x = bindO (perform E IO s x) (performs E IO ss)"

fun replies :: "step list \<Rightarrow> reply list" where
  "replies [] = []"
| "replies (Reply r # ss) = r # replies ss"
| "replies (s # ss) = replies ss"

definition flow :: "('w \<Rightarrow> int \<Rightarrow> byte list) \<Rightarrow> 'w sc \<Rightarrow> byte list \<Rightarrow> 'w sc \<Rightarrow> bool" where
  "flow stream = (\<lambda>(S, c) x (S', c').
     pending c = x @ pending c' \<and> stream (world S') = (stream (world S))(c_fd c := stream (world S) (c_fd c) @ x) \<and> out_wf c' \<and>
     set (c_reply c') \<subseteq> set (c_reply c) \<and> total_size c' \<le> total_size c \<and> sc_frame (S, c) (S', c'))"

lemma same_client_frame: "same_client c c' \<Longrightarrow> sc_frame (S, c) (S', c')"
proof -
  assume c: "same_client c c'"
  then have "c_flags c \<subseteq> c_flags c'" "c_flags c' \<subseteq> insert CLIENT_CLOSE_ASAP (c_flags c)" by (simp_all add: same_client_def)
  then have "c_flags c - {CLIENT_CLOSE_ASAP, CLIENT_PENDING_WRITE, CLIENT_PROTECTED} = c_flags c' - {CLIENT_CLOSE_ASAP, CLIENT_PENDING_WRITE, CLIENT_PROTECTED}" by blast
  then show ?thesis using c by (simp add: same_client_def sc_frame_def)
qed

lemma sent_flow: "sent stream (c_fd c) (S, c) x (S', c') \<Longrightarrow> flow stream (S, c) x (S', c')"
  using same_client_frame [of c c' S S'] by (simp add: sent_def flow_def)

lemma flow_out:
  assumes "flow stream (S, c) x (S1, c1)" "c_reply c' = c_reply c1" "c_reply_bytes c' = c_reply_bytes c1" "c_sentlen c' = c_sentlen c1"
    "c_bufpos c' = c_bufpos c1" "c_buf c' = c_buf c1" "sc_frame (S1, c1) (S', c')" "stream (world S') = stream (world S1)"
  shows "flow stream (S, c) x (S', c')"
proof -
  have "out_wf c' = out_wf c1 \<and> queued c' = queued c1 \<and> pending c' = pending c1 \<and> total_size c' = total_size c1"
    using assms(2-6) by (intro out_wf_cong)
  moreover have "sc_frame (S, c) (S', c')" using assms(1,7) sc_frame_trans by (auto simp: flow_def)
  ultimately show ?thesis using assms(1-6,8-) by (simp add: flow_def)
qed

lemma flow_in:
  assumes "flow stream (S1, c1) x (S', c')" "c_reply c1 = c_reply c" "c_reply_bytes c1 = c_reply_bytes c" "c_sentlen c1 = c_sentlen c"
    "c_bufpos c1 = c_bufpos c" "c_buf c1 = c_buf c" "sc_frame (S, c) (S1, c1)" "stream (world S1) = stream (world S)"
  shows "flow stream (S, c) x (S', c')"
proof -
  have "out_wf c1 = out_wf c \<and> queued c1 = queued c \<and> pending c1 = pending c \<and> total_size c1 = total_size c"
    using assms(2-6) by (intro out_wf_cong)
  moreover have "sc_frame (S, c) (S', c')" using assms(1,7) sc_frame_trans by (auto simp: flow_def)
  ultimately show ?thesis using assms(1-6,8-) sc_frameD(3) [OF assms(7)] by (simp add: flow_def)
qed

lemma flow_refl: "out_wf c \<Longrightarrow> flow stream (S, c) [] (S, c)"
  by (simp add: flow_def)

lemma flow_free: "flow stream (S, c) x (S1, c1) \<Longrightarrow> freeClientAsync (S1, c1) = (S', c') \<Longrightarrow> flow stream (S, c) x (S', c')"
  by (rule flow_out [of stream S c x S1 c1]) (auto simp: freeClientAsync_def set_flag_def sc_frame_def split: if_splits)

text \<open>After a client is served it is not in the list, and with bytes left it has a handler.\<close>

definition served :: "'w sc \<Rightarrow> bool" where
  "served = (\<lambda>(S, c). CLIENT_PENDING_WRITE \<notin> c_flags c \<and>
     (clientHasPendingReplies c \<and> writable c \<longrightarrow>
        c_fd c \<in> write_handlers S \<or> CLIENT_CLOSE_ASAP \<in> c_flags c \<or> CLIENT_PROTECTED \<in> c_flags c))"

lemma served_sched: "served x \<Longrightarrow> sched x"
  by (auto simp: served_def sched_def waits_def)

lemma handle_pending_ok:
  assumes "io_ok IO stream" "out_wf c" "None \<notin> set (c_reply c)" "CLIENT_PENDING_WRITE \<notin> c_flags c"
  shows "\<exists>x S' c'. handle_pending IO (S, c) = Some (Inr (S', c')) \<and> flow stream (S, c) x (S', c') \<and> served (S', c') \<and>
    clients_pending_write S' = clients_pending_write S \<and> write_handlers S \<subseteq> write_handlers S'"
proof (cases "CLIENT_PROTECTED \<in> c_flags c")
  case True
  then show ?thesis using flow_refl [OF assms(2)] assms(4) by (intro exI [of _ "[]"] exI [of _ S] exI [of _ c]) (simp add: handle_pending_def served_def)
next
  case False
  obtain ok x S1 c1 where w: "writeToClient IO (c_fd c) (S, c) False = Some (Inr (ok, S1, c1))" "sent stream (c_fd c) (S, c) x (S1, c1)"
    "handlers_ok (S, c) (S1, c1) False" "ok \<or> CLIENT_CLOSE_ASAP \<in> c_flags c1 \<or> CLIENT_LUA \<in> c_flags c1"
    using writeToClient_sent [OF assms(1-3)] by blast
  have fl: "CLIENT_PENDING_WRITE \<notin> c_flags c1" and l: "clients_pending_write S1 = clients_pending_write S"
    using w(2) assms(4) by (auto simp: sent_def same_client_def)
  have h: "write_handlers S1 = write_handlers S" using w(3) by (simp add: handlers_ok_def)
  note f1 = sent_flow [OF w(2)]
  show ?thesis
  proof (cases "ok \<and> clientHasPendingReplies c1")
    case F: False
    have "served (S1, c1)" using F fl w(4) by (auto simp: served_def writable_def)
    then show ?thesis using F False w(1) f1 l h by (intro exI [of _ x] exI [of _ S1] exI [of _ c1]) (auto simp: handle_pending_def)
  next
    case True
    obtain reg w' where r: "os_register IO (world S1) (c_fd c1) (aof_on S1 \<and> aof_fsync_always S1) = (reg, w')" by fastforce
    define S2 where "S2 = S1\<lparr>world := w'\<rparr>"
    have f2: "flow stream (S, c) x (S2, c1)"
      using io_okD(2) [OF assms(1) r] by (intro flow_out [OF f1]) (simp_all add: S2_def sc_frame_def)
    obtain S' c' where x: "(if reg then (S2\<lparr>write_handlers := insert (c_fd c1) (write_handlers S2)\<rparr>, c1) else freeClientAsync (S2, c1)) = (S', c')"
      by fastforce
    have "flow stream (S, c) x (S', c')"
      using x flow_free [OF f2] flow_out [OF f2, of c1 S'] by (cases reg) (auto simp: sc_frame_def)
    moreover have "served (S', c')" using x fl free_flags(1) [of S2 c1 S' c'] by (auto simp: served_def writable_def freeClientAsync_def set_flag_def split: if_splits)
    moreover have "clients_pending_write S' = clients_pending_write S" "write_handlers S \<subseteq> write_handlers S'"
      using x l h by (auto simp: S2_def freeClientAsync_def split: if_splits)
    moreover have "handle_pending IO (S, c) = Some (Inr (S', c'))"
      using x [unfolded S2_def] r True False w(1) by (cases reg) (auto simp: handle_pending_def Let_def)
    ultimately show ?thesis by blast
  qed
qed

lemma serve_ok:
  assumes "io_ok IO stream" "out_wf c" "None \<notin> set (c_reply c)"
  shows "\<exists>x S' c'. serve IO (S, c) = Some (Inr (S', c')) \<and> flow stream (S, c) x (S', c') \<and> served (S', c') \<and>
    clients_pending_write S' = remove1 (c_id c) (clients_pending_write S) \<and> write_handlers S \<subseteq> write_handlers S'"
proof -
  let ?S = "S\<lparr>clients_pending_write := remove1 (c_id c) (clients_pending_write S)\<rparr>" and ?c = "clear_flag CLIENT_PENDING_WRITE c"
  have c: "c_reply ?c = c_reply c" "c_reply_bytes ?c = c_reply_bytes c" "c_sentlen ?c = c_sentlen c" "c_bufpos ?c = c_bufpos c" "c_buf ?c = c_buf c"
    "CLIENT_PENDING_WRITE \<notin> c_flags ?c" and fr: "sc_frame (S, c) (?S, ?c)" by (auto simp: clear_flag_def sc_frame_def)
  have "out_wf ?c" "None \<notin> set (c_reply ?c)" using assms(2,3) out_wf_cong [of ?c c] c by simp_all
  then obtain x S' c' where h: "handle_pending IO (?S, ?c) = Some (Inr (S', c'))" "flow stream (?S, ?c) x (S', c')" "served (S', c')"
    "clients_pending_write S' = clients_pending_write ?S" "write_handlers ?S \<subseteq> write_handlers S'"
    using handle_pending_ok [OF assms(1) _ _ c(6), of ?S] by blast
  have "flow stream (S, c) x (S', c')" using c(1-5) fr by (intro flow_in [OF h(2)]) simp_all
  then show ?thesis using h(1,3-5) by (intro exI [of _ x] exI [of _ S'] exI [of _ c']) (simp add: serve_def)
qed

lemma sentlen_queued: "out_wf c \<Longrightarrow> c_sentlen c \<le> length (queued c)"
proof -
  assume c: "out_wf c"
  have "front c \<le> length (queued c)" using c by (cases "c_reply c") (auto simp: front_def queued_def out_wf_def)
  then show ?thesis using c by (auto simp: out_wf_def)
qed

text \<open>A connection whose replies are on their way: the state that every step keeps.\<close>

definition conn_ok :: "net_env \<Rightarrow> nat \<Rightarrow> nat \<Rightarrow> 'w sc \<Rightarrow> bool" where
  "conn_ok E L k x \<longleftrightarrow> out_wf (snd x) \<and> None \<notin> set (c_reply (snd x)) \<and> sched x \<and> space E L (3 * k) (snd x)"

definition total :: "('w \<Rightarrow> int \<Rightarrow> byte list) \<Rightarrow> 'w sc \<Rightarrow> byte list" where
  "total stream = (\<lambda>(S, c). stream (world S) (c_fd c) @ pending c)"

lemma flow_total: "flow stream (S, c) x (S', c') \<Longrightarrow> total stream (S', c') = total stream (S, c)"
  by (simp add: flow_def total_def sc_frame_def)

lemma flow_conn: "flow stream (S, c) x (S', c') \<Longrightarrow> conn_ok E L k (S, c) \<Longrightarrow> sched (S', c') \<Longrightarrow> conn_ok E L k (S', c')"
  by (auto simp: flow_def conn_ok_def space_def)

lemma protect_ok: "out_wf c \<Longrightarrow> protectClient (S, c) = (S', c') \<Longrightarrow> sched (S, c) \<Longrightarrow> flow stream (S, c) [] (S', c') \<and> sched (S', c')"
  using flow_out [OF flow_refl, where c = c and c' = c' and S' = S' and S = S and stream = stream] by (auto simp: protectClient_def set_flag_def sc_frame_def sched_def waits_def)

lemma unprotect_ok:
  assumes "io_ok IO stream" "out_wf c" "unprotectClient IO (S, c) = (S', c')" "sched (S, c)"
  shows "flow stream (S, c) [] (S', c') \<and> sched (S', c')"
proof (cases "CLIENT_PROTECTED \<in> c_flags c")
  case False
  then show ?thesis using assms flow_refl by (auto simp: unprotectClient_def)
next
  case True
  obtain reg w where r: "os_register_read IO (world S) (c_fd c) = (reg, w)" by fastforce
  have "stream (world S') = stream (world S)" using assms(3) r True io_okD(3) [OF assms(1) r]
    by (auto simp: unprotectClient_def clear_flag_def clientInstallWriteHandler_def Let_def split: if_splits)
  moreover have "sc_frame (S, c) (S', c')" "c_reply c' = c_reply c" "c_reply_bytes c' = c_reply_bytes c" "c_sentlen c' = c_sentlen c"
      "c_bufpos c' = c_bufpos c" "c_buf c' = c_buf c"
    using assms(3) r True
    by (auto simp: unprotectClient_def clear_flag_def set_flag_def clientInstallWriteHandler_def Let_def sc_frame_def split: if_splits)
  ultimately have "flow stream (S, c) [] (S', c')" by (intro flow_out [OF flow_refl [OF assms(2)]]) simp_all
  moreover have "sched (S', c')" using assms(3,4) r True
    by (auto simp: unprotectClient_def clear_flag_def set_flag_def clientInstallWriteHandler_def Let_def sched_def waits_def writable_def
        clientHasPendingReplies_def split: if_splits)
  ultimately show ?thesis by blast
qed

definition bytes_of :: "client \<Rightarrow> reply list \<Rightarrow> byte list" where
  "bytes_of c rs = accepted c (concat (map (encode (c_resp c)) rs))"

lemma perform_step:
  assumes "resp_env E" "32 \<le> L" "L < 2 ^ 62" "\<forall>r \<in> set (replies [s]). reply_ok L r" "io_ok IO stream" "conn_ok E L (length (replies [s]) + k) (S, c)"
  shows "\<exists>S' c'. perform E IO s (S, c) = Some (Inr (S', c')) \<and> conn_ok E L k (S', c') \<and> sc_frame (S, c) (S', c') \<and>
    total stream (S', c') = total stream (S, c) @ bytes_of c (replies [s])"
proof -
  note c = assms(6) [unfolded conn_ok_def snd_conv]
  have wf: "out_wf c" and nn: "None \<notin> set (c_reply c)" using c by blast+
  show ?thesis
  proof (cases s)
    case (Reply r)
    have sp: "space E L (3 + 3 * k) c" using c Reply by (simp add: add_mult_distrib2)
    obtain S' c' where e: "send E r (S, c) = Inr (S', c')" "out_wf c'" "space E L (3 * k) c'" "queued c' = queued c @ accepted c (encode (c_resp c) r)"
      "c_sentlen c' = c_sentlen c" "rep_frame (S, c) (S', c')"
      using emitsD [OF send_emits [OF assms(1-3), of r] wf sp, of S] assms(4) Reply by auto
    have "pending c' = pending c @ accepted c (encode (c_resp c) r)" using e(4,5) sentlen_queued [OF wf] by (simp add: pending_def)
    then show ?thesis using e(1-3,6) c Reply by (intro exI [of _ S'] exI [of _ c']) (auto simp: conn_ok_def rep_frame_def total_def sc_frame_def bytes_of_def)
  next
    case Handler
    obtain ok x S' c' where w: "writeToClient IO (c_fd c) (S, c) True = Some (Inr (ok, S', c'))" "sent stream (c_fd c) (S, c) x (S', c')"
      "handlers_ok (S, c) (S', c') True" using writeToClient_sent [OF assms(5) wf nn] by blast
    note f = sent_flow [OF w(2)]
    have "conn_ok E L k (S', c')" using flow_conn [OF f, of E L k] sent_sched [OF w(2,3)] c assms(6) Handler by simp
    then show ?thesis using w(1) flow_total [OF f] f Handler
      by (intro exI [of _ S'] exI [of _ c']) (simp add: sendReplyToClient_def bytes_of_def accepted_append flow_def)
  next
    case Protect
    obtain S' c' where p: "protectClient (S, c) = (S', c')" by fastforce
    have f: "flow stream (S, c) [] (S', c')" "sched (S', c')" using protect_ok [OF wf p] c by blast+
    then show ?thesis using p flow_total [OF f(1)] flow_conn [OF f(1), of E L k] assms(6) Protect
      by (intro exI [of _ S'] exI [of _ c']) (simp add: bytes_of_def accepted_append flow_def)
  next
    case Unprotect
    obtain S' c' where p: "unprotectClient IO (S, c) = (S', c')" by fastforce
    have f: "flow stream (S, c) [] (S', c')" "sched (S', c')" using unprotect_ok [OF assms(5) wf p] c by blast+
    then show ?thesis using p flow_total [OF f(1)] flow_conn [OF f(1), of E L k] assms(6) Unprotect
      by (intro exI [of _ S'] exI [of _ c']) (simp add: bytes_of_def accepted_append flow_def)
  next
    case Serve
    obtain x S' c' where w: "serve IO (S, c) = Some (Inr (S', c'))" and f: "flow stream (S, c) x (S', c')" and sv: "served (S', c')"
      using serve_ok [OF assms(5) wf nn] by blast
    have "conn_ok E L k (S', c')" using flow_conn [OF f, of E L k] served_sched [OF sv] assms(6) Serve by simp
    then show ?thesis using w flow_total [OF f] f Serve
      by (intro exI [of _ S'] exI [of _ c']) (simp add: bytes_of_def accepted_append flow_def)
  qed
qed

lemma performs_ok:
  assumes "resp_env E" "32 \<le> L" "L < 2 ^ 62" "io_ok IO stream"
  shows "\<forall>r \<in> set (replies ss). reply_ok L r \<Longrightarrow> conn_ok E L (length (replies ss)) (S, c) \<Longrightarrow>
    \<exists>S' c'. performs E IO ss (S, c) = Some (Inr (S', c')) \<and> conn_ok E L 0 (S', c') \<and> sc_frame (S, c) (S', c') \<and>
      total stream (S', c') = total stream (S, c) @ bytes_of c (replies ss)"
proof (induction ss arbitrary: S c)
  case Nil
  then show ?case by (simp add: bytes_of_def accepted_append)
next
  case (Cons s ss)
  have r: "replies (s # ss) = replies [s] @ replies ss" by (cases s) simp_all
  have ok: "\<forall>r \<in> set (replies [s]). reply_ok L r" "\<forall>r \<in> set (replies ss). reply_ok L r" "conn_ok E L (length (replies [s]) + length (replies ss)) (S, c)"
    using Cons.prems unfolding r by auto
  obtain S1 c1 where p: "perform E IO s (S, c) = Some (Inr (S1, c1))" "conn_ok E L (length (replies ss)) (S1, c1)" "sc_frame (S, c) (S1, c1)"
    "total stream (S1, c1) = total stream (S, c) @ bytes_of c (replies [s])"
    using perform_step [OF assms(1-3) ok(1) assms(4) ok(3)] by blast
  obtain S' c' where q: "performs E IO ss (S1, c1) = Some (Inr (S', c'))" "conn_ok E L 0 (S', c')" "sc_frame (S1, c1) (S', c')"
    "total stream (S', c') = total stream (S1, c1) @ bytes_of c1 (replies ss)"
    using Cons.IH [OF ok(2) p(2)] by blast
  have "bytes_of c1 = bytes_of c" using sc_frameD(2,4) [OF p(3)] by (simp add: bytes_of_def fun_eq_iff)
  then have "total stream (S', c') = total stream (S, c) @ bytes_of c (replies (s # ss))"
    unfolding q(4) p(4) r by (simp add: bytes_of_def accepted_append)
  then show ?case using p(1) q(1,2) sc_frame_trans [OF p(3) q(3)] by (intro exI [of _ S'] exI [of _ c']) simp
qed

section \<open>All clients\<close>

definition client_ok :: "'w redisServer \<Rightarrow> nat \<Rightarrow> client \<Rightarrow> bool" where
  "client_ok S i c \<longleftrightarrow> c_id c = i \<and> out_wf c \<and> None \<notin> set (c_reply c) \<and> sched (S, c)"

definition clients_ok :: "'w redisServer \<Rightarrow> (nat \<rightharpoonup> client) \<Rightarrow> bool" where
  "clients_ok S M \<longleftrightarrow> (\<forall>i c. M i = Some c \<longrightarrow> client_ok S i c) \<and> inj_on (\<lambda>i. c_fd (the (M i))) (dom M) \<and>
     set (clients_pending_write S) \<subseteq> dom M"

lemma client_ok_other:
  assumes "client_ok S j d" "j \<noteq> i" "clients_pending_write S = i # is" "clients_pending_write S' = is" "write_handlers S \<subseteq> write_handlers S'"
  shows "client_ok S' j d"
  using assms by (auto simp: client_ok_def sched_def waits_def)

lemma handle_step:
  assumes "io_ok IO stream" "clients_ok S M" "clients_pending_write S = i # is" "M i = Some c"
  shows "\<exists>S' c'. serve IO (S, c) = Some (Inr (S', c')) \<and> clients_ok S' (M(i \<mapsto> c')) \<and> clients_pending_write S' = is \<and>
    (\<forall>j d. (M(i \<mapsto> c')) j = Some d \<longrightarrow> (\<exists>d0. M j = Some d0 \<and> total stream (S', d) = total stream (S, d0)))"
proof -
  have ok: "client_ok S i c" and inj: "inj_on (\<lambda>i. c_fd (the (M i))) (dom M)" using assms(2,4) by (simp_all add: clients_ok_def)
  then obtain x S' c' where s: "serve IO (S, c) = Some (Inr (S', c'))" "flow stream (S, c) x (S', c')" "served (S', c')"
    "clients_pending_write S' = is" "write_handlers S \<subseteq> write_handlers S'"
    using serve_ok [OF assms(1), of c S] assms(3) by (auto simp: client_ok_def)
  have fd: "c_fd c' = c_fd c" "c_id c' = c_id c" using s(2) by (auto simp: flow_def sc_frame_def)
  have c': "client_ok S' i c'" using ok s(2) served_sched [OF s(3)] fd by (auto simp: client_ok_def flow_def)
  have "clients_ok S' (M(i \<mapsto> c'))"
    unfolding clients_ok_def
  proof (intro conjI allI impI)
    fix j d assume "(M(i \<mapsto> c')) j = Some d"
    then show "client_ok S' j d" using c' client_ok_other [OF _ _ assms(3) s(4,5)] assms(2) by (auto simp: clients_ok_def split: if_splits)
  next
    have "(\<lambda>j. c_fd (the ((M(i \<mapsto> c')) j))) = (\<lambda>j. c_fd (the (M j)))" using fd assms(4) by (auto simp: fun_eq_iff)
    moreover have "dom (M(i \<mapsto> c')) = dom M" using assms(4) by auto
    ultimately show "inj_on (\<lambda>j. c_fd (the ((M(i \<mapsto> c')) j))) (dom (M(i \<mapsto> c')))" using inj by simp
  next
    show "set (clients_pending_write S') \<subseteq> dom (M(i \<mapsto> c'))" using assms(2,3) s(4) by (auto simp: clients_ok_def)
  qed
  moreover have "\<exists>d0. M j = Some d0 \<and> total stream (S', d) = total stream (S, d0)" if "(M(i \<mapsto> c')) j = Some d" for j d
  proof (cases "j = i")
    case True
    then show ?thesis using that assms(4) flow_total [OF s(2)] by simp
  next
    case False
    then have "c_fd d \<noteq> c_fd c" using inj that assms(4) by (auto dest: inj_onD [of _ _ j i])
    then show ?thesis using False that s(2) by (simp add: total_def flow_def)
  qed
  ultimately show ?thesis using s(1,4) by blast
qed

lemma handle_loop_ok:
  assumes "io_ok IO stream"
  shows "clients_ok S M \<Longrightarrow> clients_pending_write S = is \<Longrightarrow>
    \<exists>S' M'. handle_loop IO S M is = Some (Inr (S', M')) \<and> clients_ok S' M' \<and> clients_pending_write S' = [] \<and> dom M' = dom M \<and>
      (\<forall>i c'. M' i = Some c' \<longrightarrow> (\<exists>c. M i = Some c \<and> total stream (S', c') = total stream (S, c)))"
proof (induction "is" arbitrary: S M)
  case Nil
  then show ?case by auto
next
  case (Cons i "is")
  obtain c where c: "M i = Some c" using Cons.prems by (auto simp: clients_ok_def)
  have id: "c_id c = i" using Cons.prems(1) c by (simp add: clients_ok_def client_ok_def)
  obtain S1 c1 where s: "serve IO (S, c) = Some (Inr (S1, c1))" "clients_ok S1 (M(i \<mapsto> c1))" "clients_pending_write S1 = is"
    "\<forall>j d. (M(i \<mapsto> c1)) j = Some d \<longrightarrow> (\<exists>d0. M j = Some d0 \<and> total stream (S1, d) = total stream (S, d0))"
    using handle_step [OF assms Cons.prems c] by blast
  obtain S' M' where q: "handle_loop IO S1 (M(i \<mapsto> c1)) is = Some (Inr (S', M'))" "clients_ok S' M'" "clients_pending_write S' = []"
    "dom M' = dom (M(i \<mapsto> c1))" "\<forall>j c'. M' j = Some c' \<longrightarrow> (\<exists>c. (M(i \<mapsto> c1)) j = Some c \<and> total stream (S', c') = total stream (S1, c))"
    using Cons.IH [OF s(2,3)] by blast
  have "handle_loop IO S M (i # is) = Some (Inr (S', M'))" using c s(1) q(1) id by (simp add: serve_def deref_def)
  moreover have "dom M' = dom M" using q(4) c by auto
  ultimately show ?case using q(2,3,5) s(4) by metis
qed

section \<open>The properties\<close>

text \<open>C4: whatever replies a connection is given (\<open>addReply...\<close>), with its write handler (\<open>sendReplyToClient\<close>),
  \<open>handleClientsWithPendingWrites\<close>, \<open>protectClient\<close> and \<open>unprotectClient\<close> run at any moments in between, with short writes, \<open>EAGAIN\<close> and errors: no step faults or loops,
  the bytes sent on the descriptor followed by the bytes in the output buffers are exactly the encodings of the replies in order, and
  the client stays scheduled for the next write.\<close>

theorem replies_are_streamed:
  assumes "resp_env E" "32 \<le> L" "L < 2 ^ 62" "io_ok IO stream" "\<forall>r \<in> set (replies ss). reply_ok L r"
    "out_wf c" "None \<notin> set (c_reply c)" "sched (S, c)" "space E L (3 * length (replies ss)) c"
  shows "\<exists>S' c'. performs E IO ss (S, c) = Some (Inr (S', c')) \<and> out_wf c' \<and> sched (S', c') \<and>
    stream (world S') (c_fd c) @ pending c' =
      stream (world S) (c_fd c) @ pending c @ accepted c (concat (map (encode (c_resp c)) (replies ss)))"
proof -
  have "conn_ok E L (length (replies ss)) (S, c)" using assms(6-9) by (simp add: conn_ok_def)
  then obtain S' c' where p: "performs E IO ss (S, c) = Some (Inr (S', c'))" "conn_ok E L 0 (S', c')" "sc_frame (S, c) (S', c')"
    "total stream (S', c') = total stream (S, c) @ bytes_of c (replies ss)" using performs_ok [OF assms(1-5)] by blast
  then show ?thesis using sc_frameD(3) [OF p(3)] by (intro exI [of _ S'] exI [of _ c']) (simp add: conn_ok_def total_def bytes_of_def)
qed

text \<open>C5: \<open>handleClientsWithPendingWrites\<close> returns the number of clients in the list, and empties it; for every client the bytes sent and
  the bytes queued stay the same sequence, and no client is forgotten: with bytes left it has a write handler, or is to be closed, or
  is protected (or is one that the server does not write to).\<close>

theorem handleClientsWithPendingWrites_serves:
  assumes "io_ok IO stream" "clients_ok S M"
  shows "\<exists>S' M'. handleClientsWithPendingWrites IO S M = Some (Inr (length (clients_pending_write S), S', M')) \<and>
    clients_pending_write S' = [] \<and> dom M' = dom M \<and> clients_ok S' M' \<and>
    (\<forall>i c'. M' i = Some c' \<longrightarrow> served (S', c') \<and> (\<exists>c. M i = Some c \<and>
       stream (world S') (c_fd c') @ pending c' = stream (world S) (c_fd c) @ pending c))"
proof -
  obtain S' M' where h: "handle_loop IO S M (clients_pending_write S) = Some (Inr (S', M'))" "clients_ok S' M'" "clients_pending_write S' = []"
    "dom M' = dom M" "\<forall>i c'. M' i = Some c' \<longrightarrow> (\<exists>c. M i = Some c \<and> total stream (S', c') = total stream (S, c))"
    using handle_loop_ok [OF assms refl] by blast
  have "served (S', c')" if "M' i = Some c'" for i c'
    using h(2,3) that by (auto simp: clients_ok_def client_ok_def sched_def served_def waits_def)
  then show ?thesis using h by (intro exI [of _ S'] exI [of _ M']) (simp add: handleClientsWithPendingWrites_def total_def)
qed

text \<open>A socket for the examples: writes take at most five bytes, and the fourth gives \<open>EAGAIN\<close>.\<close>

definition ex_io :: "(nat \<times> (int \<Rightarrow> byte list)) io_env" where
  "ex_io = \<lparr>os_write = \<lambda>(k, w) fd d. if k = 3 then (- 1, True, 0, w) else (int (min 5 (length d)), False, Suc k, w(fd := w fd @ take 5 d)),
     os_register = \<lambda>w fd barrier. (True, w), os_register_read = \<lambda>w fd. (True, w), zmalloc_used_memory = \<lambda>w. 0, NET_MAX_WRITES_PER_EVENT = 65536\<rparr>"

lemma ex_io_ok: "io_ok ex_io snd"
proof -
  have "take (min 5 (length d)) d = take 5 d" for d :: "byte list" by (simp add: min_def)
  then show ?thesis unfolding io_ok_def by (auto simp: ex_io_def split: if_splits)
qed

lemma ex_client_ok: "out_wf ex_client" "c_reply ex_client = []" "sched (ex_server w, ex_client)" "pending ex_client = []"
    "accepted ex_client s = s" "c_resp ex_client = 3" "c_fd ex_client = 8"
  by (simp_all add: out_wf_def ex_client_def total_size_def sched_def waits_def clientHasPendingReplies_def pending_def queued_def
      accepted_def takes_replies_def)

theorem replies_are_streamed_witness:
  "\<exists>S' c'. performs ex_env ex_io [Reply (Integer 7), Serve, Reply Null, Protect, Handler, Unprotect, Reply (Status [79, 75])] (ex_server (0, \<lambda>fd. []), ex_client) = Some (Inr (S', c')) \<and>
    out_wf c' \<and> sched (S', c') \<and>
    snd (world S') 8 @ pending c' = [58, 55, 13, 10] @ [95, 13, 10] @ [43, 79, 75, 13, 10]"
proof -
  have "space ex_env 32 9 ex_client" using ex_env_ok(2) by (simp add: space_def total_size_def ex_client_def SIZE_MAX_def PROTO_REPLY_CHUNK_BYTES_def)
  then show ?thesis
    using replies_are_streamed [OF ex_env_ok(1) _ _ ex_io_ok, of 32 "[Reply (Integer 7), Serve, Reply Null, Protect, Handler, Unprotect, Reply (Status [79, 75])]" ex_client "ex_server (0, \<lambda>fd. [])"]
    by (simp add: ex_client_ok line_def crlf_def dec_int_def dec.simps) (simp add: ex_server_def)
qed

definition ex_waiting :: client where
  "ex_waiting = ex_client\<lparr>c_flags := {CLIENT_PENDING_WRITE}, c_bufpos := 4, c_buf := [58, 55, 13, 10] @ replicate 16380 0\<rparr>"

theorem handleClientsWithPendingWrites_serves_witness:
  "\<exists>S' c'. handleClientsWithPendingWrites ex_io (ex_server (0, \<lambda>fd. [])\<lparr>clients_pending_write := [1]\<rparr>) (Map.empty(1 \<mapsto> ex_waiting)) = Some (Inr (1, S', Map.empty(1 \<mapsto> c'))) \<and>
    served (S', c') \<and> snd (world S') (c_fd c') @ pending c' = [58, 55, 13, 10]"
proof -
  define S where "S = ex_server (0 :: nat, \<lambda>fd :: int. [] :: byte list)\<lparr>clients_pending_write := [1]\<rparr>"
  have S: "clients_pending_write S = [1]" "snd (world S) fd = []" for fd by (simp_all add: S_def ex_server_def)
  let ?M = "Map.empty(1 \<mapsto> ex_waiting)"
  have c: "out_wf ex_waiting" "None \<notin> set (c_reply ex_waiting)" "c_id ex_waiting = 1" "pending ex_waiting = [58, 55, 13, 10]"
    by (simp_all add: ex_waiting_def ex_client_def out_wf_def total_size_def PROTO_REPLY_CHUNK_BYTES_def pending_def queued_def)
  then have "clients_ok S ?M" using S by (simp add: clients_ok_def client_ok_def sched_def waits_def)
  from handleClientsWithPendingWrites_serves [OF ex_io_ok this] obtain S' M' where
    h: "handleClientsWithPendingWrites ex_io S ?M = Some (Inr (1, S', M'))" "dom M' = {1}"
    "\<forall>i c'. M' i = Some c' \<longrightarrow> served (S', c') \<and> (\<exists>c. ?M i = Some c \<and> snd (world S') (c_fd c') @ pending c' = snd (world S) (c_fd c) @ pending c)"
    using S(1) by auto
  then obtain c' where c': "M' 1 = Some c'" by blast
  have "M' = Map.empty(1 \<mapsto> c')" using h(2) c' by (intro ext) (auto simp: dom_def)
  then show ?thesis using h(1) h(3) [rule_format, OF c'] c(4) S(2) unfolding S_def [symmetric] by (intro exI [of _ S'] exI [of _ c']) auto
qed

end
