(* ===== verification/Net_Deferred.thy ===== *)
theory Net_Deferred
  imports Net_Output
begin

text \<open>
  Replies of unknown length: \<open>addReplyDeferredLen\<close> puts a placeholder into the list of reply blocks, and when the elements have been
  appended, \<open>setDeferredAggregateLen\<close> puts the length at its place, in a block of its own or in front of the next block.
\<close>

section \<open>Filling in a length\<close>

definition nodes_data :: "clientReplyBlock option list \<Rightarrow> byte list" where
  "nodes_data rs = concat (map node_data rs)"

definition nodes_size :: "clientReplyBlock option list \<Rightarrow> nat" where
  "nodes_size rs = sum_list (map node_size rs)"

lemma nodes_simps [simp]:
  "nodes_data [] = []" "nodes_data (r # rs) = node_data r @ nodes_data rs" "nodes_data (rs @ ts) = nodes_data rs @ nodes_data ts"
  "nodes_size [] = 0" "nodes_size (r # rs) = node_size r + nodes_size rs" "nodes_size (rs @ ts) = nodes_size rs + nodes_size ts"
  by (simp_all add: nodes_data_def nodes_size_def)

lemma queued_nodes: "queued c = take (c_bufpos c) (c_buf c) @ nodes_data (c_reply c)" "total_size c = nodes_size (c_reply c)"
  by (simp_all add: queued_def nodes_data_def total_size_def nodes_size_def)

text \<open>The placeholder between \<open>pre\<close> and \<open>post\<close> is replaced, with or without the first block behind it.\<close>

lemma out_wf_filled:
  assumes "out_wf c" "c_reply c = pre @ None # post" "blk_used b \<le> blk_size b" "set post' \<subseteq> set post"
    "m = of_nat (nodes_size (pre @ Some b # post'))"
  shows "out_wf (c\<lparr>c_reply := pre @ Some b # post', c_reply_bytes := m\<rparr>)"
proof -
  note w = assms(1) [unfolded out_wf_def]
  let ?c = "c\<lparr>c_reply := pre @ Some b # post', c_reply_bytes := m\<rparr>"
  have "c_sentlen c = 0 \<or> c_sentlen c < front ?c"
    using w assms(2) by (cases pre) (auto simp: front_def split: if_splits)
  then show ?thesis using w assms(2-5) by (auto simp: out_wf_def queued_nodes)
qed

lemma glue_len_ok:
  assumes "out_wf c" "c_reply c = pre @ None # Some nxt # post" "length s \<le> size_diff (blk_size nxt) (blk_used nxt)"
  shows "\<exists>b. glue_len c (length pre) nxt s = Inr (c\<lparr>c_reply := pre @ Some b # post\<rparr>) \<and> blk_data b = s @ blk_data nxt \<and> blk_size b = blk_size nxt \<and>
    blk_used b \<le> blk_size b"
proof -
  note w = assms(1) [unfolded out_wf_def]
  have used: "blk_used nxt \<le> blk_size nxt" using w assms(2) by simp
  then have fit: "length s + blk_used nxt \<le> length (blk_buf nxt)" using assms(3) size_diff_le [OF used] by (simp add: blk_size_def)
  define bs where "bs = s @ take (blk_used nxt) (blk_buf nxt) @ drop (length s + blk_used nxt) (blk_buf nxt)"
  have r: "mem_read (blk_buf nxt) 0 (blk_used nxt) = Inr (take (blk_used nxt) (blk_buf nxt))" using fit by (simp add: mem)
  have w1: "mem_write (blk_buf nxt) (length s) (take (blk_used nxt) (blk_buf nxt)) =
      Inr (take (length s) (blk_buf nxt) @ take (blk_used nxt) (blk_buf nxt) @ drop (length s + blk_used nxt) (blk_buf nxt))"
    using fit by (simp add: mem min_absorb1)
  have w2: "mem_write (take (length s) (blk_buf nxt) @ take (blk_used nxt) (blk_buf nxt) @ drop (length s + blk_used nxt) (blk_buf nxt)) 0 s = Inr bs"
    using fit by (simp add: mem bs_def)
  have "glue_len c (length pre) nxt s = Inr (c\<lparr>c_reply := pre @ Some \<lparr>blk_used = blk_used nxt + length s, blk_buf = bs\<rparr> # post\<rparr>)"
    using r w1 w2 assms(2) by (simp add: glue_len_def)
  then show ?thesis using fit by (intro exI [of _ "\<lparr>blk_used = blk_used nxt + length s, blk_buf = bs\<rparr>"]) (simp add: bs_def blk_data_def blk_size_def)
qed

lemma fill_len_ok:
  assumes "env_ok E" "c_reply c = pre @ None # post"
  shows "\<exists>b. fill_len E c (length pre) s = Inr (c\<lparr>c_reply := pre @ Some b # post, c_reply_bytes := c_reply_bytes c + of_nat (blk_size b)\<rparr>) \<and>
    blk_data b = s \<and> blk_size b = length (new_block E (length s)) \<and> blk_used b \<le> blk_size b"
proof -
  have "length s \<le> length (new_block E (length s))" using assms(1) by (simp add: env_ok_def)
  then show ?thesis using assms(2)
    by (intro exI [of _ "\<lparr>blk_used = length s, blk_buf = s @ drop (length s) (new_block E (length s))\<rparr>"])
       (simp add: fill_len_def mem blk_data_def blk_size_def list_update_append)
qed

lemma fill_ok:
  assumes "env_ok E" "out_wf c" "c_reply c = pre @ None # post" "length s \<le> L" "space E L (Suc k) c"
  shows "\<exists>c'. (case (if Suc (length pre) < length (c_reply c) then c_reply c ! Suc (length pre) else None) of
        Some nxt \<Rightarrow> if size_diff (blk_size nxt) (blk_used nxt) \<ge> length s \<and> blk_used nxt < PROTO_REPLY_CHUNK_BYTES * 4
                     then glue_len c (length pre) nxt s else fill_len E c (length pre) s
      | None \<Rightarrow> fill_len E c (length pre) s) = Inr c' \<and> out_wf c' \<and> space E L k c' \<and>
    queued c' = take (c_bufpos c) (c_buf c) @ nodes_data pre @ s @ nodes_data post \<and> (\<exists>rs n. c' = c\<lparr>c_reply := rs, c_reply_bytes := n\<rparr>)"
proof -
  note w = assms(2) [unfolded out_wf_def]
  have fill: "\<exists>c'. fill_len E c (length pre) s = Inr c' \<and> out_wf c' \<and> space E L k c' \<and>
    queued c' = take (c_bufpos c) (c_buf c) @ nodes_data pre @ s @ nodes_data post \<and> (\<exists>rs n. c' = c\<lparr>c_reply := rs, c_reply_bytes := n\<rparr>)"
  proof -
    obtain b where b: "fill_len E c (length pre) s = Inr (c\<lparr>c_reply := pre @ Some b # post, c_reply_bytes := c_reply_bytes c + of_nat (blk_size b)\<rparr>)"
      "blk_data b = s" "blk_size b = length (new_block E (length s))" "blk_used b \<le> blk_size b" using fill_len_ok [OF assms(1,3)] by blast
    let ?c = "c\<lparr>c_reply := pre @ Some b # post, c_reply_bytes := c_reply_bytes c + of_nat (blk_size b)\<rparr>"
    have "out_wf ?c" using w assms(3) b(4) by (intro out_wf_filled [OF assms(2,3)]) (simp_all add: queued_nodes)
    moreover have "space E L k ?c"
      using assms(3,4) b(3) by (intro space_used [OF assms(5), of "length s"]) (simp_all add: queued_nodes)
    moreover have "queued ?c = take (c_bufpos c) (c_buf c) @ nodes_data pre @ s @ nodes_data post" using b(2) by (simp add: queued_nodes)
    ultimately show ?thesis using b(1) by blast
  qed
  show ?thesis
  proof (cases "\<exists>nxt post'. post = Some nxt # post' \<and> length s \<le> size_diff (blk_size nxt) (blk_used nxt) \<and> blk_used nxt < PROTO_REPLY_CHUNK_BYTES * 4")
    case False
    then show ?thesis using fill assms(3) by (cases post; cases "hd post") (auto simp: nth_append)
  next
    case True
    then obtain nxt post' where n: "post = Some nxt # post'" "length s \<le> size_diff (blk_size nxt) (blk_used nxt)" "blk_used nxt < PROTO_REPLY_CHUNK_BYTES * 4"
      by blast
    obtain b where b: "glue_len c (length pre) nxt s = Inr (c\<lparr>c_reply := pre @ Some b # post'\<rparr>)" "blk_data b = s @ blk_data nxt"
      "blk_size b = blk_size nxt" "blk_used b \<le> blk_size b" using glue_len_ok [OF assms(2) _ n(2)] assms(3) n(1) by blast
    define c1 where "c1 = c\<lparr>c_reply := pre @ Some b # post', c_reply_bytes := c_reply_bytes c\<rparr>"
    have "out_wf c1" unfolding c1_def using w assms(3) b n by (intro out_wf_filled [OF assms(2,3)]) (auto simp: queued_nodes)
    moreover have "space E L k c1" using assms(3) b(3) n(1) space_less [of E L 1 k c] assms(5) by (simp add: c1_def space_def queued_nodes)
    moreover have "queued c1 = take (c_bufpos c) (c_buf c) @ nodes_data pre @ s @ nodes_data post" using b(2) n(1) by (simp add: c1_def queued_nodes)
    moreover have "glue_len c (length pre) nxt s = Inr c1" using b(1) by (simp add: c1_def)
    moreover have "\<exists>rs n. c1 = c\<lparr>c_reply := rs, c_reply_bytes := n\<rparr>" unfolding c1_def by blast
    ultimately show ?thesis using n assms(3) by (intro exI [of _ c1]) (auto simp: nth_append)
  qed
qed

lemma setDeferred_ok:
  assumes "env_ok E" "out_wf c" "c_reply c = pre @ None # post" "s = pfx # dec_int len @ crlf" "- (2 ^ 63) \<le> len" "len < 2 ^ 63" "32 \<le> L" "space E L (Suc k) c"
  shows "\<exists>S' c'. setDeferredAggregateLen E (S, c) (Some (length pre)) len pfx = Inr (S', c') \<and> out_wf c' \<and> space E L k c' \<and>
    queued c' = take (c_bufpos c) (c_buf c) @ nodes_data pre @ s @ nodes_data post \<and> c_sentlen c' = c_sentlen c"
proof -
  have l: "length s \<le> 23" using length_dec_int [OF assms(5,6)] by (simp add: assms(4) crlf_def)
  then have "length s \<le> L" using assms(7) by simp
  from fill_ok [OF assms(1-3) this assms(8)] obtain c1 rs n where f: "(case (if Suc (length pre) < length (c_reply c) then c_reply c ! Suc (length pre) else None) of
        Some nxt \<Rightarrow> if size_diff (blk_size nxt) (blk_used nxt) \<ge> length s \<and> blk_used nxt < PROTO_REPLY_CHUNK_BYTES * 4
                     then glue_len c (length pre) nxt s else fill_len E c (length pre) s
      | None \<Rightarrow> fill_len E c (length pre) s) = Inr c1" "out_wf c1" "space E L k c1"
    "queued c1 = take (c_bufpos c) (c_buf c) @ nodes_data pre @ s @ nodes_data post" "c1 = c\<lparr>c_reply := rs, c_reply_bytes := n\<rparr>" by blast
  have "total_size c1 < SIZE_MAX - 1024 * 64" using f(3) by (simp add: space_def)
  then obtain S' c' where r: "asyncCloseClientOnOutputBufferLimitReached E (S, c1) = Inr (S', c')" "out_frame (S, c1) (S', c')"
    "out_wf c' = out_wf c1" "queued c' = queued c1" "total_size c' = total_size c1"
    using limits_ok [OF unat_reply_bytes [OF f(2)], of E S] by blast
  have "setDeferredAggregateLen E (S, c) (Some (length pre)) len pfx = asyncCloseClientOnOutputBufferLimitReached E (S, c1)"
    unfolding setDeferredAggregateLen_def prod.case assms(4) [symmetric] Let_def option.case f(1) using l assms(3) by simp
  then show ?thesis using r f(2-5) by (intro exI [of _ S'] exI [of _ c']) (simp add: out_frame_def space_def)
qed

section \<open>Replies with a deferred length\<close>

fun sends :: "net_env \<Rightarrow> reply list \<Rightarrow> 'w sc \<Rightarrow> 'w sc outcome" where
  "sends E [] x = Inr x"
| "sends E (r # rs) x = bindE (send E r x) (sends E rs)"

lemma sends_emits:
  assumes "resp_env E" "32 \<le> L" "L < 2 ^ 62"
  shows "\<forall>r \<in> set rs. reply_ok L r \<Longrightarrow> emits E L (3 * length rs) (sends E rs :: 'w sc \<Rightarrow> 'w sc outcome) (\<lambda>v. concat (map (encode v) rs))"
proof (induction rs)
  case Nil
  show ?case by (auto simp: emits_def accepted_append rep_frame_def keeps_front_refl)
next
  case (Cons r rs)
  have "emits E L (3 + 3 * length rs) (\<lambda>x :: 'w sc. bindE (send E r x) (sends E rs)) (\<lambda>v. encode v r @ concat (map (encode v) rs))"
    using Cons by (intro emits_seq send_emits assms) simp_all
  then show ?case by (rule emits_cong [THEN emits_mono]) (simp_all add: fun_eq_iff)
qed

lemma deferred_placeholder:
  assumes "out_wf c" "takes_replies c" "addReplyDeferredLen (S, c) = (node, S1, c1)"
  shows "node = Some (length (c_reply c))" "c_reply c1 = c_reply c @ [None]" "c_buf c1 = c_buf c" "c_bufpos c1 = c_bufpos c" "out_wf c1"
    "queued c1 = queued c" "total_size c1 = total_size c" "sc_frame (S, c) (S1, c1)" "c_sentlen c1 = c_sentlen c"
proof -
  obtain ok S0 c0 where p: "prepareClientToWrite (S, c) = (ok, S0, c0)" by (cases "prepareClientToWrite (S, c)") auto
  note p0 = prepare_ok [OF p] prepare_reply [OF p]
  have e: "node = Some (length (c_reply c))" "c1 = c0\<lparr>c_reply := c_reply c @ [None]\<rparr>" "S1 = S0"
    using assms(2,3) p p0 by (auto simp: addReplyDeferredLen_def)
  have c0: "c_reply c0 = c_reply c" "c_buf c0 = c_buf c" "c_bufpos c0 = c_bufpos c" "out_wf c0" "c_sentlen c0 = c_sentlen c" using p0 assms(1) by simp_all
  show "node = Some (length (c_reply c))" "c_reply c1 = c_reply c @ [None]" "c_buf c1 = c_buf c" "c_bufpos c1 = c_bufpos c" "c_sentlen c1 = c_sentlen c"
    "queued c1 = queued c" "total_size c1 = total_size c" using e c0 by (simp_all add: queued_nodes)
  show "out_wf c1" using c0(1,4) unfolding e(2)
    by (cases "c_reply c") (auto simp: out_wf_def front_def queued_nodes split: if_splits)
  show "sc_frame (S, c) (S1, c1)" using p0(2) e by (simp add: sc_frame_def)
qed

text \<open>Reserve the place of the length, append the elements, fill in the length.\<close>

definition deferred :: "net_env \<Rightarrow> ('w sc \<Rightarrow> nat option \<Rightarrow> 'w sc outcome) \<Rightarrow> reply list \<Rightarrow> 'w sc \<Rightarrow> 'w sc outcome" where
  "deferred E set_len rs x = (let (node, x) = addReplyDeferredLen x in bindE (sends E rs x) (\<lambda>x. set_len x node))"

lemma deferred_ok:
  assumes "resp_env E" "32 \<le> L" "L < 2 ^ 62" "\<forall>r \<in> set rs. reply_ok L r" "out_wf c" "takes_replies c" "CLIENT_CLOSE_AFTER_REPLY \<notin> c_flags c"
    "space E L (3 * length rs + 1) c" "- (2 ^ 63) \<le> len" "len < 2 ^ 63"
    "\<And>x node. c_resp (snd x) = c_resp c \<Longrightarrow> set_len x node = setDeferredAggregateLen E x node len pfx"
  shows "\<exists>S' c'. deferred E set_len rs (S, c) = Inr (S', c') \<and> out_wf c' \<and> c_sentlen c' = c_sentlen c \<and>
    queued c' = queued c @ line pfx (dec_int len) @ concat (map (encode (c_resp c)) rs)"
proof -
  obtain node S1 c1 where d: "addReplyDeferredLen (S, c) = (node, S1, c1)" by (cases "addReplyDeferredLen (S, c)") auto
  note d1 = deferred_placeholder [OF assms(5,6) d]
  have sp: "space E L (3 * length rs + 1) c1" using assms(8) d1(7) by (simp add: space_def)
  obtain S2 c2 where s: "sends E rs (S1, c1) = Inr (S2, c2)" "out_wf c2" "space E L 1 c2"
    "queued c2 = queued c1 @ accepted c1 (concat (map (encode (c_resp c1)) rs))" "c_sentlen c2 = c_sentlen c1" "rep_frame (S1, c1) (S2, c2)"
    using emitsD [OF sends_emits [OF assms(1-4)] d1(5) sp, of S1] by blast
  have acc: "accepted c1 = accepted c" "c_resp c1 = c_resp c" "c_resp c2 = c_resp c" using sc_frameD(2,4) [OF d1(8)] rep_frameD(4) [OF s(6)] by simp_all
  have "take (Suc (length (c_reply c))) (c_reply c2) = c_reply c @ [None]" and b2: "c_buf c2 = c_buf c" "c_bufpos c2 = c_bufpos c"
    using s(6) d1(2-4) by (auto simp: rep_frame_def keeps_front_def nth_append)
  then obtain post where post: "c_reply c2 = c_reply c @ None # post"
    by (metis append.assoc append_Cons append_Nil append_take_drop_id)
  have "queued c2 = queued c @ concat (map (encode (c_resp c)) rs)"
    using s(4) d1(6) acc assms(6,7) by (simp add: accepted_def)
  then have data: "nodes_data post = concat (map (encode (c_resp c)) rs)" using post b2 by (simp add: queued_nodes)
  have sp2: "space E L (Suc 0) c2" and E: "env_ok E" using s(3) assms(1) by (simp_all add: resp_env_def)
  obtain S' c' where "setDeferredAggregateLen E (S2, c2) (Some (length (c_reply c))) len pfx = Inr (S', c')" "out_wf c'"
    "queued c' = take (c_bufpos c2) (c_buf c2) @ nodes_data (c_reply c) @ (pfx # dec_int len @ crlf) @ nodes_data post" "c_sentlen c' = c_sentlen c2"
    using setDeferred_ok [OF E s(2) post refl assms(9,10,2) sp2, of S2 pfx] by blast
  then show ?thesis using d d1(1,9) s(1,5) acc(3) assms(11) [of "(S2, c2)"] data b2
    by (intro exI [of _ S'] exI [of _ c']) (simp add: deferred_def queued_nodes line_def)
qed

section \<open>The property\<close>

text \<open>C8: a reply whose length is filled in after its elements is encoded like one whose length was known before: with the header in front
  of the elements, whatever blocks the elements ended up in. For maps the header has twice the length in version 2 of the protocol.\<close>

theorem deferred_lengths:
  assumes "resp_env E" "32 \<le> L" "L < 2 ^ 62" "\<forall>r \<in> set rs. reply_ok L r" "out_wf c" "takes_replies c" "CLIENT_CLOSE_AFTER_REPLY \<notin> c_flags c"
    "space E L (3 * length rs + 1) c" "n < 2 ^ 62"
  shows "(\<exists>S' c'. deferred E (\<lambda>x node. setDeferredArrayLen E x node (int n)) rs (S, c) = Inr (S', c') \<and> out_wf c' \<and>
      queued c' = queued c @ concat (map (encode (c_resp c)) (ArrayLen n # rs))) \<and>
    (\<exists>S' c'. deferred E (\<lambda>x node. setDeferredMapLen E x node (int n)) rs (S, c) = Inr (S', c') \<and> out_wf c' \<and>
      queued c' = queued c @ concat (map (encode (c_resp c)) (MapLen n # rs)))"
proof
  have n: "- (2 ^ 63) \<le> int n" "int n < 2 ^ 63" "- (2 ^ 63) \<le> int (2 * n)" "int (2 * n) < 2 ^ 63" using assms(9) by simp_all
  show "\<exists>S' c'. deferred E (\<lambda>x node. setDeferredArrayLen E x node (int n)) rs (S, c) = Inr (S', c') \<and> out_wf c' \<and>
      queued c' = queued c @ concat (map (encode (c_resp c)) (ArrayLen n # rs))"
    using deferred_ok [OF assms(1-8) n(1,2), of "\<lambda>x node. setDeferredArrayLen E x node (int n)" 42 S] by (auto simp: setDeferredArrayLen_def)
  have tw: "long_twice (int n) = Inr (int (2 * n))" using assms(9) by (simp add: long_twice_def)
  let ?f = "\<lambda>x node. setDeferredMapLen E x node (int n)"
  show "\<exists>S' c'. deferred E ?f rs (S, c) = Inr (S', c') \<and> out_wf c' \<and> queued c' = queued c @ concat (map (encode (c_resp c)) (MapLen n # rs))"
  proof (cases "c_resp c = 2")
    case True
    then have "?f x node = setDeferredAggregateLen E x node (int (2 * n)) 42" if "c_resp (snd x) = c_resp c" for x :: "'a sc" and node
      using that tw by (simp add: setDeferredMapLen_def)
    from deferred_ok [OF assms(1-8) n(3,4) this, of S] show ?thesis using True unfolding dec_int_nat by auto
  next
    case False
    then have "?f x node = setDeferredAggregateLen E x node (int n) 37" if "c_resp (snd x) = c_resp c" for x :: "'a sc" and node
      using that by (simp add: setDeferredMapLen_def)
    from deferred_ok [OF assms(1-8) n(1,2) this, of S] show ?thesis using False by auto
  qed
qed

theorem deferred_lengths_witness:
  "\<exists>S' c'. deferred ex_env (\<lambda>x node. setDeferredArrayLen ex_env x node 2) [Integer 7, Null] (ex_server (), ex_client) = Inr (S', c') \<and> out_wf c' \<and>
     queued c' = [42, 50, 13, 10] @ [58, 55, 13, 10] @ [95, 13, 10]"
proof -
  have "space ex_env 32 7 ex_client" using ex_env_ok(2) by (simp add: space_def total_size_def ex_client_def SIZE_MAX_def PROTO_REPLY_CHUNK_BYTES_def)
  moreover have "out_wf ex_client" "takes_replies ex_client" "CLIENT_CLOSE_AFTER_REPLY \<notin> c_flags ex_client" "queued ex_client = []" "c_resp ex_client = 3"
    by (simp_all add: ex_client_def out_wf_def total_size_def takes_replies_def queued_def)
  ultimately show ?thesis using deferred_lengths [OF ex_env_ok(1), of 32 "[Integer 7, Null]" ex_client 2 "ex_server ()"]
    by (simp add: line_def crlf_def dec_int_def dec.simps)
qed

end
