(* ===== verification/Net_Query.thy ===== *)
theory Net_Query
  imports Net_Reply
begin

text \<open>
  The query side of \<open>networking.c\<close>: reading from the socket into the query buffer of a client, and taking commands out of it, in
  the inline form and in the form of the protocol. The query buffer is the content of an sds string: \<open>sdsMakeRoomFor\<close>,
  \<open>sdsIncrLen\<close>, \<open>sdsrange\<close>, \<open>sdsnewlen\<close> and \<open>sdsclear\<close> are used through what \<open>Sds\<close> and \<open>Sds_Text\<close> show of it. Arguments are
  the contents of their string objects; the array \<open>argv\<close> has room for \<open>argv_cap\<close> of them.

  What the sources call but do not hold is in the environment \<open>in_env\<close>: \<open>string2ll\<close>, the execution of a command, Gopher requests,
  the replicas, the clients that are queued when a pause ends, \<open>read\<close>, and the configuration.
\<close>

section \<open>State\<close>

definition PROTO_IOBUF_LEN :: nat where "PROTO_IOBUF_LEN = 1024 * 16"

definition PROTO_INLINE_MAX_SIZE :: nat where "PROTO_INLINE_MAX_SIZE = 1024 * 64"

definition PROTO_MBULK_BIG_ARG :: int where "PROTO_MBULK_BIG_ARG = 1024 * 32"

datatype request_type = NO_REQUEST | PROTO_REQ_INLINE | PROTO_REQ_MULTIBULK

record query =
  querybuf :: "byte list"
  qb_pos :: nat
  querybuf_peak :: nat
  pending_querybuf :: "byte list"
  reqtype :: request_type
  multibulklen :: int
  bulklen :: int
  argv :: "byte list list"
  argv_cap :: nat
  cmd_is_asking :: bool
  blocked_in_module :: bool
  reploff :: int
  read_reploff :: int
  repl_ack_time :: int

type_synonym 'w qs = "'w redisServer \<times> client \<times> query"

record 'w in_env =
  in_net :: net_env
  in_malloc :: s_malloc
  string2ll :: "byte list \<Rightarrow> int option"
  proto_max_bulk_len :: int
  client_max_querybuf_len :: nat
  gopher_enabled :: bool
  io_threads_active :: bool
  io_threads_do_reads :: bool
  processCommand :: "'w qs \<Rightarrow> (bool \<times> 'w qs) outcome option"
  processGopherRequest :: "'w qs \<Rightarrow> 'w qs outcome option"
  requeue_clients :: "'w \<Rightarrow> 'w"
  feed_replicas :: "'w \<Rightarrow> byte list \<Rightarrow> 'w"
  os_read :: "'w \<Rightarrow> int \<Rightarrow> nat \<Rightarrow> int \<times> bool \<times> byte list \<times> 'w"

definition unparsed :: "query \<Rightarrow> byte list" where
  "unparsed q = drop (qb_pos q) (querybuf q)"

text \<open>\<open>strchr\<close> on a string behind which is the terminator: the offset of the character, if it is there before a zero byte.\<close>

fun strchr_at :: "byte \<Rightarrow> byte list \<Rightarrow> nat option" where
  "strchr_at ch [] = None"
| "strchr_at ch (b # bs) = (if b = ch then Some 0 else if b = 0 then None else map_option Suc (strchr_at ch bs))"

text \<open>A \<open>size_t\<close> read as \<open>ssize_t\<close>.\<close>

definition as_ssize :: "nat \<Rightarrow> int" where
  "as_ssize n = (if n < 2 ^ 63 then int n else int n - 2 ^ 64)"

section \<open>Resetting a client\<close>

definition resetClient :: "client \<times> query \<Rightarrow> client \<times> query" where
  "resetClient = (\<lambda>(c, q).
     let q' = q\<lparr>argv := [], cmd_is_asking := False, reqtype := NO_REQUEST, multibulklen := 0, bulklen := - 1\<rparr>;
         c = (if CLIENT_MULTI \<notin> c_flags c \<and> \<not> cmd_is_asking q then clear_flag CLIENT_ASKING c else c);
         c = clear_flag CLIENT_REPLY_SKIP c;
         c = (if CLIENT_REPLY_SKIP_NEXT \<in> c_flags c then clear_flag CLIENT_REPLY_SKIP_NEXT (set_flag CLIENT_REPLY_SKIP c) else c)
     in (c, q'))"

text \<open>An error reply, after which the client is closed (\<open>setProtocolError\<close>; its message to the log is left out).\<close>

definition setProtocolError :: "client \<Rightarrow> client" where
  "setProtocolError c = set_flag CLIENT_CLOSE_AFTER_REPLY c"

definition protocol_error :: "'w in_env \<Rightarrow> byte list \<Rightarrow> 'w qs \<Rightarrow> (bool \<times> 'w qs) outcome" where
  "protocol_error P msg = (\<lambda>(S, c, q).
     bindE (addReplyError (in_net P) (S, c) (msg @ [0])) (\<lambda>(S, c). Inr (False, S, setProtocolError c, q)))"

section \<open>Inline commands\<close>

definition store_arg :: "query \<Rightarrow> byte list \<Rightarrow> query outcome" where
  "store_arg q s = (if length (argv q) < argv_cap q then Inr (q\<lparr>argv := argv q @ [s]\<rparr>) else Inl OutOfBounds)"

fun store_args :: "query \<Rightarrow> sds option list \<Rightarrow> query outcome" where
  "store_args q [] = Inr q"
| "store_args q (None # ss) = Inl NullDeref"
| "store_args q (Some s # ss) = (if sdslen s \<noteq> 0 then bindE (store_arg q (content s)) (\<lambda>q. store_args q ss) else store_args q ss)"

text \<open>The length of the line in front of the newline at offset \<open>i\<close>, and the characters that end it.\<close>

definition line_end :: "byte list \<Rightarrow> nat \<Rightarrow> nat \<times> nat" where
  "line_end s i = (if i \<noteq> 0 \<and> s ! (i - 1) = 13 then (i - 1, 2) else (i, 1))"

definition processInlineBuffer :: "'w in_env \<Rightarrow> 'w qs \<Rightarrow> (bool \<times> 'w qs) outcome" where
  "processInlineBuffer P = (\<lambda>(S, c, q).
     case strchr_at 10 (unparsed q) of
       None \<Rightarrow>
         if size_diff (length (querybuf q)) (qb_pos q) > PROTO_INLINE_MAX_SIZE
         then protocol_error P (ascii ''Protocol error: too big inline request'') (S, c, q)
         else Inr (False, S, c, q)
     | Some i \<Rightarrow>
         let (querylen, linefeed_chars) = line_end (unparsed q) i
         in bindE (sdssplitargs (in_malloc P) (take querylen (unparsed q) @ [0])) (\<lambda>(vec, argc).
            case vec of
              None \<Rightarrow> protocol_error P (ascii ''Protocol error: unbalanced quotes in request'') (S, c, q)
            | Some vec \<Rightarrow>
                let q = (if querylen = 0 \<and> CLIENT_SLAVE \<in> c_flags c then q\<lparr>repl_ack_time := unixtime S\<rparr> else q);
                    q = q\<lparr>qb_pos := qb_pos q + querylen + linefeed_chars\<rparr>;
                    q = (if argc \<noteq> 0 then q\<lparr>argv_cap := argc\<rparr> else q)
                in bindE (store_args (q\<lparr>argv := []\<rparr>) vec) (\<lambda>q. Inr (True, S, c, q))))"

section \<open>Commands of the protocol\<close>

text \<open>The buffer holds a whole line: the newline is at offset \<open>i\<close>, and one more character follows.\<close>

definition whole_line :: "query \<Rightarrow> nat \<Rightarrow> bool" where
  "whole_line q i \<longleftrightarrow> \<not> int i > as_ssize (size_diff (size_diff (length (querybuf q)) (qb_pos q)) 2)"

text \<open>The number in the line behind its first character.\<close>

definition line_number :: "'w in_env \<Rightarrow> query \<Rightarrow> nat \<Rightarrow> int option" where
  "line_number P q i = string2ll P (take (i - 1) (drop 1 (unparsed q)))"

text \<open>The multi bulk length, if it is not known yet. The result is what the function returns, \<open>None\<close> if it goes on.\<close>

definition multibulk_header :: "'w in_env \<Rightarrow> 'w qs \<Rightarrow> (bool option \<times> 'w qs) outcome" where
  "multibulk_header P = (\<lambda>(S, c, q).
     let err = (\<lambda>msg. bindE (protocol_error P msg (S, c, q)) (\<lambda>(r, x). Inr (Some r, x)))
     in if multibulklen q \<noteq> 0 then Inr (None, S, c, q)
        else if argv q \<noteq> [] then Inl AssertFailed
        else case strchr_at 13 (unparsed q) of
          None \<Rightarrow>
            if size_diff (length (querybuf q)) (qb_pos q) > PROTO_INLINE_MAX_SIZE
            then err (ascii ''Protocol error: too big mbulk count string'')
            else Inr (Some False, S, c, q)
        | Some i \<Rightarrow>
            if \<not> whole_line q i then Inr (Some False, S, c, q)
            else bindE (rd (unparsed q) 0) (\<lambda>b.
                 if b \<noteq> 42 then Inl AssertFailed
                 else case line_number P q i of
                   None \<Rightarrow> err (ascii ''Protocol error: invalid multibulk length'')
                 | Some ll \<Rightarrow>
                     if ll > 1024 * 1024 then err (ascii ''Protocol error: invalid multibulk length'')
                     else let q = q\<lparr>qb_pos := qb_pos q + i + 2\<rparr>
                          in if ll \<le> 0 then Inr (Some True, S, c, q)
                             else Inr (None, S, c, q\<lparr>multibulklen := ll, argv_cap := nat ll\<rparr>)))"

text \<open>The length of a bulk of \<open>ll\<close> bytes was read: a large bulk is moved to the front of the buffer.\<close>

definition start_bulk :: "int \<Rightarrow> query \<Rightarrow> query" where
  "start_bulk ll q =
     (let q = (if ll \<ge> PROTO_MBULK_BIG_ARG \<and> size_diff (length (querybuf q)) (qb_pos q) \<le> nat ll + 2
               then q\<lparr>querybuf := unparsed q, qb_pos := 0\<rparr> else q)
      in q\<lparr>bulklen := ll\<rparr>)"

text \<open>The bulk length, if it is not known yet. Without it, or after an error, the function returns \<open>C_ERR\<close>.\<close>

definition bulk_header :: "'w in_env \<Rightarrow> 'w qs \<Rightarrow> (bool \<times> 'w qs) outcome" where
  "bulk_header P = (\<lambda>(S, c, q).
     if bulklen q \<noteq> - 1 then Inr (True, S, c, q)
     else case strchr_at 13 (unparsed q) of
       None \<Rightarrow>
         if size_diff (length (querybuf q)) (qb_pos q) > PROTO_INLINE_MAX_SIZE
         then protocol_error P (ascii ''Protocol error: too big bulk count string'') (S, c, q)
         else Inr (False, S, c, q)
     | Some i \<Rightarrow>
         if \<not> whole_line q i then Inr (False, S, c, q)
         else bindE (rd (unparsed q) 0) (\<lambda>b.
              if b \<noteq> 36
              then bindE (addReplyErrorFormat (in_net P) (S, c) (ascii ''Protocol error: expected '' @ [39, 36, 39] @ ascii '', got '' @ [39, b, 39]))
                     (\<lambda>(S, c). Inr (False, S, setProtocolError c, q))
              else case line_number P q i of
                None \<Rightarrow> protocol_error P (ascii ''Protocol error: invalid bulk length'') (S, c, q)
              | Some ll \<Rightarrow>
                  if ll < 0 \<or> ll > proto_max_bulk_len P
                  then protocol_error P (ascii ''Protocol error: invalid bulk length'') (S, c, q)
                  else Inr (True, S, c, start_bulk ll (q\<lparr>qb_pos := qb_pos q + i + 2\<rparr>))))"

text \<open>The argument. A large bulk that fills the buffer becomes the argument without a copy.\<close>

definition bulk_argument :: "query \<Rightarrow> (bool \<times> query) outcome" where
  "bulk_argument q =
     (let n = nat (bulklen q)
      in if size_diff (length (querybuf q)) (qb_pos q) < to_size_t (n + 2) then Inr (False, q)
         else bindE (if qb_pos q = 0 \<and> bulklen q \<ge> PROTO_MBULK_BIG_ARG \<and> length (querybuf q) = to_size_t (n + 2)
                     then bindE (store_arg q (take (length (querybuf q) - 2) (querybuf q))) (\<lambda>q. Inr (q\<lparr>querybuf := []\<rparr>))
                     else bindE (mem_read (querybuf q) (qb_pos q) n) (\<lambda>s.
                          bindE (store_arg q s) (\<lambda>q. Inr (q\<lparr>qb_pos := qb_pos q + n + 2\<rparr>)))) (\<lambda>q.
              Inr (True, q\<lparr>bulklen := - 1, multibulklen := multibulklen q - 1\<rparr>)))"

text \<open>The loop makes one turn for each argument that is missing.\<close>

fun bulk_loop :: "'w in_env \<Rightarrow> nat \<Rightarrow> 'w qs \<Rightarrow> (bool \<times> 'w qs) outcome" where
  "bulk_loop P 0 x = Inr (True, x)"
| "bulk_loop P (Suc n) x =
     bindE (bulk_header P x) (\<lambda>(ok, S, c, q).
     if \<not> ok then Inr (False, S, c, q)
     else bindE (bulk_argument q) (\<lambda>(ok, q).
          if \<not> ok then Inr (False, S, c, q) else bulk_loop P n (S, c, q)))"

definition processMultibulkBuffer :: "'w in_env \<Rightarrow> 'w qs \<Rightarrow> (bool \<times> 'w qs) outcome" where
  "processMultibulkBuffer P x =
     bindE (multibulk_header P x) (\<lambda>(r, S, c, q).
     case r of Some ok \<Rightarrow> Inr (ok, S, c, q)
     | None \<Rightarrow> if \<not> multibulklen q > 0 then Inl AssertFailed else bulk_loop P (nat (multibulklen q)) (S, c, q))"

section \<open>The input buffer\<close>

definition processCommandAndResetClient :: "'w in_env \<Rightarrow> 'w qs \<Rightarrow> (bool \<times> 'w qs) outcome option" where
  "processCommandAndResetClient P = (\<lambda>(S, c, q).
     bindO (processCommand P (S\<lparr>current_client := Some (c_id c)\<rparr>, c, q)) (\<lambda>(ok, S, c, q).
     let (c, q) =
           (if ok
            then let q = (if CLIENT_MASTER \<in> c_flags c \<and> CLIENT_MULTI \<notin> c_flags c
                          then q\<lparr>reploff := read_reploff q - int (length (querybuf q)) + int (qb_pos q)\<rparr> else q)
                 in if CLIENT_BLOCKED \<notin> c_flags c \<or> \<not> blocked_in_module q then resetClient (c, q) else (c, q)
            else (c, q));
         deadclient = (current_client S = None)
     in Some (Inr (\<not> deadclient, S\<lparr>current_client := None\<rparr>, c, q))))"

definition pauseClients :: "'w redisServer \<Rightarrow> int \<Rightarrow> 'w redisServer" where
  "pauseClients S e =
     (let S = (if \<not> clients_paused S \<or> e > clients_pause_end_time S then S\<lparr>clients_pause_end_time := e\<rparr> else S)
      in S\<lparr>clients_paused := True\<rparr>)"

definition clientsArePaused :: "'w in_env \<Rightarrow> 'w redisServer \<Rightarrow> bool \<times> 'w redisServer" where
  "clientsArePaused P S =
     (let S = (if clients_paused S \<and> clients_pause_end_time S < mstime S
               then S\<lparr>clients_paused := False, world := requeue_clients P (world S)\<rparr> else S)
      in (clients_paused S, S))"

text \<open>The tests at the start of each turn of the loop: the client is not to be served now.\<close>

definition input_stops :: "'w in_env \<Rightarrow> 'w qs \<Rightarrow> bool \<times> 'w qs" where
  "input_stops P = (\<lambda>(S, c, q).
     let (paused, S) = (if CLIENT_SLAVE \<notin> c_flags c then clientsArePaused P S else (False, S))
     in (paused \<or> CLIENT_BLOCKED \<in> c_flags c \<or> CLIENT_PENDING_COMMAND \<in> c_flags c \<or> lua_timedout S \<and> CLIENT_MASTER \<in> c_flags c \<or>
         CLIENT_CLOSE_AFTER_REPLY \<in> c_flags c \<or> CLIENT_CLOSE_ASAP \<in> c_flags c, S, c, q))"

definition request_type_of :: "query \<Rightarrow> query" where
  "request_type_of q =
     (if reqtype q = NO_REQUEST then q\<lparr>reqtype := (if hd (unparsed q) = 42 then PROTO_REQ_MULTIBULK else PROTO_REQ_INLINE)\<rparr> else q)"

definition take_request :: "'w in_env \<Rightarrow> 'w qs \<Rightarrow> (bool \<times> 'w qs) outcome" where
  "take_request P = (\<lambda>(S, c, q).
     if reqtype q = PROTO_REQ_INLINE then processInlineBuffer P (S, c, q) else processMultibulkBuffer P (S, c, q))"

definition is_gopher :: "'w in_env \<Rightarrow> query \<Rightarrow> bool" where
  "is_gopher P q \<longleftrightarrow> reqtype q = PROTO_REQ_INLINE \<and> gopher_enabled P \<and>
     (length (argv q) = 1 \<and> argv q ! 0 \<noteq> [] \<and> argv q ! 0 ! 0 = 47 \<or> argv q = [])"

text \<open>How the loop goes on after a request: the next turn, the end of the loop, or a return from the function.\<close>

datatype after_request = NEXT_TURN | LEAVE_LOOP | RETURN_NOW

definition serve_request :: "'w in_env \<Rightarrow> 'w qs \<Rightarrow> (after_request \<times> 'w qs) outcome option" where
  "serve_request P = (\<lambda>(S, c, q).
     if is_gopher P q
     then bindO (processGopherRequest P (S, c, q)) (\<lambda>(S, c, q).
          let (c, q) = resetClient (c, q) in Some (Inr (LEAVE_LOOP, S, set_flag CLIENT_CLOSE_AFTER_REPLY c, q)))
     else if argv q = [] then let (c, q) = resetClient (c, q) in Some (Inr (NEXT_TURN, S, c, q))
     else if CLIENT_PENDING_READ \<in> c_flags c then Some (Inr (LEAVE_LOOP, S, set_flag CLIENT_PENDING_COMMAND c, q))
     else bindO (processCommandAndResetClient P (S, c, q)) (\<lambda>(alive, x). Some (Inr (if alive then NEXT_TURN else RETURN_NOW, x))))"

lemma bindO_mono [partial_function_mono]:
  assumes "mono_option B" "\<And>y. mono_option (\<lambda>f. C y f)"
  shows "mono_option (\<lambda>f. bindO (B f) (\<lambda>y. C y f))"
proof (rule monotoneI)
  fix f g :: "'a \<Rightarrow> 'b option"
  assume fg: "fun_ord option_ord f g"
  have "option_ord (B f) (B g)" "\<And>y. option_ord (C y f) (C y g)" using assms fg by (auto dest: monotoneD)
  then show "option_ord (bindO (B f) (\<lambda>y. C y f)) (bindO (B g) (\<lambda>y. C y g))"
    by (cases "B f") (auto simp: flat_ord_def bindO_def split: option.splits sum.splits)
qed

text \<open>The loop; the result tells whether the end of the function is reached.\<close>

partial_function (option) input_loop :: "'w in_env \<Rightarrow> 'w qs \<Rightarrow> (bool \<times> 'w qs) outcome option" where
  "input_loop P x =
     (case x of (S, c, q) \<Rightarrow>
      if \<not> qb_pos q < length (querybuf q) then Some (Inr (True, S, c, q))
      else case input_stops P (S, c, q) of (stop, S, c, q) \<Rightarrow>
           if stop then Some (Inr (True, S, c, q))
           else bindO (Some (take_request P (S, c, request_type_of q))) (\<lambda>(ok, x).
                if \<not> ok then Some (Inr (True, x))
                else bindO (serve_request P x) (\<lambda>(r, x).
                     case r of NEXT_TURN \<Rightarrow> input_loop P x
                     | LEAVE_LOOP \<Rightarrow> Some (Inr (True, x))
                     | RETURN_NOW \<Rightarrow> Some (Inr (False, x)))))"

definition trim :: "query \<Rightarrow> query" where
  "trim q = (if qb_pos q \<noteq> 0 then q\<lparr>querybuf := unparsed q, qb_pos := 0\<rparr> else q)"

definition processInputBuffer :: "'w in_env \<Rightarrow> 'w qs \<Rightarrow> 'w qs outcome option" where
  "processInputBuffer P x =
     bindO (input_loop P x) (\<lambda>(at_end, S, c, q). Some (Inr (S, c, if at_end then trim q else q)))"

definition processInputBufferAndReplicate :: "'w in_env \<Rightarrow> 'w qs \<Rightarrow> 'w qs outcome option" where
  "processInputBufferAndReplicate P = (\<lambda>(S, c, q).
     if CLIENT_MASTER \<notin> c_flags c then processInputBuffer P (S, c, q)
     else bindO (processInputBuffer P (S, c, q)) (\<lambda>(S, c, q').
          let applied = nat ((reploff q' - reploff q) mod 2 ^ 64)
          in if applied = 0 then Some (Inr (S, c, q'))
             else bindO (Some (mem_read (pending_querybuf q') 0 applied)) (\<lambda>s.
                  Some (Inr (S\<lparr>world := feed_replicas P (world S) s\<rparr>, c, q'\<lparr>pending_querybuf := drop applied (pending_querybuf q')\<rparr>)))))"

section \<open>Reading from the socket\<close>

definition postponeClientRead :: "'w in_env \<Rightarrow> 'w sc \<Rightarrow> bool \<times> 'w sc" where
  "postponeClientRead P = (\<lambda>(S, c).
     if io_threads_active P \<and> io_threads_do_reads P \<and>
        CLIENT_MASTER \<notin> c_flags c \<and> CLIENT_SLAVE \<notin> c_flags c \<and> CLIENT_PENDING_READ \<notin> c_flags c
     then (True, S\<lparr>clients_pending_read := c_id c # clients_pending_read S\<rparr>, set_flag CLIENT_PENDING_READ c)
     else (False, S, c))"

text \<open>How much to read: not past the end of a large bulk.\<close>

definition read_length :: "query \<Rightarrow> nat" where
  "read_length q =
     (if reqtype q = PROTO_REQ_MULTIBULK \<and> multibulklen q \<noteq> 0 \<and> bulklen q \<noteq> - 1 \<and> bulklen q \<ge> PROTO_MBULK_BIG_ARG
      then let remaining = as_ssize (size_diff (nat (bulklen q) + 2) (length (querybuf q)))
           in if remaining > 0 \<and> remaining < int PROTO_IOBUF_LEN then nat remaining else PROTO_IOBUF_LEN
      else PROTO_IOBUF_LEN)"

text \<open>\<open>nread\<close> bytes \<open>d\<close> have arrived.\<close>

definition received :: "'w in_env \<Rightarrow> 'w qs \<Rightarrow> byte list \<Rightarrow> 'w qs outcome option" where
  "received P = (\<lambda>(S, c, q) d.
     let master = (CLIENT_MASTER \<in> c_flags c);
         q = (if master then q\<lparr>pending_querybuf := pending_querybuf q @ d\<rparr> else q);
         q = q\<lparr>querybuf := querybuf q @ d\<rparr>;
         c = c\<lparr>c_lastinteraction := unixtime S\<rparr>;
         q = (if master then q\<lparr>read_reploff := read_reploff q + int (length d)\<rparr> else q);
         S = S\<lparr>stat_net_input_bytes := stat_net_input_bytes S + length d\<rparr>
     in if length (querybuf q) > client_max_querybuf_len P
        then let (S, c) = freeClientAsync (S, c) in Some (Inr (S, c, q))
        else processInputBufferAndReplicate P (S, c, q))"

definition readQueryFromClient :: "'w in_env \<Rightarrow> int \<Rightarrow> 'w qs \<Rightarrow> 'w qs outcome option" where
  "readQueryFromClient P fd = (\<lambda>(S, c, q).
     let (postponed, S, c) = postponeClientRead P (S, c)
     in if postponed then Some (Inr (S, c, q))
        else let readlen = read_length q;
                 q = (if querybuf_peak q < length (querybuf q) then q\<lparr>querybuf_peak := length (querybuf q)\<rparr> else q);
                 (nread, again, d, w) = os_read P (world S) fd readlen;
                 S = S\<lparr>world := w\<rparr>
             in if nread = - 1 \<and> again then Some (Inr (S, c, q))
                else if nread \<le> 0 then let (S, c) = freeClientAsync (S, c) in Some (Inr (S, c, q))
                else if nread > int readlen then Some (Inl OutOfBounds)
                else received P (S, c, q) (take (nat nread) d))"

end
