(* ===== verification/Net_Parse.thy ===== *)
theory Net_Parse
  imports Net_Query Net_Output
begin

text \<open>
  What the parser of the query buffer expects next, in the middle of the bytes of a sequence of commands: each step of it, and each
  piece that arrives, keeps this, wherever the socket cuts the bytes. \<open>Net_Execute\<close> shows from it that the commands are executed.
\<close>

section \<open>Lines\<close>

lemma strchr_at_none: "ch \<notin> set s \<Longrightarrow> strchr_at ch s = None"
  by (induction s) auto

lemma strchr_at_some: "ch \<notin> set s \<Longrightarrow> 0 \<notin> set s \<Longrightarrow> strchr_at ch (s @ ch # r) = Some (length s)"
  by (induction s) auto

lemma dec_chars: "b \<in> set (dec n) \<Longrightarrow> b \<noteq> 0 \<and> b \<noteq> 13 \<and> b \<noteq> 10"
proof (induction n rule: dec.induct)
  case (1 n)
  have d: "b \<noteq> 0 \<and> b \<noteq> 13 \<and> b \<noteq> 10" if "d < 10" "b = word_of_nat (48 + d)" for d and b :: byte
  proof -
    have u: "unat b = 48 + d" using unat_digit [OF that(1)] that(2) by simp
    have "unat (0 :: byte) = 0" "unat (13 :: byte) = 13" "unat (10 :: byte) = 10" by simp_all
    then show ?thesis using u by auto
  qed
  show ?case using 1 d [of n b] d [of "n mod 10" b] dec.simps [of n] by (cases "n < 10") (auto simp del: of_nat_add)
qed

lemma size_diff_small: "b \<le> a \<Longrightarrow> a < 2 ^ 63 \<Longrightarrow> size_diff a b = a - b"
  using size_diff_eq [of b a] by simp

lemma whole_line_iff:
  assumes "qb_pos q \<le> length (querybuf q)" "length (querybuf q) < 2 ^ 63"
  shows "whole_line q i \<longleftrightarrow> i + 2 \<le> length (unparsed q)"
proof -
  have l: "size_diff (length (querybuf q)) (qb_pos q) = length (unparsed q)" "length (unparsed q) < 2 ^ 63"
    using size_diff_small [OF assms] assms by (simp_all add: unparsed_def)
  show ?thesis
  proof (cases "2 \<le> length (unparsed q)")
    case True
    then have "size_diff (length (unparsed q)) 2 = length (unparsed q) - 2" using size_diff_small l(2) by simp
    then show ?thesis using True l by (auto simp: whole_line_def as_ssize_def)
  next
    case False
    then have "length (unparsed q) = 0 \<or> length (unparsed q) = 1" by linarith
    then have "as_ssize (size_diff (length (unparsed q)) 2) < 0" by (auto simp: size_diff_def as_ssize_def)
    then show ?thesis using False l(1) by (auto simp: whole_line_def)
  qed
qed

text \<open>A buffer that starts with a line: the line is not complete yet, or it is, and the rest follows.\<close>

lemma crlf_line_cases:
  assumes "B @ U = line b (dec n) @ R" "b \<noteq> 0" "b \<noteq> 13" "n < 2 ^ 63"
  obtains "strchr_at 13 B = None" "length B \<le> 21" "U \<noteq> []"
  | i where "strchr_at 13 B = Some i" "length B < i + 2" "U \<noteq> []"
  | B' where "B = line b (dec n) @ B'" "R = B' @ U" "strchr_at 13 B = Some (Suc (length (dec n)))"
proof -
  define p where "p = b # dec n"
  have p: "13 \<notin> set p" "0 \<notin> set p" "length p \<le> 21" "length p = Suc (length (dec n))" unfolding p_def using assms(2-4) dec_chars [of _ n] length_dec [of n] by auto
  have e: "B @ U = p @ 13 # 10 # R" using assms(1) by (simp add: line_def crlf_def p_def)
  have len: "length B + length U = length p + 2 + length R" using arg_cong [OF e, of length] by simp
  have B: "B = take (length B) (p @ 13 # 10 # R)" unfolding e [symmetric] by simp
  consider "length B \<le> length p" | "length B = Suc (length p)" | "length B \<ge> length p + 2" by linarith
  then show thesis
  proof cases
    case 1
    then have "take (length B) p = B" using B by simp
    then have "set B \<subseteq> set p" using set_take_subset [of "length B" p] by simp
    then have "13 \<notin> set B" using p(1) by blast
    moreover have "U \<noteq> []" using len 1 by auto
    ultimately show thesis using that(1) 1 p(3) strchr_at_none by simp
  next
    case 2
    then have "B = p @ [13]" using B by simp
    moreover have "U \<noteq> []" using len 2 by auto
    ultimately show thesis using that(2) [of "length p"] p strchr_at_some [of 13 p "[]"] by simp
  next
    case 3
    then obtain us where us: "B = p @ us" "us @ U = 13 # 10 # R" using e by (auto simp: append_eq_append_conv2)
    then obtain B' where "us = 13 # 10 # B'" "R = B' @ U" using 3 by (cases us; cases "tl us") auto
    then show thesis using that(3) [of B'] strchr_at_some [of 13 p "10 # B'"] p us(1) by (simp add: line_def crlf_def p_def)
  qed
qed

section \<open>Arguments\<close>

text \<open>What the parser relies on: \<open>string2ll\<close> reads decimal numbers.\<close>

definition ll_ok :: "'w in_env \<Rightarrow> bool" where
  "ll_ok P \<longleftrightarrow> (\<forall>n < 2 ^ 63. string2ll P (dec n) = Some (int n))"

definition arg_ok :: "'w in_env \<Rightarrow> byte list \<Rightarrow> bool" where
  "arg_ok P a \<longleftrightarrow> int (length a) \<le> proto_max_bulk_len P \<and> length a < 2 ^ 62"

text \<open>In the middle of a command: the arguments \<open>as\<close> are missing; the unparsed bytes and those to come are their encodings, followed by \<open>R\<close>.\<close>

definition buf_ok :: "query \<Rightarrow> bool" where
  "buf_ok q \<longleftrightarrow> qb_pos q \<le> length (querybuf q) \<and> length (querybuf q) < 2 ^ 62"

definition missing :: "query \<Rightarrow> byte list \<Rightarrow> byte list list \<Rightarrow> byte list \<Rightarrow> bool" where
  "missing q U as R \<longleftrightarrow>
     bulklen q = - 1 \<and> unparsed q @ U = concat (map encode_bulk as) @ R \<or>
     (\<exists>a as'. as = a # as' \<and> bulklen q = int (length a) \<and> unparsed q @ U = a @ crlf @ concat (map encode_bulk as') @ R)"

lemma line_number_dec:
  assumes "ll_ok P" "unparsed q = line b (dec n) @ B" "n < 2 ^ 63"
  shows "line_number P q (Suc (length (dec n))) = Some (int n)"
  using assms by (simp add: line_number_def line_def ll_ok_def)

lemma unparsed_simps [simp]:
  "unparsed (q\<lparr>bulklen := l\<rparr>) = unparsed q" "unparsed (q\<lparr>multibulklen := m\<rparr>) = unparsed q" "unparsed (q\<lparr>argv := v\<rparr>) = unparsed q"
  "unparsed (q\<lparr>argv_cap := k\<rparr>) = unparsed q" "unparsed (q\<lparr>reqtype := r\<rparr>) = unparsed q" "unparsed (q\<lparr>cmd_is_asking := e\<rparr>) = unparsed q"
  "unparsed (q\<lparr>qb_pos := qb_pos q + n\<rparr>) = drop n (unparsed q)" "unparsed (q\<lparr>querybuf := s, qb_pos := 0\<rparr>) = s"
  by (simp_all add: unparsed_def add.commute)

lemma start_bulk_simps [simp]:
  "unparsed (start_bulk ll q) = unparsed q" "bulklen (start_bulk ll q) = ll" "argv (start_bulk ll q) = argv q"
  "argv_cap (start_bulk ll q) = argv_cap q" "multibulklen (start_bulk ll q) = multibulklen q" "reqtype (start_bulk ll q) = reqtype q"
  by (simp_all add: start_bulk_def Let_def)

lemma start_bulk_buf: "buf_ok q \<Longrightarrow> buf_ok (start_bulk ll q)"
  by (auto simp: start_bulk_def Let_def buf_ok_def unparsed_def)

text \<open>The fields that the parser of arguments leaves alone.\<close>

definition same_request :: "query \<Rightarrow> query \<Rightarrow> bool" where
  "same_request q q' \<longleftrightarrow> argv_cap q' = argv_cap q \<and> reqtype q' = reqtype q"

lemma bulk_header_ok:
  assumes "ll_ok P" "arg_ok P a" "buf_ok q" "missing q U (a # as) R"
  shows "\<exists>ok q'. bulk_header P (S, c, q) = Inr (ok, S, c, q') \<and> buf_ok q' \<and> missing q' U (a # as) R \<and> same_request q q' \<and>
    argv q' = argv q \<and> multibulklen q' = multibulklen q \<and> (if ok then bulklen q' = int (length a) else U \<noteq> [])"
proof (cases "bulklen q = - 1")
  case False
  then show ?thesis using assms by (intro exI [of _ True] exI [of _ q]) (auto simp: bulk_header_def missing_def same_request_def)
next
  case True
  have qb: "qb_pos q \<le> length (querybuf q)" "length (querybuf q) < 2 ^ 63" using assms(3) by (simp_all add: buf_ok_def)
  have e: "unparsed q @ U = line 36 (dec (length a)) @ (a @ crlf @ concat (map encode_bulk as) @ R)"
    using assms(4) True by (auto simp: missing_def encode_bulk_def)
  have len: "length a < 2 ^ 63" using assms(2) by (simp add: arg_ok_def)
  have wait: ?thesis if "bulk_header P (S, c, q) = Inr (False, S, c, q)" "U \<noteq> []"
    using that assms(3,4) by (intro exI [of _ False] exI [of _ q]) (simp add: same_request_def)
  from e show ?thesis
  proof (rule crlf_line_cases)
    show "(36 :: byte) \<noteq> 0" "(36 :: byte) \<noteq> 13" "length a < 2 ^ 63" using len by simp_all
  next
    assume n: "strchr_at 13 (unparsed q) = None" "length (unparsed q) \<le> 21" "U \<noteq> []"
    then have "size_diff (length (querybuf q)) (qb_pos q) \<le> 21" using size_diff_small [OF qb] by (simp add: unparsed_def)
    then show ?thesis using wait n True by (simp add: bulk_header_def PROTO_INLINE_MAX_SIZE_def)
  next
    fix i assume "strchr_at 13 (unparsed q) = Some i" "length (unparsed q) < i + 2" "U \<noteq> []"
    then show ?thesis using wait True whole_line_iff [OF qb, of i] by (simp add: bulk_header_def)
  next
    fix B
    let ?i = "Suc (length (dec (length a)))"
    let ?q = "q\<lparr>qb_pos := qb_pos q + (?i + 2)\<rparr>"
    assume B: "unparsed q = line 36 (dec (length a)) @ B" "a @ crlf @ concat (map encode_bulk as) @ R = B @ U" "strchr_at 13 (unparsed q) = Some ?i"
    have l: "length (line 36 (dec (length a))) = ?i + 2" by (simp add: line_def crlf_def)
    have wl: "whole_line q ?i" using whole_line_iff [OF qb, of ?i] B(1) l by simp
    have u: "unparsed ?q = B" unfolding unparsed_simps B(1) using l by simp
    have "length (unparsed q) = length (querybuf q) - qb_pos q" by (simp add: unparsed_def)
    then have bq: "buf_ok ?q" using assms(3) B(1) l by (simp add: buf_ok_def)
    have hd: "rd (unparsed q) 0 = Inr 36" using B(1) by (simp add: line_def mem)
    have "bulk_header P (S, c, q) = Inr (True, S, c, start_bulk (int (length a)) ?q)"
      using True B(3) wl hd line_number_dec [OF assms(1) B(1) len] assms(2) by (simp add: bulk_header_def arg_ok_def add.assoc)
    moreover have "missing (start_bulk (int (length a)) ?q) U (a # as) R" using u B(2) by (simp add: missing_def del: unparsed_simps(7))
    ultimately show ?thesis using start_bulk_buf [OF bq] by (intro exI [of _ True] exI [of _ "start_bulk (int (length a)) ?q"]) (simp add: same_request_def)
  qed
qed

lemma bulk_argument_ok:
  assumes "arg_ok P a" "buf_ok q" "missing q U (a # as) R" "bulklen q = int (length a)" "length (argv q) < argv_cap q"
  shows "\<exists>ok q'. bulk_argument q = Inr (ok, q') \<and> buf_ok q' \<and> same_request q q' \<and>
    (if ok then argv q' = argv q @ [a] \<and> multibulklen q' = multibulklen q - 1 \<and> bulklen q' = - 1 \<and> missing q' U as R else q' = q \<and> U \<noteq> [])"
proof -
  have e: "unparsed q @ U = a @ crlf @ concat (map encode_bulk as) @ R" using assms(3,4) by (auto simp: missing_def)
  have qb: "qb_pos q \<le> length (querybuf q)" "length (querybuf q) < 2 ^ 63" using assms(2) by (simp_all add: buf_ok_def)
  have sd: "size_diff (length (querybuf q)) (qb_pos q) = length (unparsed q)" using size_diff_small [OF qb] by (simp add: unparsed_def)
  have n: "to_size_t (length a + 2) = length a + 2" "nat (bulklen q) = length a" using assms(1,4) by (simp_all add: arg_ok_def to_size_t_def)
  have len: "length (unparsed q) + length U = length a + 2 + (length (concat (map encode_bulk as)) + length R)"
    using arg_cong [OF e, of length] by (simp add: crlf_def)
  show ?thesis
  proof (cases "length (unparsed q) < length a + 2")
    case True
    then have "U \<noteq> []" using len by auto
    then show ?thesis using True n sd assms(2) by (intro exI [of _ False] exI [of _ q]) (simp add: bulk_argument_def same_request_def)
  next
    case False
    then obtain B where B: "unparsed q = (a @ crlf) @ B" "concat (map encode_bulk as) @ R = B @ U"
    proof -
      have "length (a @ crlf) \<le> length (unparsed q)" using False by (simp add: crlf_def)
      then have "unparsed q = (a @ crlf) @ drop (length (a @ crlf)) (unparsed q)"
        using e by (metis append.assoc append_eq_append_conv_if append_take_drop_id)
      then show thesis using that e by (metis append.assoc same_append_eq)
    qed
    have "length (unparsed q) = length (querybuf q) - qb_pos q" by (simp add: unparsed_def)
    then have pos: "qb_pos q + length a + 2 \<le> length (querybuf q)" using False qb by simp
    have arg: "store_arg q a = Inr (q\<lparr>argv := argv q @ [a]\<rparr>)" using assms(5) by (simp add: store_arg_def)
    show ?thesis
    proof (cases "qb_pos q = 0 \<and> bulklen q \<ge> PROTO_MBULK_BIG_ARG \<and> length (querybuf q) = length a + 2")
      case True
      let ?q = "q\<lparr>argv := argv q @ [a], querybuf := [], bulklen := - 1, multibulklen := multibulklen q - 1\<rparr>"
      have qb2: "querybuf q = a @ crlf" "B = []" using True B(1) by (auto simp: unparsed_def crlf_def)
      then have "take (length (querybuf q) - 2) (querybuf q) = a" by (simp add: crlf_def)
      then have "bulk_argument q = Inr (True, ?q)" using True False n sd arg by (simp add: bulk_argument_def)
      moreover have "missing ?q U as R" using B(2) qb2(2) by (simp add: missing_def) (simp add: unparsed_def)
      ultimately show ?thesis using True by (intro exI [of _ True] exI [of _ ?q]) (simp add: same_request_def buf_ok_def)
    next
      case F: False
      let ?q = "q\<lparr>argv := argv q @ [a], qb_pos := qb_pos q + length a + 2, bulklen := - 1, multibulklen := multibulklen q - 1\<rparr>"
      have "take (length a) (drop (qb_pos q) (querybuf q)) = a" using B(1) by (simp add: unparsed_def)
      then have "mem_read (querybuf q) (qb_pos q) (length a) = Inr a" using pos by (simp add: mem)
      then have "bulk_argument q = Inr (True, ?q)" using F False n sd arg by (auto simp: bulk_argument_def Let_def)
      moreover have "unparsed ?q = drop (length a + 2) (unparsed q)" unfolding unparsed_def drop_drop by (simp add: ac_simps)
      then have "unparsed ?q = B" unfolding B(1) by (simp add: crlf_def)
      then have "missing ?q U as R" using B(2) by (simp add: missing_def)
      ultimately show ?thesis using pos qb assms(2) by (intro exI [of _ True] exI [of _ ?q]) (simp add: same_request_def buf_ok_def)
    qed
  qed
qed

lemma bulk_loop_ok:
  assumes "ll_ok P"
  shows "list_all (arg_ok P) as \<Longrightarrow> buf_ok q \<Longrightarrow> missing q U as R \<Longrightarrow> multibulklen q = int (length as) \<Longrightarrow> argv_cap q = length (argv q) + length as \<Longrightarrow>
    \<exists>ok q' xs ys. bulk_loop P (length as) (S, c, q) = Inr (ok, S, c, q') \<and> buf_ok q' \<and> same_request q q' \<and> as = xs @ ys \<and>
      argv q' = argv q @ xs \<and> multibulklen q' = int (length ys) \<and> missing q' U ys R \<and> (if ok then ys = [] else ys \<noteq> [] \<and> U \<noteq> [])"
proof (induction as arbitrary: q)
  case Nil
  then show ?case by (auto simp: same_request_def)
next
  case (Cons a as)
  have a: "arg_ok P a" using Cons.prems by simp
  obtain ok q1 where h: "bulk_header P (S, c, q) = Inr (ok, S, c, q1)" "buf_ok q1" "missing q1 U (a # as) R" "same_request q q1"
    "argv q1 = argv q" "multibulklen q1 = multibulklen q" "if ok then bulklen q1 = int (length a) else U \<noteq> []"
    using bulk_header_ok [OF assms a Cons.prems(2,3)] by blast
  show ?case
  proof (cases ok)
    case False
    then show ?thesis using h Cons.prems(4) by (intro exI [of _ False] exI [of _ q1] exI [of _ "[]"] exI [of _ "a # as"]) simp
  next
    case True
    have "length (argv q1) < argv_cap q1" using h Cons.prems(5) by (simp add: same_request_def)
    then obtain ok' q2 where g: "bulk_argument q1 = Inr (ok', q2)" "buf_ok q2" "same_request q1 q2"
      "if ok' then argv q2 = argv q1 @ [a] \<and> multibulklen q2 = multibulklen q1 - 1 \<and> bulklen q2 = - 1 \<and> missing q2 U as R else q2 = q1 \<and> U \<noteq> []"
      using bulk_argument_ok [OF a h(2,3)] h(7) True by auto
    show ?thesis
    proof (cases ok')
      case False
      then show ?thesis using True h g Cons.prems(4) by (intro exI [of _ False] exI [of _ q1] exI [of _ "[]"] exI [of _ "a # as"]) simp
    next
      case ok': True
      then obtain r q' xs ys where l: "bulk_loop P (length as) (S, c, q2) = Inr (r, S, c, q')" "buf_ok q'" "same_request q2 q'" "as = xs @ ys"
        "argv q' = argv q2 @ xs" "multibulklen q' = int (length ys)" "missing q' U ys R" "if r then ys = [] else ys \<noteq> [] \<and> U \<noteq> []"
        using Cons.IH [of q2] Cons.prems g h by (auto simp: same_request_def)
      have "same_request q q'" using h(4) g(3) l(3) by (simp add: same_request_def)
      then show ?thesis using True ok' h(1,5) g(1,4) l
        by (intro exI [of _ r] exI [of _ q'] exI [of _ "a # xs"] exI [of _ ys]) simp
    qed
  qed
qed

section \<open>Commands\<close>

definition encode_command :: "byte list list \<Rightarrow> byte list" where
  "encode_command args = line 42 (dec (length args)) @ concat (map encode_bulk args)"

definition encode_commands :: "byte list list list \<Rightarrow> byte list" where
  "encode_commands cmds = concat (map encode_command cmds)"

definition cmd_ok :: "'w in_env \<Rightarrow> byte list list \<Rightarrow> bool" where
  "cmd_ok P args \<longleftrightarrow> args \<noteq> [] \<and> length args \<le> 1024 * 1024 \<and> list_all (arg_ok P) args"

text \<open>Between two commands, and in the middle of the first one.\<close>

definition idle :: "query \<Rightarrow> byte list \<Rightarrow> byte list list list \<Rightarrow> bool" where
  "idle q U cmds \<longleftrightarrow> argv q = [] \<and> multibulklen q = 0 \<and> bulklen q = - 1 \<and> reqtype q \<noteq> PROTO_REQ_INLINE \<and> unparsed q @ U = encode_commands cmds"

definition within :: "query \<Rightarrow> byte list \<Rightarrow> byte list list list \<Rightarrow> bool" where
  "within q U cmds \<longleftrightarrow> (\<exists>as rest. cmds = (argv q @ as) # rest \<and> as \<noteq> [] \<and> multibulklen q = int (length as) \<and>
     argv_cap q = length (argv q) + length as \<and> reqtype q = PROTO_REQ_MULTIBULK \<and> missing q U as (encode_commands rest))"

definition expects :: "'w in_env \<Rightarrow> query \<Rightarrow> byte list \<Rightarrow> byte list list list \<Rightarrow> bool" where
  "expects P q U cmds \<longleftrightarrow> buf_ok q \<and> list_all (cmd_ok P) cmds \<and> (idle q U cmds \<or> within q U cmds)"

lemma encode_commands_simps [simp]:
  "encode_commands [] = []" "encode_commands (x # xs) = encode_command x @ encode_commands xs"
  by (simp_all add: encode_commands_def)

lemma multibulk_header_idle:
  assumes "ll_ok P" "cmd_ok P args" "buf_ok q" "idle q U (args # rest)"
  shows "U \<noteq> [] \<and> multibulk_header P (S, c, q) = Inr (Some False, S, c, q) \<or>
    (\<exists>q'. multibulk_header P (S, c, q) = Inr (None, S, c, q') \<and> buf_ok q' \<and> missing q' U args (encode_commands rest) \<and> argv q' = [] \<and>
       multibulklen q' = int (length args) \<and> argv_cap q' = length args \<and> reqtype q' = reqtype q)"
proof -
  note i = assms(4) [unfolded idle_def]
  have qb: "qb_pos q \<le> length (querybuf q)" "length (querybuf q) < 2 ^ 63" using assms(3) by (simp_all add: buf_ok_def)
  have "unparsed q @ U = line 42 (dec (length args)) @ (concat (map encode_bulk args) @ encode_commands rest)"
    using i by (simp add: encode_command_def)
  then show ?thesis
  proof (rule crlf_line_cases)
    show "(42 :: byte) \<noteq> 0" "(42 :: byte) \<noteq> 13" "length args < 2 ^ 63" using assms(2) by (simp_all add: cmd_ok_def)
  next
    assume n: "strchr_at 13 (unparsed q) = None" "length (unparsed q) \<le> 21" "U \<noteq> []"
    then have "size_diff (length (querybuf q)) (qb_pos q) \<le> 21" using size_diff_small [OF qb] by (simp add: unparsed_def)
    then show ?thesis using n i by (simp add: multibulk_header_def PROTO_INLINE_MAX_SIZE_def)
  next
    fix j assume "strchr_at 13 (unparsed q) = Some j" "length (unparsed q) < j + 2" "U \<noteq> []"
    then show ?thesis using i whole_line_iff [OF qb, of j] by (simp add: multibulk_header_def)
  next
    fix B
    let ?i = "Suc (length (dec (length args)))"
    let ?q = "q\<lparr>qb_pos := qb_pos q + (?i + 2), multibulklen := int (length args), argv_cap := length args\<rparr>"
    assume B: "unparsed q = line 42 (dec (length args)) @ B" "concat (map encode_bulk args) @ encode_commands rest = B @ U"
      "strchr_at 13 (unparsed q) = Some ?i"
    have l: "length (line 42 (dec (length args))) = ?i + 2" by (simp add: line_def crlf_def)
    have wl: "whole_line q ?i" using whole_line_iff [OF qb, of ?i] B(1) l by simp
    have u: "unparsed ?q = B" unfolding unparsed_simps B(1) using l by simp
    have "length (unparsed q) = length (querybuf q) - qb_pos q" by (simp add: unparsed_def)
    then have bq: "buf_ok ?q" using assms(3) B(1) l by (simp add: buf_ok_def)
    have hd: "rd (unparsed q) 0 = Inr 42" using B(1) by (simp add: line_def mem)
    have "length args < 2 ^ 63" "\<not> int (length args) > 1024 * 1024" "0 < length args" using assms(2) by (auto simp: cmd_ok_def)
    then have "multibulk_header P (S, c, q) = Inr (None, S, c, ?q)"
      using i B(3) wl hd line_number_dec [OF assms(1) B(1)] by (simp add: multibulk_header_def add.assoc)
    moreover have "missing ?q U args (encode_commands rest)" using u B(2) i by (simp add: missing_def del: unparsed_simps(7))
    ultimately show ?thesis using bq i by (intro disjI2 exI [of _ ?q]) simp
  qed
qed

definition complete :: "query \<Rightarrow> byte list \<Rightarrow> byte list list \<Rightarrow> byte list list list \<Rightarrow> bool" where
  "complete q U cmd rest \<longleftrightarrow> buf_ok q \<and> argv q = cmd \<and> reqtype q = PROTO_REQ_MULTIBULK \<and> unparsed q @ U = encode_commands rest"

lemma bulk_loop_within:
  assumes "ll_ok P" "list_all (cmd_ok P) cmds" "buf_ok q" "cmds = (argv q @ as) # rest" "as \<noteq> []" "multibulklen q = int (length as)"
    "argv_cap q = length (argv q) + length as" "reqtype q = PROTO_REQ_MULTIBULK" "missing q U as (encode_commands rest)"
  shows "\<exists>ok q'. bulk_loop P (length as) (S, c, q) = Inr (ok, S, c, q') \<and>
    (if ok then \<exists>cmd rest. cmds = cmd # rest \<and> complete q' U cmd rest else expects P q' U cmds \<and> U \<noteq> [])"
proof -
  have "list_all (arg_ok P) as" using assms(2,4) by (simp add: cmd_ok_def)
  then obtain ok q' xs ys where l: "bulk_loop P (length as) (S, c, q) = Inr (ok, S, c, q')" "buf_ok q'" "same_request q q'" "as = xs @ ys"
    "argv q' = argv q @ xs" "multibulklen q' = int (length ys)" "missing q' U ys (encode_commands rest)" "if ok then ys = [] else ys \<noteq> [] \<and> U \<noteq> []"
    using bulk_loop_ok [OF assms(1) _ assms(3,9,6,7)] by blast
  show ?thesis
  proof (cases ok)
    case True
    then have "complete q' U (argv q @ as) rest" using l assms(8) by (simp add: complete_def same_request_def missing_def)
    then show ?thesis using True l(1) assms(4) by auto
  next
    case False
    then have "within q' U cmds" using l assms(4,7,8) by (auto simp: within_def same_request_def)
    then show ?thesis using False l(1,2,8) assms(2) by (auto simp: expects_def)
  qed
qed

lemma processMultibulkBuffer_ok:
  assumes "ll_ok P" "expects P q U cmds" "reqtype q = PROTO_REQ_MULTIBULK" "unparsed q \<noteq> []"
  shows "\<exists>ok q'. processMultibulkBuffer P (S, c, q) = Inr (ok, S, c, q') \<and>
    (if ok then \<exists>cmd rest. cmds = cmd # rest \<and> complete q' U cmd rest else expects P q' U cmds \<and> U \<noteq> [])"
proof -
  have bq: "buf_ok q" and cs: "list_all (cmd_ok P) cmds" using assms(2) by (simp_all add: expects_def)
  consider "idle q U cmds" | "within q U cmds" using assms(2) by (auto simp: expects_def)
  then show ?thesis
  proof cases
    case 1
    then obtain args rest where cmds: "cmds = args # rest" using assms(4) by (cases cmds) (auto simp: idle_def)
    then have ok: "cmd_ok P args" using cs by simp
    from multibulk_header_idle [OF assms(1) ok bq 1 [unfolded cmds], of S c] show ?thesis
    proof (elim disjE exE conjE)
      assume "U \<noteq> []" "multibulk_header P (S, c, q) = Inr (Some False, S, c, q)"
      then show ?thesis using assms(2) by (auto simp: processMultibulkBuffer_def)
    next
      fix q' assume h: "multibulk_header P (S, c, q) = Inr (None, S, c, q')" "buf_ok q'" "missing q' U args (encode_commands rest)" "argv q' = []"
        "multibulklen q' = int (length args)" "argv_cap q' = length args" "reqtype q' = reqtype q"
      then show ?thesis using bulk_loop_within [OF assms(1) cs h(2), of args rest U S c] ok cmds assms(3)
        by (simp add: processMultibulkBuffer_def cmd_ok_def)
    qed
  next
    case 2
    then obtain as rest where w: "cmds = (argv q @ as) # rest" "as \<noteq> []" "multibulklen q = int (length as)"
      "argv_cap q = length (argv q) + length as" "missing q U as (encode_commands rest)" by (auto simp: within_def)
    then have "multibulk_header P (S, c, q) = Inr (None, S, c, q)" by (simp add: multibulk_header_def)
    then show ?thesis using bulk_loop_within [OF assms(1) cs bq w(1-4) assms(3) w(5), of S c] w(2,3) by (simp add: processMultibulkBuffer_def)
  qed
qed

section \<open>Clients that are served\<close>

text \<open>Nothing but the end of the client (\<open>CLIENT_CLOSE_ASAP\<close>) makes the loop stop, and it is not the master.\<close>

definition steady :: "'w redisServer \<Rightarrow> client \<Rightarrow> bool" where
  "steady S c \<longleftrightarrow> \<not> clients_paused S \<and>
     c_flags c \<inter> {CLIENT_BLOCKED, CLIENT_PENDING_COMMAND, CLIENT_PENDING_READ, CLIENT_CLOSE_AFTER_REPLY, CLIENT_MASTER} = {}"

abbreviation closing :: "client \<Rightarrow> bool" where
  "closing c \<equiv> CLIENT_CLOSE_ASAP \<in> c_flags c"

lemma resetClient_ok:
  assumes "resetClient (c, q) = (c', q')" "steady S c"
  shows "steady S c'" "argv q' = [] \<and> multibulklen q' = 0 \<and> bulklen q' = - 1 \<and> reqtype q' = NO_REQUEST" "unparsed q' = unparsed q"
    "buf_ok q' = buf_ok q" "closing c' = closing c"
proof -
  have q': "q' = q\<lparr>argv := [], cmd_is_asking := False, reqtype := NO_REQUEST, multibulklen := 0, bulklen := - 1\<rparr>"
    using assms(1) by (simp add: resetClient_def Let_def)
  then show "argv q' = [] \<and> multibulklen q' = 0 \<and> bulklen q' = - 1 \<and> reqtype q' = NO_REQUEST" "unparsed q' = unparsed q" "buf_ok q' = buf_ok q"
    by (simp_all add: buf_ok_def unparsed_def)
  have "c_flags c' \<subseteq> insert CLIENT_REPLY_SKIP (c_flags c)" and cl: "closing c' = closing c"
    using assms(1) by (auto simp: resetClient_def Let_def set_flag_def clear_flag_def split: if_splits)
  then show "steady S c'" using assms(2) unfolding steady_def by blast
  show "closing c' = closing c" by (rule cl)
qed

lemma steady_goes_on: "steady S c \<Longrightarrow> input_stops P (S, c, q) = (closing c, S, c, q)"
  by (auto simp: steady_def input_stops_def clientsArePaused_def)

lemma request_type_ok:
  assumes "expects P q U cmds" "unparsed q \<noteq> []"
  shows "expects P (request_type_of q) U cmds" "reqtype (request_type_of q) = PROTO_REQ_MULTIBULK" "unparsed (request_type_of q) = unparsed q"
proof -
  have "hd (unparsed q) = 42" if i: "idle q U cmds"
  proof -
    obtain b B where "unparsed q = b # B" using assms(2) by (cases "unparsed q") auto
    moreover obtain x xs where "cmds = x # xs" using i assms(2) by (cases cmds) (auto simp: idle_def)
    ultimately show ?thesis using i by (simp add: idle_def encode_command_def line_def)
  qed
  moreover have "reqtype q \<noteq> NO_REQUEST" if "within q U cmds" using that by (auto simp: within_def)
  ultimately show "expects P (request_type_of q) U cmds" "reqtype (request_type_of q) = PROTO_REQ_MULTIBULK"
    using assms(1) by (cases "reqtype q"; auto simp: expects_def request_type_of_def idle_def within_def missing_def buf_ok_def)+
  show "unparsed (request_type_of q) = unparsed q" by (simp add: request_type_of_def)
qed

lemma expects_end: "expects P q [] cmds \<Longrightarrow> unparsed q = [] \<Longrightarrow> cmds = []"
proof -
  assume e: "expects P q [] cmds" "unparsed q = []"
  have "\<not> within q [] cmds" using e(2) by (auto simp: within_def missing_def encode_bulk_def line_def crlf_def neq_Nil_conv)
  then have "idle q [] cmds" using e(1) by (simp add: expects_def)
  then show ?thesis using e(2) by (cases cmds) (simp_all add: idle_def encode_command_def line_def)
qed

lemma trim_ok: "expects P q U cmds \<Longrightarrow> expects P (trim q) U cmds" "qb_pos (trim q) = 0"
proof -
  assume e: "expects P q U cmds"
  have "unparsed (trim q) = unparsed q" by (simp add: trim_def unparsed_def)
  moreover have "buf_ok (trim q)" using e by (auto simp: expects_def buf_ok_def trim_def unparsed_def)
  moreover have "argv (trim q) = argv q" "multibulklen (trim q) = multibulklen q" "bulklen (trim q) = bulklen q" "reqtype (trim q) = reqtype q"
    "argv_cap (trim q) = argv_cap q" by (simp_all add: trim_def)
  ultimately show "expects P (trim q) U cmds" using e unfolding expects_def idle_def within_def missing_def by simp
next
  show "qb_pos (trim q) = 0" by (simp add: trim_def)
qed

text \<open>No more bytes than the encodings of the commands are waiting.\<close>

lemma expects_length: "expects P q U cmds \<Longrightarrow> length (unparsed q) + length U \<le> length (encode_commands cmds)"
proof -
  assume "expects P q U cmds"
  then consider "idle q U cmds" | "within q U cmds" by (auto simp: expects_def)
  then show ?thesis
  proof cases
    case 1
    then show ?thesis unfolding idle_def by (metis length_append order_refl)
  next
    case 2
    then obtain as rest where w: "cmds = (argv q @ as) # rest" "missing q U as (encode_commands rest)" by (auto simp: within_def)
    have "length (unparsed q @ U) \<le> length (concat (map encode_bulk as) @ encode_commands rest)"
      using w(2) unfolding missing_def
    proof (elim disjE exE conjE)
      fix a as' assume "as = a # as'" "unparsed q @ U = a @ crlf @ concat (map encode_bulk as') @ encode_commands rest"
      then show ?thesis by (simp add: encode_bulk_def)
    qed simp
    then show ?thesis using w(1) by (simp add: encode_command_def)
  qed
qed

lemma read_length_pos: "0 < read_length q"
  by (auto simp: read_length_def Let_def PROTO_IOBUF_LEN_def)

lemma expects_more:
  assumes "expects P q (d @ U) cmds" "qb_pos q = 0" "length (querybuf q @ d) < 2 ^ 62"
  shows "expects P (q\<lparr>querybuf := querybuf q @ d\<rparr>) U cmds"
proof -
  have "unparsed (q\<lparr>querybuf := querybuf q @ d\<rparr>) = unparsed q @ d" using assms(2) by (simp add: unparsed_def)
  then show ?thesis using assms unfolding expects_def idle_def within_def missing_def by (simp add: buf_ok_def)
qed

lemma expects_peak: "expects P (q\<lparr>querybuf_peak := m\<rparr>) U cmds = expects P q U cmds"
  by (simp add: expects_def idle_def within_def missing_def buf_ok_def unparsed_def)

end
