(* ===== verification/Net_Execute.thy ===== *)
theory Net_Execute
  imports Net_Parse
begin

text \<open>
  Executing the commands of the query buffer. What the input loop relies on is the interface \<open>executor\<close>: a command that is executed
  appends something to what can be observed of the server, and leaves the query buffer and the socket alone. Inside it the loop, the
  handler for reading and any number of its calls are shown to execute exactly the commands that were sent, in order.
\<close>

fun reads :: "'w in_env \<Rightarrow> int \<Rightarrow> nat \<Rightarrow> 'w qs \<Rightarrow> 'w qs outcome option" where
  "reads P fd 0 x = Some (Inr x)"
| "reads P fd (Suc k) x = bindO (readQueryFromClient P fd x) (reads P fd k)"

section \<open>What was executed\<close>

text \<open>\<open>xs\<close> was executed, \<open>rest\<close> is to come: \<open>eff\<close> is what can be observed, \<open>out\<close> what a command adds to it, and \<open>I k\<close> allows for \<open>k\<close> more commands.\<close>

definition executes ::
  "'w in_env \<Rightarrow> ('w redisServer \<Rightarrow> client \<Rightarrow> 'o list) \<Rightarrow> (byte list list \<Rightarrow> 'o list) \<Rightarrow> (nat \<Rightarrow> 'w redisServer \<Rightarrow> client \<Rightarrow> bool) \<Rightarrow>
   byte list \<Rightarrow> byte list list list \<Rightarrow> 'o list \<Rightarrow> 'w qs \<Rightarrow> bool" where
  "executes P eff out I U cmds e = (\<lambda>(S, c, q). steady S c \<and> (\<exists>xs rest. cmds = xs @ rest \<and> I (length rest) S c \<and>
     eff S c = e @ concat (map out xs) \<and> expects P q U rest \<and> (U = [] \<and> \<not> closing c \<longrightarrow> rest = [])))"

lemma executes_none: "steady S c \<Longrightarrow> I (length cmds) S c \<Longrightarrow> expects P q U cmds \<Longrightarrow> (U = [] \<and> \<not> closing c \<longrightarrow> cmds = []) \<Longrightarrow>
    executes P eff out I U cmds (eff S c) (S, c, q)"
  unfolding executes_def prod.case by (intro conjI exI [of _ "[]"] exI [of _ cmds]) simp_all

lemma executes_step:
  assumes "executes P eff out I U cmds e' x" "e' = e @ concat (map out ys)"
  shows "executes P eff out I U (ys @ cmds) e x"
proof -
  obtain S c q where x: "x = (S, c, q)" by (metis surj_pair)
  obtain xs rest where e: "cmds = xs @ rest" "I (length rest) S c" "eff S c = e' @ concat (map out xs)" "expects P q U rest"
    "U = [] \<and> \<not> closing c \<longrightarrow> rest = []" and s: "steady S c" using assms(1) unfolding executes_def x prod.case by blast
  have "ys @ cmds = (ys @ xs) @ rest \<and> eff S c = e @ concat (map out (ys @ xs))" using e(1,3) assms(2) by simp
  then show ?thesis using e(2,4,5) s unfolding executes_def x prod.case by blast
qed

text \<open>Between two calls of the handler for reading: \<open>cmds\<close> are the commands to come.\<close>

definition serving ::
  "'w in_env \<Rightarrow> (nat \<Rightarrow> 'w redisServer \<Rightarrow> client \<Rightarrow> bool) \<Rightarrow> ('w \<Rightarrow> byte list) \<Rightarrow> 'w qs \<Rightarrow> byte list list list \<Rightarrow> bool" where
  "serving P I incoming = (\<lambda>(S, c, q) cmds. steady S c \<and> I (length cmds) S c \<and> qb_pos q = 0 \<and> expects P q (incoming (world S)) cmds \<and>
     (incoming (world S) = [] \<and> \<not> closing c \<longrightarrow> cmds = []) \<and>
     length (encode_commands cmds) \<le> client_max_querybuf_len P \<and> length (encode_commands cmds) < 2 ^ 62)"

section \<open>The interface\<close>

locale executor =
  fixes P :: "'w in_env" and fd :: int and eff :: "'w redisServer \<Rightarrow> client \<Rightarrow> 'o list" and out :: "byte list list \<Rightarrow> 'o list"
    and incoming :: "'w \<Rightarrow> byte list" and I :: "nat \<Rightarrow> 'w redisServer \<Rightarrow> client \<Rightarrow> bool"
  assumes exec: "steady S c \<Longrightarrow> \<not> closing c \<Longrightarrow> I (Suc k) S c \<Longrightarrow> \<exists>S' c' b.
      processCommand P (S, c, q) = Some (Inr (True, S', c', q\<lparr>cmd_is_asking := b\<rparr>)) \<and> steady S' c' \<and> I k S' c' \<and>
      current_client S' = current_client S \<and> eff S' c' = eff S c @ out (argv q) \<and> incoming (world S') = incoming (world S)"
    and reset: "I k S c \<Longrightarrow> resetClient (c, q) = (c', q') \<Longrightarrow> I k S c' \<and> eff S c' = eff S c"
    and server: "I k S c \<Longrightarrow> world S' = world S \<Longrightarrow> clients_pending_write S' = clients_pending_write S \<Longrightarrow> write_handlers S' = write_handlers S \<Longrightarrow>
      I k S' c \<and> eff S' c = eff S c"
    and seen: "I k S c \<Longrightarrow> I k S (c\<lparr>c_lastinteraction := t\<rparr>) \<and> eff S (c\<lparr>c_lastinteraction := t\<rparr>) = eff S c"
    and reading: "I k S c \<Longrightarrow> 0 < n \<Longrightarrow> os_read P (world S) fd n = (r, again, d, w) \<Longrightarrow>
      I k (S\<lparr>world := w\<rparr>) c \<and> eff (S\<lparr>world := w\<rparr>) c = eff S c \<and>
      (r = - 1 \<and> again \<and> incoming w = incoming (world S) \<or> 0 < r \<and> r \<le> int n \<and> nat r \<le> length d \<and> incoming (world S) = take (nat r) d @ incoming w)"
begin

lemma serve_request_ok:
  assumes "steady S c" "\<not> closing c" "I (Suc k) S c" "complete q U cmd rest" "cmd \<noteq> []"
  shows "\<exists>S' c' q'. serve_request P (S, c, q) = Some (Inr (NEXT_TURN, S', c', q')) \<and> steady S' c' \<and> I k S' c' \<and> buf_ok q' \<and> idle q' U rest \<and>
    eff S' c' = eff S c @ out cmd \<and> incoming (world S') = incoming (world S)"
proof -
  note q = assms(4) [unfolded complete_def]
  let ?S = "S\<lparr>current_client := Some (c_id c)\<rparr>"
  have s0: "steady ?S c" using assms(1) by (simp add: steady_def)
  have i0: "I (Suc k) ?S c" "eff ?S c = eff S c" using server [OF assms(3), of ?S] by simp_all
  obtain S1 c1 b where e: "processCommand P (?S, c, q) = Some (Inr (True, S1, c1, q\<lparr>cmd_is_asking := b\<rparr>))"
    "steady S1 c1" "I k S1 c1" "current_client S1 = Some (c_id c)" "eff S1 c1 = eff S c @ out cmd" "incoming (world S1) = incoming (world S)"
    using exec [OF s0 assms(2) i0(1), of q] i0(2) q by auto
  obtain c2 q2 where r: "resetClient (c1, q\<lparr>cmd_is_asking := b\<rparr>) = (c2, q2)" by fastforce
  note r2 = resetClient_ok [OF r e(2)] and r3 = reset [OF e(3) r]
  let ?S1 = "S1\<lparr>current_client := None\<rparr>"
  have fl: "CLIENT_MASTER \<notin> c_flags c1" "CLIENT_BLOCKED \<notin> c_flags c1" "CLIENT_PENDING_READ \<notin> c_flags c" using e(2) assms(1) by (auto simp: steady_def)
  have "processCommandAndResetClient P (S, c, q) = Some (Inr (True, ?S1, c2, q2))"
    using e(1,4) r fl by (simp add: processCommandAndResetClient_def)
  then have "serve_request P (S, c, q) = Some (Inr (NEXT_TURN, ?S1, c2, q2))"
    using q fl(3) assms(5) by (simp add: serve_request_def is_gopher_def)
  moreover have "steady ?S1 c2" using r2(1) by (simp add: steady_def)
  moreover have "buf_ok q2" "idle q2 U rest" using r2 q by (simp_all add: idle_def buf_ok_def)
  moreover have "I k ?S1 c2" "eff ?S1 c2 = eff S c @ out cmd" using server [of k S1 c2 ?S1] r3 e(5) by simp_all
  ultimately show ?thesis using e(6) by (intro exI [of _ ?S1] exI [of _ c2] exI [of _ q2]) simp
qed

lemma input_loop_ok:
  assumes "ll_ok P"
  shows "steady S c \<Longrightarrow> I (length cmds) S c \<Longrightarrow> expects P q U cmds \<Longrightarrow>
    \<exists>S' c' q'. input_loop P (S, c, q) = Some (Inr (True, S', c', q')) \<and> executes P eff out I U cmds (eff S c) (S', c', q') \<and>
      incoming (world S') = incoming (world S)"
proof (induction cmds arbitrary: S c q)
  case (Nil S c q)
  then have "unparsed q = []" by (auto simp: expects_def idle_def within_def)
  then have "\<not> qb_pos q < length (querybuf q)" by (simp add: unparsed_def)
  then show ?case using executes_none [where I = I and eff = eff and out = out, OF Nil] by (subst input_loop.simps) simp
next
  case (Cons cmd cmds S c q)
  show ?case
  proof (cases "unparsed q = [] \<or> closing c")
    case True
    have "U = [] \<and> \<not> closing c \<longrightarrow> cmd # cmds = []" using True expects_end [of P q "cmd # cmds"] Cons.prems(3) by blast
    note ex = executes_none [where I = I and eff = eff and out = out, OF Cons.prems this]
    show ?thesis using True steady_goes_on [OF Cons.prems(1), of P q] ex by (subst input_loop.simps) (auto simp: unparsed_def)
  next
    case False
    then have more: "qb_pos q < length (querybuf q)" by (simp add: unparsed_def)
    have ne: "unparsed q \<noteq> []" using False by simp
    note rt = request_type_ok [OF Cons.prems(3) ne]
    obtain ok q1 where m: "processMultibulkBuffer P (S, c, request_type_of q) = Inr (ok, S, c, q1)"
      "if ok then \<exists>cm rest. cmd # cmds = cm # rest \<and> complete q1 U cm rest else expects P q1 U (cmd # cmds) \<and> U \<noteq> []"
      using processMultibulkBuffer_ok [OF assms rt(1,2), of S c] rt(3) ne by auto
    have loop: "input_loop P (S, c, q) = (if \<not> ok then Some (Inr (True, S, c, q1)) else bindO (serve_request P (S, c, q1)) (\<lambda>(r, x).
        case r of NEXT_TURN \<Rightarrow> input_loop P x | LEAVE_LOOP \<Rightarrow> Some (Inr (True, x)) | RETURN_NOW \<Rightarrow> Some (Inr (False, x))))"
      using more steady_goes_on [OF Cons.prems(1), of P q] m(1) rt(2) False by (subst input_loop.simps) (simp add: take_request_def)
    show ?thesis
    proof (cases ok)
      case F: False
      then show ?thesis using loop m(2) executes_none [where I = I and eff = eff and out = out, OF Cons.prems(1,2), of P q1 U] by simp
    next
      case True
      then have comp: "complete q1 U cmd cmds" using m(2) by auto
      have nc: "\<not> closing c" and i: "I (Suc (length cmds)) S c" using False Cons.prems(2) by simp_all
      have cne: "cmd \<noteq> []" and cs: "list_all (cmd_ok P) cmds" using Cons.prems(3) by (auto simp: expects_def cmd_ok_def)
      obtain S2 c2 q2 where s: "serve_request P (S, c, q1) = Some (Inr (NEXT_TURN, S2, c2, q2))" "steady S2 c2" "I (length cmds) S2 c2" "buf_ok q2"
        "idle q2 U cmds" "eff S2 c2 = eff S c @ out cmd" "incoming (world S2) = incoming (world S)"
        using serve_request_ok [OF Cons.prems(1) nc i comp cne] by blast
      obtain S' c' q' where l: "input_loop P (S2, c2, q2) = Some (Inr (True, S', c', q'))" "executes P eff out I U cmds (eff S2 c2) (S', c', q')"
        "incoming (world S') = incoming (world S2)"
        using Cons.IH [OF s(2,3), of q2] s(4,5) cs by (auto simp: expects_def)
      have "executes P eff out I U ([cmd] @ cmds) (eff S c) (S', c', q')" by (rule executes_step [OF l(2)]) (simp add: s(6))
      then show ?thesis using loop True s(1,7) l(1,3) by simp
    qed
  qed
qed

lemma processInputBuffer_ok:
  assumes "ll_ok P" "steady S c" "I (length cmds) S c" "expects P q U cmds"
  shows "\<exists>S' c' q'. processInputBuffer P (S, c, q) = Some (Inr (S', c', q')) \<and> executes P eff out I U cmds (eff S c) (S', c', q') \<and>
    incoming (world S') = incoming (world S) \<and> qb_pos q' = 0"
proof -
  obtain S' c' q' where l: "input_loop P (S, c, q) = Some (Inr (True, S', c', q'))" "executes P eff out I U cmds (eff S c) (S', c', q')"
    "incoming (world S') = incoming (world S)" using input_loop_ok [OF assms] by blast
  then have "executes P eff out I U cmds (eff S c) (S', c', trim q')" using trim_ok(1) [of P q' U] unfolding executes_def prod.case by blast
  then show ?thesis using l(1,3) trim_ok(2) by (intro exI [of _ S'] exI [of _ c'] exI [of _ "trim q'"]) (simp add: processInputBuffer_def)
qed

text \<open>One call of the handler for reading.\<close>

lemma readQueryFromClient_ok:
  assumes "ll_ok P" "\<not> io_threads_active P" "serving P I incoming (S, c, q) cmds"
  shows "\<exists>S' c' q' xs rest. readQueryFromClient P fd (S, c, q) = Some (Inr (S', c', q')) \<and> cmds = xs @ rest \<and>
    serving P I incoming (S', c', q') rest \<and> eff S' c' = eff S c @ concat (map out xs)"
proof -
  note sv = assms(3) [unfolded serving_def prod.case]
  have st: "steady S c" "I (length cmds) S c" "qb_pos q = 0" "expects P q (incoming (world S)) cmds" "length (encode_commands cmds) < 2 ^ 62"
    "length (encode_commands cmds) \<le> client_max_querybuf_len P" using sv by blast+
  have pp: "postponeClientRead P (S, c) = (False, S, c)" using assms(2) by (simp add: postponeClientRead_def)
  define q1 where "q1 = (if querybuf_peak q < length (querybuf q) then q\<lparr>querybuf_peak := length (querybuf q)\<rparr> else q)"
  have q1: "querybuf q1 = querybuf q" "qb_pos q1 = 0" "expects P q1 (incoming (world S)) cmds" using st(3,4) by (simp_all add: q1_def expects_peak)
  obtain k again d w where r: "os_read P (world S) fd (read_length q) = (k, again, d, w)" by (metis surj_pair)
  let ?S = "S\<lparr>world := w\<rparr>"
  note rd = reading [OF st(2) read_length_pos r]
  have i1: "I (length cmds) ?S c" "eff ?S c = eff S c" and s1: "steady ?S c" using rd st(1) by (simp_all add: steady_def)
  show ?thesis
  proof (cases "k = - 1 \<and> again \<and> incoming w = incoming (world S)")
    case True
    then have "readQueryFromClient P fd (S, c, q) = Some (Inr (?S, c, q1))"
      using pp r by (simp add: readQueryFromClient_def q1_def Let_def)
    moreover have "serving P I incoming (?S, c, q1) cmds" using True sv i1 s1 q1 by (simp add: serving_def)
    ultimately show ?thesis using i1(2) by (intro exI [of _ ?S] exI [of _ c] exI [of _ q1] exI [of _ "[]"] exI [of _ cmds]) simp
  next
    case False
    then have e: "0 < k" "k \<le> int (read_length q)" "incoming (world S) = take (nat k) d @ incoming w" using rd by blast+
    define x where "x = take (nat k) d"
    define S1 where "S1 = ?S\<lparr>stat_net_input_bytes := stat_net_input_bytes ?S + length x\<rparr>"
    define c1 where "c1 = c\<lparr>c_lastinteraction := unixtime ?S\<rparr>"
    define q2 where "q2 = q1\<lparr>querybuf := querybuf q1 @ x\<rparr>"
    have i2: "I (length cmds) S1 c1" "eff S1 c1 = eff S c"
      using seen [OF i1(1), of "unixtime ?S"] server [of "length cmds" ?S c1 S1] i1(2) by (simp_all add: S1_def c1_def)
    have s2: "steady S1 c1" and ms: "CLIENT_MASTER \<notin> c_flags c" using s1 by (auto simp: steady_def S1_def c1_def)
    have "unparsed q1 = querybuf q1" using q1(2) by (simp add: unparsed_def)
    then have len: "length (querybuf q2) \<le> length (encode_commands cmds)" using expects_length [OF q1(3)] e(3) by (simp add: q2_def x_def)
    have ex: "expects P q2 (incoming (world S1)) cmds"
      unfolding q2_def using q1(2,3) e(3) len st(5) by (intro expects_more) (simp_all add: S1_def x_def [symmetric] q2_def)
    obtain S' c' q' where p: "processInputBuffer P (S1, c1, q2) = Some (Inr (S', c', q'))"
      "executes P eff out I (incoming (world S1)) cmds (eff S1 c1) (S', c', q')" "incoming (world S') = incoming (world S1)" "qb_pos q' = 0"
      using processInputBuffer_ok [OF assms(1) s2 i2(1) ex] by blast
    have "\<not> length (querybuf q2) > client_max_querybuf_len P" using len st(6) by simp
    then have "received P (?S, c, q1) x = Some (Inr (S', c', q'))"
      using p(1) ms by (simp add: received_def Let_def q2_def S1_def c1_def processInputBufferAndReplicate_def)
    then have "readQueryFromClient P fd (S, c, q) = Some (Inr (S', c', q'))"
      using pp r e(1,2) by (simp add: readQueryFromClient_def q1_def Let_def x_def)
    moreover obtain xs rest where x: "cmds = xs @ rest" "I (length rest) S' c'" "eff S' c' = eff S c @ concat (map out xs)"
      "expects P q' (incoming (world S')) rest" "incoming (world S') = [] \<and> \<not> closing c' \<longrightarrow> rest = []" "steady S' c'"
      using p(2,3) i2(2) unfolding executes_def prod.case by auto
    moreover have "length (encode_commands rest) \<le> length (encode_commands cmds)" using x(1) by (simp add: encode_commands_def)
    then have "serving P I incoming (S', c', q') rest" using x p(4) st(5,6) by (simp add: serving_def)
    ultimately show ?thesis by blast
  qed
qed

text \<open>Any number of calls.\<close>

lemma reads_ok:
  assumes "ll_ok P" "\<not> io_threads_active P"
  shows "serving P I incoming (S, c, q) cmds \<Longrightarrow> \<exists>S' c' q' xs rest. reads P fd k (S, c, q) = Some (Inr (S', c', q')) \<and> cmds = xs @ rest \<and>
    serving P I incoming (S', c', q') rest \<and> eff S' c' = eff S c @ concat (map out xs)"
proof (induction k arbitrary: S c q cmds)
  case 0
  then show ?case by (intro exI [of _ S] exI [of _ c] exI [of _ q] exI [of _ "[]"] exI [of _ cmds]) simp
next
  case (Suc k)
  obtain S1 c1 q1 xs rest where r: "readQueryFromClient P fd (S, c, q) = Some (Inr (S1, c1, q1))" "cmds = xs @ rest"
    "serving P I incoming (S1, c1, q1) rest" "eff S1 c1 = eff S c @ concat (map out xs)"
    using readQueryFromClient_ok [OF assms Suc.prems] by blast
  obtain S' c' q' ys rest' where "reads P fd k (S1, c1, q1) = Some (Inr (S', c', q'))" "rest = ys @ rest'" "serving P I incoming (S', c', q') rest'"
    "eff S' c' = eff S1 c1 @ concat (map out ys)" using Suc.IH [OF r(3)] by blast
  then show ?case using r(1,2,4) by (intro exI [of _ S'] exI [of _ c'] exI [of _ q'] exI [of _ "xs @ ys"] exI [of _ rest']) simp
qed

end

section \<open>Commands are executed in order\<close>

text \<open>What is relied on: executing a command (\<open>log\<close> tells which were executed) leaves the query buffer and the socket alone and the client
  alive; \<open>read\<close> gives at most as many bytes as asked for of those that come next, or \<open>EAGAIN\<close>.\<close>

definition exec_ok :: "'w in_env \<Rightarrow> ('w \<Rightarrow> byte list list list) \<Rightarrow> ('w \<Rightarrow> byte list) \<Rightarrow> bool" where
  "exec_ok P log incoming \<longleftrightarrow> (\<forall>S c q. steady S c \<longrightarrow> \<not> closing c \<longrightarrow> (\<exists>S' c' b.
     processCommand P (S, c, q) = Some (Inr (True, S', c', q\<lparr>cmd_is_asking := b\<rparr>)) \<and> steady S' c' \<and> \<not> closing c' \<and>
     current_client S' = current_client S \<and> log (world S') = log (world S) @ [argv q] \<and> incoming (world S') = incoming (world S)))"

definition read_ok :: "'w in_env \<Rightarrow> int \<Rightarrow> ('w \<Rightarrow> 'o) \<Rightarrow> ('w \<Rightarrow> byte list) \<Rightarrow> bool" where
  "read_ok P fd log incoming \<longleftrightarrow> (\<forall>w n k again d w'. os_read P w fd n = (k, again, d, w') \<longrightarrow> 0 < n \<longrightarrow> log w' = log w \<and>
     (k = - 1 \<and> again \<and> incoming w' = incoming w \<or> 0 < k \<and> k \<le> int n \<and> nat k \<le> length d \<and> incoming w = take (nat k) d @ incoming w'))"

lemma read_okD:
  assumes "read_ok P fd log incoming" "os_read P w fd n = (k, again, d, w')" "0 < n"
  shows "log w' = log w"
    "k = - 1 \<and> again \<and> incoming w' = incoming w \<or> 0 < k \<and> k \<le> int n \<and> nat k \<le> length d \<and> incoming w = take (nat k) d @ incoming w'"
  using assms unfolding read_ok_def by blast+

interpretation logged: executor P fd "\<lambda>S c. log (world S)" "\<lambda>a. [a]" incoming "\<lambda>k S c. exec_ok P log incoming \<and> read_ok P fd log incoming \<and> \<not> closing c"
  for P :: "'w in_env" and fd and log :: "'w \<Rightarrow> byte list list list" and incoming
proof (unfold_locales, goal_cases)
  case (1 S c k q)
  then show ?case unfolding exec_ok_def by blast
next
  case (2 k S c q c' q')
  then show ?case by (auto simp: resetClient_def Let_def set_flag_def clear_flag_def split: if_splits)
next
  case (3 k S c S')
  then show ?case by simp
next
  case (4 k S c t)
  then show ?case by simp
next
  case (5 k S c n r again d w)
  then have rd: "read_ok P fd log incoming" by blast
  show ?case using 5 read_okD [OF rd 5(3,2)] by simp
qed

definition new_query :: "query \<Rightarrow> bool" where
  "new_query q \<longleftrightarrow> querybuf q = [] \<and> qb_pos q = 0 \<and> reqtype q = NO_REQUEST \<and> multibulklen q = 0 \<and> bulklen q = - 1 \<and> argv q = []"

lemma serving_new:
  assumes "steady S c" "new_query q" "list_all (cmd_ok P) cmds" "incoming (world S) = encode_commands cmds" "I (length cmds) S c"
    "length (encode_commands cmds) \<le> client_max_querybuf_len P" "length (encode_commands cmds) < 2 ^ 62"
  shows "serving P I incoming (S, c, q) cmds"
proof -
  have "expects P q (incoming (world S)) cmds" using assms(2-4) by (simp add: expects_def idle_def new_query_def unparsed_def buf_ok_def)
  moreover have "incoming (world S) = [] \<longrightarrow> cmds = []" using assms(4) by (cases cmds) (simp_all add: encode_command_def line_def)
  ultimately show ?thesis using assms(1,2,5-7) by (simp add: serving_def new_query_def)
qed

text \<open>C6: the bytes of a sequence of commands in the form of the protocol arrive in pieces that the socket chooses. After any number of
  calls of the handler for reading, the commands executed are the first ones of the sequence, in order and with the arguments that
  were sent, whatever bytes they hold; when all bytes have arrived, all the commands were executed.\<close>

theorem commands_are_executed:
  assumes "ll_ok P" "exec_ok P log incoming" "read_ok P fd log incoming" "\<not> io_threads_active P" "steady S c" "\<not> closing c" "new_query q"
    "list_all (cmd_ok P) cmds" "incoming (world S) = encode_commands cmds" "length (encode_commands cmds) \<le> client_max_querybuf_len P"
    "length (encode_commands cmds) < 2 ^ 62"
  shows "\<exists>S' c' q' xs rest. reads P fd k (S, c, q) = Some (Inr (S', c', q')) \<and> cmds = xs @ rest \<and> log (world S') = log (world S) @ xs \<and>
    (incoming (world S') = [] \<longrightarrow> rest = [])"
proof -
  let ?I = "\<lambda>k S c. exec_ok P log incoming \<and> read_ok P fd log incoming \<and> \<not> closing c"
  have "serving P ?I incoming (S, c, q) cmds" using assms by (intro serving_new) simp_all
  from logged.reads_ok [OF assms(1,4) this] obtain S' c' q' xs rest where r: "reads P fd k (S, c, q) = Some (Inr (S', c', q'))" "cmds = xs @ rest"
    "serving P ?I incoming (S', c', q') rest" "log (world S') = log (world S) @ concat (map (\<lambda>a. [a]) xs)" by blast
  then show ?thesis by (intro exI [of _ S'] exI [of _ c'] exI [of _ q'] exI [of _ xs] exI [of _ rest]) (auto simp: serving_def)
qed

text \<open>An instance: the world is the bytes to come and the commands executed, and three bytes arrive at a time.\<close>

definition ex_string2ll :: "byte list \<Rightarrow> int option" where
  "ex_string2ll s = (if dec (dec_value s) = s then Some (int (dec_value s)) else None)"

definition ex_input :: "(byte list \<times> byte list list list) in_env" where
  "ex_input = \<lparr>in_net = ex_env, in_malloc = full_malloc, string2ll = ex_string2ll, proto_max_bulk_len = 536870912, client_max_querybuf_len = 1073741824,
     gopher_enabled = False, io_threads_active = False, io_threads_do_reads = False,
     processCommand = \<lambda>(S, c, q). Some (Inr (True, S\<lparr>world := (fst (world S), snd (world S) @ [argv q])\<rparr>, c, q)),
     processGopherRequest = \<lambda>x. Some (Inr x), requeue_clients = \<lambda>w. w, feed_replicas = \<lambda>w s. w,
     os_read = \<lambda>w fd n. (if fst w = [] \<or> n = 0 then (- 1, True, [], w)
                         else let d = take (min 3 n) (fst w) in (int (length d), False, d, (drop (min 3 n) (fst w), snd w)))\<rparr>"

lemma ex_input_ok: "ll_ok ex_input" "exec_ok ex_input snd fst" "read_ok ex_input 8 snd fst"
proof -
  show "ll_ok ex_input" by (simp add: ll_ok_def ex_input_def ex_string2ll_def dec_value_dec)
  show "exec_ok ex_input snd fst" unfolding exec_ok_def
  proof (intro allI impI)
    fix S :: "(byte list \<times> byte list list list) redisServer" and c q
    assume "steady S c" "\<not> closing c"
    then show "\<exists>S' c' b. processCommand ex_input (S, c, q) = Some (Inr (True, S', c', q\<lparr>cmd_is_asking := b\<rparr>)) \<and> steady S' c' \<and> \<not> closing c' \<and>
        current_client S' = current_client S \<and> snd (world S') = snd (world S) @ [argv q] \<and> fst (world S') = fst (world S)"
      by (intro exI [of _ "S\<lparr>world := (fst (world S), snd (world S) @ [argv q])\<rparr>"] exI [of _ c] exI [of _ "cmd_is_asking q"])
         (simp add: ex_input_def steady_def)
  qed
  have cut: "take (min (length a) (min 3 n)) a @ drop (min 3 n) a = a" for a :: "byte list" and n
    by (metis append_take_drop_id min.commute min_def take_all nat_le_linear)
  show "read_ok ex_input 8 snd fst" unfolding read_ok_def by (auto simp: ex_input_def Let_def cut split: if_splits)
qed

definition ex_query :: query where
  "ex_query = \<lparr>querybuf = [], qb_pos = 0, querybuf_peak = 0, pending_querybuf = [], reqtype = NO_REQUEST, multibulklen = 0, bulklen = - 1,
     argv = [], argv_cap = 0, cmd_is_asking = False, blocked_in_module = False, reploff = 0, read_reploff = 0, repl_ack_time = 0\<rparr>"

definition ex_commands :: "byte list list list" where
  "ex_commands = [[[71, 69, 84], [0, 13]], [[80]]]"

lemma ex_commands_ok: "list_all (cmd_ok ex_input) ex_commands" "length (encode_commands ex_commands) \<le> 100"
  by (simp_all add: ex_commands_def cmd_ok_def arg_ok_def ex_input_def encode_command_def line_def encode_bulk_def crlf_def dec.simps)

theorem commands_are_executed_witness:
  "\<exists>S' c' q' xs rest. reads ex_input 8 20 (ex_server (encode_commands ex_commands, []), ex_client, ex_query) = Some (Inr (S', c', q')) \<and>
    ex_commands = xs @ rest \<and> snd (world S') = xs \<and> (fst (world S') = [] \<longrightarrow> rest = [])"
proof -
  have "steady (ex_server (encode_commands ex_commands, [])) ex_client" "\<not> closing ex_client" "new_query ex_query" "\<not> io_threads_active ex_input"
    "client_max_querybuf_len ex_input = 1073741824"
    by (simp_all add: steady_def ex_server_def ex_client_def new_query_def ex_query_def ex_input_def)
  then show ?thesis
    using commands_are_executed [OF ex_input_ok, of "ex_server (encode_commands ex_commands, [])" ex_client ex_query ex_commands 20] ex_commands_ok
    by (simp add: ex_server_def)
qed

end
