(* ===== verification/Net_Pipeline.thy ===== *)
theory Net_Pipeline
  imports Net_Write Net_Deferred Net_Execute
begin

text \<open>
  Both sides of a connection together: the events of the loop call the handler for reading, the handler for writing and the pass before
  the loop sleeps, in any order. What the client receives is the sequence of the replies to the commands that it sent. This rests on a
  second interpretation of \<open>executor\<close>, in which a command adds its replies with the functions of \<open>Net_Reply\<close>.
\<close>

section \<open>What writing leaves alone\<close>

definition io_keeps :: "'w io_env \<Rightarrow> ('w \<Rightarrow> 'g) \<Rightarrow> bool" where
  "io_keeps IO g \<longleftrightarrow> (\<forall>w fd d n again w'. os_write IO w fd d = (n, again, w') \<longrightarrow> g w' = g w) \<and>
     (\<forall>w fd bar r w'. os_register IO w fd bar = (r, w') \<longrightarrow> g w' = g w)"

definition kept :: "('w \<Rightarrow> 'g) \<Rightarrow> 'w sc \<Rightarrow> 'w sc \<Rightarrow> bool" where
  "kept g = (\<lambda>(S, c) (S', c'). g (world S') = g (world S) \<and> clients_paused S' = clients_paused S \<and> (closing c \<longrightarrow> closing c'))"

lemma io_keepsD:
  assumes "io_keeps IO g"
  shows "os_write IO w fd d = (n, again, w') \<Longrightarrow> g w' = g w" "os_register IO w fd bar = (r, w') \<Longrightarrow> g w' = g w"
  using assms unfolding io_keeps_def by blast+

lemma written_flags: "c_flags (sent_buf c n) = c_flags c" "c_flags (drop_block c b) = c_flags c" "sent_block c b n = Inr c' \<Longrightarrow> c_flags c' = c_flags c"
  by (auto simp: sent_buf_def drop_block_def sent_block_def Let_def split: if_splits)

lemma write_loop_kept:
  "write_loop IO fd S c n0 again0 tot0 = Some r \<Longrightarrow> io_keeps IO g \<longrightarrow> (\<forall>n again tot S' c'. r = Inr (n, again, tot, S', c') \<longrightarrow> kept g (S, c) (S', c'))"
proof (erule write_loop.raw_induct [rotated], goal_cases)
  case (1 self IO fd S c n0 again0 tot0 r)
  have w: "g w = g (world S)" if "os_write IO (world S) fd d = (n, again, w)" "io_keeps IO g" for d n again w
    by (rule io_keepsD(1) [OF that(2,1)])
  show ?case using 1(2) 1(1)
    by (auto simp: Let_def kept_def written_flags split: if_splits sum.splits option.splits prod.splits dest: w)
qed

lemma writeToClient_kept:
  assumes "io_keeps IO g" "writeToClient IO fd (S, c) installed = Some (Inr (ok, S', c'))"
  shows "kept g (S, c) (S', c')"
proof -
  obtain n again tot S1 c1 where l: "write_loop IO fd S c 0 False 0 = Some (Inr (n, again, tot, S1, c1))"
    using assms(2) by (auto simp: writeToClient_def bindO_def split: option.splits sum.splits)
  have "kept g (S, c) (S1, c1)" using write_loop_kept [OF l, of g] assms(1) by blast
  then show ?thesis using assms(2) l
    by (auto simp: writeToClient_def write_done_def Let_def freeClientAsync_def set_flag_def kept_def split: if_splits)
qed

lemma handle_pending_kept:
  assumes "io_keeps IO g" "handle_pending IO (S, c) = Some (Inr (S', c'))"
  shows "kept g (S, c) (S', c')"
proof (cases "CLIENT_PROTECTED \<in> c_flags c")
  case True
  then show ?thesis using assms(2) by (simp add: handle_pending_def kept_def)
next
  case False
  then obtain ok S1 c1 where w: "writeToClient IO (c_fd c) (S, c) False = Some (Inr (ok, S1, c1))"
    using assms(2) by (auto simp: handle_pending_def bindO_def split: option.splits sum.splits)
  note r = io_keepsD(2) [OF assms(1), of "world S1"]
  show ?thesis using writeToClient_kept [OF assms(1) w] assms(2) w False
    by (auto simp: handle_pending_def kept_def Let_def freeClientAsync_def set_flag_def split: if_splits prod.splits dest: r)
qed

lemma serve_kept: "io_keeps IO g \<Longrightarrow> serve IO (S, c) = Some (Inr (S', c')) \<Longrightarrow> kept g (S, c) (S', c')"
  using handle_pending_kept [of IO g "S\<lparr>clients_pending_write := remove1 (c_id c) (clients_pending_write S)\<rparr>" "clear_flag CLIENT_PENDING_WRITE c"]
  by (simp add: serve_def kept_def clear_flag_def)

section \<open>Commands that reply\<close>

text \<open>The replies to a command depend on the commands executed before it: \<open>f h a\<close> are the replies to \<open>a\<close> after the commands \<open>h\<close>.\<close>

type_synonym answer = "byte list list list \<Rightarrow> byte list list \<Rightarrow> reply list"

fun transcript :: "int \<Rightarrow> answer \<Rightarrow> byte list list list \<Rightarrow> byte list list list \<Rightarrow> byte list" where
  "transcript v f h [] = []"
| "transcript v f h (a # cmds) = concat (map (encode v) (f h a)) @ transcript v f (h @ [a]) cmds"

lemma transcript_snoc: "transcript v f h (xs @ [a]) = transcript v f h xs @ concat (map (encode v) (f (h @ xs) a))"
  by (induction xs arbitrary: h) simp_all

text \<open>What is relied on: a command changes the data of the server, is logged, and adds its replies, which are not too many nor too long;
  \<open>read\<close> gives bytes that come next.\<close>

definition answers :: "'w in_env \<Rightarrow> answer \<Rightarrow> ('w \<Rightarrow> byte list list list) \<Rightarrow> ('w \<Rightarrow> byte list) \<Rightarrow> ('w \<Rightarrow> int \<Rightarrow> byte list) \<Rightarrow> bool" where
  "answers P f log incoming stream \<longleftrightarrow> (\<forall>S c q. \<exists>w b.
     log w = log (world S) @ [argv q] \<and> incoming w = incoming (world S) \<and> stream w = stream (world S) \<and>
     processCommand P (S, c, q) = Some (bindE (sends (in_net P) (f (log (world S)) (argv q)) (S\<lparr>world := w\<rparr>, c))
       (\<lambda>(S, c). Inr (True, S, c, q\<lparr>cmd_is_asking := b\<rparr>))))"

definition bounded_answers :: "nat \<Rightarrow> nat \<Rightarrow> answer \<Rightarrow> bool" where
  "bounded_answers L m f \<longleftrightarrow> 32 \<le> L \<and> L < 2 ^ 62 \<and> (\<forall>h a. length (f h a) \<le> m \<and> (\<forall>r \<in> set (f h a). reply_ok L r))"

text \<open>Between two events: \<open>h0\<close> was executed at the start and \<open>e\<close> is what had been sent or queued; there is memory for the replies to
  \<open>k\<close> more commands.\<close>

definition answering ::
  "net_env \<Rightarrow> int \<Rightarrow> answer \<Rightarrow> nat \<Rightarrow> nat \<Rightarrow> ('w \<Rightarrow> byte list list list) \<Rightarrow> ('w \<Rightarrow> int \<Rightarrow> byte list) \<Rightarrow> int \<Rightarrow> byte list list list \<Rightarrow> byte list \<Rightarrow>
   nat \<Rightarrow> 'w redisServer \<Rightarrow> client \<Rightarrow> bool" where
  "answering E fd f L m log stream v h0 e k S c \<longleftrightarrow> conn_ok E L (k * m) (S, c) \<and> takes_replies c \<and> CLIENT_REPLY_SKIP_NEXT \<notin> c_flags c \<and>
     c_fd c = fd \<and> c_resp c = v \<and> (\<exists>xs. log (world S) = h0 @ xs \<and> total stream (S, c) = e @ transcript v f h0 xs)"

lemma steady_frame:
  assumes "steady S c" "sc_frame (S, c) (S', c')" "clients_paused S' = clients_paused S"
  shows "steady S' c'" "CLIENT_REPLY_SKIP_NEXT \<in> c_flags c' \<longleftrightarrow> CLIENT_REPLY_SKIP_NEXT \<in> c_flags c"
proof -
  have "x \<in> c_flags c' \<longleftrightarrow> x \<in> c_flags c" if "x \<notin> {CLIENT_CLOSE_ASAP, CLIENT_PENDING_WRITE, CLIENT_PROTECTED}" for x
    using assms(2) that unfolding sc_frame_def prod.case by blast
  then show "steady S' c'" "CLIENT_REPLY_SKIP_NEXT \<in> c_flags c' \<longleftrightarrow> CLIENT_REPLY_SKIP_NEXT \<in> c_flags c"
    using assms(1,3) by (auto simp: steady_def)
qed

lemma answering_cong:
  assumes "answering E fd f L m log stream v h0 e k S c" "c_buf c' = c_buf c" "c_bufpos c' = c_bufpos c" "c_reply c' = c_reply c"
    "c_reply_bytes c' = c_reply_bytes c" "c_sentlen c' = c_sentlen c" "c_id c' = c_id c" "c_fd c' = c_fd c" "c_resp c' = c_resp c"
    "c_replstate c' = c_replstate c" "c_repl_put_online_on_ack c' = c_repl_put_online_on_ack c"
    "c_flags c' \<subseteq> c_flags c" "c_flags c - {CLIENT_ASKING, CLIENT_REPLY_SKIP} \<subseteq> c_flags c'"
    "log (world S') = log (world S)" "stream (world S') = stream (world S)" "clients_pending_write S' = clients_pending_write S"
    "write_handlers S' = write_handlers S"
  shows "answering E fd f L m log stream v h0 e k S' c'"
proof -
  note o = out_wf_cong [OF assms(2-6)]
  have fl: "x \<in> c_flags c' \<longleftrightarrow> x \<in> c_flags c" if "x \<notin> {CLIENT_ASKING, CLIENT_REPLY_SKIP}" for x using assms(12,13) that by blast
  have "clientHasPendingReplies c' = clientHasPendingReplies c" using assms(3,4) by (simp add: clientHasPendingReplies_def)
  moreover have "writable c' = writable c" using fl assms(10,11) by (simp add: writable_def)
  ultimately have "sched (S', c') = sched (S, c)" using fl assms(7,8,16,17) by (simp add: sched_def waits_def)
  moreover have "takes_replies c \<longrightarrow> takes_replies c'" using fl assms(8,12) by (auto simp: takes_replies_def)
  ultimately show ?thesis using assms(1) o assms(4,8,9,12,14,15) by (auto simp: answering_def conn_ok_def space_def total_def)
qed

lemma answering_exec:
  assumes "resp_env (in_net P)" "bounded_answers L m f" "answers P f log incoming stream" "steady S c"
    "answering (in_net P) fd f L m log stream v h0 e (Suc k) S c"
  shows "\<exists>S' c' b. processCommand P (S, c, q) = Some (Inr (True, S', c', q\<lparr>cmd_is_asking := b\<rparr>)) \<and> steady S' c' \<and>
    answering (in_net P) fd f L m log stream v h0 e k S' c' \<and> current_client S' = current_client S \<and>
    log (world S') = log (world S) @ [argv q] \<and> incoming (world S') = incoming (world S)"
proof -
  let ?E = "in_net P" and ?rs = "f (log (world S)) (argv q)"
  obtain w b where w: "log w = log (world S) @ [argv q]" "incoming w = incoming (world S)" "stream w = stream (world S)"
    "processCommand P (S, c, q) = Some (bindE (sends ?E ?rs (S\<lparr>world := w\<rparr>, c)) (\<lambda>(S, c). Inr (True, S, c, q\<lparr>cmd_is_asking := b\<rparr>)))"
    using assms(3) unfolding answers_def by blast
  let ?S = "S\<lparr>world := w\<rparr>"
  note a = assms(5) [unfolded answering_def conn_ok_def snd_conv]
  have wf: "out_wf c" and sc: "sched (?S, c)" and nn: "None \<notin> set (c_reply c)" using a by (auto simp: sched_def waits_def)
  have L: "32 \<le> L" "L < 2 ^ 62" "length ?rs \<le> m" "\<forall>r \<in> set ?rs. reply_ok L r" using assms(2) by (simp_all add: bounded_answers_def)
  have "3 * (Suc k * m) = 3 * length ?rs + (3 * (m - length ?rs) + 3 * (k * m))" using L(3) by simp
  then have sp: "space ?E L (3 * length ?rs + (3 * (m - length ?rs) + 3 * (k * m))) c" using a by metis
  obtain S' c' where s: "sends ?E ?rs (?S, c) = Inr (S', c')" "out_wf c'" "space ?E L (3 * (m - length ?rs) + 3 * (k * m)) c'"
    "queued c' = queued c @ accepted c (concat (map (encode (c_resp c)) ?rs))" "c_sentlen c' = c_sentlen c" "rep_frame (?S, c) (S', c')"
    using emitsD [OF sends_emits [OF assms(1) L(1,2,4)] wf sp, of ?S] by blast
  note r = s(6) [unfolded rep_frame_def fst_conv snd_conv] and d = rep_frameD [OF s(6)]
  have "accepted c x = x" for x using a assms(4) by (auto simp: accepted_def steady_def)
  then have p: "pending c' = pending c @ concat (map (encode v) ?rs)" using s(4,5) sentlen_queued [OF wf] a by (simp add: pending_def)
  have st: "steady ?S c" using assms(4) by (simp add: steady_def)
  obtain xs where xs: "log (world S) = h0 @ xs" "total stream (S, c) = e @ transcript v f h0 xs" using a by blast
  have "log (world S') = h0 @ (xs @ [argv q])" using xs(1) w(1) r by simp
  moreover have "total stream (S', c') = e @ transcript v f h0 (xs @ [argv q])"
    using xs p r d(3) w(3) by (simp add: total_def transcript_snoc)
  ultimately have "\<exists>xs. log (world S') = h0 @ xs \<and> total stream (S', c') = e @ transcript v f h0 xs" by blast
  moreover have "conn_ok ?E L (k * m) (S', c')" using s(2) space_less [OF s(3)] r nn sc by (auto simp: conn_ok_def)
  moreover have "steady S' c'" "CLIENT_REPLY_SKIP_NEXT \<notin> c_flags c'" using steady_frame [OF st, of S' c'] r a by simp_all
  ultimately show ?thesis using w s(1) a d r
    by (intro exI [of _ S'] exI [of _ c'] exI [of _ b]) (simp add: answering_def)
qed

definition answer_laws ::
  "'w in_env \<Rightarrow> int \<Rightarrow> answer \<Rightarrow> nat \<Rightarrow> nat \<Rightarrow> ('w \<Rightarrow> byte list list list) \<Rightarrow> ('w \<Rightarrow> byte list) \<Rightarrow> ('w \<Rightarrow> int \<Rightarrow> byte list) \<Rightarrow> bool" where
  "answer_laws P fd f L m log incoming stream \<longleftrightarrow> resp_env (in_net P) \<and> bounded_answers L m f \<and> answers P f log incoming stream \<and>
     read_ok P fd (\<lambda>w. (log w, stream w)) incoming"

interpretation answered: executor P fd "\<lambda>S c. log (world S)" "\<lambda>a. [a]" incoming
    "\<lambda>k S c. answer_laws P fd f L m log incoming stream \<and> answering (in_net P) fd f L m log stream v h0 e k S c"
  for P :: "'w in_env" and fd and log :: "'w \<Rightarrow> byte list list list" and incoming f L m stream v h0 e
proof (unfold_locales, goal_cases)
  case (1 S c k q)
  then show ?case using answering_exec [of P L m f log incoming stream S c fd v h0 e k q] by (auto simp: answer_laws_def)
next
  case (2 k S c q c' q')
  then have c': "c_flags c' \<subseteq> c_flags c" "c_flags c - {CLIENT_ASKING, CLIENT_REPLY_SKIP} \<subseteq> c_flags c'" "c' = c\<lparr>c_flags := c_flags c'\<rparr>"
    by (auto simp: answering_def resetClient_def Let_def set_flag_def clear_flag_def split: if_splits)
  have "answering (in_net P) fd f L m log stream v h0 e k S c'"
    by (rule answering_cong [where S = S and c = c]) (use 2 c'(1,2) in \<open>simp_all\<close>, (subst c'(3), simp)+)
  then show ?case using 2 by blast
next
  case (3 k S c S')
  then show ?case using answering_cong [of "in_net P" fd f L m log stream v h0 e k S c c S'] by simp
next
  case (4 k S c t)
  then show ?case using answering_cong [of "in_net P" fd f L m log stream v h0 e k S c "c\<lparr>c_lastinteraction := t\<rparr>" S] by simp
next
  case (5 k S c n r again d w)
  then have rd: "read_ok P fd (\<lambda>w. (log w, stream w)) incoming" by (simp add: answer_laws_def)
  show ?case using 5 read_okD [OF rd 5(3,2)] answering_cong [of "in_net P" fd f L m log stream v h0 e k S c c "S\<lparr>world := w\<rparr>"] by simp
qed

section \<open>The connection\<close>

text \<open>What the event loop calls for a client: the handler for reading, the handler for writing if there is one, and before it sleeps the
  pass over the clients in the list.\<close>

datatype event = Readable | Writable | BeforeSleep

definition on_client :: "'w sc outcome option \<Rightarrow> query \<Rightarrow> 'w qs outcome option" where
  "on_client r q = bindO r (\<lambda>(S, c). Some (Inr (S, c, q)))"

fun handle_event :: "'w in_env \<Rightarrow> 'w io_env \<Rightarrow> int \<Rightarrow> event \<Rightarrow> 'w qs \<Rightarrow> 'w qs outcome option" where
  "handle_event P IO fd Readable x = readQueryFromClient P fd x"
| "handle_event P IO fd Writable (S, c, q) = (if fd \<in> write_handlers S then on_client (sendReplyToClient IO fd (S, c)) q else Some (Inr (S, c, q)))"
| "handle_event P IO fd BeforeSleep (S, c, q) =
     (if c_id c \<in> set (clients_pending_write S) then on_client (serve IO (S, c)) q else Some (Inr (S, c, q)))"

fun handle_events :: "'w in_env \<Rightarrow> 'w io_env \<Rightarrow> int \<Rightarrow> event list \<Rightarrow> 'w qs \<Rightarrow> 'w qs outcome option" where
  "handle_events P IO fd [] x = Some (Inr x)"
| "handle_events P IO fd (ev # evs) x = bindO (handle_event P IO fd ev x) (handle_events P IO fd evs)"

lemma writing_ok:
  assumes "flow stream (S, c) x (S', c')" "sched (S', c')" "kept (\<lambda>w. (log w, incoming w)) (S, c) (S', c')"
    "serving P (\<lambda>k S c. Q \<and> answering E fd f L m log stream v h0 e k S c) incoming (S, c, q) cmds"
  shows "serving P (\<lambda>k S c. Q \<and> answering E fd f L m log stream v h0 e k S c) incoming (S', c', q) cmds \<and> log (world S') = log (world S)"
proof -
  have k: "log (world S') = log (world S)" "incoming (world S') = incoming (world S)" "clients_paused S' = clients_paused S" "closing c \<longrightarrow> closing c'"
    using assms(3) by (simp_all add: kept_def)
  note s = assms(4) [unfolded serving_def prod.case]
  have fr: "sc_frame (S, c) (S', c')" and st: "steady S c" and a: "answering E fd f L m log stream v h0 e (length cmds) S c"
    using assms(1) s by (simp_all add: flow_def)
  have "answering E fd f L m log stream v h0 e (length cmds) S' c'"
    using a flow_total [OF assms(1)] flow_conn [OF assms(1) _ assms(2)] steady_frame(2) [OF st fr k(3)] sc_frameD [OF fr] k(1)
    by (auto simp: answering_def)
  then show ?thesis using s steady_frame(1) [OF st fr k(3)] k by (auto simp: serving_def)
qed

lemma handle_event_ok:
  assumes "ll_ok P" "\<not> io_threads_active P" "io_ok IO stream" "io_keeps IO (\<lambda>w. (log w, incoming w))"
    "serving P (\<lambda>k S c. answer_laws P fd f L m log incoming stream \<and> answering (in_net P) fd f L m log stream v h0 e k S c) incoming (S, c, q) cmds"
    (is "serving P ?I incoming _ _")
  shows "\<exists>S' c' q' xs rest. handle_event P IO fd ev (S, c, q) = Some (Inr (S', c', q')) \<and> cmds = xs @ rest \<and>
    serving P ?I incoming (S', c', q') rest \<and> log (world S') = log (world S) @ xs"
proof -
  note a = assms(5) [unfolded serving_def answering_def conn_ok_def prod.case snd_conv]
  have wf: "out_wf c" "None \<notin> set (c_reply c)" "sched (S, c)" "c_fd c = fd" using a by blast+
  have idle: ?thesis if "handle_event P IO fd ev (S, c, q) = Some (Inr (S, c, q))"
    using that assms(5) by (intro exI [of _ S] exI [of _ c] exI [of _ q] exI [of _ "[]"] exI [of _ cmds]) simp
  have wrote: ?thesis if "handle_event P IO fd ev (S, c, q) = Some (Inr (S', c', q))" "flow stream (S, c) x (S', c')" "sched (S', c')"
      "kept (\<lambda>w. (log w, incoming w)) (S, c) (S', c')" for x S' c'
    using that(1) writing_ok [OF that(2-4) assms(5)] by (intro exI [of _ S'] exI [of _ c'] exI [of _ q] exI [of _ "[]"] exI [of _ cmds]) simp
  show ?thesis
  proof (cases ev)
    case Readable
    then show ?thesis using answered.readQueryFromClient_ok [OF assms(1,2,5)] by simp
  next
    case Writable
    obtain ok x S' c' where w: "writeToClient IO (c_fd c) (S, c) True = Some (Inr (ok, S', c'))" "sent stream (c_fd c) (S, c) x (S', c')"
      "handlers_ok (S, c) (S', c') True" using writeToClient_sent [OF assms(3) wf(1,2)] by blast
    show ?thesis
    proof (cases "fd \<in> write_handlers S")
      case True
      then show ?thesis using w(1) Writable wf(4) sent_sched [OF w(2,3) wf(3)] writeToClient_kept [OF assms(4) w(1)]
        by (intro wrote [OF _ sent_flow [OF w(2)]]) (simp_all add: on_client_def sendReplyToClient_def)
    qed (use idle Writable in simp)
  next
    case BeforeSleep
    obtain x S' c' where w: "serve IO (S, c) = Some (Inr (S', c'))" and f: "flow stream (S, c) x (S', c')" and sv: "served (S', c')"
      using serve_ok [OF assms(3) wf(1,2)] by blast
    show ?thesis
    proof (cases "c_id c \<in> set (clients_pending_write S)")
      case True
      then show ?thesis using w BeforeSleep by (intro wrote [OF _ f served_sched [OF sv] serve_kept [OF assms(4) w]]) (simp add: on_client_def)
    qed (use idle BeforeSleep in simp)
  qed
qed

lemma handle_events_ok:
  assumes "ll_ok P" "\<not> io_threads_active P" "io_ok IO stream" "io_keeps IO (\<lambda>w. (log w, incoming w))"
  shows "serving P (\<lambda>k S c. answer_laws P fd f L m log incoming stream \<and> answering (in_net P) fd f L m log stream v h0 e k S c) incoming (S, c, q) cmds \<Longrightarrow>
    \<exists>S' c' q' xs rest. handle_events P IO fd evs (S, c, q) = Some (Inr (S', c', q')) \<and> cmds = xs @ rest \<and>
      serving P (\<lambda>k S c. answer_laws P fd f L m log incoming stream \<and> answering (in_net P) fd f L m log stream v h0 e k S c) incoming (S', c', q') rest \<and>
      log (world S') = log (world S) @ xs"
proof (induction evs arbitrary: S c q cmds)
  case Nil
  then show ?case by (intro exI [of _ S] exI [of _ c] exI [of _ q] exI [of _ "[]"] exI [of _ cmds]) simp
next
  case (Cons ev evs)
  let ?I = "\<lambda>k S c. answer_laws P fd f L m log incoming stream \<and> answering (in_net P) fd f L m log stream v h0 e k S c"
  obtain S1 c1 q1 xs rest where h: "handle_event P IO fd ev (S, c, q) = Some (Inr (S1, c1, q1))" "cmds = xs @ rest"
    "serving P ?I incoming (S1, c1, q1) rest" "log (world S1) = log (world S) @ xs" using handle_event_ok [OF assms Cons.prems] by blast
  obtain S' c' q' ys rest' where "handle_events P IO fd evs (S1, c1, q1) = Some (Inr (S', c', q'))" "rest = ys @ rest'"
    "serving P ?I incoming (S', c', q') rest'" "log (world S') = log (world S1) @ ys" using Cons.IH [OF h(3)] by blast
  then show ?case using h(1,2,4) by (intro exI [of _ S'] exI [of _ c'] exI [of _ q'] exI [of _ "xs @ ys"] exI [of _ rest']) simp
qed

text \<open>C3: a client sends a sequence of commands, and the event loop calls the handlers of its connection in any order, with reads and writes of
  any size. Nothing faults and every call returns; the commands executed are the first ones of the sequence; the bytes the client has been
  sent, followed by those that are queued, are what was there before and the encoded replies to these commands, in order; queued bytes are
  scheduled to be written. When all bytes of the client have arrived and it is not to be closed, all its commands were executed.\<close>

theorem conversation:
  assumes "ll_ok P" "\<not> io_threads_active P" "io_ok IO stream" "io_keeps IO (\<lambda>w. (log w, incoming w))"
    "answer_laws P fd f L m log incoming stream" "steady S c" "new_query q" "list_all (cmd_ok P) cmds" "incoming (world S) = encode_commands cmds"
    "length (encode_commands cmds) \<le> client_max_querybuf_len P" "length (encode_commands cmds) < 2 ^ 62"
    "conn_ok (in_net P) L (length cmds * m) (S, c)" "takes_replies c" "CLIENT_REPLY_SKIP_NEXT \<notin> c_flags c" "c_fd c = fd"
  shows "\<exists>S' c' q' xs rest. handle_events P IO fd evs (S, c, q) = Some (Inr (S', c', q')) \<and> cmds = xs @ rest \<and> log (world S') = log (world S) @ xs \<and>
    stream (world S') fd @ pending c' = stream (world S) fd @ pending c @ transcript (c_resp c) f (log (world S)) xs \<and> sched (S', c') \<and>
    (incoming (world S') = [] \<and> \<not> closing c' \<longrightarrow> rest = [])"
proof -
  let ?h = "log (world S)" and ?v = "c_resp c" and ?e = "total stream (S, c)"
  let ?I = "\<lambda>k S c. answer_laws P fd f L m log incoming stream \<and> answering (in_net P) fd f L m log stream ?v ?h ?e k S c"
  have "answering (in_net P) fd f L m log stream ?v ?h ?e (length cmds) S c"
    using assms(12-15) by (simp add: answering_def exI [of _ "[]"])
  then have "serving P ?I incoming (S, c, q) cmds" using assms by (intro serving_new) simp_all
  from handle_events_ok [OF assms(1-4) this, of evs] obtain S' c' q' xs rest where
    r: "handle_events P IO fd evs (S, c, q) = Some (Inr (S', c', q'))" "cmds = xs @ rest" "log (world S') = ?h @ xs"
    and s: "serving P ?I incoming (S', c', q') rest" by blast
  have "total stream (S', c') = ?e @ transcript ?v f ?h xs" "sched (S', c')" "c_fd c' = fd"
    using s r(3) by (auto simp: serving_def answering_def conn_ok_def)
  moreover have "incoming (world S') = [] \<and> \<not> closing c' \<longrightarrow> rest = []" using s by (simp add: serving_def)
  ultimately show ?thesis using r assms(15)
    by (intro exI [of _ S'] exI [of _ c'] exI [of _ q'] exI [of _ xs] exI [of _ rest]) (simp add: total_def)
qed

text \<open>An instance: the world is the bytes to come, the commands executed, and what was sent on each descriptor. Three bytes arrive and five are
  taken at a time; a command is answered with the beginning of its arguments and a number that depends on how many came before.\<close>

type_synonym talk = "byte list \<times> byte list list list \<times> (int \<Rightarrow> byte list)"

definition ex_answer :: answer where
  "ex_answer h a = [Bulk (take 16 (concat a)), Integer (int (length h mod 100))]"

definition ex_talk :: "talk in_env" where
  "ex_talk = \<lparr>in_net = ex_env, in_malloc = full_malloc, string2ll = ex_string2ll, proto_max_bulk_len = 536870912, client_max_querybuf_len = 1073741824,
     gopher_enabled = False, io_threads_active = False, io_threads_do_reads = False,
     processCommand = \<lambda>(S, c, q). case world S of (u, h, s) \<Rightarrow>
       Some (bindE (sends ex_env (ex_answer h (argv q)) (S\<lparr>world := (u, h @ [argv q], s)\<rparr>, c)) (\<lambda>(S, c). Inr (True, S, c, q))),
     processGopherRequest = \<lambda>x. Some (Inr x), requeue_clients = \<lambda>w. w, feed_replicas = \<lambda>w s. w,
     os_read = \<lambda>(u, h, s) fd n. (if u = [] \<or> n = 0 then (- 1, True, [], u, h, s)
                         else let d = take (min 3 n) u in (int (length d), False, d, drop (min 3 n) u, h, s))\<rparr>"

definition ex_talk_io :: "talk io_env" where
  "ex_talk_io = \<lparr>os_write = \<lambda>(u, h, s) fd d. (int (min 5 (length d)), False, u, h, s(fd := s fd @ take 5 d)),
     os_register = \<lambda>w fd barrier. (True, w), os_register_read = \<lambda>w fd. (True, w), zmalloc_used_memory = \<lambda>w. 0, NET_MAX_WRITES_PER_EVENT = 65536\<rparr>"

lemma ex_talk_io_ok: "io_ok ex_talk_io (\<lambda>w. snd (snd w))" "io_keeps ex_talk_io (\<lambda>w. (fst (snd w), fst w))"
proof -
  have "take (min 5 (length d)) d = take 5 d" for d :: "byte list" by (simp add: min_def)
  then show "io_ok ex_talk_io (\<lambda>w. snd (snd w))" unfolding io_ok_def by (auto simp: ex_talk_io_def)
  show "io_keeps ex_talk_io (\<lambda>w. (fst (snd w), fst w))" by (auto simp: io_keeps_def ex_talk_io_def)
qed

lemma ex_talk_ok: "ll_ok ex_talk" "answer_laws ex_talk 8 ex_answer 32 2 (\<lambda>w. fst (snd w)) fst (\<lambda>w. snd (snd w))"
proof -
  show "ll_ok ex_talk" by (simp add: ll_ok_def ex_talk_def ex_string2ll_def dec_value_dec)
  have cut: "take (min (length a) (min 3 n)) a @ drop (min 3 n) a = a" for a :: "byte list" and n
    by (metis append_take_drop_id min.commute min_def take_all nat_le_linear)
  have small: "n mod 100 < 9223372036854775808" for n :: nat using mod_less_divisor [of 100 n] by linarith
  have "read_ok ex_talk 8 (\<lambda>w. (fst (snd w), snd (snd w))) fst" unfolding read_ok_def by (auto simp: ex_talk_def Let_def cut split: if_splits)
  moreover have "answers ex_talk ex_answer (\<lambda>w. fst (snd w)) fst (\<lambda>w. snd (snd w))"
    unfolding answers_def
  proof (intro allI)
    fix S :: "talk redisServer" and c q
    show "\<exists>w b. fst (snd w) = fst (snd (world S)) @ [argv q] \<and> fst w = fst (world S) \<and> snd (snd w) = snd (snd (world S)) \<and>
        processCommand ex_talk (S, c, q) = Some (bindE (sends (in_net ex_talk) (ex_answer (fst (snd (world S))) (argv q)) (S\<lparr>world := w\<rparr>, c))
          (\<lambda>(S, c). Inr (True, S, c, q\<lparr>cmd_is_asking := b\<rparr>)))"
      by (rule exI [of _ "(fst (world S), fst (snd (world S)) @ [argv q], snd (snd (world S)))"], rule exI [of _ "cmd_is_asking q"])
         (simp add: ex_talk_def split_def)
  qed
  moreover have "bounded_answers 32 2 ex_answer" by (simp add: bounded_answers_def ex_answer_def small min.coboundedI2)
  ultimately show "answer_laws ex_talk 8 ex_answer 32 2 (\<lambda>w. fst (snd w)) fst (\<lambda>w. snd (snd w))"
    using ex_env_ok(1) by (simp add: answer_laws_def) (simp add: ex_talk_def)
qed

theorem conversation_witness:
  "\<exists>S' c' q' xs rest. handle_events ex_talk ex_talk_io 8 (replicate 6 Readable @ [BeforeSleep, Writable] @ replicate 6 Readable @ [BeforeSleep, Writable])
      (ex_server (encode_commands ex_commands, [], \<lambda>fd. []), ex_client, ex_query) = Some (Inr (S', c', q')) \<and> ex_commands = xs @ rest \<and>
    fst (snd (world S')) = xs \<and> snd (snd (world S')) 8 @ pending c' = transcript 3 ex_answer [] xs \<and> sched (S', c') \<and>
    (fst (world S') = [] \<and> \<not> closing c' \<longrightarrow> rest = [])"
proof -
  define S where "S = ex_server (encode_commands ex_commands, [] :: byte list list list, \<lambda>fd :: int. [] :: byte list)"
  have S: "world S = (encode_commands ex_commands, [], \<lambda>fd. [])" "steady S ex_client" "new_query ex_query" "\<not> io_threads_active ex_talk"
    "client_max_querybuf_len ex_talk = 1073741824" "takes_replies ex_client" "CLIENT_REPLY_SKIP_NEXT \<notin> c_flags ex_client"
    by (simp_all add: S_def steady_def ex_server_def ex_client_def new_query_def ex_query_def ex_talk_def takes_replies_def)
  have cmds: "list_all (cmd_ok ex_talk) ex_commands" "length ex_commands = 2"
    by (simp_all add: ex_commands_def cmd_ok_def arg_ok_def ex_talk_def)
  have "space ex_env 32 12 ex_client" using ex_env_ok(2) by (simp add: space_def total_size_def ex_client_def SIZE_MAX_def PROTO_REPLY_CHUNK_BYTES_def)
  then have conn: "conn_ok (in_net ex_talk) 32 (length ex_commands * 2) (S, ex_client)"
    using cmds(2) ex_client_ok(1-3) by (simp add: conn_ok_def ex_talk_def S_def)
  show ?thesis
    using conversation [OF ex_talk_ok(1) S(4) ex_talk_io_ok ex_talk_ok(2) S(2,3) cmds(1) _ _ _ conn S(6,7),
        of "replicate 6 Readable @ [BeforeSleep, Writable] @ replicate 6 Readable @ [BeforeSleep, Writable]"] ex_commands_ok(2) S(1,5)
    unfolding S_def [symmetric] by (simp add: ex_client_ok)
qed

end
