(* ===== verification/Net_Safety.thy ===== *)
theory Net_Safety
  imports Net_Execute
begin

text \<open>
  The parser of the query buffer is safe: whatever bytes a client sends, complete or not, well formed or not, no access leaves the
  buffer or the array of arguments, no assertion fails, the loop ends, and a protocol error closes the client.
\<close>

section \<open>The invariant\<close>

definition q_inv :: "query \<Rightarrow> bool" where
  "q_inv q \<longleftrightarrow> buf_ok q \<and> (bulklen q = - 1 \<or> 0 \<le> bulklen q \<and> bulklen q < 2 ^ 62) \<and> 0 \<le> multibulklen q \<and>
     (if multibulklen q = 0 then argv q = [] \<and> bulklen q = - 1 else argv_cap q = length (argv q) + nat (multibulklen q) \<and> reqtype q = PROTO_REQ_MULTIBULK) \<and>
     (reqtype q = PROTO_REQ_MULTIBULK \<and> multibulklen q = 0 \<and> unparsed q \<noteq> [] \<longrightarrow> hd (unparsed q) = 42)"

definition safe_env :: "'w in_env \<Rightarrow> bool" where
  "safe_env P \<longleftrightarrow> resp_env (in_net P) \<and> never_fails (in_malloc P) \<and> proto_max_bulk_len P < 2 ^ 62"

text \<open>Room for an error reply, in three pieces, and \<open>K\<close> more pieces of at most \<open>L\<close> bytes.\<close>

definition can_reply :: "'w in_env \<Rightarrow> nat \<Rightarrow> nat \<Rightarrow> client \<Rightarrow> bool" where
  "can_reply P L K c \<longleftrightarrow> 128 \<le> L \<and> out_wf c \<and> space (in_net P) L (3 + K) c"

lemma can_reply_less: "can_reply P L K c \<Longrightarrow> k \<le> K \<Longrightarrow> can_reply P L k c"
  using space_less [of "in_net P" L "K - k" "3 + k" c] by (simp add: can_reply_def add.commute)

text \<open>The client is about to be closed, or the parser can go on.\<close>

definition parsed :: "'w in_env \<Rightarrow> 'w qs \<Rightarrow> (bool \<times> 'w qs) outcome \<Rightarrow> bool" where
  "parsed P = (\<lambda>(S, c, q) r. \<exists>ok S' c' q'. r = Inr (ok, S', c', q') \<and> world S' = world S \<and> buf_ok q' \<and>
     (if ok then c' = c \<and> length (argv q') \<le> argv_cap q' \<and> length (unparsed q') < length (unparsed q)
      else c' = c \<and> q_inv q' \<and> length (unparsed q') \<le> length (unparsed q) \<or> CLIENT_CLOSE_AFTER_REPLY \<in> c_flags c'))"

lemma protocol_error_parsed:
  assumes "safe_env P" "can_reply P L K c" "buf_ok q" "0 \<notin> set msg" "length msg \<le> 128"
  shows "\<exists>S' c'. protocol_error P msg (S, c, q) = Inr (False, S', c', q) \<and> world S' = world S \<and> CLIENT_CLOSE_AFTER_REPLY \<in> c_flags c'"
proof -
  have E: "env_ok (in_net P)" using assms(1) by (simp add: safe_env_def resp_env_def)
  have c: "out_wf c" "space (in_net P) L (3 + K) c" "32 \<le> L" "length msg \<le> L" using assms(2,5) by (simp_all add: can_reply_def)
  note em = emits_error [OF E c(3,4)]
  obtain S' c' where "addReplyErrorLength (in_net P) (S, c) msg = Inr (S', c')" "rep_frame (S, c) (S', c')"
    using emitsD [OF em c(1,2), of S] by blast
  moreover have "strlen (msg @ [0]) = Inr (length msg)" using strlen_append_zero [OF assms(4), of "[]"] by simp
  ultimately show ?thesis by (simp add: protocol_error_def addReplyError_def rep_frame_def setProtocolError_def set_flag_def)
qed

lemma parsed_wait: "q_inv q \<Longrightarrow> parsed P (S, c, q) (Inr (False, S, c, q))"
  by (auto simp: parsed_def q_inv_def)

lemma parsed_ok:
  "buf_ok q' \<Longrightarrow> length (argv q') \<le> argv_cap q' \<Longrightarrow> length (unparsed q') < length (unparsed q) \<Longrightarrow> parsed P (S, c, q) (Inr (True, S, c, q'))"
  by (auto simp: parsed_def)

lemma parsed_error:
  assumes "safe_env P" "can_reply P L K c" "buf_ok q'" "0 \<notin> set msg" "length msg \<le> 128"
  shows "parsed P (S, c, q) (protocol_error P msg (S, c, q'))"
proof -
  obtain S' c' where "protocol_error P msg (S, c, q') = Inr (False, S', c', q')" "world S' = world S" "CLIENT_CLOSE_AFTER_REPLY \<in> c_flags c'"
    using protocol_error_parsed [OF assms] by blast
  then show ?thesis using assms(3) by (auto simp: parsed_def)
qed

section \<open>Inline commands\<close>

lemma strchr_at_range: "strchr_at ch s = Some i \<Longrightarrow> i < length s \<and> s ! i = ch"
  by (induction s arbitrary: i) (auto split: if_splits)

lemma store_args_ok:
  "\<forall>t \<in> set vec. \<exists>s. t = Some s \<Longrightarrow> length (argv q) + length vec \<le> argv_cap q \<Longrightarrow>
   \<exists>xs. store_args q vec = Inr (q\<lparr>argv := argv q @ xs\<rparr>) \<and> length xs \<le> length vec"
proof (induction vec arbitrary: q)
  case Nil
  then show ?case by (intro exI [of _ "[]"]) simp
next
  case (Cons t vec)
  then obtain s where t: "t = Some s" by auto
  show ?case
  proof (cases "sdslen s = 0")
    case True
    then show ?thesis using Cons.IH [of q] Cons.prems t by fastforce
  next
    case False
    let ?q = "q\<lparr>argv := argv q @ [content s]\<rparr>"
    obtain xs where "store_args ?q vec = Inr (?q\<lparr>argv := argv ?q @ xs\<rparr>)" "length xs \<le> length vec"
      using Cons.IH [of ?q] Cons.prems by auto
    then show ?thesis using False t Cons.prems by (intro exI [of _ "content s # xs"]) (simp add: store_arg_def)
  qed
qed

lemma line_end_bounds: "strchr_at 10 s = Some i \<Longrightarrow> line_end s i = (n, k) \<Longrightarrow> n + k = Suc i \<and> n < length s"
  using strchr_at_range [of 10 s i] by (auto simp: line_end_def split: if_splits)

lemma inline_parsed:
  assumes "safe_env P" "can_reply P L K c" "q_inv q" "length (unparsed q) < 2 ^ 31"
  shows "parsed P (S, c, q) (processInlineBuffer P (S, c, q))"
proof -
  have bq: "buf_ok q" using assms(3) by (simp add: q_inv_def)
  show ?thesis
  proof (cases "strchr_at 10 (unparsed q)")
    case None
    have "parsed P (S, c, q) (protocol_error P (ascii ''Protocol error: too big inline request'') (S, c, q))"
      using parsed_error [OF assms(1,2) bq] by (simp add: ascii_def)
    then show ?thesis using None parsed_wait [OF assms(3), of P S c] by (simp add: processInlineBuffer_def)
  next
    case (Some i)
    obtain n k where e: "line_end (unparsed q) i = (n, k)" by fastforce
    note nk = line_end_bounds [OF Some e]
    have il: "i < length (unparsed q)" using strchr_at_range [OF Some] by simp
    have len: "length (take n (unparsed q) @ [0]) < 2 ^ 31" using nk assms(4) by simp
    consider "args_loop (in_malloc P) [] (take n (unparsed q) @ [0]) = Inr None"
      | vec where "args_loop (in_malloc P) [] (take n (unparsed q) @ [0]) = Inr (Some vec)" "\<forall>t \<in> set vec. \<exists>s. t = Some s \<and> sds_wf s"
      using args_loop_safe [of "in_malloc P" "take n (unparsed q) @ [0]" "[]"] assms(1) len by (auto simp: safe_env_def)
    then show ?thesis
    proof cases
      case 1
      have "parsed P (S, c, q) (protocol_error P (ascii ''Protocol error: unbalanced quotes in request'') (S, c, q))"
        using parsed_error [OF assms(1,2) bq] by (simp add: ascii_def)
      then show ?thesis using 1 Some e by (simp add: processInlineBuffer_def sdssplitargs_def)
    next
      case 2
      define q0 where "q0 = (if n = 0 \<and> CLIENT_SLAVE \<in> c_flags c then q\<lparr>repl_ack_time := unixtime S\<rparr> else q)"
      define q1 where "q1 = q0\<lparr>qb_pos := qb_pos q0 + n + k\<rparr>"
      define q2 where "q2 = (if length vec \<noteq> 0 then q1\<lparr>argv_cap := length vec\<rparr> else q1)\<lparr>argv := []\<rparr>"
      have q2: "querybuf q2 = querybuf q" "qb_pos q2 = qb_pos q + Suc i" "argv q2 = []" "length vec \<le> argv_cap q2"
        using nk by (simp_all add: q2_def q1_def q0_def)
      obtain xs where xs: "store_args q2 vec = Inr (q2\<lparr>argv := xs\<rparr>)" "length xs \<le> length vec"
        using store_args_ok [of vec q2] 2(2) q2 by force
      have "processInlineBuffer P (S, c, q) = bindE (store_args q2 vec) (\<lambda>q. Inr (True, S, c, q))"
        unfolding q2_def q1_def q0_def using Some e 2(1) by (simp add: processInlineBuffer_def sdssplitargs_def Let_def)
      then have "processInlineBuffer P (S, c, q) = Inr (True, S, c, q2\<lparr>argv := xs\<rparr>)" using xs(1) by simp
      moreover have "buf_ok (q2\<lparr>argv := xs\<rparr>)" "length (unparsed (q2\<lparr>argv := xs\<rparr>)) < length (unparsed q)"
        using q2 il bq by (auto simp: buf_ok_def unparsed_def)
      ultimately show ?thesis using parsed_ok [of "q2\<lparr>argv := xs\<rparr>" q P S c] xs(2) q2(4) by simp
    qed
  qed
qed

section \<open>Commands of the protocol\<close>

text \<open>The state of a client that waits for more, or for its end.\<close>

lemma whole_line_len: "buf_ok q \<Longrightarrow> whole_line q i \<longleftrightarrow> i + 2 \<le> length (unparsed q)"
  using whole_line_iff by (simp add: buf_ok_def)

lemma rd_first: "i + 2 \<le> length (unparsed q) \<Longrightarrow> rd (unparsed q) 0 = Inr (hd (unparsed q))"
  by (cases "unparsed q") (simp_all add: mem)

lemma skip_line: "i + 2 \<le> length (unparsed q) \<Longrightarrow> buf_ok q \<Longrightarrow> buf_ok (q\<lparr>qb_pos := qb_pos q + i + 2\<rparr>) \<and>
    length (unparsed (q\<lparr>qb_pos := qb_pos q + i + 2\<rparr>)) < length (unparsed q)"
  by (auto simp: buf_ok_def unparsed_def)

definition header_ok :: "'w in_env \<Rightarrow> 'w qs \<Rightarrow> (bool option \<times> 'w qs) outcome \<Rightarrow> bool" where
  "header_ok P = (\<lambda>(S, c, q) r. (\<exists>q'. r = Inr (None, S, c, q') \<and> q_inv q' \<and> multibulklen q' > 0 \<and> length (unparsed q') \<le> length (unparsed q)) \<or>
     (\<exists>ok x. r = Inr (Some ok, x) \<and> parsed P (S, c, q) (Inr (ok, x))))"

lemma header_some: "parsed P (S, c, q) (Inr (ok, x)) \<Longrightarrow> header_ok P (S, c, q) (Inr (Some ok, x))"
  unfolding header_ok_def by blast

lemma header_none: "q_inv q' \<Longrightarrow> multibulklen q' > 0 \<Longrightarrow> length (unparsed q') \<le> length (unparsed q) \<Longrightarrow> header_ok P (S, c, q) (Inr (None, S, c, q'))"
  unfolding header_ok_def by blast

lemma header_error:
  assumes "safe_env P" "can_reply P L K c" "buf_ok q" "0 \<notin> set msg" "length msg \<le> 128"
  shows "header_ok P (S, c, q) (bindE (protocol_error P msg (S, c, q)) (\<lambda>(r, x). Inr (Some r, x)))"
proof -
  obtain S' c' where "protocol_error P msg (S, c, q) = Inr (False, S', c', q)" using protocol_error_parsed [OF assms] by blast
  then show ?thesis using header_some parsed_error [OF assms, of S q] by simp
qed

lemma multibulk_header_ok:
  assumes "safe_env P" "can_reply P L K c" "q_inv q" "reqtype q = PROTO_REQ_MULTIBULK"
  shows "header_ok P (S, c, q) (multibulk_header P (S, c, q))"
proof (cases "multibulklen q = 0")
  case False
  then have "multibulklen q > 0" using assms(3) by (simp add: q_inv_def)
  then show ?thesis using header_none [OF assms(3), of q P S c] by (simp add: multibulk_header_def)
next
  case True
  have bq: "buf_ok q" "argv q = []" using assms(3) True by (simp_all add: q_inv_def)
  note err = header_error [OF assms(1,2) bq(1), of _ S]
  have wait: "header_ok P (S, c, q) (Inr (Some False, S, c, q))" using parsed_wait [OF assms(3)] by (rule header_some)
  show ?thesis
  proof (cases "strchr_at 13 (unparsed q)")
    case None
    then show ?thesis using True bq(2) wait err [of "ascii ''Protocol error: too big mbulk count string''"]
      by (simp add: multibulk_header_def Let_def ascii_def)
  next
    case (Some i)
    show ?thesis
    proof (cases "i + 2 \<le> length (unparsed q)")
      case F: False
      then show ?thesis using True bq Some wait by (simp add: multibulk_header_def Let_def whole_line_len)
    next
      case wl: True
      have hd: "hd (unparsed q) = 42" using assms(3,4) True wl by (auto simp: q_inv_def)
      note sk = skip_line [OF wl bq(1)]
      have e: "header_ok P (S, c, q) (bindE (protocol_error P (ascii ''Protocol error: invalid multibulk length'') (S, c, q)) (\<lambda>(r, x). Inr (Some r, x)))"
        using err [of "ascii ''Protocol error: invalid multibulk length''"] by (simp add: ascii_def)
      show ?thesis
      proof (cases "line_number P q i")
        case None
        then show ?thesis using True bq Some wl hd rd_first [OF wl] e by (simp add: multibulk_header_def Let_def whole_line_len)
      next
        case ll: (Some ll)
        let ?q = "q\<lparr>qb_pos := qb_pos q + i + 2\<rparr>"
        consider "ll > 1024 * 1024" | "ll \<le> 0" | "0 < ll" "ll \<le> 1024 * 1024" by linarith
        then show ?thesis
        proof cases
          case 1
          then show ?thesis using True bq Some wl hd rd_first [OF wl] e ll by (simp add: multibulk_header_def Let_def whole_line_len)
        next
          case 2
          have "parsed P (S, c, q) (Inr (True, S, c, ?q))" using parsed_ok [of ?q q P S c] sk bq(2) by simp
          from header_some [OF this] show ?thesis using 2 True bq Some wl hd rd_first [OF wl] ll by (simp add: multibulk_header_def Let_def whole_line_len)
        next
          case 3
          have "q_inv (?q\<lparr>multibulklen := ll, argv_cap := nat ll\<rparr>)" using 3 sk bq assms(3,4) by (auto simp: q_inv_def buf_ok_def)
          moreover have "length (unparsed (?q\<lparr>multibulklen := ll, argv_cap := nat ll\<rparr>)) \<le> length (unparsed q)" using sk by (simp add: unparsed_def)
          ultimately have "header_ok P (S, c, q) (Inr (None, S, c, ?q\<lparr>multibulklen := ll, argv_cap := nat ll\<rparr>))" using 3 by (intro header_none) simp_all
          then show ?thesis using 3 True bq Some wl hd rd_first [OF wl] ll by (simp add: multibulk_header_def Let_def whole_line_len)
        qed
      qed
    qed
  qed
qed

text \<open>\<open>n\<close> arguments are missing.\<close>

definition awaits :: "nat \<Rightarrow> query \<Rightarrow> bool" where
  "awaits n q \<longleftrightarrow> buf_ok q \<and> (bulklen q = - 1 \<or> 0 \<le> bulklen q \<and> bulklen q < 2 ^ 62) \<and> multibulklen q = int n \<and>
     argv_cap q = length (argv q) + n \<and> reqtype q = PROTO_REQ_MULTIBULK"

lemma awaits_inv: "awaits (Suc n) q \<Longrightarrow> q_inv q"
  by (auto simp: awaits_def q_inv_def)

lemma parsed_False:
  "parsed P (S, c, q) (Inr (False, S', c', q')) \<longleftrightarrow> world S' = world S \<and> buf_ok q' \<and>
     (c' = c \<and> q_inv q' \<and> length (unparsed q') \<le> length (unparsed q) \<or> CLIENT_CLOSE_AFTER_REPLY \<in> c_flags c')"
  unfolding parsed_def by simp blast

lemma parsed_le:
  assumes "parsed P (S, c, q) (Inr (False, x))" "length (unparsed q) \<le> length (unparsed q0)"
  shows "parsed P (S, c, q0) (Inr (False, x))"
proof -
  obtain S' c' q' where x: "x = (S', c', q')" by (metis surj_pair)
  show ?thesis using assms unfolding x parsed_False by (meson le_trans)
qed

lemma bulk_header_safe:
  assumes "safe_env P" "can_reply P L K c" "awaits (Suc n) q"
  shows "(\<exists>x. bulk_header P (S, c, q) = Inr (False, x) \<and> parsed P (S, c, q) (Inr (False, x))) \<or>
    (\<exists>q'. bulk_header P (S, c, q) = Inr (True, S, c, q') \<and> awaits (Suc n) q' \<and> 0 \<le> bulklen q' \<and> length (unparsed q') \<le> length (unparsed q))"
proof (cases "bulklen q = - 1")
  case False
  then show ?thesis using assms(3) by (auto simp: bulk_header_def awaits_def)
next
  case True
  have bq: "buf_ok q" using assms(3) by (simp add: awaits_def)
  have err: "\<exists>x. protocol_error P msg (S, c, q) = Inr (False, x) \<and> parsed P (S, c, q) (Inr (False, x))"
    if "0 \<notin> set msg" "length msg \<le> 128" for msg
    using protocol_error_parsed [OF assms(1,2) bq that, of S] parsed_error [OF assms(1,2) bq that, of S q] by auto
  show ?thesis
  proof (cases "strchr_at 13 (unparsed q)")
    case None
    then show ?thesis using True parsed_wait [OF awaits_inv [OF assms(3)], of P S c] err [of "ascii ''Protocol error: too big bulk count string''"]
      by (auto simp: bulk_header_def ascii_def)
  next
    case (Some i)
    show ?thesis
    proof (cases "i + 2 \<le> length (unparsed q)")
      case F: False
      then show ?thesis using True Some bq parsed_wait [OF awaits_inv [OF assms(3)], of P S c] by (simp add: bulk_header_def whole_line_len)
    next
      case wl: True
      note st = True Some wl rd_first [OF wl] whole_line_len [OF bq, of i]
      show ?thesis
      proof (cases "hd (unparsed q) = 36")
        case F: False
        let ?m = "ascii ''Protocol error: expected '' @ [39, 36, 39] @ ascii '', got '' @ [39, hd (unparsed q), 39]"
        let ?s = "map (\<lambda>b. if b = 13 \<or> b = 10 then 32 else b) ?m"
        have E: "env_ok (in_net P)" using assms(1) by (simp add: safe_env_def resp_env_def)
        have c: "out_wf c" "space (in_net P) L (3 + K) c" "32 \<le> L" "length ?s \<le> L"
          using assms(2) by (simp_all add: can_reply_def ascii_def)
        obtain S' c' where e: "addReplyErrorLength (in_net P) (S, c) ?s = Inr (S', c')" "rep_frame (S, c) (S', c')"
          using emitsD [OF emits_error [OF E c(3,4)] c(1,2), of S] by blast
        have "bulk_header P (S, c, q) = Inr (False, S', setProtocolError c', q)"
          using st F e(1) by (simp add: bulk_header_def addReplyErrorFormat_def)
        moreover have "parsed P (S, c, q) (Inr (False, S', setProtocolError c', q))"
          using e(2) bq by (auto simp: parsed_def rep_frame_def setProtocolError_def set_flag_def)
        ultimately show ?thesis by blast
      next
        case T: True
        have bad: "\<exists>x. protocol_error P (ascii ''Protocol error: invalid bulk length'') (S, c, q) = Inr (False, x) \<and> parsed P (S, c, q) (Inr (False, x))"
          by (rule err) (simp_all add: ascii_def)
        show ?thesis
        proof (cases "\<exists>ll. line_number P q i = Some ll \<and> 0 \<le> ll \<and> ll \<le> proto_max_bulk_len P")
          case False
          then show ?thesis using st T bad by (cases "line_number P q i") (auto simp: bulk_header_def)
        next
          case True
          then obtain ll where ll: "line_number P q i = Some ll" "0 \<le> ll" "ll \<le> proto_max_bulk_len P" by blast
          let ?q = "q\<lparr>qb_pos := qb_pos q + i + 2\<rparr>"
          note sk = skip_line [OF wl bq]
          have "awaits (Suc n) (start_bulk ll ?q)" using assms(1,3) ll start_bulk_buf [of ?q ll] sk by (simp add: awaits_def safe_env_def)
          then show ?thesis using st T ll sk by (intro disjI2 exI [of _ "start_bulk ll ?q"]) (simp add: bulk_header_def)
        qed
      qed
    qed
  qed
qed

lemma bulk_argument_safe:
  assumes "awaits (Suc n) q" "0 \<le> bulklen q"
  shows "bulk_argument q = Inr (False, q) \<or>
    (\<exists>q'. bulk_argument q = Inr (True, q') \<and> awaits n q' \<and> length (unparsed q') < length (unparsed q))"
proof -
  note a = assms(1) [unfolded awaits_def]
  have bq: "qb_pos q \<le> length (querybuf q)" "length (querybuf q) < 2 ^ 63" using a by (simp_all add: buf_ok_def)
  have sd: "size_diff (length (querybuf q)) (qb_pos q) = length (querybuf q) - qb_pos q" using size_diff_small [OF bq] .
  define m where "m = nat (bulklen q)"
  have m: "to_size_t (m + 2) = m + 2" "bulklen q = int m" using a assms(2) by (auto simp: m_def to_size_t_def)
  have arg: "store_arg q s = Inr (q\<lparr>argv := argv q @ [s]\<rparr>)" for s using a by (simp add: store_arg_def)
  show ?thesis
  proof (cases "length (querybuf q) - qb_pos q < m + 2")
    case True
    then show ?thesis using sd m by (simp add: bulk_argument_def)
  next
    case False
    show ?thesis
    proof (cases "qb_pos q = 0 \<and> bulklen q \<ge> PROTO_MBULK_BIG_ARG \<and> length (querybuf q) = m + 2")
      case True
      let ?q = "q\<lparr>argv := argv q @ [take (length (querybuf q) - 2) (querybuf q)], querybuf := [], bulklen := - 1, multibulklen := multibulklen q - 1\<rparr>"
      have "bulk_argument q = Inr (True, ?q)" using True False sd m arg by (simp add: bulk_argument_def)
      moreover have "awaits n ?q" "length (unparsed ?q) < length (unparsed q)" using a True by (auto simp: awaits_def buf_ok_def unparsed_def)
      ultimately show ?thesis by blast
    next
      case F: False
      let ?q = "q\<lparr>argv := argv q @ [take m (drop (qb_pos q) (querybuf q))], qb_pos := qb_pos q + m + 2, bulklen := - 1, multibulklen := multibulklen q - 1\<rparr>"
      have "mem_read (querybuf q) (qb_pos q) m = Inr (take m (drop (qb_pos q) (querybuf q)))" using False by (simp add: mem)
      then have "bulk_argument q = Inr (True, ?q)" using F False sd m arg by (auto simp: bulk_argument_def Let_def)
      moreover have "awaits n ?q" "length (unparsed ?q) < length (unparsed q)" using a False bq by (auto simp: awaits_def buf_ok_def unparsed_def)
      ultimately show ?thesis by blast
    qed
  qed
qed

lemma bulk_loop_safe:
  assumes "safe_env P" "can_reply P L K c"
  shows "awaits n q \<Longrightarrow> length (unparsed q) \<le> length (unparsed q0) \<Longrightarrow> n > 0 \<or> length (unparsed q) < length (unparsed q0) \<Longrightarrow>
    parsed P (S, c, q0) (bulk_loop P n (S, c, q))"
proof (induction n arbitrary: q)
  case 0
  then show ?case using parsed_ok [of q q0 P S c] by (simp add: awaits_def)
next
  case (Suc n)
  from bulk_header_safe [OF assms Suc.prems(1), of S] show ?case
  proof (elim disjE exE conjE)
    fix x assume h: "bulk_header P (S, c, q) = Inr (False, x)" "parsed P (S, c, q) (Inr (False, x))"
    then show ?thesis using parsed_le [OF h(2) Suc.prems(2)] by (cases x) simp
  next
    fix q1 assume h: "bulk_header P (S, c, q) = Inr (True, S, c, q1)" "awaits (Suc n) q1" "0 \<le> bulklen q1" "length (unparsed q1) \<le> length (unparsed q)"
    from bulk_argument_safe [OF h(2,3)] show ?thesis
    proof (elim disjE exE conjE)
      assume "bulk_argument q1 = Inr (False, q1)"
      moreover have "parsed P (S, c, q0) (Inr (False, S, c, q1))"
        by (rule parsed_le [OF parsed_wait [OF awaits_inv [OF h(2)]] le_trans [OF h(4) Suc.prems(2)]])
      ultimately show ?thesis using h(1) by simp
    next
      fix q2 assume "bulk_argument q1 = Inr (True, q2)" "awaits n q2" "length (unparsed q2) < length (unparsed q1)"
      then show ?thesis using h(1,4) Suc.IH [of q2] Suc.prems(2) by simp
    qed
  qed
qed

lemma multibulk_parsed:
  assumes "safe_env P" "can_reply P L K c" "q_inv q" "reqtype q = PROTO_REQ_MULTIBULK"
  shows "parsed P (S, c, q) (processMultibulkBuffer P (S, c, q))"
  using multibulk_header_ok [OF assms, of S] unfolding header_ok_def prod.case
proof (elim disjE exE conjE)
  fix q' assume h: "multibulk_header P (S, c, q) = Inr (None, S, c, q')" "q_inv q'" "0 < multibulklen q'" "length (unparsed q') \<le> length (unparsed q)"
  then have "awaits (nat (multibulklen q')) q'" by (simp add: awaits_def q_inv_def)
  then show ?thesis using h bulk_loop_safe [OF assms(1,2), of "nat (multibulklen q')" q' q S] by (simp add: processMultibulkBuffer_def)
next
  fix ok x assume "multibulk_header P (S, c, q) = Inr (Some ok, x)" "parsed P (S, c, q) (Inr (ok, x))"
  then show ?thesis by (cases x) (simp add: processMultibulkBuffer_def)
qed

lemma request_parsed:
  assumes "safe_env P" "can_reply P L K c" "q_inv q" "unparsed q \<noteq> []" "length (unparsed q) < 2 ^ 31"
  shows "parsed P (S, c, q) (take_request P (S, c, request_type_of q))"
proof -
  let ?q = "request_type_of q"
  have u: "unparsed ?q = unparsed q" by (simp add: request_type_of_def)
  have inv: "q_inv ?q" using assms(3) by (cases "reqtype q") (auto simp: q_inv_def request_type_of_def buf_ok_def split: if_splits)
  have "parsed P (S, c, ?q) (take_request P (S, c, ?q))"
  proof (cases "reqtype ?q = PROTO_REQ_MULTIBULK")
    case True
    then show ?thesis using multibulk_parsed [OF assms(1,2) inv] by (simp add: take_request_def)
  next
    case False
    then have "reqtype ?q = PROTO_REQ_INLINE" by (cases "reqtype q") (auto simp: request_type_of_def split: if_splits)
    then show ?thesis using inline_parsed [OF assms(1,2) inv] assms(5) u by (simp add: take_request_def)
  qed
  then show ?thesis unfolding parsed_def prod.case u by blast
qed

section \<open>The input buffer\<close>

text \<open>
  What the loop relies on: executing a command returns and adds at most \<open>m\<close> pieces of at most \<open>L\<close> bytes to the replies; of the query
  it changes at most what \<open>cmd_is_asking\<close> and \<open>blocked_in_module\<close> say; if it does not return \<open>C_OK\<close> the client is gone or about to be
  closed. The client may be blocked afterwards, in a module or not.
\<close>

definition exec_safe :: "'w in_env \<Rightarrow> nat \<Rightarrow> nat \<Rightarrow> bool" where
  "exec_safe P L m \<longleftrightarrow>
     (\<forall>S c q K. can_reply P L (m + K) c \<longrightarrow> CLIENT_BLOCKED \<notin> c_flags c \<longrightarrow> argv q \<noteq> [] \<longrightarrow>
        (\<exists>ok S' c' b d. processCommand P (S, c, q) = Some (Inr (ok, S', c', q\<lparr>cmd_is_asking := b, blocked_in_module := d\<rparr>)) \<and>
           can_reply P L K c' \<and> (ok \<or> CLIENT_CLOSE_AFTER_REPLY \<in> c_flags c' \<or> current_client S' = None))) \<and>
     (\<forall>S c q. can_reply P L m c \<longrightarrow> (\<exists>S' c'. processGopherRequest P (S, c, q) = Some (Inr (S', c', q))))"

lemma reset_inv:
  assumes "resetClient (c, q) = (c', q')" "buf_ok q"
  shows "q_inv q'" "unparsed q' = unparsed q" "can_reply P L K c' = can_reply P L K c" "CLIENT_CLOSE_AFTER_REPLY \<in> c_flags c' \<longleftrightarrow> CLIENT_CLOSE_AFTER_REPLY \<in> c_flags c"
proof -
  have q': "q' = q\<lparr>argv := [], cmd_is_asking := False, reqtype := NO_REQUEST, multibulklen := 0, bulklen := - 1\<rparr>"
    using assms(1) by (simp add: resetClient_def Let_def)
  then show "q_inv q'" "unparsed q' = unparsed q" using assms(2) by (simp_all add: q_inv_def buf_ok_def unparsed_def)
  have "c_reply c' = c_reply c" "c_reply_bytes c' = c_reply_bytes c" "c_sentlen c' = c_sentlen c" "c_bufpos c' = c_bufpos c" "c_buf c' = c_buf c"
    and f: "CLIENT_CLOSE_AFTER_REPLY \<in> c_flags c' \<longleftrightarrow> CLIENT_CLOSE_AFTER_REPLY \<in> c_flags c"
    using assms(1) by (auto simp: resetClient_def Let_def set_flag_def clear_flag_def split: if_splits)
  then show "can_reply P L K c' = can_reply P L K c" using out_wf_cong [of c' c] by (simp add: can_reply_def space_def)
  show "CLIENT_CLOSE_AFTER_REPLY \<in> c_flags c' \<longleftrightarrow> CLIENT_CLOSE_AFTER_REPLY \<in> c_flags c" by (rule f)
qed

text \<open>The state in which a turn of the loop starts, with room for the replies to \<open>K\<close> pieces, and the state in which the loop ends.\<close>

definition idle :: "client \<Rightarrow> query \<Rightarrow> bool" where
  "idle c q \<longleftrightarrow> CLIENT_CLOSE_AFTER_REPLY \<in> c_flags c \<or> CLIENT_BLOCKED \<in> c_flags c \<and> blocked_in_module q"

definition turn_ok :: "'w in_env \<Rightarrow> nat \<Rightarrow> nat \<Rightarrow> client \<Rightarrow> query \<Rightarrow> bool" where
  "turn_ok P L K c q \<longleftrightarrow> buf_ok q \<and> (q_inv q \<and> can_reply P L K c \<or> idle c q)"

definition ended :: "(bool \<times> 'w qs) outcome option \<Rightarrow> bool" where
  "ended r \<longleftrightarrow> (\<exists>at_end S c q. r = Some (Inr (at_end, S, c, q)) \<and> buf_ok q \<and>
     (\<not> at_end \<or> q_inv q \<or> idle c q \<or> CLIENT_PENDING_COMMAND \<in> c_flags c))"

lemma ended_turn: "turn_ok P L K c q \<Longrightarrow> ended (Some (Inr (True, S, c, q)))"
  unfolding ended_def by (auto simp: turn_ok_def)

text \<open>What a command and the reset of the client leave.\<close>

lemma command_safe:
  assumes "exec_safe P L m" "can_reply P L (m + K) c" "buf_ok q" "CLIENT_BLOCKED \<notin> c_flags c" "argv q \<noteq> []"
  shows "\<exists>alive S' c' q'. processCommandAndResetClient P (S, c, q) = Some (Inr (alive, S', c', q')) \<and> buf_ok q' \<and>
    unparsed q' = unparsed q \<and> (alive \<longrightarrow> turn_ok P L K c' q')"
proof -
  obtain ok S1 c1 b d where e: "processCommand P (S\<lparr>current_client := Some (c_id c)\<rparr>, c, q) =
      Some (Inr (ok, S1, c1, q\<lparr>cmd_is_asking := b, blocked_in_module := d\<rparr>))"
    "can_reply P L K c1" "ok \<or> CLIENT_CLOSE_AFTER_REPLY \<in> c_flags c1 \<or> current_client S1 = None"
    using assms(1,2,4,5) unfolding exec_safe_def by blast
  define q1 where "q1 = q\<lparr>cmd_is_asking := b, blocked_in_module := d\<rparr>"
  define q2 where "q2 = (if CLIENT_MASTER \<in> c_flags c1 \<and> CLIENT_MULTI \<notin> c_flags c1
    then q1\<lparr>reploff := read_reploff q1 - int (length (querybuf q1)) + int (qb_pos q1)\<rparr> else q1)"
  have b12: "buf_ok q1" "buf_ok q2" "unparsed q1 = unparsed q" "unparsed q2 = unparsed q"
    using assms(3) by (simp_all add: q1_def q2_def buf_ok_def unparsed_def)
  obtain c3 q3 where r: "resetClient (c1, q2) = (c3, q3)" by fastforce
  note ri = reset_inv [OF r b12(2)]
  let ?kept = "CLIENT_BLOCKED \<in> c_flags c1 \<and> blocked_in_module q2"
  define cq where "cq = (if \<not> ok then (c1, q1) else if ?kept then (c1, q2) else (c3, q3))"
  have p: "processCommandAndResetClient P (S, c, q) = Some (Inr (current_client S1 \<noteq> None, S1\<lparr>current_client := None\<rparr>, cq))"
    using e(1) r by (auto simp: processCommandAndResetClient_def Let_def cq_def q1_def [symmetric] q2_def [symmetric])
  have "turn_ok P L K (fst cq) (snd cq)" if "current_client S1 \<noteq> None"
    using that ri(1) ri(3) [of P L K] e(2,3) b12(1,2) by (auto simp: cq_def turn_ok_def idle_def q_inv_def)
  moreover have "buf_ok (snd cq)" "unparsed (snd cq) = unparsed q" using b12 ri(1,2) by (auto simp: cq_def q_inv_def)
  ultimately show ?thesis using p by (cases cq) auto
qed

lemma serve_request_safe:
  assumes "exec_safe P L m" "can_reply P L (m + K) c" "buf_ok q" "CLIENT_BLOCKED \<notin> c_flags c"
  shows "\<exists>r S' c' q'. serve_request P (S, c, q) = Some (Inr (r, S', c', q')) \<and> buf_ok q' \<and>
    (r = NEXT_TURN \<longrightarrow> turn_ok P L K c' q' \<and> unparsed q' = unparsed q) \<and>
    (r = LEAVE_LOOP \<longrightarrow> idle c' q' \<or> CLIENT_PENDING_COMMAND \<in> c_flags c')"
proof -
  have less: "can_reply P L K c" "can_reply P L m c" using can_reply_less [OF assms(2)] by simp_all
  consider "is_gopher P q" | "\<not> is_gopher P q" "argv q = []" | "\<not> is_gopher P q" "argv q \<noteq> []" "CLIENT_PENDING_READ \<in> c_flags c"
    | "\<not> is_gopher P q" "argv q \<noteq> []" "CLIENT_PENDING_READ \<notin> c_flags c" by blast
  then show ?thesis
  proof cases
    case 1
    obtain S1 c1 where g: "processGopherRequest P (S, c, q) = Some (Inr (S1, c1, q))" using assms(1) less(2) unfolding exec_safe_def by blast
    obtain c2 q2 where r: "resetClient (c1, q) = (c2, q2)" by fastforce
    then show ?thesis using 1 g reset_inv(1) [OF r assms(3)] by (simp add: serve_request_def idle_def set_flag_def q_inv_def)
  next
    case 2
    obtain c2 q2 where r: "resetClient (c, q) = (c2, q2)" by fastforce
    note ri = reset_inv [OF r assms(3)]
    have "turn_ok P L K c2 q2" "buf_ok q2" using ri(1) ri(3) [of P L K] less(1) by (simp_all add: turn_ok_def q_inv_def)
    then show ?thesis using 2 r ri(2) by (simp add: serve_request_def)
  next
    case 3
    then show ?thesis using assms(3) by (simp add: serve_request_def set_flag_def)
  next
    case 4
    obtain alive S' c' q' where "processCommandAndResetClient P (S, c, q) = Some (Inr (alive, S', c', q'))" "buf_ok q'"
      "unparsed q' = unparsed q" "alive \<longrightarrow> turn_ok P L K c' q'"
      using command_safe [OF assms 4(2), of S] by blast
    then show ?thesis using 4 by (cases alive) (auto simp: serve_request_def)
  qed
qed

lemma input_stops_same: "\<exists>stop S'. input_stops P (S, c, q) = (stop, S', c, q) \<and> (CLIENT_CLOSE_AFTER_REPLY \<in> c_flags c \<or> CLIENT_BLOCKED \<in> c_flags c \<longrightarrow> stop)"
  by (cases "CLIENT_SLAVE \<in> c_flags c"; cases "clientsArePaused P S") (auto simp: input_stops_def)

lemma input_loop_safe:
  assumes "safe_env P" "exec_safe P L m"
  shows "turn_ok P L (m * length (unparsed q)) c q \<Longrightarrow> length (unparsed q) < 2 ^ 31 \<Longrightarrow> ended (input_loop P (S, c, q))"
proof (induction "length (unparsed q)" arbitrary: S c q rule: less_induct)
  case less
  obtain stop S1 where st: "input_stops P (S, c, q) = (stop, S1, c, q)" "CLIENT_CLOSE_AFTER_REPLY \<in> c_flags c \<or> CLIENT_BLOCKED \<in> c_flags c \<longrightarrow> stop"
    using input_stops_same by blast
  show ?case
  proof (cases "\<not> qb_pos q < length (querybuf q) \<or> stop")
    case True
    then show ?thesis using ended_turn [OF less.prems(1), of S] ended_turn [OF less.prems(1), of S1] st(1) by (subst input_loop.simps) auto
  next
    case False
    then have u: "unparsed q \<noteq> []" and inv: "q_inv q" "can_reply P L (m * length (unparsed q)) c" "CLIENT_BLOCKED \<notin> c_flags c"
      using less.prems(1) st(2) by (auto simp: turn_ok_def idle_def unparsed_def)
    obtain ok S2 c2 q2 where t: "take_request P (S1, c, request_type_of q) = Inr (ok, S2, c2, q2)" "buf_ok q2"
      "if ok then c2 = c \<and> length (argv q2) \<le> argv_cap q2 \<and> length (unparsed q2) < length (unparsed q)
       else c2 = c \<and> q_inv q2 \<and> length (unparsed q2) \<le> length (unparsed q) \<or> CLIENT_CLOSE_AFTER_REPLY \<in> c_flags c2"
      using request_parsed [OF assms(1) inv(2,1) u less.prems(2), of S1] unfolding parsed_def prod.case by blast
    have loop: "input_loop P (S, c, q) = (if \<not> ok then Some (Inr (True, S2, c2, q2)) else bindO (serve_request P (S2, c2, q2)) (\<lambda>(r, x).
        case r of NEXT_TURN \<Rightarrow> input_loop P x | LEAVE_LOOP \<Rightarrow> Some (Inr (True, x)) | RETURN_NOW \<Rightarrow> Some (Inr (False, x))))"
      using False st(1) t(1) by (subst input_loop.simps) simp
    show ?thesis
    proof (cases ok)
      case F: False
      then show ?thesis using loop t(2,3) by (auto simp: ended_def idle_def)
    next
      case True
      then have c2: "c2 = c" "length (unparsed q2) < length (unparsed q)" using t(3) by simp_all
      have "m * Suc (length (unparsed q2)) \<le> m * length (unparsed q)" using c2(2) by (intro mult_le_mono2) simp
      then have "can_reply P L (m + m * length (unparsed q2)) c" using can_reply_less [OF inv(2)] by simp
      from serve_request_safe [OF assms(2) this t(2) inv(3), of S2]
      obtain r S' c' q' where r: "serve_request P (S2, c, q2) = Some (Inr (r, S', c', q'))" "buf_ok q'"
        "r = NEXT_TURN \<longrightarrow> turn_ok P L (m * length (unparsed q2)) c' q' \<and> unparsed q' = unparsed q2"
        "r = LEAVE_LOOP \<longrightarrow> idle c' q' \<or> CLIENT_PENDING_COMMAND \<in> c_flags c'" by blast
      show ?thesis
      proof (cases "r = NEXT_TURN")
        case T: True
        then show ?thesis using True loop c2 r less.hyps [of q' c' S'] less.prems(2) by simp
      next
        case F: False
        then show ?thesis using True loop c2 r by (cases r) (auto simp: ended_def)
      qed
    qed
  qed
qed

lemma q_inv_trim: "q_inv q \<Longrightarrow> q_inv (trim q)"
proof -
  assume q: "q_inv q"
  have "unparsed (trim q) = unparsed q" by (simp add: trim_def unparsed_def)
  moreover have "buf_ok (trim q)" using q by (auto simp: q_inv_def buf_ok_def trim_def unparsed_def)
  moreover have "argv (trim q) = argv q" "multibulklen (trim q) = multibulklen q" "bulklen (trim q) = bulklen q" "reqtype (trim q) = reqtype q"
    "argv_cap (trim q) = argv_cap q" by (simp_all add: trim_def)
  ultimately show ?thesis using q unfolding q_inv_def by simp
qed

section \<open>The property\<close>

text \<open>C7: whatever is in the query buffer, \<open>processInputBuffer\<close> returns: no read leaves the buffer, no argument is stored outside the array,
  no counter of arguments overflows, no assertion fails, and the loop ends. What is required: less than \<open>2 ^ 31\<close> bytes are unparsed; a command
  adds at most \<open>m\<close> pieces of at most \<open>L\<close> bytes to the replies, and the size of the replies can grow by \<open>m\<close> such pieces for each unparsed byte and
  an error. Afterwards the parser can go on when more bytes arrive, or the client is about to be closed, or it is blocked in a
  module and keeps its arguments, or it has a command for the main thread, or it is gone.\<close>

theorem processInputBuffer_safe:
  assumes "safe_env P" "exec_safe P L m" "q_inv q" "length (unparsed q) < 2 ^ 31" "can_reply P L (m * length (unparsed q)) c"
  shows "\<exists>at_end S' c' q'. input_loop P (S, c, q) = Some (Inr (at_end, S', c', q')) \<and>
    processInputBuffer P (S, c, q) = Some (Inr (S', c', if at_end then trim q' else q')) \<and> qb_pos q' \<le> length (querybuf q') \<and>
    (at_end \<longrightarrow> q_inv (trim q') \<or> CLIENT_CLOSE_AFTER_REPLY \<in> c_flags c' \<or> CLIENT_BLOCKED \<in> c_flags c' \<and> blocked_in_module q' \<or>
       CLIENT_PENDING_COMMAND \<in> c_flags c')"
proof -
  have "turn_ok P L (m * length (unparsed q)) c q" using assms(3,5) by (simp add: turn_ok_def q_inv_def)
  then obtain at_end S' c' q' where l: "input_loop P (S, c, q) = Some (Inr (at_end, S', c', q'))" "buf_ok q'"
    "\<not> at_end \<or> q_inv q' \<or> idle c' q' \<or> CLIENT_PENDING_COMMAND \<in> c_flags c'"
    using input_loop_safe [OF assms(1,2) _ assms(4)] unfolding ended_def by blast
  then show ?thesis using q_inv_trim [of q']
    by (intro exI [of _ at_end] exI [of _ S'] exI [of _ c'] exI [of _ q']) (auto simp: processInputBuffer_def idle_def buf_ok_def)
qed

text \<open>An instance: every command is answered with \<open>+OK\<close>, except \<open>B\<close>, which blocks the client in a module.\<close>

definition ok_input :: "(byte list \<times> byte list list list) in_env" where
  "ok_input = ex_input\<lparr>processCommand := \<lambda>(S, c, q).
     if argv q ! 0 = [66] then Some (Inr (True, S, set_flag CLIENT_BLOCKED c, q\<lparr>blocked_in_module := True\<rparr>))
     else Some (bindE (addReplyProto ex_env (S, c) [43, 79, 75, 13, 10]) (\<lambda>(S, c). Inr (True, S, c, q)))\<rparr>"

lemma ok_input_net: "in_net ok_input = ex_env"
  by (simp add: ok_input_def ex_input_def)

lemma ok_input_command:
  assumes "can_reply ok_input 128 (1 + K) c"
  shows "\<exists>ok S' c' b d. processCommand ok_input (S, c, q) = Some (Inr (ok, S', c', q\<lparr>cmd_is_asking := b, blocked_in_module := d\<rparr>)) \<and>
    can_reply ok_input 128 K c' \<and> (ok \<or> CLIENT_CLOSE_AFTER_REPLY \<in> c_flags c' \<or> current_client S' = None)"
proof (cases "argv q ! 0 = [66]")
  case True
  have "can_reply ok_input 128 K (set_flag CLIENT_BLOCKED c)"
    using can_reply_less [OF assms, of K] out_wf_cong [of "set_flag CLIENT_BLOCKED c" c] by (simp add: can_reply_def space_def set_flag_def)
  then show ?thesis using True
    by (intro exI [of _ True] exI [of _ S] exI [of _ "set_flag CLIENT_BLOCKED c"] exI [of _ "cmd_is_asking q"] exI [of _ True])
      (simp add: ok_input_def)
next
  case False
  have "env_ok ex_env" using ex_env_ok(1) by (simp add: resp_env_def)
  then have em: "emits ex_env 128 1 (\<lambda>x :: (byte list \<times> byte list list list) sc. addReplyProto ex_env x [43, 79, 75, 13, 10]) (\<lambda>v. [43, 79, 75, 13, 10])"
    by (rule emits_proto) simp
  have c: "out_wf c" "space ex_env 128 (1 + (3 + K)) c" using assms by (simp_all add: can_reply_def ok_input_net)
  obtain S' c' where "addReplyProto ex_env (S, c) [43, 79, 75, 13, 10] = Inr (S', c')" "out_wf c'" "space ex_env 128 (3 + K) c'"
    using emitsD [OF em c, of S] by blast
  then show ?thesis using False
    by (intro exI [of _ True] exI [of _ S'] exI [of _ c'] exI [of _ "cmd_is_asking q"] exI [of _ "blocked_in_module q"])
      (simp add: ok_input_def can_reply_def ex_input_def)
qed

lemma ok_input_safe: "safe_env ok_input" "exec_safe ok_input 128 1"
proof -
  show "safe_env ok_input" using ex_env_ok(1) full_never_fails by (simp add: safe_env_def ok_input_def ex_input_def)
  have "\<exists>S' c'. processGopherRequest ok_input (S, c, q) = Some (Inr (S', c', q))" for S c q by (simp add: ok_input_def ex_input_def)
  then show "exec_safe ok_input 128 1" unfolding exec_safe_def using ok_input_command by blast
qed

theorem processInputBuffer_safe_witness:
  "\<exists>S' c' q'. processInputBuffer ok_input (ex_server ([], []), ex_client,
      ex_query\<lparr>querybuf := [80, 13, 10, 42, 49, 13, 10, 36, 49, 13, 10, 80, 13, 10, 42, 45, 0, 13, 10, 34, 255]\<rparr>) = Some (Inr (S', c', q'))"
proof -
  let ?q = "ex_query\<lparr>querybuf := [80, 13, 10, 42, 49, 13, 10, 36, 49, 13, 10, 80, 13, 10, 42, 45, 0, 13, 10, 34, 255]\<rparr>"
  have q: "q_inv ?q" "length (unparsed ?q) = 21" by (simp_all add: q_inv_def buf_ok_def ex_query_def unparsed_def)
  have "max_block ex_env 128 \<le> PROTO_REPLY_CHUNK_BYTES"
    unfolding max_block_def by (subst Max_le_iff) (auto simp: ex_env_def PROTO_REPLY_CHUNK_BYTES_def)
  then have "can_reply ok_input 128 (1 * length (unparsed ?q)) ex_client"
    unfolding q(2)
    by (simp add: can_reply_def ok_input_net space_def out_wf_def ex_client_def total_size_def SIZE_MAX_def PROTO_REPLY_CHUNK_BYTES_def)
  from processInputBuffer_safe [OF ok_input_safe q(1) _ this, of "ex_server ([], [])"] q(2) show ?thesis by auto
qed

end
