(* ===== verification/Net_Inline.thy ===== *)
theory Net_Inline
  imports Net_Safety
begin

text \<open>
  Inline commands: a line of quoted arguments, as \<open>sdscatrepr\<close> writes them, is taken apart into these arguments.
\<close>

lemma hex_char_plain: "n < 16 \<Longrightarrow> hex_char n \<noteq> 10 \<and> hex_char n \<noteq> 13"
  using hex_char_digit(1) [of n] by (auto simp: is_hex_digit_def)

lemma repr_byte_plain: "b \<in> set (repr_byte c) \<Longrightarrow> b \<noteq> 0 \<and> b \<noteq> 10 \<and> b \<noteq> 13"
  using repr_byte_nonzero [of c] hex_char_plain [OF hex_text_digits(1) [of c]] hex_char_plain [OF hex_text_digits(2) [of c]]
  by (auto simp: repr_byte_def hex_text_def isprint_def split: if_splits)

lemma quotes_plain: "b \<in> set (join_spec [32] (map quote ps)) \<Longrightarrow> b \<noteq> 0 \<and> b \<noteq> 10 \<and> b \<noteq> 13"
proof (induction ps)
  case (Cons p ps)
  have "b \<in> set (quote p) \<Longrightarrow> b \<noteq> 0 \<and> b \<noteq> 10 \<and> b \<noteq> 13" using repr_byte_plain by (auto simp: quote_def)
  then show ?case using Cons by (cases ps) auto
qed simp

lemma store_args_content:
  "length (argv q) + length ts \<le> argv_cap q \<Longrightarrow> \<forall>t \<in> set ts. sds_wf t \<Longrightarrow>
   store_args q (map Some ts) = Inr (q\<lparr>argv := argv q @ filter (\<lambda>p. p \<noteq> []) (map content ts)\<rparr>)"
proof (induction ts arbitrary: q)
  case (Cons t ts)
  have "sdslen t = length (content t)" using Cons.prems by (simp add: length_content)
  then show ?case using Cons by (auto simp: store_arg_def)
qed simp

text \<open>C9: a line of at most \<open>INT_MAX\<close> quoted arguments followed by CRLF is taken apart into its arguments, whatever bytes they hold, and the bytes behind the
  line stay; but arguments that are empty are left out.\<close>

theorem inline_roundtrip:
  assumes "never_fails (in_malloc P)" "\<forall>p \<in> set ps. length p < 2 ^ 62" "length ps \<le> INT_MAX" "unparsed q = join_spec [32] (map quote ps) @ [13, 10] @ R"
  shows "\<exists>q'. processInlineBuffer P (S, c, q) = Inr (True, S, c, q') \<and> argv q' = filter (\<lambda>p. p \<noteq> []) ps \<and> unparsed q' = R"
proof -
  define s where "s = join_spec [32] (map quote ps)"
  have plain: "10 \<notin> set s" "0 \<notin> set s" using quotes_plain unfolding s_def by blast+
  have u: "unparsed q = (s @ [13]) @ 10 # R" using assms(4) by (simp add: s_def)
  have at: "strchr_at 10 (unparsed q) = Some (length s + 1)" unfolding u using strchr_at_some [of 10 "s @ [13]" R] plain by simp
  have le: "line_end (unparsed q) (length s + 1) = (length s, 2)" unfolding u by (simp add: line_end_def nth_append)
  obtain ts where ts: "args_loop (in_malloc P) [] (s @ [0]) = Inr (Some (map Some ts))" "\<forall>t \<in> set ts. sds_wf t" "map content ts = ps"
    using args_loop_quotes [OF assms(1,2), of "[]" "[]"] assms(3) unfolding s_def by auto
  define q0 where "q0 = (if length s = 0 \<and> CLIENT_SLAVE \<in> c_flags c then q\<lparr>repl_ack_time := unixtime S\<rparr> else q)"
  define q1 where "q1 = q0\<lparr>qb_pos := qb_pos q0 + length s + 2\<rparr>"
  define q2 where "q2 = (if length (map Some ts) \<noteq> 0 then q1\<lparr>argv_cap := length (map Some ts)\<rparr> else q1)\<lparr>argv := []\<rparr>"
  have "take (length s) (unparsed q) = s" unfolding u by simp
  then have e: "processInlineBuffer P (S, c, q) = bindE (store_args q2 (map Some ts)) (\<lambda>q. Inr (True, S, c, q))"
    unfolding q2_def q1_def q0_def using at le ts(1) by (simp add: processInlineBuffer_def sdssplitargs_def Let_def)
  have q2: "argv q2 = []" "length ts \<le> argv_cap q2" by (simp_all add: q2_def)
  have "unparsed q2 = drop (length s + 2) (unparsed q)" by (simp add: q2_def q1_def q0_def unparsed_def add.commute add.left_commute)
  then have "unparsed q2 = R" unfolding u by simp
  then show ?thesis using e store_args_content [of q2 ts] q2 ts(2,3) by simp
qed

theorem inline_roundtrip_witness:
  "\<exists>q'. processInlineBuffer ex_input (ex_server ([], []), ex_client, ex_query\<lparr>querybuf := join_spec [32] (map quote [[83], [], [0, 10]]) @ [13, 10, 80]\<rparr>) =
       Inr (True, ex_server ([], []), ex_client, q') \<and> argv q' = [[83], [0, 10]] \<and> unparsed q' = [80]"
  using inline_roundtrip [of ex_input "[[83], [], [0, 10]]" "ex_query\<lparr>querybuf := join_spec [32] (map quote [[83], [], [0, 10]]) @ [13, 10, 80]\<rparr>" "[80]"
      "ex_server ([], [])" ex_client] full_never_fails
  by (simp add: unparsed_def ex_query_def INT_MAX_def) (simp add: ex_input_def)

end
