(* ===== verification/Spec2Isabelle.thy ===== *)
theory Spec2Isabelle
  imports Prelude Endianconv Adlist Zmalloc Sds Sds_Text Sds_Args Ae Ae_Select Ae_Epoll Event_Loop Rax_Seek Net_Pipeline Net_Inline
begin

text \<open>
  \<^bold>\<open>Verification of the Redis event loop program and the libraries it is built from\<close>

  \<^bold>\<open>The program.\<close> The directory \<open>src/src/redis-ae\<close> holds the event loop of Redis taken out of the server, with the libraries it rests on:
  the allocator wrapper \<open>zmalloc.c\<close>, byte order conversion \<open>endianconv.c\<close>, the doubly linked list \<open>adlist.c\<close>, the dynamic strings
  \<open>sds.c\<close>, the event loop \<open>ae.c\<close> with its polling backends \<open>ae_select.c\<close> and \<open>ae_epoll.c\<close>, the radix tree \<open>rax.c\<close>, and the
  connection layer \<open>networking.c\<close>. The event loop watches the sockets and calls the handlers of the connection layer: one reads what a
  client sends into its query buffer and takes commands out of it; a command adds replies to the output buffers of the client; before
  the loop sleeps the buffers are written to the sockets, and what a socket does not take is left to a handler for writing. Query buffers
  and arguments are dynamic strings, the reply list is a doubly linked list, and everything is allocated through \<open>zmalloc\<close>.

  \<^bold>\<open>Conventions\<close> (\<open>Prelude\<close>). An operation of the C code is a function of the same name; parts of a long function that have a definition of
  their own carry a name that says what they do. The state an operation changes is passed and returned. What C leaves undefined or what
  aborts the program is a \<open>fault\<close>: reading or writing outside a block, using NULL or a freed node, signed overflow, a failed assertion,
  a division by zero; the type \<open>'a outcome\<close> is a fault or a result, and \<open>bindE\<close> runs the next operation if there was no fault. So a
  theorem that gives a result \<open>Inr\<close> also says that no access was out of bounds. Machine integers are words or numbers with the wrap
  around written out (\<open>to_size_t\<close>, \<open>size_diff\<close>, \<open>as_ssize\<close>). A loop that may run forever is a \<open>partial_function\<close> whose value is \<open>None\<close>
  when it does not return (\<open>bindO\<close> sequences such loops), and the theorems show that it returns. A number of steps is only used where a
  client of the code decides how often to call: \<open>reads\<close> of \<open>Net_Execute\<close> and \<open>enumerate_next\<close> of \<open>Rax_Seek\<close>, where any number above the
  number of elements is enough. Loops that count down a field (\<open>bulk_loop\<close>) recurse on the field itself.

  \<^bold>\<open>Byte order, lists, memory.\<close>
  \<^item> \<open>Endianconv\<close> has the \<open>memrev\<close> and \<open>intrev\<close> functions: they put the bytes into reverse order, and twice is the identity.
  \<^item> \<open>Adlist\<close> models nodes in a store of addresses. \<open>list_at\<close> is the shape invariant (links in both directions, length, ends); every
    operation is shown to keep it and to act as the operation on the list of values. The locale \<open>fifo\<close> is the contract of a queue, met by
    \<open>listAddNodeTail\<close> and \<open>listDelNode\<close> of the head.
  \<^item> \<open>Zmalloc\<close> shows that \<open>used_memory\<close> is the sum of the sizes of the live blocks in every reachable state, and where sizes wrap. The one
    exception is a failed \<open>zrealloc\<close> in a build with \<open>HAVE_MALLOC_SIZE\<close> when the handler returns: the block is live and no longer counted.

  \<^bold>\<open>Dynamic strings\<close> (\<open>Sds\<close>, \<open>Sds_Text\<close>, \<open>Sds_Args\<close>). A string is a header of one of five types and a buffer; \<open>sds_wf\<close> is its
  invariant and \<open>content\<close> its bytes. Growth, appending, trimming, ranges, comparison, splitting, joining, formatting, quoting and the parser
  of quoted arguments are shown to keep the invariant and to act on the content as specified, with allocation failing at any point; a
  quoted argument is parsed back into itself. \<open>sdssplitargs\<close> counts arguments in an \<open>int\<close>, so its theorems are about at most \<open>INT_MAX\<close> of them. The locale \<open>appender\<close> covers both functions that join strings.

  \<^bold>\<open>The event loop\<close> (\<open>Ae\<close>, \<open>Ae_Select\<close>, \<open>Ae_Epoll\<close>, \<open>Event_Loop\<close>). The loop is a record with the arrays of registered and fired events
  and the list of time events; callbacks may change the loop (\<open>aeProcs\<close>). The locale \<open>polling_api\<close> is what \<open>ae.c\<close> relies on in a backend,
  \<open>shrinking_api\<close> a backend that also stays in step when the set is made smaller; inside them registration, resizing, time events and one
  round of the loop are verified. \<open>epoll\<close> is an interpretation of the first, since a failing \<open>epoll_ctl\<close> may leave a descriptor watched,
  \<open>select\<close> of the second. The system calls are parameters and their documented behaviour is a hypothesis (\<open>epoll_laws\<close>: the kernel keeps an
  interest list, calls may fail and change nothing, and waiting reports entries with the user data stored for them). \<open>aeMain\<close> is shown to be
  the iteration of rounds up to the first that stops the loop. Times are sums in \<open>long\<close>; the theorems on timeouts assume times within
  \<open>2 ^ 52\<close> seconds of the epoch (\<open>times_fit\<close>, \<open>clock_fits\<close>), where these sums do not overflow.

  \<^bold>\<open>The radix tree.\<close>
  \<^item> \<open>Rax_Node\<close> has the byte layout of a node: padding, characters, child pointers, value, and the memory moves that change it.
  \<^item> \<open>Rax\<close> has the algorithms on trees of nodes; \<open>Rax_Map\<close>, \<open>Rax_Insert\<close> and \<open>Rax_Remove\<close> show that they act on the map \<open>rlookup\<close>, keep
    the tree well formed and the counts right; \<open>Rax_Dict\<close> puts this together as the locale \<open>dictionary\<close> and shows what is left when memory
    runs out, for keys whose path fits the static part of the stack (32 characters).
  \<^item> \<open>Rax_Iter\<close> has the iterators; \<open>Rax_Order\<close>, \<open>Rax_Traverse\<close> and \<open>Rax_Seek\<close> show that seeking and stepping forward enumerates the
    elements from a key on in lexicographic order.

  \<^bold>\<open>The connection layer.\<close>
  \<^item> \<open>Net_Reply\<close> has the output side: the static buffer and the reply list, all functions that add replies, deferred lengths, limits,
    \<open>writeToClient\<close> and the pass over the clients that wait. \<open>Net_Output\<close> shows that the buffers are a queue of bytes and that each reply
    appends its encoding (\<open>emits\<close>), and keeps the scheduling invariant \<open>sched\<close>: a client with bytes to send is on the list of pending
    writes, or has a handler, or is to be closed, or is protected. \<open>Net_Write\<close> shows this of writing, for every order of adding replies,
    handlers and passes, with short writes and errors. \<open>Net_Deferred\<close> shows that lengths filled in later end up in front of the elements.
  \<^item> \<open>Net_Query\<close> has the input side: reading, the query buffer, inline commands, commands of the protocol, the input loop. \<open>Net_Parse\<close>
    describes what the parser expects next (\<open>expects\<close>) and shows that every step keeps it, wherever the socket cuts the bytes. The locale
    \<open>executor\<close> of \<open>Net_Execute\<close> is what the loop relies on in the execution of a command; it is interpreted by commands that are logged,
    and in \<open>Net_Pipeline\<close> by commands that reply.
    \<open>Net_Safety\<close> shows for arbitrary bytes (less than \<open>2 ^ 31\<close> of them unparsed) that the parser stays in its buffers and returns, whatever
    commands do that keep to a budget of reply bytes (\<open>exec_safe\<close>), \<open>Net_Inline\<close> that inline commands are
    taken apart into their arguments.
  \<^item> \<open>Net_Pipeline\<close> puts both sides together: for every order of the events of a connection, what the client receives and what is queued for
    it are the replies to its commands, in order.

  \<^bold>\<open>Parameters.\<close> The C library's allocator, \<open>vsnprintf\<close>, the system calls and clocks, the callbacks of the event loop, the execution of a
  command, \<open>ll2string\<close>, \<open>string2ll\<close>, the shared reply objects and the configuration of the server are arguments of the definitions; the
  hypotheses on them state their documented behaviour, and each theorem that has such a hypothesis is applied to a concrete instance.

  \<^bold>\<open>Not modelled.\<close> The event loop backends of other systems (\<open>ae_kqueue.c\<close>, \<open>ae_evport.c\<close>), which have the same interface and are not
  chosen on Linux. The socket wrappers \<open>anet.c\<close> and the main program \<open>server.c\<close>, which only call the system. Of \<open>networking.c\<close>, creating and
  freeing clients, the \<open>CLIENT\<close> command and the protocol threads: they move clients between tables of a server whose other parts are not
  in the sources, and the threads share memory. Of \<open>zmalloc.c\<close>, the functions that report numbers of the operating system; of \<open>rax.c\<close>, the
  debugging output; messages to the log everywhere. \<open>config.c\<close>, which fills global variables of a server that is not in the sources;
  \<open>redis-cli.c\<close>, an interactive terminal program; the vendored \<open>hiredis\<close>, \<open>linenoise\<close> and \<open>jemalloc\<close>; the second copy of the strings under
  \<open>src/src/redis-ds\<close>.
\<close>

end
